(* ===== verification/Prelude.thy ===== *)
theory Prelude
  imports Main "HOL-Library.Word"
begin

text \<open>
  The prelude of the development: the machine integer types of the code, the
  result type of \<^verbatim>\<open>include/warpsim/result.hpp\<close>, the collections of facts the
  component theories extend, and the generic lemmas on lists, searches and the bits of
  machine words that several components share.
\<close>

unbundle bit_operations_syntax

section \<open>Machine integers\<close>

type_synonym u8 = "8 word"
type_synonym u16 = "16 word"
type_synonym u32 = "32 word"
type_synonym u64 = "64 word"

section \<open>Results\<close>

text \<open>
  \<^verbatim>\<open>Result<T, E>\<close> is a variant that holds a value or an error: a sum, with \<open>Inl\<close>
  for the error. \<^verbatim>\<open>fail\<close> wraps an error and \<^verbatim>\<open>has_value\<close> tests which side is held;
  \<^verbatim>\<open>Result<void, E>\<close> is the instance at \<open>unit\<close>.
\<close>

type_synonym ('a, 'e) result = "'e + 'a"

definition fail :: "'e \<Rightarrow> ('a, 'e) result" where
  "fail e = Inl e"

definition has_value :: "('a, 'e) result \<Rightarrow> bool" where
  "has_value r = (case r of Inl _ \<Rightarrow> False | Inr _ \<Rightarrow> True)"

lemma has_value_simps [simp]: "has_value (Inr v)" "\<not> has_value (Inl e)"
  by (simp_all add: has_value_def)

lemma fail_eq_simps [simp]:
  "fail e = Inl e' \<longleftrightarrow> e = e'" "fail e \<noteq> Inr v" "Inr v \<noteq> fail e" "\<not> has_value (fail e)"
  by (simp_all add: fail_def)

text \<open>
  The two ways a function returns early: a failed sub-result is passed on, and a check fails.
  A successful outcome means that every check passed.
\<close>

lemma case_result_eq_Inr [simp]:
  "(case r of Inl e \<Rightarrow> fail (g e) | Inr v \<Rightarrow> f v) = Inr w \<longleftrightarrow> (\<exists>v. r = Inr v \<and> f v = Inr w)"
  by (cases r) simp_all

lemma if_fail_eq_Inr [simp]:
  "(if b then fail e else r) = Inr v \<longleftrightarrow> \<not> b \<and> r = Inr v"
  "(if b then r else fail e) = Inr v \<longleftrightarrow> b \<and> r = Inr v"
  by simp_all

lemma result_unit_cases:
  fixes r :: "(unit, 'e) result"
  obtains "r = Inr ()" | e where "r = Inl e"
  by (cases r) auto

section \<open>Fact collections\<close>

named_theorems field_bits
  \<open>facts that compute the bits of packed instruction fields\<close>

named_theorems frame_simps
  \<open>which parts of a state an operation leaves alone\<close>

named_theorems inv_intros
  \<open>invariant preservation rules, one per operation\<close>

section \<open>Searching a table by key\<close>

lemma find_distinct_key:
  assumes "distinct (map f xs)" and "x \<in> set xs"
  shows "find (\<lambda>y. f y = f x) xs = Some x"
  using assms
proof (induction xs)
  case Nil
  then show ?case by simp
next
  case (Cons y ys)
  then show ?case by (force simp: image_iff)
qed

lemma find_SomeD: "find P xs = Some x \<Longrightarrow> x \<in> set xs \<and> P x"
  by (induction xs) (auto split: if_splits)

section \<open>Bits of words\<close>

text \<open>A word below a power of two has no bit at or above the exponent.\<close>

lemma bit_less_exp:
  fixes w :: "'a::len word"
  assumes "unat w < 2 ^ k" and "bit w n"
  shows "n < k"
proof (rule ccontr)
  assume "\<not> n < k"
  then have "2 ^ k \<le> (2 ^ n :: nat)"
    by (intro power_increasing) simp_all
  moreover have "bit (unat w) n"
    using assms(2) by (simp add: bit_unsigned_iff)
  then have "2 ^ n \<le> unat w"
    by (metis bit_iff_odd div_less even_zero not_le)
  ultimately show False
    using assms(1) by linarith
qed

lemma not_bit_less_exp:
  fixes w :: "'a::len word"
  shows "unat w < 2 ^ k \<Longrightarrow> k \<le> n \<Longrightarrow> \<not> bit w n"
  using bit_less_exp by (metis linorder_not_le)

lemma bit_of_bool_word [field_bits]: "bit (of_bool b :: 'a::len word) n \<longleftrightarrow> b \<and> n = 0"
  by (cases b) (simp_all add: bit_1_iff)

lemma masked_unat_less: "unat (w AND mask k :: 'a::len word) < 2 ^ k"
  by (simp add: unsigned_take_bit_eq flip: take_bit_eq_mask)

lemma ucast_masked_less:
  "unat (ucast (w AND mask k :: 'a::len word) :: 'b::len word) < 2 ^ k"
proof -
  have "unat (ucast (w AND mask k) :: 'b word) \<le> unat (w AND mask k)"
    by (simp add: unsigned_ucast_eq take_bit_nat_less_eq_self)
  then show ?thesis using masked_unat_less [of w k] by linarith
qed

section \<open>Loops over an index range\<close>

text \<open>
  The counted loops of the code (\<^verbatim>\<open>for (lane = 0; lane < 32; ++lane)\<close>) are folds over
  \<open>[0..<n]\<close>. An invariant indexed by the loop counter is established by one step.
\<close>

lemma fold_upt_invariant:
  assumes "P 0 s" and "\<And>k t. k < n \<Longrightarrow> P k t \<Longrightarrow> P (Suc k) (f k t)"
  shows "P n (fold f [0..<n] s)"
  using assms by (induction n) auto

lemma fold_invariant_set:
  assumes "P s" and "\<And>x t. x \<in> set xs \<Longrightarrow> P t \<Longrightarrow> P (f x t)"
  shows "P (fold f xs s)"
  using assms by (induction xs arbitrary: s) auto

end
