(* ===== verification/Lexer.thy ===== *)
theory Lexer
  imports Prelude
begin

text \<open>
  \<^verbatim>\<open>include/warpsim/asm/error.hpp\<close>, \<^verbatim>\<open>src/asm/lexer.hpp\<close> and
  \<^verbatim>\<open>lexer.cpp\<close>: the tokens of the assembly language and the loop that splits a source
  into them. A character is a byte; \<^verbatim>\<open>std::isalpha\<close> and its kin are those of the C locale,
  where only ASCII letters and digits count.

  The position in the source is represented by what is left of it, so \<^verbatim>\<open>source_[pos_ + k]\<close>
  is the character \<open>k\<close> of \<open>rest\<close>. Line and column keep their 32 bits.
\<close>

section \<open>Tokens and errors\<close>

datatype TokenKind =
    Identifier | Directive | Guard_kind | Special | Integer | Float
  | Comma | LBracket | RBracket | Plus | Minus | Colon | Newline | End

record Token =
  kind :: TokenKind
  token_text :: string
  token_negate :: bool
  token_line :: u32
  token_column :: u32

record AssemblyError =
  error_line :: u32
  error_column :: u32
  error_message :: string

text \<open>The messages put offending text between single quotes.\<close>

definition quoted :: "string \<Rightarrow> string" where
  "quoted text = [CHR 0x27] @ text @ [CHR 0x27]"

section \<open>Characters\<close>

abbreviation code :: "char \<Rightarrow> nat" where
  "code c \<equiv> of_char c"

definition is_digit :: "char \<Rightarrow> bool" where
  "is_digit c \<longleftrightarrow> 48 \<le> code c \<and> code c \<le> 57"

definition is_alpha :: "char \<Rightarrow> bool" where
  "is_alpha c \<longleftrightarrow> 65 \<le> code c \<and> code c \<le> 90 \<or> 97 \<le> code c \<and> code c \<le> 122"

definition is_hex_digit :: "char \<Rightarrow> bool" where
  "is_hex_digit c \<longleftrightarrow>
     is_digit c \<or> 65 \<le> code c \<and> code c \<le> 70 \<or> 97 \<le> code c \<and> code c \<le> 102"

definition is_ident_start :: "char \<Rightarrow> bool" where
  "is_ident_start c \<longleftrightarrow> is_alpha c \<or> c = CHR ''_''"

definition is_ident_char :: "char \<Rightarrow> bool" where
  "is_ident_char c \<longleftrightarrow> is_alpha c \<or> is_digit c \<or> c = CHR ''_'' \<or> c = CHR ''.''"

section \<open>The lexer\<close>

record Lexer =
  rest :: string
  line :: u32
  column :: u32

definition new_lexer :: "string \<Rightarrow> Lexer" where
  "new_lexer source = \<lparr> rest = source, line = 1, column = 1 \<rparr>"

definition peek :: "Lexer \<Rightarrow> nat \<Rightarrow> char" where
  "peek lx ahead = (if ahead < length (rest lx) then rest lx ! ahead else CHR 0x00)"

definition advance :: "Lexer \<Rightarrow> Lexer" where
  "advance lx = lx\<lparr>rest := tl (rest lx), column := column lx + 1\<rparr>"

definition make_token :: "Lexer \<Rightarrow> TokenKind \<Rightarrow> string \<Rightarrow> Token" where
  "make_token lx k text =
     \<lparr> kind = k, token_text = text, token_negate = False,
       token_line = line lx, token_column = column lx \<rparr>"

definition lex_error :: "Lexer \<Rightarrow> string \<Rightarrow> AssemblyError" where
  "lex_error lx message = \<lparr> error_line = line lx, error_column = column lx, error_message = message \<rparr>"

function skip_while :: "(char \<Rightarrow> bool) \<Rightarrow> Lexer \<Rightarrow> Lexer" where
  "skip_while pred lx =
     (if rest lx \<noteq> [] \<and> pred (hd (rest lx)) then skip_while pred (advance lx) else lx)"
  by pat_completeness auto
termination
  by (relation "measure (\<lambda>(_, lx). length (rest lx))") (auto simp: advance_def)

declare skip_while.simps [simp del]

text \<open>The text from \<^verbatim>\<open>start\<close> to the position where the loop stops.\<close>

definition take_while :: "(char \<Rightarrow> bool) \<Rightarrow> Lexer \<Rightarrow> string \<times> Lexer" where
  "take_while pred lx =
     (let lx' = skip_while pred lx
      in (take (length (rest lx) - length (rest lx')) (rest lx), lx'))"

text \<open>\<^verbatim>\<open>number\<close>, with the exponent part separate; \<open>at\<close> carries the position of the token.\<close>

definition exponent :: "Lexer \<Rightarrow> (string \<times> Lexer, AssemblyError) result" where
  "exponent lx =
     (let lx1 = advance lx;
          sign = (if peek lx1 0 = CHR ''+'' \<or> peek lx1 0 = CHR ''-'' then [peek lx1 0] else []);
          lx2 = (if sign \<noteq> [] then advance lx1 else lx1);
          (digits, lx3) = take_while is_digit lx2
      in if digits = [] then fail (lex_error lx3 ''expected digits in exponent'')
         else Inr (''e'' @ sign @ digits, lx3))"

definition number :: "Token \<Rightarrow> Lexer \<Rightarrow> (Token \<times> Lexer, AssemblyError) result" where
  "number at lx =
     (if peek lx 0 = CHR ''0'' \<and> (peek lx 1 = CHR ''x'' \<or> peek lx 1 = CHR ''X'') then
        (case take_while is_hex_digit (advance (advance lx)) of (digits, lx') \<Rightarrow>
           if digits = [] then fail (lex_error lx' ''expected hexadecimal digits after 0x'')
           else Inr (at\<lparr>kind := Integer, token_text := ''0x'' @ digits\<rparr>, lx'))
      else
        (case take_while is_digit lx of (whole, lx1) \<Rightarrow>
           let point = (peek lx1 0 = CHR ''.'' \<and> is_digit (peek lx1 1));
               (fraction, lx2) = (if point then
                 (case take_while is_digit (advance lx1) of (digits, lx') \<Rightarrow> (''.'' @ digits, lx'))
                 else ([], lx1));
               scaled = (peek lx2 0 = CHR ''e'' \<or> peek lx2 0 = CHR ''E'')
           in case (if scaled then exponent lx2 else Inr ([], lx2)) of
                Inl e \<Rightarrow> fail e
              | Inr (suffix, lx3) \<Rightarrow>
                  if is_ident_char (peek lx3 0) then fail (lex_error lx3 ''unexpected character in number'')
                  else Inr (at\<lparr>kind := (if point \<or> scaled then Float else Integer),
                              token_text := whole @ fraction @ suffix\<rparr>, lx3)))"

text \<open>The cases of \<^verbatim>\<open>next_token\<close>, in its order.\<close>

definition punct_kind :: "char \<Rightarrow> TokenKind option" where
  "punct_kind c =
     (if c = CHR '','' then Some Comma
      else if c = CHR ''['' then Some LBracket
      else if c = CHR '']'' then Some RBracket
      else if c = CHR ''+'' then Some Plus
      else if c = CHR ''-'' then Some Minus
      else if c = CHR '':'' then Some Colon
      else None)"

text \<open>A sigil, the name after it, and the message when there is no name.\<close>

definition sigil_token ::
    "Token \<Rightarrow> string \<Rightarrow> Lexer \<Rightarrow> string \<Rightarrow> (Token \<times> Lexer, AssemblyError) result" where
  "sigil_token t prefix lx message =
     (case take_while is_ident_char lx of (name, lx') \<Rightarrow>
        if name = [] then fail (lex_error lx' message)
        else Inr (t\<lparr>token_text := prefix @ name\<rparr>, lx'))"

definition guard_token :: "Token \<Rightarrow> Lexer \<Rightarrow> (Token \<times> Lexer, AssemblyError) result" where
  "guard_token at lx =
     (let lx1 = advance lx;
          negated = (peek lx1 0 = CHR ''!'');
          lx2 = (if negated then advance lx1 else lx1)
      in sigil_token (at\<lparr>kind := Guard_kind, token_negate := negated\<rparr>) [] lx2
           (''expected a predicate register after '' @ quoted ''@''))"

definition next_token :: "Lexer \<Rightarrow> (Token \<times> Lexer, AssemblyError) result" where
  "next_token lx =
     (let c = peek lx 0;
          at = make_token lx End []
      in case punct_kind c of
           Some k \<Rightarrow> Inr (at\<lparr>kind := k, token_text := [c]\<rparr>, advance lx)
         | None \<Rightarrow>
             if c = CHR ''.'' then
               sigil_token (at\<lparr>kind := Directive\<rparr>) ''.'' (advance lx)
                 (''expected a directive name after '' @ quoted ''.'')
             else if c = CHR ''@'' then guard_token at lx
             else if c = CHR ''%'' then
               sigil_token (at\<lparr>kind := Special\<rparr>) ''%'' (advance lx)
                 (''expected a special register name after '' @ quoted ''%'')
             else if is_ident_start c then
               (case take_while is_ident_char lx of (name, lx') \<Rightarrow>
                  Inr (at\<lparr>kind := Identifier, token_text := name\<rparr>, lx'))
             else if is_digit c then number at lx
             else fail (lex_error lx (''unexpected character '' @ quoted [c])))"

section \<open>Progress\<close>

lemma advance_simps [simp]:
  "rest (advance lx) = tl (rest lx)" "line (advance lx) = line lx"
  by (simp_all add: advance_def)

lemma rest_skip_while: "rest (skip_while pred lx) = dropWhile pred (rest lx)"
proof (induction pred lx rule: skip_while.induct)
  case (1 pred lx)
  show ?case
  proof (cases "rest lx")
    case Nil
    then show ?thesis by (simp add: skip_while.simps [of pred lx])
  next
    case (Cons c cs)
    with "1.IH" show ?thesis by (simp add: skip_while.simps [of pred lx])
  qed
qed

lemma line_skip_while [simp]: "line (skip_while pred lx) = line lx"
proof (induction pred lx rule: skip_while.induct)
  case (1 pred lx)
  then show ?case by (subst skip_while.simps) auto
qed

lemma take_while_rest:
  "take_while pred lx = (takeWhile pred (rest lx), skip_while pred lx)"
proof -
  have "length (rest lx) - length (dropWhile pred (rest lx)) = length (takeWhile pred (rest lx))"
    using takeWhile_dropWhile_id [of pred "rest lx"] by (metis add_diff_cancel_right' length_append)
  then have "take (length (rest lx) - length (dropWhile pred (rest lx))) (rest lx) =
      takeWhile pred (rest lx)"
    by (metis takeWhile_eq_take)
  then show ?thesis by (simp add: take_while_def rest_skip_while Let_def)
qed

lemma peek_0: "peek lx 0 = (case rest lx of [] \<Rightarrow> CHR 0x00 | c # _ \<Rightarrow> c)"
  by (simp add: peek_def split: list.splits)

lemma length_skip_while_le: "length (rest (skip_while pred lx)) \<le> length (rest lx)"
  by (simp add: rest_skip_while length_dropWhile_le)

lemma exponent_shrinks: "exponent lx = Inr (text, lx') \<Longrightarrow> length (rest lx') \<le> length (rest lx)"
proof -
  assume a: "exponent lx = Inr (text, lx')"
  define lx2 where "lx2 = (if peek (advance lx) 0 = CHR ''+'' \<or> peek (advance lx) 0 = CHR ''-''
    then advance (advance lx) else advance lx)"
  from a have "lx' = skip_while is_digit lx2"
    by (auto simp: exponent_def take_while_rest Let_def lx2_def split: if_splits)
  moreover have "length (rest lx2) \<le> length (rest lx)" by (auto simp: lx2_def)
  ultimately show ?thesis using length_skip_while_le [of is_digit lx2] by simp
qed

lemma digit_not_null [simp]: "\<not> is_digit CHR 0x00" "\<not> is_ident_start CHR 0x00"
  "punct_kind CHR 0x00 = None"
  by (simp_all add: is_digit_def is_ident_start_def is_alpha_def punct_kind_def)

lemma skip_while_less:
  assumes "rest lx \<noteq> []" "pred (hd (rest lx))"
  shows "length (rest (skip_while pred lx)) < length (rest lx)"
proof -
  from assms obtain c cs where "rest lx = c # cs" "pred c" by (cases "rest lx") auto
  then show ?thesis using length_dropWhile_le [of pred cs] by (simp add: rest_skip_while)
qed

lemma hex_chars [simp]: "is_digit CHR ''0''" "\<not> is_digit CHR ''.''"
  by (simp_all add: is_digit_def)

lemma number_shrinks:
  assumes n: "number at lx = Inr (t, lx')" and d: "rest lx \<noteq> []" "is_digit (hd (rest lx))"
  shows "length (rest lx') < length (rest lx)"
proof (cases "peek lx 0 = CHR ''0'' \<and> (peek lx 1 = CHR ''x'' \<or> peek lx 1 = CHR ''X'')")
  case True
  with n have "lx' = skip_while is_hex_digit (advance (advance lx))"
    by (auto simp: number_def take_while_rest split: if_splits)
  moreover have "length (rest (advance (advance lx))) < length (rest lx)"
    using d by (cases "rest lx") auto
  ultimately show ?thesis using length_skip_while_le [of is_hex_digit "advance (advance lx)"] by simp
next
  case False
  define lx1 where "lx1 = skip_while is_digit lx"
  define lx2 where "lx2 = (if peek lx1 0 = CHR ''.'' \<and> is_digit (peek lx1 1)
    then skip_while is_digit (advance lx1) else lx1)"
  have "length (rest lx1) < length (rest lx)"
    unfolding lx1_def by (rule skip_while_less) (use d in auto)
  moreover have "length (rest lx2) \<le> length (rest lx1)"
    using length_skip_while_le [of is_digit "advance lx1"] by (auto simp: lx2_def)
  moreover from False n have "lx' = lx2 \<or> (\<exists>text. exponent lx2 = Inr (text, lx'))"
    by (auto simp: number_def take_while_rest Let_def lx1_def lx2_def split: if_splits prod.splits)
  ultimately show ?thesis using exponent_shrinks [of lx2 _ lx'] by fastforce
qed

lemma next_token_shrinks:
  assumes t: "next_token lx = Inr (t, lx')" and ne: "rest lx \<noteq> []"
  shows "length (rest lx') < length (rest lx)"
proof -
  obtain c cs where rest: "rest lx = c # cs" using ne by (cases "rest lx") auto
  then have c: "peek lx 0 = c" by (simp add: peek_0)
  have sigil: "length (rest lx') < length (rest lx)"
    if "sigil_token at prefix lx1 message = Inr (t, lx')" "length (rest lx1) < length (rest lx)"
    for at prefix lx1 message
    using that length_skip_while_le [of is_ident_char lx1]
    by (auto simp: sigil_token_def take_while_rest split: if_splits)
  have ident: "is_ident_char c" if "is_ident_start c"
    using that by (auto simp: is_ident_start_def is_ident_char_def)
  show ?thesis
  proof (cases "punct_kind c")
    case (Some k)
    with t c rest show ?thesis by (auto simp: next_token_def Let_def)
  next
    case None
    consider "c = CHR ''.'' \<or> c = CHR ''%''" | "c = CHR ''@''" | "is_ident_start c" "c \<noteq> CHR ''.''" "c \<noteq> CHR ''@''" "c \<noteq> CHR ''%''"
      | "is_digit c" "\<not> is_ident_start c" "c \<noteq> CHR ''.''" "c \<noteq> CHR ''@''" "c \<noteq> CHR ''%''"
      using t c None by (auto simp: next_token_def Let_def split: if_splits)
    then show ?thesis
    proof cases
      case 1
      with t c None have "\<exists>at prefix message. sigil_token at prefix (advance lx) message = Inr (t, lx')"
        by (auto simp: next_token_def Let_def split: if_splits)
      with sigil [of _ _ "advance lx"] rest show ?thesis by auto
    next
      case 2
      define lx2 where "lx2 = (if peek (advance lx) 0 = CHR ''!'' then advance (advance lx) else advance lx)"
      from 2 t c None have "guard_token (make_token lx End []) lx = Inr (t, lx')"
        by (simp add: next_token_def Let_def)
      then have "\<exists>at prefix message. sigil_token at prefix lx2 message = Inr (t, lx')"
        unfolding guard_token_def Let_def lx2_def by blast
      moreover have "length (rest lx2) < length (rest lx)" using rest by (auto simp: lx2_def)
      ultimately show ?thesis using sigil by blast
    next
      case 3
      with t c None have "lx' = skip_while is_ident_char lx"
        by (auto simp: next_token_def Let_def take_while_rest)
      with skip_while_less [OF ne] ident [OF 3(1)] rest show ?thesis by simp
    next
      case 4
      with t c None have "number (make_token lx End []) lx = Inr (t, lx')"
        by (auto simp: next_token_def Let_def)
      from number_shrinks [OF this ne] rest 4 show ?thesis by simp
    qed
  qed
qed

section \<open>The loop\<close>

definition at_comment :: "Lexer \<Rightarrow> bool" where
  "at_comment lx \<longleftrightarrow> peek lx 0 = CHR ''/'' \<and> peek lx 1 = CHR ''/''"

definition new_line :: "Lexer \<Rightarrow> Lexer" where
  "new_line lx = (advance lx)\<lparr>line := line lx + 1, column := 1\<rparr>"

lemma comment_shrinks:
  "at_comment lx \<Longrightarrow> length (rest (skip_while (\<lambda>c. c \<noteq> CHR ''\<newline>'') lx)) < length (rest lx)"
  by (rule skip_while_less) (auto simp: at_comment_def peek_0 split: list.splits)

function lex_loop :: "Lexer \<Rightarrow> Token list \<Rightarrow> (Token list \<times> Lexer, AssemblyError) result" where
  "lex_loop lx tokens =
     (if rest lx = [] then Inr (tokens, lx)
      else
        let c = peek lx 0 in
        if c = CHR ''\<newline>'' then
          lex_loop (new_line lx) (tokens @ [make_token lx Newline ''\<newline>''])
        else if c = CHR '' '' \<or> c = CHR 0x09 \<or> c = CHR 0x0D then lex_loop (advance lx) tokens
        else if at_comment lx then lex_loop (skip_while (\<lambda>c. c \<noteq> CHR ''\<newline>'') lx) tokens
        else
          (case next_token lx of
             Inl e \<Rightarrow> fail e
           | Inr (t, lx') \<Rightarrow> lex_loop lx' (tokens @ [t])))"
  by pat_completeness auto

termination
  by (relation "measure (\<lambda>(lx, _). length (rest lx))")
    (auto simp: new_line_def next_token_shrinks comment_shrinks)

declare lex_loop.simps [simp del]

definition run_lexer :: "Lexer \<Rightarrow> (Token list, AssemblyError) result" where
  "run_lexer lx =
     (case lex_loop lx [] of
        Inl e \<Rightarrow> fail e
      | Inr (tokens, lx') \<Rightarrow>
          let lines = (if tokens = [] \<or> kind (last tokens) \<noteq> Newline
                       then tokens @ [make_token lx' Newline ''\<newline>''] else tokens)
          in Inr (lines @ [make_token lx' End []]))"

definition lex :: "string \<Rightarrow> (Token list, AssemblyError) result" where
  "lex source = run_lexer (new_lexer source)"

end
