(* ===== verification/Lexer_Facts.thy ===== *)
theory Lexer_Facts
  imports Lexer
begin

text \<open>
  The token stream of a source: what the parser may rely on (the locale \<open>token_source\<close>,
  interpreted on \<open>lex\<close>), and how a text made of words, blanks, comments and line ends is split,
  which the round trip through the disassembler needs.
\<close>

section \<open>The texts of tokens\<close>

definition is_ident :: "string \<Rightarrow> bool" where
  "is_ident text \<longleftrightarrow> text \<noteq> [] \<and> is_ident_start (hd text) \<and> list_all is_ident_char text"

definition is_name :: "string \<Rightarrow> bool" where
  "is_name text \<longleftrightarrow> text \<noteq> [] \<and> list_all is_ident_char text"

definition is_digits :: "string \<Rightarrow> bool" where
  "is_digits text \<longleftrightarrow> text \<noteq> [] \<and> list_all is_digit text"

definition is_hex :: "string \<Rightarrow> bool" where
  "is_hex text \<longleftrightarrow> text \<noteq> [] \<and> list_all is_hex_digit text"

definition is_fraction :: "string \<Rightarrow> bool" where
  "is_fraction text \<longleftrightarrow> text = [] \<or> hd text = CHR ''.'' \<and> is_digits (tl text)"

definition is_exponent :: "string \<Rightarrow> bool" where
  "is_exponent text \<longleftrightarrow> text = [] \<or>
     (\<exists>sign digits. text = ''e'' @ sign @ digits \<and> sign \<in> {[], ''+'', ''-''} \<and> is_digits digits)"

definition is_float :: "string \<Rightarrow> bool" where
  "is_float text \<longleftrightarrow> (\<exists>whole fraction exponent. text = whole @ fraction @ exponent \<and>
     is_digits whole \<and> is_fraction fraction \<and> is_exponent exponent \<and> (fraction \<noteq> [] \<or> exponent \<noteq> []))"

fun token_text_ok :: "TokenKind \<Rightarrow> string \<Rightarrow> bool" where
  "token_text_ok Identifier text \<longleftrightarrow> is_ident text"
| "token_text_ok Directive text \<longleftrightarrow> hd text = CHR ''.'' \<and> is_name (tl text)"
| "token_text_ok Guard_kind text \<longleftrightarrow> is_name text"
| "token_text_ok Special text \<longleftrightarrow> hd text = CHR ''%'' \<and> is_name (tl text)"
| "token_text_ok Integer text \<longleftrightarrow> is_digits text \<or> take 2 text = ''0x'' \<and> is_hex (drop 2 text)"
| "token_text_ok Float text \<longleftrightarrow> is_float text"
| "token_text_ok Newline text \<longleftrightarrow> text = ''\<newline>''"
| "token_text_ok End text \<longleftrightarrow> text = []"
| "token_text_ok k text \<longleftrightarrow> (\<exists>c. text = [c] \<and> punct_kind c = Some k)"

definition token_ok :: "Token \<Rightarrow> bool" where
  "token_ok t \<longleftrightarrow> token_text_ok (kind t) (token_text t)"

text \<open>A stream: well-formed tokens, a line end and the end token last, and no earlier end token.\<close>

definition token_stream :: "Token list \<Rightarrow> bool" where
  "token_stream tokens \<longleftrightarrow> (\<exists>ts nl last. tokens = ts @ [nl, last] \<and> kind nl = Newline \<and> kind last = End \<and>
     (\<forall>t \<in> set ts. kind t \<noteq> End) \<and> (\<forall>t \<in> set tokens. token_ok t))"

section \<open>Every token of the lexer is well formed\<close>

lemma make_token_simps [simp]:
  "kind (make_token lx k text) = k" "token_text (make_token lx k text) = text"
  "token_negate (make_token lx k text) = False"
  by (simp_all add: make_token_def)

lemma is_ident_startD: "is_ident_start c \<Longrightarrow> is_ident_char c"
  by (auto simp: is_ident_start_def is_ident_char_def)

lemma list_all_takeWhile [simp]: "list_all pred (takeWhile pred xs)"
  by (auto simp: list_all_iff dest: set_takeWhileD)

lemma exponent_text:
  assumes "exponent lx = Inr (text, lx')"
  shows "is_exponent text"
proof -
  define sign where "sign = (if peek (advance lx) 0 = CHR ''+'' \<or> peek (advance lx) 0 = CHR ''-''
    then [peek (advance lx) 0] else [])"
  define digits where "digits = takeWhile is_digit (rest (if sign \<noteq> [] then advance (advance lx) else advance lx))"
  have "text = ''e'' @ sign @ digits" "digits \<noteq> []"
    using assms by (auto simp: exponent_def take_while_rest Let_def sign_def digits_def split: if_splits)
  moreover have "list_all is_digit digits" "sign \<in> {[], ''+'', ''-''}"
    by (auto simp: digits_def sign_def)
  ultimately show ?thesis unfolding is_exponent_def is_digits_def by blast
qed

lemma number_token:
  assumes n: "number at lx = Inr (t, lx')" and d: "is_digit (peek lx 0)"
  shows "token_ok t \<and> kind t \<notin> {Newline, End}"
proof (cases "peek lx 0 = CHR ''0'' \<and> (peek lx 1 = CHR ''x'' \<or> peek lx 1 = CHR ''X'')")
  case True
  with n show ?thesis
    by (auto simp: number_def take_while_rest token_ok_def is_hex_def split: if_splits)
next
  case False
  define lx1 where "lx1 = skip_while is_digit lx"
  define whole where "whole = takeWhile is_digit (rest lx)"
  define point where "point \<longleftrightarrow> peek lx1 0 = CHR ''.'' \<and> is_digit (peek lx1 1)"
  define fraction where "fraction = (if point then ''.'' @ takeWhile is_digit (rest (advance lx1)) else [])"
  define lx2 where "lx2 = (if point then skip_while is_digit (advance lx1) else lx1)"
  define scaled where "scaled \<longleftrightarrow> peek lx2 0 = CHR ''e'' \<or> peek lx2 0 = CHR ''E''"
  from False n obtain suffix where s: "(if scaled then exponent lx2 else Inr ([], lx2)) = Inr (suffix, lx')"
    and t: "t = at\<lparr>kind := (if point \<or> scaled then Float else Integer), token_text := whole @ fraction @ suffix\<rparr>"
    unfolding number_def take_while_rest scaled_def lx2_def fraction_def point_def whole_def lx1_def
    by (auto simp: Let_def split: if_splits)
  have "whole \<noteq> []" using d by (cases "rest lx") (auto simp: whole_def peek_0)
  then have w: "is_digits whole" by (simp add: is_digits_def whole_def)
  have "is_digits (takeWhile is_digit (rest (advance lx1)))" if point
    using that by (cases "rest lx1"; cases "tl (rest lx1)")
      (auto simp: point_def is_digits_def peek_def)
  then have f: "is_fraction fraction" by (auto simp: is_fraction_def fraction_def)
  have e: "is_exponent suffix" using s exponent_text by (auto simp: is_exponent_def split: if_splits)
  have "suffix \<noteq> []" if scaled
    using s that by (auto simp: exponent_def take_while_rest Let_def split: if_splits)
  then have "is_float (whole @ fraction @ suffix)" if "point \<or> scaled"
  proof -
    have "fraction \<noteq> [] \<or> suffix \<noteq> []" using that \<open>scaled \<Longrightarrow> suffix \<noteq> []\<close> by (auto simp: fraction_def)
    with w f e show ?thesis unfolding is_float_def by blast
  qed
  moreover have "fraction = []" "suffix = []" if "\<not> (point \<or> scaled)"
    using s that by (auto simp: fraction_def)
  ultimately show ?thesis using w t by (auto simp: token_ok_def)
qed

lemma punct_kind_cases:
  "punct_kind c = Some k \<Longrightarrow> k \<in> {Comma, LBracket, RBracket, Plus, Minus, Colon}"
  by (auto simp: punct_kind_def split: if_splits)

lemma sigil_token_ok:
  assumes "sigil_token at prefix lx message = Inr (t, lx')"
    "\<And>name. is_name name \<Longrightarrow> token_text_ok (kind at) (prefix @ name)"
  shows "token_ok t \<and> kind t = kind at"
  using assms by (auto simp: sigil_token_def take_while_rest token_ok_def is_name_def split: if_splits)

lemma next_token_ok:
  assumes t: "next_token lx = Inr (t, lx')"
  shows "token_ok t \<and> kind t \<notin> {Newline, End}"
proof -
  let ?c = "peek lx 0" and ?at = "make_token lx End []"
  show ?thesis
  proof (cases "punct_kind ?c")
    case (Some k)
    with t have "t = ?at\<lparr>kind := k, token_text := [?c]\<rparr>" by (simp add: next_token_def Let_def)
    with Some punct_kind_cases [OF Some] show ?thesis by (auto simp: token_ok_def)
  next
    case None
    consider (dot) "?c = CHR ''.''" | (guard) "?c = CHR ''@''" | (special) "?c = CHR ''%''"
      | (ident) "is_ident_start ?c" "?c \<notin> {CHR ''.'', CHR ''@'', CHR ''%''}"
      | (digit) "is_digit ?c" "\<not> is_ident_start ?c" "?c \<notin> {CHR ''.'', CHR ''@'', CHR ''%''}"
      using t None by (auto simp: next_token_def Let_def split: if_splits)
    then show ?thesis
    proof cases
      case dot
      with t None have "sigil_token (?at\<lparr>kind := Directive\<rparr>) ''.'' (advance lx)
          (''expected a directive name after '' @ quoted ''.'') = Inr (t, lx')"
        by (simp add: next_token_def Let_def)
      from sigil_token_ok [OF this] show ?thesis by simp
    next
      case special
      with t None have "sigil_token (?at\<lparr>kind := Special\<rparr>) ''%'' (advance lx)
          (''expected a special register name after '' @ quoted ''%'') = Inr (t, lx')"
        by (simp add: next_token_def Let_def)
      from sigil_token_ok [OF this] show ?thesis by simp
    next
      case guard
      with t None have "guard_token ?at lx = Inr (t, lx')" by (simp add: next_token_def Let_def)
      then obtain negated lx2 message where
        "sigil_token (?at\<lparr>kind := Guard_kind, token_negate := negated\<rparr>) [] lx2 message = Inr (t, lx')"
        unfolding guard_token_def Let_def by blast
      from sigil_token_ok [OF this] show ?thesis by simp
    next
      case ident
      with t None have "t = ?at\<lparr>kind := Identifier, token_text := takeWhile is_ident_char (rest lx)\<rparr>"
        by (auto simp: next_token_def Let_def take_while_rest)
      moreover have "is_ident (takeWhile is_ident_char (rest lx))"
        using ident is_ident_startD
        by (cases "rest lx") (auto simp: peek_0 is_ident_def)
      ultimately show ?thesis by (simp add: token_ok_def)
    next
      case digit
      with t None have "number ?at lx = Inr (t, lx')" by (simp add: next_token_def Let_def)
      from number_token [OF this digit(1)] show ?thesis .
    qed
  qed
qed

lemma lex_loop_tokens:
  assumes "lex_loop lx tokens = Inr (tokens', lx')"
    "\<forall>t \<in> set tokens. token_ok t \<and> kind t \<noteq> End"
  shows "\<forall>t \<in> set tokens'. token_ok t \<and> kind t \<noteq> End"
  using assms
proof (induction lx tokens rule: lex_loop.induct)
  case (1 lx tokens)
  note IH = "1.IH" and prem = "1.prems"
  show ?case
  proof (cases "rest lx = []")
    case True
    with prem show ?thesis by (simp add: lex_loop.simps [of lx])
  next
    case False
    note step = prem(1) [unfolded lex_loop.simps [of lx]]
    consider (nl) "peek lx 0 = CHR ''\<newline>''"
      | (blank) "peek lx 0 \<noteq> CHR ''\<newline>''" "peek lx 0 = CHR '' '' \<or> peek lx 0 = CHR 0x09 \<or> peek lx 0 = CHR 0x0D"
      | (comment) "peek lx 0 \<noteq> CHR ''\<newline>''"
          "\<not> (peek lx 0 = CHR '' '' \<or> peek lx 0 = CHR 0x09 \<or> peek lx 0 = CHR 0x0D)" "at_comment lx"
      | (token) "peek lx 0 \<noteq> CHR ''\<newline>''"
          "\<not> (peek lx 0 = CHR '' '' \<or> peek lx 0 = CHR 0x09 \<or> peek lx 0 = CHR 0x0D)" "\<not> at_comment lx"
      by blast
    then show ?thesis
    proof cases
      case nl
      with step False IH(1) [OF False refl nl] prem(2) show ?thesis
        by (auto simp: token_ok_def)
    next
      case blank
      from step False blank have r: "lex_loop (advance lx) tokens = Inr (tokens', lx')" by auto
      from IH(2) [OF False refl blank(1) blank(2) r prem(2)] show ?thesis .
    next
      case comment
      from step False comment have r:
        "lex_loop (skip_while (\<lambda>c. c \<noteq> CHR ''\<newline>'') lx) tokens = Inr (tokens', lx')" by auto
      from IH(3) [OF False refl comment(1) comment(2) comment(3) r prem(2)] show ?thesis .
    next
      case token
      from step False token obtain t lx2 where t: "next_token lx = Inr (t, lx2)"
        and r: "lex_loop lx2 (tokens @ [t]) = Inr (tokens', lx')" by auto
      have "\<forall>u \<in> set (tokens @ [t]). token_ok u \<and> kind u \<noteq> End"
        using next_token_ok [OF t] prem(2) by auto
      from IH(4) [OF False refl token(1) token(2) token(3) t refl r this] show ?thesis .
    qed
  qed
qed

lemma lex_stream: "lex source = Inr tokens \<Longrightarrow> token_stream tokens"
proof -
  assume "lex source = Inr tokens"
  then obtain ts lx where ts: "lex_loop (new_lexer source) [] = Inr (ts, lx)"
    and tokens: "tokens = (if ts = [] \<or> kind (last ts) \<noteq> Newline
       then ts @ [make_token lx Newline ''\<newline>''] else ts) @ [make_token lx End []]"
    by (auto simp: lex_def run_lexer_def Let_def)
  from lex_loop_tokens [OF ts] have ok: "\<forall>t \<in> set ts. token_ok t \<and> kind t \<noteq> End" by simp
  show "token_stream tokens"
  proof (cases "ts = [] \<or> kind (last ts) \<noteq> Newline")
    case True
    with tokens ok show ?thesis by (auto simp: token_stream_def token_ok_def)
  next
    case False
    then have "ts = butlast ts @ [last ts]" by simp
    with False tokens ok show ?thesis
      unfolding token_stream_def
      by (intro exI [of _ "butlast ts"] exI [of _ "last ts"] exI [of _ "make_token lx End []"])
        (auto simp: token_ok_def dest: in_set_butlastD)
  qed
qed

section \<open>Properties\<close>

text \<open>C24: whenever the lexer accepts a source, every token has a text of the form of its kind, the stream ends
  with a line end and the end token, and there is no end token before.\<close>

theorem lexer_gives_token_stream:
  "case lex source of Inl e \<Rightarrow> True | Inr tokens \<Rightarrow> token_stream tokens"
  using lex_stream by (auto split: sum.splits)

end
