(* ===== verification/Scanning.thy ===== *)
theory Scanning
  imports Lexer_Facts
begin

text \<open>
  How the lexer splits a text that was put together from words: a calculus of the relation
  \<open>scans text views rest\<close>, with one rule per kind of token, a rule for blanks, comments and line
  ends, and a rule for concatenation. A view is a token without its position.
\<close>

type_synonym view = "TokenKind \<times> string \<times> bool"

definition view :: "Token \<Rightarrow> view" where
  "view t = (kind t, token_text t, token_negate t)"

abbreviation newline_view :: view where
  "newline_view \<equiv> (Newline, ''\<newline>'', False)"

abbreviation end_view :: view where
  "end_view \<equiv> (End, [], False)"

definition scans :: "string \<Rightarrow> view list \<Rightarrow> string \<Rightarrow> bool" where
  "scans text vs r \<longleftrightarrow> (\<forall>lx. rest lx = text @ r \<longrightarrow>
     (\<exists>lx' ts. rest lx' = r \<and> List.map view ts = vs \<and>
        (\<forall>tokens. lex_loop lx tokens = lex_loop lx' (tokens @ ts))))"

text \<open>The text after a word does not continue it.\<close>

definition boundary :: "string \<Rightarrow> bool" where
  "boundary r \<longleftrightarrow> r = [] \<or> \<not> is_ident_char (hd r)"

lemma scans_Nil [simp]: "scans [] [] r"
  unfolding scans_def by (metis append_Nil append_Nil2 list.map(1))

lemma scans_append:
  assumes "scans s vs (s' @ r)" "scans s' vs' r"
  shows "scans (s @ s') (vs @ vs') r"
  unfolding scans_def
proof (intro allI impI)
  fix lx :: Lexer assume "rest lx = (s @ s') @ r"
  with assms(1) obtain lx1 ts where 1: "rest lx1 = s' @ r" "List.map view ts = vs"
    "\<And>tokens. lex_loop lx tokens = lex_loop lx1 (tokens @ ts)"
    unfolding scans_def by (metis append.assoc)
  with assms(2) obtain lx2 ts' where 2: "rest lx2 = r" "List.map view ts' = vs'"
    "\<And>tokens. lex_loop lx1 tokens = lex_loop lx2 (tokens @ ts')"
    unfolding scans_def by metis
  from 1 2 show "\<exists>lx' ts. rest lx' = r \<and> List.map view ts = vs @ vs' \<and>
      (\<forall>tokens. lex_loop lx tokens = lex_loop lx' (tokens @ ts))"
    by (intro exI [of _ lx2] exI [of _ "ts @ ts'"]) simp
qed

lemma scans_Cons:
  "scans [c] vs (s @ r) \<Longrightarrow> scans s vs' r \<Longrightarrow> scans (c # s) (vs @ vs') r"
  using scans_append [of "[c]" vs s r vs'] by simp

text \<open>One turn of the loop.\<close>

lemma scans_turn:
  assumes "\<And>lx. rest lx = s @ r \<Longrightarrow> rest (f lx) = r \<and> List.map view (ts lx) = vs \<and>
      (\<forall>tokens. lex_loop lx tokens = lex_loop (f lx) (tokens @ ts lx))"
  shows "scans s vs r"
  unfolding scans_def using assms by metis

lemma lex_loop_blank:
  "rest lx = c # r \<Longrightarrow> c \<in> {CHR '' '', CHR 0x09, CHR 0x0D} \<Longrightarrow>
     lex_loop lx tokens = lex_loop (advance lx) tokens"
  by (auto simp: lex_loop.simps [of lx] peek_0)

lemma lex_loop_newline:
  "rest lx = CHR ''\<newline>'' # r \<Longrightarrow>
     lex_loop lx tokens = lex_loop (new_line lx) (tokens @ [make_token lx Newline ''\<newline>''])"
  by (simp add: lex_loop.simps [of lx] peek_0)

lemma scans_blank: "c \<in> {CHR '' '', CHR 0x09, CHR 0x0D} \<Longrightarrow> scans [c] [] r"
  by (rule scans_turn [where f = advance and ts = "\<lambda>_. []"]) (auto intro: lex_loop_blank)

lemma rest_new_line [simp]: "rest (new_line lx) = tl (rest lx)"
  by (simp add: new_line_def)

lemma scans_newline: "scans ''\<newline>'' [newline_view] r"
  by (rule scans_turn [where f = new_line and ts = "\<lambda>lx. [make_token lx Newline ''\<newline>'']"])
    (auto simp: view_def lex_loop_newline)

lemma scans_comment:
  assumes "CHR ''\<newline>'' \<notin> set s" "r = [] \<or> hd r = CHR ''\<newline>''"
  shows "scans (''//'' @ s) [] r"
proof (rule scans_turn [where f = "skip_while (\<lambda>c. c \<noteq> CHR ''\<newline>'')" and ts = "\<lambda>_. []"])
  fix lx :: Lexer assume lx: "rest lx = (''//'' @ s) @ r"
  have "dropWhile (\<lambda>c. c \<noteq> CHR ''\<newline>'') (s @ r) = r"
    using assms by (induction s) (cases r, auto)
  then have "rest (skip_while (\<lambda>c. c \<noteq> CHR ''\<newline>'') lx) = r" using lx by (simp add: rest_skip_while)
  moreover have "at_comment lx" using lx by (simp add: at_comment_def peek_def)
  ultimately show "rest (skip_while (\<lambda>c. c \<noteq> CHR ''\<newline>'') lx) = r \<and> List.map view [] = [] \<and>
      (\<forall>tokens. lex_loop lx tokens = lex_loop (skip_while (\<lambda>c. c \<noteq> CHR ''\<newline>'') lx) (tokens @ []))"
    using lx by (simp add: lex_loop.simps [of lx] peek_0)
qed

text \<open>A token: what \<open>next_token\<close> makes of the text at its start.\<close>

definition token_at :: "string \<Rightarrow> view \<Rightarrow> string \<Rightarrow> bool" where
  "token_at s v r \<longleftrightarrow> (\<forall>lx. rest lx = s @ r \<longrightarrow>
     (\<exists>t lx'. next_token lx = Inr (t, lx') \<and> rest lx' = r \<and> view t = v))"

lemma scans_token:
  assumes "token_at s v r" "s \<noteq> []"
    "hd s \<notin> {CHR ''\<newline>'', CHR '' '', CHR 0x09, CHR 0x0D, CHR ''/''}"
  shows "scans s [v] r"
  unfolding scans_def
proof (intro allI impI)
  fix lx :: Lexer assume lx: "rest lx = s @ r"
  with assms(1) obtain t lx' where t: "next_token lx = Inr (t, lx')" "rest lx' = r" "view t = v"
    unfolding token_at_def by blast
  from assms(2) obtain c cs where s: "s = c # cs" by (cases s) auto
  have "lex_loop lx tokens = lex_loop lx' (tokens @ [t])" for tokens
    using lx s assms(3) t(1) by (simp add: lex_loop.simps [of lx] peek_0 at_comment_def)
  with t show "\<exists>lx' ts. rest lx' = r \<and> List.map view ts = [v] \<and>
      (\<forall>tokens. lex_loop lx tokens = lex_loop lx' (tokens @ ts))"
    by (intro exI [of _ lx'] exI [of _ "[t]"]) simp
qed

section \<open>One rule per token\<close>

lemma takeWhile_stops:
  "list_all pred s \<Longrightarrow> r = [] \<or> \<not> pred (hd r) \<Longrightarrow> takeWhile pred (s @ r) = s \<and> dropWhile pred (s @ r) = r"
  by (induction s) (cases r, auto)

lemma name_stops:
  assumes "list_all is_ident_char s" "boundary r" "rest lx = s @ r"
  shows "take_while is_ident_char lx = (s, skip_while is_ident_char lx)"
    and "rest (skip_while is_ident_char lx) = r"
  using takeWhile_stops [of is_ident_char s r] assms
  by (simp_all add: take_while_rest rest_skip_while boundary_def)

lemma not_ident_chars [simp]:
  "\<not> is_ident_char CHR ''@''" "\<not> is_ident_char CHR ''%''" "\<not> is_ident_char CHR ''!''"
  "\<not> is_ident_char CHR ''/''" "\<not> is_ident_char CHR '' ''" "\<not> is_ident_char CHR ''\<newline>''"
  "\<not> is_ident_char CHR 0x09" "\<not> is_ident_char CHR 0x0D" "\<not> is_ident_char CHR '',''"
  "\<not> is_ident_char CHR '':''" "\<not> is_ident_char CHR '']''" "\<not> is_ident_char CHR ''[''"
  "\<not> is_ident_char CHR ''-''" "\<not> is_ident_char CHR ''+''"
  by (simp_all add: is_ident_char_def is_alpha_def is_digit_def)

lemma ident_code:
  assumes "is_ident_char c"
  shows "punct_kind c = None" "c \<notin> {CHR ''@'', CHR ''%'', CHR ''!'', CHR ''/'', CHR '' '', CHR ''\<newline>'',
    CHR 0x09, CHR 0x0D, CHR '','', CHR '':'', CHR '']'', CHR ''['', CHR ''-'', CHR ''+''}"
proof -
  show c: "c \<notin> {CHR ''@'', CHR ''%'', CHR ''!'', CHR ''/'', CHR '' '', CHR ''\<newline>'',
    CHR 0x09, CHR 0x0D, CHR '','', CHR '':'', CHR '']'', CHR ''['', CHR ''-'', CHR ''+''}"
    using assms by (metis insertE empty_iff not_ident_chars)
  then show "punct_kind c = None" unfolding punct_kind_def by simp
qed

lemma start_code: "is_ident_start c \<Longrightarrow> c \<noteq> CHR ''.''"
  by (auto simp: is_ident_start_def is_alpha_def)

lemma digit_code: "is_digit c \<Longrightarrow> is_ident_char c \<and> \<not> is_ident_start c \<and> c \<noteq> CHR ''.'' \<and>
    c \<notin> {CHR ''x'', CHR ''X'', CHR ''e'', CHR ''E''}"
  by (auto simp: is_digit_def is_ident_char_def is_ident_start_def is_alpha_def)

lemma scans_ident:
  assumes "is_ident s" "boundary r"
  shows "scans s [(Identifier, s, False)] r"
proof (rule scans_token)
  from assms(1) obtain c cs where s: "s = c # cs" "is_ident_start c" "list_all is_ident_char s"
    by (cases s) (auto simp: is_ident_def)
  note C = ident_code [OF is_ident_startD [OF s(2)]] start_code [OF s(2)]
  show "s \<noteq> []" using s(1) by simp
  show "hd s \<notin> {CHR ''\<newline>'', CHR '' '', CHR 0x09, CHR 0x0D, CHR ''/''}" using C s(1) by auto
  show "token_at s (Identifier, s, False) r"
    unfolding token_at_def
  proof (intro allI impI)
    fix lx :: Lexer assume lx: "rest lx = s @ r"
    from lx s(1) have "peek lx 0 = c" by (simp add: peek_0)
    with C s(2) name_stops [OF s(3) assms(2) lx]
    show "\<exists>t lx'. next_token lx = Inr (t, lx') \<and> rest lx' = r \<and> view t = (Identifier, s, False)"
      by (simp add: next_token_def Let_def view_def)
  qed
qed

lemma scans_punct:
  assumes "punct_kind c = Some k"
  shows "scans [c] [(k, [c], False)] r"
proof (rule scans_token)
  show "hd [c] \<notin> {CHR ''\<newline>'', CHR '' '', CHR 0x09, CHR 0x0D, CHR ''/''}"
    using assms by (auto simp: punct_kind_def)
  show "token_at [c] (k, [c], False) r"
    using assms by (auto simp: token_at_def next_token_def Let_def view_def peek_0)
qed simp

lemma scans_sigil:
  assumes name: "is_name s" "boundary r" and c: "punct_kind c = None"
    "c \<notin> {CHR ''\<newline>'', CHR '' '', CHR 0x09, CHR 0x0D, CHR ''/''}"
    and next_c: "\<And>lx. peek lx 0 = c \<Longrightarrow> rest lx = c # s @ r \<Longrightarrow> \<exists>at message.
       next_token lx = sigil_token at prefix (advance lx) message \<and> kind at = k \<and> token_negate at = n"
  shows "scans (c # s) [(k, prefix @ s, n)] r"
proof (rule scans_token)
  show "hd (c # s) \<notin> {CHR ''\<newline>'', CHR '' '', CHR 0x09, CHR 0x0D, CHR ''/''}" using c by simp
  show "token_at (c # s) (k, prefix @ s, n) r"
    unfolding token_at_def
  proof (intro allI impI)
    fix lx :: Lexer assume lx: "rest lx = (c # s) @ r"
    then have "peek lx 0 = c" "rest (advance lx) = s @ r" by (simp_all add: peek_0)
    moreover from next_c [OF this(1)] lx obtain at message where
      "next_token lx = sigil_token at prefix (advance lx) message" "kind at = k" "token_negate at = n"
      by auto
    ultimately show "\<exists>t lx'. next_token lx = Inr (t, lx') \<and> rest lx' = r \<and> view t = (k, prefix @ s, n)"
      using name_stops [of s r "advance lx"] name
      by (auto simp: sigil_token_def is_name_def view_def)
  qed
qed simp

lemma scans_directive:
  "is_name s \<Longrightarrow> boundary r \<Longrightarrow> scans (CHR ''.'' # s) [(Directive, CHR ''.'' # s, False)] r"
  using scans_sigil [of s r "CHR ''.''" "''.''" Directive False]
  by (force simp: punct_kind_def next_token_def Let_def)

lemma scans_special:
  "is_name s \<Longrightarrow> boundary r \<Longrightarrow> scans (CHR ''%'' # s) [(Special, CHR ''%'' # s, False)] r"
  using scans_sigil [of s r "CHR ''%''" "''%''" Special False]
  by (force simp: punct_kind_def next_token_def Let_def)

lemma scans_guard:
  assumes "is_name s" "boundary r"
  shows "scans (CHR ''@'' # s) [(Guard_kind, s, False)] r"
proof -
  have "scans (CHR ''@'' # s) [(Guard_kind, [] @ s, False)] r"
  proof (rule scans_sigil [OF assms])
    fix lx :: Lexer assume lx: "peek lx 0 = CHR ''@''" "rest lx = CHR ''@'' # s @ r"
    obtain c cs where s: "s = c # cs" "is_ident_char c" using assms(1) by (cases s) (auto simp: is_name_def)
    with lx have "peek (advance lx) 0 \<noteq> CHR ''!''" using ident_code [OF s(2)] by (simp add: peek_0)
    with lx(1) have nt: "next_token lx = sigil_token
        ((make_token lx End [])\<lparr>kind := Guard_kind, token_negate := False\<rparr>) [] (advance lx)
        (''expected a predicate register after '' @ quoted ''@'')"
      by (simp add: next_token_def punct_kind_def guard_token_def Let_def)
    show "\<exists>at message. next_token lx = sigil_token at [] (advance lx) message \<and>
        kind at = Guard_kind \<and> token_negate at = False"
      by (rule exI, rule exI, rule conjI, rule nt) simp
  qed (simp_all add: punct_kind_def)
  then show ?thesis by simp
qed

lemma scans_negated_guard:
  assumes "is_name s" "boundary r"
  shows "scans (''@!'' @ s) [(Guard_kind, s, True)] r"
proof (rule scans_token)
  show "token_at (''@!'' @ s) (Guard_kind, s, True) r"
    unfolding token_at_def
  proof (intro allI impI)
    fix lx :: Lexer assume lx: "rest lx = (''@!'' @ s) @ r"
    let ?lx = "advance (advance lx)"
    have "peek lx 0 = CHR ''@''" "peek (advance lx) 0 = CHR ''!''" "rest ?lx = s @ r"
      using lx by (simp_all add: peek_0)
    then show "\<exists>t lx'. next_token lx = Inr (t, lx') \<and> rest lx' = r \<and> view t = (Guard_kind, s, True)"
      using name_stops [of s r ?lx] assms
      by (simp add: next_token_def punct_kind_def guard_token_def sigil_token_def is_name_def view_def Let_def)
  qed
qed simp_all

section \<open>Numbers\<close>

lemma digits_stop:
  assumes "is_digits s" "r = [] \<or> \<not> is_digit (hd r)" "rest lx = s @ r"
  shows "take_while is_digit lx = (s, skip_while is_digit lx)" and "rest (skip_while is_digit lx) = r"
  using takeWhile_stops [of is_digit s r] assms
  by (simp_all add: take_while_rest rest_skip_while is_digits_def)

lemma peek_tail: "rest lx = s @ r \<Longrightarrow> peek lx (length s) = (if r = [] then CHR 0x00 else hd r)"
  by (simp add: peek_def nth_append hd_conv_nth)

lemma boundary_next:
  assumes "boundary r"
  shows "(if r = [] then CHR 0x00 else hd r) \<notin> {CHR ''x'', CHR ''X'', CHR ''.'', CHR ''e'', CHR ''E''}"
    "r = [] \<or> \<not> is_digit (hd r)" "\<not> is_ident_char (if r = [] then CHR 0x00 else hd r)"
proof -
  have "is_ident_char CHR ''x''" "is_ident_char CHR ''X''" "is_ident_char CHR ''.''"
    "is_ident_char CHR ''e''" "is_ident_char CHR ''E''" "\<not> is_ident_char CHR 0x00"
    by (simp_all add: is_ident_char_def is_alpha_def is_digit_def)
  with assms show "(if r = [] then CHR 0x00 else hd r) \<notin> {CHR ''x'', CHR ''X'', CHR ''.'', CHR ''e'', CHR ''E''}"
    "r = [] \<or> \<not> is_digit (hd r)" "\<not> is_ident_char (if r = [] then CHR 0x00 else hd r)"
    using digit_code by (auto simp: boundary_def)
qed

lemma exponent_reads:
  assumes e: "is_exponent e" "e \<noteq> []" and r: "boundary r" and lx: "rest lx = e @ r"
  shows "\<exists>lx'. exponent lx = Inr (e, lx') \<and> rest lx' = r"
proof -
  from e obtain sign digits where d: "e = ''e'' @ sign @ digits" "sign \<in> {[], ''+'', ''-''}" "is_digits digits"
    by (auto simp: is_exponent_def)
  then obtain c cs where digits: "digits = c # cs" "is_digit c"
    by (cases digits) (auto simp: is_digits_def)
  then have c: "c \<noteq> CHR ''+''" "c \<noteq> CHR ''-''" by (auto simp: is_digit_def)
  define lx2 where "lx2 = (if sign \<noteq> [] then advance (advance lx) else advance lx)"
  have "rest lx2 = digits @ r" using lx d(1,2) by (auto simp: lx2_def)
  note D = digits_stop [OF d(3) boundary_next(2) [OF r] this]
  have "peek (advance lx) 0 = (if sign = [] then c else hd sign)"
    using lx d(1,2) digits(1) by (auto simp: peek_0)
  then have "exponent lx = Inr (e, skip_while is_digit lx2)"
    using d(1,2) digits c D(1) by (auto simp: exponent_def Let_def lx2_def)
  with D(2) show ?thesis by blast
qed

lemma number_reads:
  assumes w: "is_digits w" and f: "is_fraction f" and e: "is_exponent e" and r: "boundary r"
    and lx: "rest lx = w @ f @ e @ r"
  shows "\<exists>lx'. number at lx = Inr (at\<lparr>kind := (if f \<noteq> [] \<or> e \<noteq> [] then Float else Integer),
      token_text := w @ f @ e\<rparr>, lx') \<and> rest lx' = r"
proof -
  note B = boundary_next [OF r]
  have e_hd: "e \<noteq> [] \<Longrightarrow> hd e = CHR ''e''" using e by (auto simp: is_exponent_def)
  have er: "(if e @ r = [] then CHR 0x00 else hd (e @ r)) \<notin> {CHR ''x'', CHR ''X'', CHR ''.''}"
    "e @ r = [] \<or> \<not> is_digit (hd (e @ r))"
    using B e_hd by (cases e; auto simp: is_digit_def split: if_splits)+
  have fer: "(if f @ e @ r = [] then CHR 0x00 else hd (f @ e @ r)) \<notin> {CHR ''x'', CHR ''X''}"
    "f @ e @ r = [] \<or> \<not> is_digit (hd (f @ e @ r))"
    using er f by (cases f; auto simp: is_fraction_def is_digit_def split: if_splits)+
  have no_hex: "\<not> (peek lx 0 = CHR ''0'' \<and> (peek lx 1 = CHR ''x'' \<or> peek lx 1 = CHR ''X''))"
  proof -
    obtain c cs where c: "w = c # cs" "list_all is_digit cs" using w by (cases w) (auto simp: is_digits_def)
    show ?thesis
    proof (cases cs)
      case Nil
      with c peek_tail [of lx w "f @ e @ r"] lx fer(1) show ?thesis by auto
    next
      case (Cons c' cs')
      then have "peek lx 1 = c'" "is_digit c'" using c lx by (simp_all add: peek_def)
      then show ?thesis using digit_code by auto
    qed
  qed
  define lx1 where "lx1 = skip_while is_digit lx"
  note W = digits_stop [OF w fer(2) lx, folded lx1_def]
  define point where "point \<longleftrightarrow> peek lx1 0 = CHR ''.'' \<and> is_digit (peek lx1 1)"
  have point: "point \<longleftrightarrow> f \<noteq> []"
  proof (cases f)
    case Nil
    with W(2) have "peek lx1 0 = (if e @ r = [] then CHR 0x00 else hd (e @ r))"
      using peek_tail [of lx1 "[]" "e @ r"] by (simp del: append_is_Nil_conv)
    with er(1) have "peek lx1 0 \<noteq> CHR ''.''" by (metis insertCI)
    with Nil show ?thesis by (simp add: point_def)
  next
    case (Cons c cs)
    with f obtain d ds where "c = CHR ''.''" "cs = d # ds" "is_digit d"
      by (cases cs) (auto simp: is_fraction_def is_digits_def)
    with Cons W(2) show ?thesis by (simp add: point_def peek_def)
  qed
  define lx2 where "lx2 = (if point then skip_while is_digit (advance lx1) else lx1)"
  have F: "(if point then (case take_while is_digit (advance lx1) of (digits, lx') \<Rightarrow> (''.'' @ digits, lx'))
      else ([], lx1)) = (f, lx2)" "rest lx2 = e @ r"
  proof -
    show "(if point then (case take_while is_digit (advance lx1) of (digits, lx') \<Rightarrow> (''.'' @ digits, lx'))
        else ([], lx1)) = (f, lx2)"
      and "rest lx2 = e @ r"
      using digits_stop [of "tl f" "e @ r" "advance lx1"] er(2) W(2) f point
      by (cases f; auto simp: lx2_def is_fraction_def)+
  qed
  define scaled where "scaled \<longleftrightarrow> peek lx2 0 = CHR ''e'' \<or> peek lx2 0 = CHR ''E''"
  have scaled: "scaled \<longleftrightarrow> e \<noteq> []"
    using F(2) e_hd B(1) by (cases e) (auto simp: scaled_def peek_0 split: list.splits)
  obtain lx3 where E: "(if scaled then exponent lx2 else Inr ([], lx2)) = Inr (e, lx3)" "rest lx3 = r"
    using exponent_reads [OF e _ r F(2)] scaled F(2) by (cases "e = []") auto
  have "\<not> is_ident_char (peek lx3 0)" using E(2) B(3) by (auto simp: peek_0 split: list.splits)
  then have "number at lx = Inr (at\<lparr>kind := (if f \<noteq> [] \<or> e \<noteq> [] then Float else Integer),
      token_text := w @ f @ e\<rparr>, lx3)"
    unfolding number_def if_not_P [OF no_hex] W(1) prod.case Let_def
      point_def [symmetric] F(1) scaled_def [symmetric] E(1) sum.case
    using point scaled by simp
  with E(2) show ?thesis by blast
qed

lemma digits_start:
  assumes "is_digits w"
  shows "w \<noteq> []" "is_digit (hd w)" "hd (w @ s) \<notin> {CHR ''\<newline>'', CHR '' '', CHR 0x09, CHR 0x0D, CHR ''/''}"
    "punct_kind (hd w) = None" "\<not> is_ident_start (hd w)" "hd w \<notin> {CHR ''.'', CHR ''@'', CHR ''%''}"
proof -
  show d: "w \<noteq> []" "is_digit (hd w)" using assms by (cases w; simp add: is_digits_def)+
  note C = digit_code [OF d(2)]
  from C show "\<not> is_ident_start (hd w)" by simp
  from C ident_code [of "hd w"] show "punct_kind (hd w) = None" by simp
  from C ident_code(2) [of "hd w"] d(1)
  show "hd (w @ s) \<notin> {CHR ''\<newline>'', CHR '' '', CHR 0x09, CHR 0x0D, CHR ''/''}"
    "hd w \<notin> {CHR ''.'', CHR ''@'', CHR ''%''}" by auto
qed

lemma scans_number:
  assumes w: "is_digits w" and fe: "is_fraction f" "is_exponent e" and r: "boundary r"
  shows "scans (w @ f @ e) [(if f \<noteq> [] \<or> e \<noteq> [] then Float else Integer, w @ f @ e, False)] r"
proof (rule scans_token)
  note S = digits_start [OF w]
  show "w @ f @ e \<noteq> []" using S(1) by simp
  show "hd (w @ f @ e) \<notin> {CHR ''\<newline>'', CHR '' '', CHR 0x09, CHR 0x0D, CHR ''/''}" by (rule S(3))
  show "token_at (w @ f @ e) (if f \<noteq> [] \<or> e \<noteq> [] then Float else Integer, w @ f @ e, False) r"
    unfolding token_at_def
  proof (intro allI impI)
    fix lx :: Lexer assume lx: "rest lx = (w @ f @ e) @ r"
    then have "peek lx 0 = hd w" using S(1) by (cases w) (simp_all add: peek_0)
    with S have "next_token lx = number (make_token lx End []) lx"
      by (simp add: next_token_def Let_def)
    with number_reads [OF w fe r, of lx "make_token lx End []"] lx
    show "\<exists>t lx'. next_token lx = Inr (t, lx') \<and> rest lx' = r \<and>
        view t = (if f \<noteq> [] \<or> e \<noteq> [] then Float else Integer, w @ f @ e, False)"
      by (auto simp: view_def)
  qed
qed

lemma scans_digits: "is_digits s \<Longrightarrow> boundary r \<Longrightarrow> scans s [(Integer, s, False)] r"
  using scans_number [of s "[]" "[]" r] by (simp add: is_fraction_def is_exponent_def)

lemma scans_float: "is_float s \<Longrightarrow> boundary r \<Longrightarrow> scans s [(Float, s, False)] r"
  using scans_number by (fastforce simp: is_float_def)

lemma scans_hex:
  assumes "is_hex s" "boundary r"
  shows "scans (''0x'' @ s) [(Integer, ''0x'' @ s, False)] r"
proof (rule scans_token)
  show "token_at (''0x'' @ s) (Integer, ''0x'' @ s, False) r"
    unfolding token_at_def
  proof (intro allI impI)
    fix lx :: Lexer assume lx: "rest lx = (''0x'' @ s) @ r"
    let ?lx = "advance (advance lx)"
    have "r = [] \<or> \<not> is_hex_digit (hd r)"
      using assms(2) by (auto simp: boundary_def is_hex_digit_def is_ident_char_def is_alpha_def)
    with takeWhile_stops [of is_hex_digit s r] assms(1) lx
    have "take_while is_hex_digit ?lx = (s, skip_while is_hex_digit ?lx)" "rest (skip_while is_hex_digit ?lx) = r"
      by (simp_all add: take_while_rest rest_skip_while is_hex_def)
    moreover have "peek lx 0 = CHR ''0''" "peek lx 1 = CHR ''x''" using lx by (simp_all add: peek_def)
    moreover have "punct_kind CHR ''0'' = None" "\<not> is_ident_start CHR ''0''" "is_digit CHR ''0''"
      by (simp_all add: punct_kind_def is_ident_start_def is_alpha_def)
    ultimately show "\<exists>t lx'. next_token lx = Inr (t, lx') \<and> rest lx' = r \<and>
        view t = (Integer, ''0x'' @ s, False)"
      using assms(1) by (simp add: next_token_def number_def Let_def view_def is_hex_def)
  qed
qed simp_all

section \<open>A whole source\<close>

lemma lex_scans:
  assumes "scans source vs []"
  shows "\<exists>tokens. lex source = Inr tokens \<and> List.map view tokens \<in> {vs @ [end_view], vs @ [newline_view, end_view]}"
proof -
  have "rest (new_lexer source) = source @ []" by (simp add: new_lexer_def)
  with assms obtain lx ts where lx: "rest lx = []" "List.map view ts = vs"
    "lex_loop (new_lexer source) [] = lex_loop lx ts"
    unfolding scans_def by (metis append_Nil)
  then have "lex_loop (new_lexer source) [] = Inr (ts, lx)" by (simp add: lex_loop.simps [of lx])
  with lx(2) show ?thesis by (auto simp: lex_def run_lexer_def Let_def view_def)
qed

end
