(* ===== verification/Isa_Opcode.thy ===== *)
theory Isa_Opcode
  imports Prelude
begin

text \<open>
  \<^verbatim>\<open>include/warpsim/isa/opcode.hpp\<close>: the opcodes and their numbers, the operand
  shapes, the opcode table with its three lookups, and the special register table with its
  two. The lemmas show that the tables list every opcode and register once, so that every
  lookup is the inverse of the key it searches for.
\<close>

section \<open>Opcodes\<close>

text \<open>
  The enumerators of \<^verbatim>\<open>enum class Opcode\<close> in their order. \<^verbatim>\<open>Not\<close>, \<^verbatim>\<open>Min\<close> and
  \<^verbatim>\<open>Max\<close> are constants of HOL, so those constructors carry a suffix.
\<close>

datatype Opcode =
    Add | Sub | Mul | Div | Rem | Min_op | Max_op | Neg
  | And | Or | Xor | Not_op | Shl | Shr | Sra | Mov
  | FAdd | FSub | FMul | FFma | FMin | FMax | FNeg
  | CvtF32S32 | CvtS32F32
  | SetpEqS32 | SetpNeS32 | SetpLtS32 | SetpLeS32 | SetpGtS32 | SetpGeS32
  | SetpEqF32 | SetpNeF32 | SetpLtF32 | SetpLeF32 | SetpGtF32 | SetpGeF32
  | MovSreg | Bra | Exit | BarSync
  | LdGlobal | StGlobal | LdShared | StShared | LdParam

fun opcode_number :: "Opcode \<Rightarrow> u8" where
  "opcode_number Add = 0x01"
| "opcode_number Sub = 0x02"
| "opcode_number Mul = 0x03"
| "opcode_number Div = 0x04"
| "opcode_number Rem = 0x05"
| "opcode_number Min_op = 0x06"
| "opcode_number Max_op = 0x07"
| "opcode_number Neg = 0x08"
| "opcode_number And = 0x09"
| "opcode_number Or = 0x0A"
| "opcode_number Xor = 0x0B"
| "opcode_number Not_op = 0x0C"
| "opcode_number Shl = 0x0D"
| "opcode_number Shr = 0x0E"
| "opcode_number Sra = 0x0F"
| "opcode_number Mov = 0x10"
| "opcode_number FAdd = 0x11"
| "opcode_number FSub = 0x12"
| "opcode_number FMul = 0x13"
| "opcode_number FFma = 0x14"
| "opcode_number FMin = 0x15"
| "opcode_number FMax = 0x16"
| "opcode_number FNeg = 0x17"
| "opcode_number CvtF32S32 = 0x18"
| "opcode_number CvtS32F32 = 0x19"
| "opcode_number SetpEqS32 = 0x1A"
| "opcode_number SetpNeS32 = 0x1B"
| "opcode_number SetpLtS32 = 0x1C"
| "opcode_number SetpLeS32 = 0x1D"
| "opcode_number SetpGtS32 = 0x1E"
| "opcode_number SetpGeS32 = 0x1F"
| "opcode_number SetpEqF32 = 0x20"
| "opcode_number SetpNeF32 = 0x21"
| "opcode_number SetpLtF32 = 0x22"
| "opcode_number SetpLeF32 = 0x23"
| "opcode_number SetpGtF32 = 0x24"
| "opcode_number SetpGeF32 = 0x25"
| "opcode_number MovSreg = 0x26"
| "opcode_number Bra = 0x27"
| "opcode_number Exit = 0x28"
| "opcode_number BarSync = 0x29"
| "opcode_number LdGlobal = 0x2A"
| "opcode_number StGlobal = 0x2B"
| "opcode_number LdShared = 0x2C"
| "opcode_number StShared = 0x2D"
| "opcode_number LdParam = 0x2E"

section \<open>Operand shapes and the opcode table\<close>

datatype Shape =
    Rrr | Rr | Acc | Prr | Sreg | Bra_shape | None_shape | Ld | St | Ldp

record OpcodeInfo =
  info_opcode :: Opcode
  mnemonic :: string
  shape :: Shape

abbreviation table_row :: "Opcode \<Rightarrow> string \<Rightarrow> Shape \<Rightarrow> OpcodeInfo" where
  "table_row op m s \<equiv> \<lparr>info_opcode = op, mnemonic = m, shape = s\<rparr>"

definition opcode_table :: "OpcodeInfo list" where
  "opcode_table =
    [table_row Add ''add'' Rrr,
     table_row Sub ''sub'' Rrr,
     table_row Mul ''mul'' Rrr,
     table_row Div ''div'' Rrr,
     table_row Rem ''rem'' Rrr,
     table_row Min_op ''min'' Rrr,
     table_row Max_op ''max'' Rrr,
     table_row Neg ''neg'' Rr,
     table_row And ''and'' Rrr,
     table_row Or ''or'' Rrr,
     table_row Xor ''xor'' Rrr,
     table_row Not_op ''not'' Rr,
     table_row Shl ''shl'' Rrr,
     table_row Shr ''shr'' Rrr,
     table_row Sra ''sra'' Rrr,
     table_row Mov ''mov'' Rr,
     table_row FAdd ''fadd'' Rrr,
     table_row FSub ''fsub'' Rrr,
     table_row FMul ''fmul'' Rrr,
     table_row FFma ''ffma'' Acc,
     table_row FMin ''fmin'' Rrr,
     table_row FMax ''fmax'' Rrr,
     table_row FNeg ''fneg'' Rr,
     table_row CvtF32S32 ''cvt.f32.s32'' Rr,
     table_row CvtS32F32 ''cvt.s32.f32'' Rr,
     table_row SetpEqS32 ''setp.eq.s32'' Prr,
     table_row SetpNeS32 ''setp.ne.s32'' Prr,
     table_row SetpLtS32 ''setp.lt.s32'' Prr,
     table_row SetpLeS32 ''setp.le.s32'' Prr,
     table_row SetpGtS32 ''setp.gt.s32'' Prr,
     table_row SetpGeS32 ''setp.ge.s32'' Prr,
     table_row SetpEqF32 ''setp.eq.f32'' Prr,
     table_row SetpNeF32 ''setp.ne.f32'' Prr,
     table_row SetpLtF32 ''setp.lt.f32'' Prr,
     table_row SetpLeF32 ''setp.le.f32'' Prr,
     table_row SetpGtF32 ''setp.gt.f32'' Prr,
     table_row SetpGeF32 ''setp.ge.f32'' Prr,
     table_row MovSreg ''mov.sreg'' Sreg,
     table_row Bra ''bra'' Bra_shape,
     table_row Exit ''exit'' None_shape,
     table_row BarSync ''bar.sync'' None_shape,
     table_row LdGlobal ''ld.global'' Ld,
     table_row StGlobal ''st.global'' St,
     table_row LdShared ''ld.shared'' Ld,
     table_row StShared ''st.shared'' St,
     table_row LdParam ''ld.param'' Ldp]"

text \<open>The three overloads of \<^verbatim>\<open>opcode_info\<close>: by number, by opcode and by mnemonic.\<close>

definition opcode_info_number :: "u8 \<Rightarrow> OpcodeInfo option" where
  "opcode_info_number number = find (\<lambda>e. opcode_number (info_opcode e) = number) opcode_table"

definition opcode_info :: "Opcode \<Rightarrow> OpcodeInfo" where
  "opcode_info opc =
    (case opcode_info_number (opcode_number opc) of
       Some found \<Rightarrow> found
     | None \<Rightarrow> hd opcode_table)"

definition opcode_info_mnemonic :: "string \<Rightarrow> OpcodeInfo option" where
  "opcode_info_mnemonic m = find (\<lambda>e. mnemonic e = m) opcode_table"

section \<open>Special registers\<close>

datatype SpecialRegister =
    TidX | TidY | NtidX | NtidY | CtaidX | CtaidY | NctaidX | NctaidY | LaneId | WarpId

fun special_number :: "SpecialRegister \<Rightarrow> u8" where
  "special_number TidX = 0"
| "special_number TidY = 1"
| "special_number NtidX = 2"
| "special_number NtidY = 3"
| "special_number CtaidX = 4"
| "special_number CtaidY = 5"
| "special_number NctaidX = 6"
| "special_number NctaidY = 7"
| "special_number LaneId = 8"
| "special_number WarpId = 9"

record SpecialRegisterInfo =
  special_reg :: SpecialRegister
  special_name :: string

definition special_register_table :: "SpecialRegisterInfo list" where
  "special_register_table =
    [\<lparr>special_reg = TidX, special_name = ''%tid.x''\<rparr>,
     \<lparr>special_reg = TidY, special_name = ''%tid.y''\<rparr>,
     \<lparr>special_reg = NtidX, special_name = ''%ntid.x''\<rparr>,
     \<lparr>special_reg = NtidY, special_name = ''%ntid.y''\<rparr>,
     \<lparr>special_reg = CtaidX, special_name = ''%ctaid.x''\<rparr>,
     \<lparr>special_reg = CtaidY, special_name = ''%ctaid.y''\<rparr>,
     \<lparr>special_reg = NctaidX, special_name = ''%nctaid.x''\<rparr>,
     \<lparr>special_reg = NctaidY, special_name = ''%nctaid.y''\<rparr>,
     \<lparr>special_reg = LaneId, special_name = ''%laneid''\<rparr>,
     \<lparr>special_reg = WarpId, special_name = ''%warpid''\<rparr>]"

definition special_register_info_name :: "string \<Rightarrow> SpecialRegisterInfo option" where
  "special_register_info_name name = find (\<lambda>e. special_name e = name) special_register_table"

definition special_register_info :: "u8 \<Rightarrow> SpecialRegisterInfo option" where
  "special_register_info index =
    find (\<lambda>e. special_number (special_reg e) = index) special_register_table"

section \<open>The tables are complete and free of duplicates\<close>

lemma length_opcode_table: "length opcode_table = 46"
  by (simp add: opcode_table_def)

lemma table_opcodes:
  "map info_opcode opcode_table =
    [Add, Sub, Mul, Div, Rem, Min_op, Max_op, Neg, And, Or, Xor, Not_op, Shl, Shr, Sra, Mov,
     FAdd, FSub, FMul, FFma, FMin, FMax, FNeg, CvtF32S32, CvtS32F32,
     SetpEqS32, SetpNeS32, SetpLtS32, SetpLeS32, SetpGtS32, SetpGeS32,
     SetpEqF32, SetpNeF32, SetpLtF32, SetpLeF32, SetpGtF32, SetpGeF32,
     MovSreg, Bra, Exit, BarSync, LdGlobal, StGlobal, LdShared, StShared, LdParam]"
  by (simp only: opcode_table_def list.map OpcodeInfo.select_convs)

lemma opcode_in_table: "opc \<in> set (map info_opcode opcode_table)"
  unfolding table_opcodes by (cases opc) simp_all

lemma distinct_opcode_numbers: "distinct (map (\<lambda>e. opcode_number (info_opcode e)) opcode_table)"
proof -
  have "distinct (map opcode_number (map info_opcode opcode_table))"
    unfolding table_opcodes by simp
  then show ?thesis by (simp add: comp_def)
qed

lemma distinct_mnemonics: "distinct (map mnemonic opcode_table)"
  by code_simp

lemma distinct_special_numbers:
  "distinct (map (\<lambda>e. special_number (special_reg e)) special_register_table)"
  by (simp add: special_register_table_def)

lemma distinct_special_names: "distinct (map special_name special_register_table)"
  by (simp add: special_register_table_def)

lemma special_in_table: "\<exists>e \<in> set special_register_table. special_reg e = r"
  by (cases r) (simp_all add: special_register_table_def)

lemma opcode_info_number_opcode:
  "\<exists>e \<in> set opcode_table. opcode_info_number (opcode_number opc) = Some e \<and> info_opcode e = opc"
proof -
  obtain e where e: "e \<in> set opcode_table" "info_opcode e = opc"
    using opcode_in_table [of opc] by auto
  then have "find (\<lambda>x. opcode_number (info_opcode x) = opcode_number (info_opcode e))
      opcode_table = Some e"
    by (intro find_distinct_key [OF distinct_opcode_numbers])
  with e show ?thesis by (auto simp: opcode_info_number_def)
qed

lemma info_opcode_of_info [simp]: "info_opcode (opcode_info opc) = opc"
  using opcode_info_number_opcode [of opc] by (auto simp: opcode_info_def)

lemma opcode_info_number_number [simp]:
  "opcode_info_number (opcode_number opc) = Some (opcode_info opc)"
  using opcode_info_number_opcode [of opc] by (auto simp: opcode_info_def)

lemma opcode_info_number_SomeD:
  assumes "opcode_info_number n = Some e"
  shows "opcode_number (info_opcode e) = n" and "e = opcode_info (info_opcode e)"
proof -
  show n: "opcode_number (info_opcode e) = n"
    using find_SomeD [OF assms [unfolded opcode_info_number_def]] by simp
  from assms show "e = opcode_info (info_opcode e)"
    unfolding n [symmetric] by simp
qed

lemma opcode_number_inj: "opcode_number a = opcode_number b \<longleftrightarrow> a = b"
  by (metis info_opcode_of_info opcode_info_number_number option.inject)

lemma opcode_info_in_table: "opcode_info opc \<in> set opcode_table"
  using opcode_info_number_opcode [of opc] by auto

lemma opcode_info_mnemonic_mnemonic:
  "opcode_info_mnemonic (mnemonic (opcode_info opc)) = Some (opcode_info opc)"
  unfolding opcode_info_mnemonic_def
  by (rule find_distinct_key [OF distinct_mnemonics opcode_info_in_table])

lemma opcode_info_mnemonic_SomeD:
  assumes "opcode_info_mnemonic m = Some e"
  shows "mnemonic e = m" and "e = opcode_info (info_opcode e)"
proof -
  have e: "e \<in> set opcode_table" "mnemonic e = m"
    using find_SomeD [OF assms [unfolded opcode_info_mnemonic_def]] by simp_all
  then show "mnemonic e = m" by simp
  have "find (\<lambda>x. opcode_number (info_opcode x) = opcode_number (info_opcode e))
      opcode_table = Some e"
    by (rule find_distinct_key [OF distinct_opcode_numbers e(1)])
  then show "e = opcode_info (info_opcode e)"
    by (simp add: opcode_info_def opcode_info_number_def)
qed

lemma special_register_info_number:
  "\<exists>e. special_register_info (special_number r) = Some e \<and> special_reg e = r"
  by (cases r) (simp_all add: special_register_info_def special_register_table_def)

lemma special_register_info_iff: "special_register_info n \<noteq> None \<longleftrightarrow> n < 10"
proof
  assume "special_register_info n \<noteq> None"
  then obtain e where "special_register_info n = Some e" by auto
  then have "n = special_number (special_reg e)"
    using find_SomeD by (fastforce simp: special_register_info_def)
  then show "n < 10" by (cases "special_reg e") simp_all
next
  assume "n < 10"
  then have "unat n < 10" by (simp add: word_less_nat_alt)
  then have "unat n \<in> {0,1,2,3,4,5,6,7,8,9}" by auto
  then have "n \<in> of_nat ` {0,1,2,3,4,5,6,7,8,9}"
    by (metis image_eqI unsigned_of_nat word_unat_eq_iff of_nat_unat ucast_id)
  then show "special_register_info n \<noteq> None"
    by (auto simp: special_register_info_def special_register_table_def)
qed

text \<open>The shape of every opcode, as rewrite rules.\<close>

lemma shape_opcode_info [simp]:
  "shape (opcode_info Add) = Rrr" "shape (opcode_info Sub) = Rrr"
  "shape (opcode_info Mul) = Rrr" "shape (opcode_info Div) = Rrr"
  "shape (opcode_info Rem) = Rrr" "shape (opcode_info Min_op) = Rrr"
  "shape (opcode_info Max_op) = Rrr" "shape (opcode_info Neg) = Rr"
  "shape (opcode_info And) = Rrr" "shape (opcode_info Or) = Rrr"
  "shape (opcode_info Xor) = Rrr" "shape (opcode_info Not_op) = Rr"
  "shape (opcode_info Shl) = Rrr" "shape (opcode_info Shr) = Rrr"
  "shape (opcode_info Sra) = Rrr" "shape (opcode_info Mov) = Rr"
  "shape (opcode_info FAdd) = Rrr" "shape (opcode_info FSub) = Rrr"
  "shape (opcode_info FMul) = Rrr" "shape (opcode_info FFma) = Acc"
  "shape (opcode_info FMin) = Rrr" "shape (opcode_info FMax) = Rrr"
  "shape (opcode_info FNeg) = Rr" "shape (opcode_info CvtF32S32) = Rr"
  "shape (opcode_info CvtS32F32) = Rr"
  "shape (opcode_info SetpEqS32) = Prr" "shape (opcode_info SetpNeS32) = Prr"
  "shape (opcode_info SetpLtS32) = Prr" "shape (opcode_info SetpLeS32) = Prr"
  "shape (opcode_info SetpGtS32) = Prr" "shape (opcode_info SetpGeS32) = Prr"
  "shape (opcode_info SetpEqF32) = Prr" "shape (opcode_info SetpNeF32) = Prr"
  "shape (opcode_info SetpLtF32) = Prr" "shape (opcode_info SetpLeF32) = Prr"
  "shape (opcode_info SetpGtF32) = Prr" "shape (opcode_info SetpGeF32) = Prr"
  "shape (opcode_info MovSreg) = Sreg" "shape (opcode_info Bra) = Bra_shape"
  "shape (opcode_info Exit) = None_shape" "shape (opcode_info BarSync) = None_shape"
  "shape (opcode_info LdGlobal) = Ld" "shape (opcode_info StGlobal) = St"
  "shape (opcode_info LdShared) = Ld" "shape (opcode_info StShared) = St"
  "shape (opcode_info LdParam) = Ldp"
  by (simp_all add: opcode_info_def opcode_info_number_def opcode_table_def)

section \<open>Properties\<close>

text \<open>Every opcode is found again by its number and by its mnemonic, so the encoder, the
  decoder, the assembler and the disassembler agree on the instruction table.\<close>

theorem opcode_table_inverse:
  "opcode_info_number (opcode_number opc) = Some (opcode_info opc) \<and>
   opcode_info_mnemonic (mnemonic (opcode_info opc)) = Some (opcode_info opc) \<and>
   info_opcode (opcode_info opc) = opc"
  by (simp add: opcode_info_mnemonic_mnemonic)

end
