(* ===== verification/Isa_Instruction.thy ===== *)
theory Isa_Instruction
  imports Isa_Opcode
begin

text \<open>
  \<^verbatim>\<open>include/warpsim/isa/instruction.hpp\<close> and \<^verbatim>\<open>src/isa/instruction.cpp\<close>: the decoded
  instruction, its validation against the operand shape, and the 64-bit encoding. The lemmas
  characterise the instructions \<^verbatim>\<open>validate\<close> accepts by the rules of
  \<^verbatim>\<open>docs/wisa-spec.md\<close> section 3 and show that \<^verbatim>\<open>encode\<close> and \<^verbatim>\<open>decode\<close> are
  inverse to each other, so that every valid instruction has exactly one encoding.
\<close>

unbundle bit_operations_syntax

section \<open>Instructions\<close>

definition general_register_count :: u8 where "general_register_count = 64"
definition predicate_register_count :: u8 where "predicate_register_count = 8"
definition no_reconvergence :: u16 where "no_reconvergence = 0xFFFF"

record Guard =
  present :: bool
  negate :: bool
  gpred :: u8

record Instruction =
  opcode :: Opcode
  guard :: Guard
  dst :: u8
  src0 :: u8
  src1 :: u8
  imm_flag :: bool
  imm :: u32

text \<open>The default member initialisers of the two structs.\<close>

definition no_guard :: Guard where
  "no_guard = \<lparr>present = False, negate = False, gpred = 0\<rparr>"

definition default_instruction :: Instruction where
  "default_instruction =
    \<lparr>opcode = Exit, guard = no_guard, dst = 0, src0 = 0, src1 = 0, imm_flag = False, imm = 0\<rparr>"

definition branch_target :: "Instruction \<Rightarrow> u16" where
  "branch_target i = ucast (imm i AND 0xFFFF)"

definition reconvergence_pc :: "Instruction \<Rightarrow> u16" where
  "reconvergence_pc i = ucast (drop_bit 16 (imm i))"

definition make_branch_imm :: "u16 \<Rightarrow> u16 \<Rightarrow> u32" where
  "make_branch_imm target reconvergence = push_bit 16 (ucast reconvergence) OR ucast target"

datatype IsaError =
    InvalidOpcode
  | GuardFieldsWithoutGuard
  | UnusedFieldNotZero
  | PredicateOutOfRange
  | SpecialRegisterOutOfRange
  | ImmediateFlagMismatch

fun isa_error_to_string :: "IsaError \<Rightarrow> string" where
  "isa_error_to_string InvalidOpcode = ''invalid opcode''"
| "isa_error_to_string GuardFieldsWithoutGuard = ''guard fields set without a guard''"
| "isa_error_to_string UnusedFieldNotZero = ''unused field is not zero''"
| "isa_error_to_string PredicateOutOfRange = ''predicate register out of range''"
| "isa_error_to_string SpecialRegisterOutOfRange = ''special register index out of range''"
| "isa_error_to_string ImmediateFlagMismatch =
     ''immediate flag does not match the operand shape''"

section \<open>Validation\<close>

record FieldUse =
  use_dst :: bool
  use_src0 :: bool
  use_src1 :: bool
  imm_optional :: bool
  imm_always :: bool
  imm_raw :: bool

abbreviation mk_use :: "bool \<Rightarrow> bool \<Rightarrow> bool \<Rightarrow> bool \<Rightarrow> bool \<Rightarrow> bool \<Rightarrow> FieldUse" where
  "mk_use a b c d e f \<equiv>
    \<lparr>use_dst = a, use_src0 = b, use_src1 = c, imm_optional = d, imm_always = e, imm_raw = f\<rparr>"

fun field_use :: "Shape \<Rightarrow> FieldUse" where
  "field_use Rrr = mk_use True True True True False False"
| "field_use Prr = mk_use True True True True False False"
| "field_use Rr = mk_use True True False True False False"
| "field_use Acc = mk_use True True True False False False"
| "field_use Sreg = mk_use True True False False False False"
| "field_use Bra_shape = mk_use False False False False False True"
| "field_use None_shape = mk_use False False False False False False"
| "field_use Ld = mk_use True True False False True False"
| "field_use St = mk_use False True True False True False"
| "field_use Ldp = mk_use True False False False True False"

definition special_register_count :: u8 where
  "special_register_count = of_nat (length special_register_table)"

text \<open>The immediate rules, the nested conditional in the middle of \<^verbatim>\<open>validate\<close>.\<close>

definition validate_imm :: "Shape \<Rightarrow> Instruction \<Rightarrow> (unit, IsaError) result" where
  "validate_imm sh i =
    (let use = field_use sh in
     if imm_always use then
       (if \<not> imm_flag i then fail ImmediateFlagMismatch else Inr ())
     else if imm_raw use then
       (if imm_flag i then fail ImmediateFlagMismatch else Inr ())
     else if imm_optional use then
       (if imm_flag i then
          (let replaced = (if sh = Rr then src0 i else src1 i)
           in if replaced \<noteq> 0 then fail UnusedFieldNotZero else Inr ())
        else if imm i \<noteq> 0 then fail UnusedFieldNotZero
        else Inr ())
     else
       (if imm_flag i then fail ImmediateFlagMismatch
        else if imm i \<noteq> 0 then fail UnusedFieldNotZero
        else Inr ()))"

definition validate :: "Instruction \<Rightarrow> (unit, IsaError) result" where
  "validate i =
    (case opcode_info_number (opcode_number (opcode i)) of
       None \<Rightarrow> fail InvalidOpcode
     | Some info \<Rightarrow>
       (let g = guard i; use = field_use (shape info) in
        if \<not> present g \<and> (negate g \<or> gpred g \<noteq> 0) then fail GuardFieldsWithoutGuard
        else if gpred g \<ge> predicate_register_count then fail PredicateOutOfRange
        else if dst i \<ge> general_register_count \<or> src0 i \<ge> general_register_count \<or>
                src1 i \<ge> general_register_count then fail UnusedFieldNotZero
        else if \<not> use_dst use \<and> dst i \<noteq> 0 then fail UnusedFieldNotZero
        else if \<not> use_src0 use \<and> src0 i \<noteq> 0 then fail UnusedFieldNotZero
        else if \<not> use_src1 use \<and> src1 i \<noteq> 0 then fail UnusedFieldNotZero
        else
          (case validate_imm (shape info) i of
             Inl e \<Rightarrow> fail e
           | Inr _ \<Rightarrow>
             if shape info = Prr \<and> dst i \<ge> predicate_register_count
             then fail PredicateOutOfRange
             else if shape info = Sreg \<and> src0 i \<ge> special_register_count
             then fail SpecialRegisterOutOfRange
             else Inr ())))"

section \<open>Encoding and decoding\<close>

definition opcode_shift :: nat where "opcode_shift = 56"
definition guard_shift :: nat where "guard_shift = 55"
definition negate_shift :: nat where "negate_shift = 54"
definition pred_shift :: nat where "pred_shift = 51"
definition dst_shift :: nat where "dst_shift = 45"
definition src0_shift :: nat where "src0_shift = 39"
definition src1_shift :: nat where "src1_shift = 33"
definition imm_flag_shift :: nat where "imm_flag_shift = 32"

definition mask8 :: u64 where "mask8 = 0xFF"
definition mask6 :: u64 where "mask6 = 0x3F"
definition mask3 :: u64 where "mask3 = 0x7"
definition mask1 :: u64 where "mask1 = 0x1"
definition mask32 :: u64 where "mask32 = 0xFFFFFFFF"

definition encode_word :: "Instruction \<Rightarrow> u64" where
  "encode_word i =
    (let word = 0;
         word = word OR push_bit opcode_shift (ucast (opcode_number (opcode i)));
         word = word OR push_bit guard_shift (of_bool (present (guard i)));
         word = word OR push_bit negate_shift (of_bool (negate (guard i)));
         word = word OR push_bit pred_shift (ucast (gpred (guard i)));
         word = word OR push_bit dst_shift (ucast (dst i));
         word = word OR push_bit src0_shift (ucast (src0 i));
         word = word OR push_bit src1_shift (ucast (src1 i));
         word = word OR push_bit imm_flag_shift (of_bool (imm_flag i));
         word = word OR ucast (imm i)
     in word)"

definition encode :: "Instruction \<Rightarrow> (u64, IsaError) result" where
  "encode i =
    (case validate i of
       Inl e \<Rightarrow> fail e
     | Inr _ \<Rightarrow> Inr (encode_word i))"

definition decode_fields :: "Opcode \<Rightarrow> u64 \<Rightarrow> Instruction" where
  "decode_fields opc word =
    \<lparr>opcode = opc,
     guard = \<lparr>present = (drop_bit guard_shift word AND mask1) \<noteq> 0,
              negate = (drop_bit negate_shift word AND mask1) \<noteq> 0,
              gpred = ucast (drop_bit pred_shift word AND mask3)\<rparr>,
     dst = ucast (drop_bit dst_shift word AND mask6),
     src0 = ucast (drop_bit src0_shift word AND mask6),
     src1 = ucast (drop_bit src1_shift word AND mask6),
     imm_flag = (drop_bit imm_flag_shift word AND mask1) \<noteq> 0,
     imm = ucast (word AND mask32)\<rparr>"

definition decode :: "u64 \<Rightarrow> (Instruction, IsaError) result" where
  "decode word =
    (let number = ucast (drop_bit opcode_shift word AND mask8) in
     case opcode_info_number number of
       None \<Rightarrow> fail InvalidOpcode
     | Some info \<Rightarrow>
        (let instruction = decode_fields (info_opcode info) word in
         case validate instruction of
           Inl e \<Rightarrow> fail e
         | Inr _ \<Rightarrow> Inr instruction))"

section \<open>What validation accepts\<close>

text \<open>
  The encoding rules of \<^verbatim>\<open>docs/wisa-spec.md\<close> section 3, stated without the control flow of
  the code: a guard is either present or all zero, every field fits its width, and each shape
  fixes the fields it does not use.
\<close>

definition guard_ok :: "Guard \<Rightarrow> bool" where
  "guard_ok g \<longleftrightarrow> gpred g < 8 \<and> (present g \<or> \<not> negate g \<and> gpred g = 0)"

fun operands_ok :: "Shape \<Rightarrow> Instruction \<Rightarrow> bool" where
  "operands_ok Rrr i \<longleftrightarrow> (if imm_flag i then src1 i = 0 else imm i = 0)"
| "operands_ok Rr i \<longleftrightarrow> src1 i = 0 \<and> (if imm_flag i then src0 i = 0 else imm i = 0)"
| "operands_ok Acc i \<longleftrightarrow> \<not> imm_flag i \<and> imm i = 0"
| "operands_ok Prr i \<longleftrightarrow> dst i < 8 \<and> (if imm_flag i then src1 i = 0 else imm i = 0)"
| "operands_ok Sreg i \<longleftrightarrow> src0 i < 10 \<and> src1 i = 0 \<and> \<not> imm_flag i \<and> imm i = 0"
| "operands_ok Bra_shape i \<longleftrightarrow> dst i = 0 \<and> src0 i = 0 \<and> src1 i = 0 \<and> \<not> imm_flag i"
| "operands_ok None_shape i \<longleftrightarrow>
     dst i = 0 \<and> src0 i = 0 \<and> src1 i = 0 \<and> \<not> imm_flag i \<and> imm i = 0"
| "operands_ok Ld i \<longleftrightarrow> src1 i = 0 \<and> imm_flag i"
| "operands_ok St i \<longleftrightarrow> dst i = 0 \<and> imm_flag i"
| "operands_ok Ldp i \<longleftrightarrow> src0 i = 0 \<and> src1 i = 0 \<and> imm_flag i"

definition valid_instruction :: "Instruction \<Rightarrow> bool" where
  "valid_instruction i \<longleftrightarrow>
     guard_ok (guard i) \<and> dst i < 64 \<and> src0 i < 64 \<and> src1 i < 64 \<and>
     operands_ok (shape (opcode_info (opcode i))) i"

lemma special_register_count_10: "special_register_count = 10"
  by (simp add: special_register_count_def special_register_table_def)

lemma validate_imm_iff:
  "validate_imm sh i = Inr () \<longleftrightarrow>
    (if imm_always (field_use sh) then imm_flag i
     else if imm_raw (field_use sh) then \<not> imm_flag i
     else if imm_optional (field_use sh) then
       (if imm_flag i then (if sh = Rr then src0 i else src1 i) = 0 else imm i = 0)
     else \<not> imm_flag i \<and> imm i = 0)"
  by (simp add: validate_imm_def Let_def)

lemma validate_iff: "validate i = Inr () \<longleftrightarrow> valid_instruction i"
proof -
  have "validate i = Inr () \<longleftrightarrow>
      (\<not> (\<not> present (guard i) \<and> (negate (guard i) \<or> gpred (guard i) \<noteq> 0)) \<and>
       gpred (guard i) < 8 \<and> dst i < 64 \<and> src0 i < 64 \<and> src1 i < 64 \<and>
       (let sh = shape (opcode_info (opcode i)); use = field_use sh in
        (use_dst use \<or> dst i = 0) \<and> (use_src0 use \<or> src0 i = 0) \<and>
        (use_src1 use \<or> src1 i = 0) \<and> validate_imm sh i = Inr () \<and>
        (sh = Prr \<longrightarrow> dst i < 8) \<and> (sh = Sreg \<longrightarrow> src0 i < 10)))"
    by (simp add: validate_def Let_def special_register_count_10
        predicate_register_count_def general_register_count_def not_le)
  then show ?thesis
    unfolding valid_instruction_def guard_ok_def
    by (cases "shape (opcode_info (opcode i))") (auto simp: validate_imm_iff Let_def)
qed

section \<open>Round trips\<close>

lemmas shift_defs =
  opcode_shift_def guard_shift_def negate_shift_def pred_shift_def dst_shift_def
  src0_shift_def src1_shift_def imm_flag_shift_def

lemma mask_words:
  "mask8 = mask 8" "mask6 = mask 6" "mask3 = mask 3" "mask1 = mask 1" "mask32 = mask 32"
  by (simp_all add: mask8_def mask6_def mask3_def mask1_def mask32_def mask_eq_exp_minus_1)

lemma six_bit_field: "(w :: u8) < 64 \<Longrightarrow> bit w k \<Longrightarrow> k < 6"
  by (rule bit_less_exp [of w 6]) (simp_all add: word_less_nat_alt)

lemma three_bit_field: "(w :: u8) < 8 \<Longrightarrow> bit w k \<Longrightarrow> k < 3"
  by (rule bit_less_exp [of w 3]) (simp_all add: word_less_nat_alt)

text \<open>The bits of the encoded word: each field in its own range.\<close>

lemma bit_encode_word:
  assumes "gpred (guard i) < 8" "dst i < 64" "src0 i < 64" "src1 i < 64"
  shows "bit (encode_word i) n \<longleftrightarrow>
    (if n < 32 then bit (imm i) n
     else if n = 32 then imm_flag i
     else if n < 39 then bit (src1 i) (n - 33)
     else if n < 45 then bit (src0 i) (n - 39)
     else if n < 51 then bit (dst i) (n - 45)
     else if n < 54 then bit (gpred (guard i)) (n - 51)
     else if n = 54 then negate (guard i)
     else if n = 55 then present (guard i)
     else bit (opcode_number (opcode i)) (n - 56))"
proof -
  have b: "3 \<le> k \<Longrightarrow> \<not> bit (gpred (guard i)) k" "6 \<le> k \<Longrightarrow> \<not> bit (dst i) k"
    "6 \<le> k \<Longrightarrow> \<not> bit (src0 i) k" "6 \<le> k \<Longrightarrow> \<not> bit (src1 i) k" for k
    using three_bit_field [OF assms(1)] six_bit_field [OF assms(2)]
      six_bit_field [OF assms(3)] six_bit_field [OF assms(4)] by (metis not_le)+
  have c: "8 \<le> k \<Longrightarrow> \<not> bit (opcode_number (opcode i)) k" "32 \<le> k \<Longrightarrow> \<not> bit (imm i) k" for k
    using bit_imp_le_length by fastforce+
  have w: "bit (encode_word i) n \<longleftrightarrow>
      (56 \<le> n \<and> bit (opcode_number (opcode i)) (n - 56)) \<or>
      (n = 55 \<and> present (guard i)) \<or> (n = 54 \<and> negate (guard i)) \<or>
      (51 \<le> n \<and> bit (gpred (guard i)) (n - 51)) \<or> (45 \<le> n \<and> bit (dst i) (n - 45)) \<or>
      (39 \<le> n \<and> bit (src0 i) (n - 39)) \<or> (33 \<le> n \<and> bit (src1 i) (n - 33)) \<or>
      (n = 32 \<and> imm_flag i) \<or> bit (imm i) n"
  proof (cases "n < 64")
    case True
    have at: "k \<le> n \<and> P \<and> n \<le> k \<longleftrightarrow> n = k \<and> P" for k P
      by auto
    have "n - k < 64" for k
      using True by simp
    with True show ?thesis
      by (simp add: encode_word_def shift_defs Let_def bit_or_iff bit_push_bit_iff
          bit_unsigned_iff bit_of_bool_word disj_assoc at)
  next
    case False
    then have "\<not> bit (encode_word i) n"
      using bit_imp_le_length [of "encode_word i" n] by auto
    with False show ?thesis by (simp add: b c)
  qed
  consider "n < 32" | "n = 32" | "33 \<le> n" "n < 39" | "39 \<le> n" "n < 45" | "45 \<le> n" "n < 51"
    | "51 \<le> n" "n < 54" | "n = 54" | "n = 55" | "56 \<le> n"
    by linarith
  then show ?thesis
    unfolding w by cases (simp_all add: b c)
qed

lemma masked_flag: "(drop_bit k word AND mask1) \<noteq> 0 \<longleftrightarrow> bit word k"
  by (simp add: mask1_def and_one_eq bit_iff_odd_drop_bit odd_iff_mod_2_eq_one)

lemma decode_fields_encode_word:
  assumes "gpred (guard i) < 8" "dst i < 64" "src0 i < 64" "src1 i < 64"
  shows "decode_fields (opcode i) (encode_word i) = i"
    and "ucast (drop_bit opcode_shift (encode_word i) AND mask8) = opcode_number (opcode i)"
proof -
  note bits = bit_encode_word [OF assms]
  note flag = masked_flag
  note hi = three_bit_field [OF assms(1)] six_bit_field [OF assms(2)]
    six_bit_field [OF assms(3)] six_bit_field [OF assms(4)]
  have "dst (decode_fields (opcode i) (encode_word i)) = dst i"
    "src0 (decode_fields (opcode i) (encode_word i)) = src0 i"
    "src1 (decode_fields (opcode i) (encode_word i)) = src1 i"
    "gpred (guard (decode_fields (opcode i) (encode_word i))) = gpred (guard i)"
    "imm (decode_fields (opcode i) (encode_word i)) = imm i"
    by (auto intro!: bit_word_eqI simp: decode_fields_def mask_words shift_defs bit_simps bits
        dest: hi)
  moreover have "present (guard (decode_fields (opcode i) (encode_word i))) = present (guard i)"
    "negate (guard (decode_fields (opcode i) (encode_word i))) = negate (guard i)"
    "imm_flag (decode_fields (opcode i) (encode_word i)) = imm_flag i"
    by (simp_all add: decode_fields_def flag shift_defs bits)
  moreover have "opcode (decode_fields (opcode i) (encode_word i)) = opcode i"
    by (simp add: decode_fields_def)
  ultimately show "decode_fields (opcode i) (encode_word i) = i"
    by simp
  show "ucast (drop_bit opcode_shift (encode_word i) AND mask8) = opcode_number (opcode i)"
    by (auto intro!: bit_word_eqI simp: mask_words shift_defs bit_simps bits)
qed

lemma decode_fields_ranges:
  "gpred (guard (decode_fields opc word)) < 8" "dst (decode_fields opc word) < 64"
  "src0 (decode_fields opc word) < 64" "src1 (decode_fields opc word) < 64"
  using ucast_masked_less [where ?'b = 8, of "drop_bit pred_shift word" 3]
    ucast_masked_less [where ?'b = 8, of "drop_bit dst_shift word" 6]
    ucast_masked_less [where ?'b = 8, of "drop_bit src0_shift word" 6]
    ucast_masked_less [where ?'b = 8, of "drop_bit src1_shift word" 6]
  by (simp_all add: decode_fields_def mask_words word_less_nat_alt)

lemma encode_word_decode_fields:
  assumes "opcode_number opc = ucast (drop_bit opcode_shift word AND mask8)"
  shows "encode_word (decode_fields opc word) = word"
proof (rule bit_word_eqI)
  fix n
  let ?i = "decode_fields opc word"
  assume "n < LENGTH(64)"
  then show "bit (encode_word ?i) n \<longleftrightarrow> bit word n"
    unfolding bit_encode_word [OF decode_fields_ranges, of opc word n]
    by (auto simp: decode_fields_def mask_words(1-3,5) shift_defs bit_simps assms masked_flag)
qed

lemma valid_instruction_ranges:
  assumes "valid_instruction i"
  shows "gpred (guard i) < 8" "dst i < 64" "src0 i < 64" "src1 i < 64"
  using assms by (simp_all add: valid_instruction_def guard_ok_def)

lemma encode_eq_Inr_iff: "encode i = Inr w \<longleftrightarrow> valid_instruction i \<and> encode_word i = w"
  by (simp add: encode_def validate_iff)

lemma decode_eq_Inr_iff:
  "decode w = Inr i \<longleftrightarrow>
    opcode_info_number (ucast (drop_bit opcode_shift w AND mask8)) = Some (opcode_info (opcode i)) \<and>
    decode_fields (opcode i) w = i \<and> valid_instruction i"
proof (cases "opcode_info_number (ucast (drop_bit opcode_shift w AND mask8))")
  case None
  then show ?thesis by (simp add: decode_def Let_def)
next
  case (Some e)
  have "opcode (decode_fields opc w) = opc" for opc
    by (simp add: decode_fields_def)
  with Some opcode_info_number_SomeD(2) [OF Some] show ?thesis
    by (auto simp: decode_def Let_def validate_iff)
qed

lemma encode_imp_decode:
  assumes "encode i = Inr w"
  shows "decode w = Inr i"
proof -
  have v: "valid_instruction i" and w: "w = encode_word i"
    using assms by (simp_all add: encode_eq_Inr_iff)
  show ?thesis
    unfolding decode_eq_Inr_iff w
    using v decode_fields_encode_word [OF valid_instruction_ranges [OF v]] by simp
qed

lemma decode_imp_encode:
  assumes "decode w = Inr i"
  shows "encode i = Inr w"
proof -
  have n: "opcode_info_number (ucast (drop_bit opcode_shift w AND mask8)) =
      Some (opcode_info (opcode i))"
    and i: "decode_fields (opcode i) w = i" and v: "valid_instruction i"
    using assms by (simp_all add: decode_eq_Inr_iff)
  have "opcode_number (opcode i) = ucast (drop_bit opcode_shift w AND mask8)"
    using opcode_info_number_SomeD(1) [OF n] by simp
  then have "encode_word (decode_fields (opcode i) w) = w"
    by (rule encode_word_decode_fields)
  with i v show ?thesis by (simp add: encode_eq_Inr_iff)
qed

text \<open>The facts about a decoded instruction that the rest of the program relies on.\<close>

lemma decode_valid: "decode w = Inr i \<Longrightarrow> valid_instruction i"
  by (simp add: decode_eq_Inr_iff)

lemma decode_word_inj: "decode w = Inr i \<Longrightarrow> decode w' = Inr i \<Longrightarrow> w = w'"
  by (metis decode_imp_encode Inr_inject)

lemma opcode_info_number_None_iff:
  "opcode_info_number n = None \<longleftrightarrow> n = 0 \<or> n > 0x2E"
proof
  assume none: "opcode_info_number n = None"
  show "n = 0 \<or> n > 0x2E"
  proof (rule ccontr)
    assume "\<not> (n = 0 \<or> n > 0x2E)"
    then have "unat n \<in> {1..<47}"
      by (auto simp: not_less word_le_nat_alt Suc_le_eq unat_gt_0)
    moreover have "(\<lambda>opc. unat (opcode_number opc)) ` set (map info_opcode opcode_table) = {1..<47}"
      unfolding table_opcodes by (simp add: atLeastLessThan_nat_numeral insert_commute)
    ultimately obtain opc where "unat n = unat (opcode_number opc)"
      by (metis (no_types, lifting) imageE)
    then have "n = opcode_number opc" by (rule unsigned_word_eqI)
    with none show False by simp
  qed
next
  assume out: "n = 0 \<or> n > 0x2E"
  show "opcode_info_number n = None"
  proof (rule ccontr)
    assume "opcode_info_number n \<noteq> None"
    then obtain e where "opcode_info_number n = Some e" by auto
    then have "n = opcode_number (info_opcode e)"
      by (simp add: opcode_info_number_SomeD)
    with out show False by (cases "info_opcode e") simp_all
  qed
qed

section \<open>Branch immediates\<close>

lemma branch_imm_parts [simp]:
  "ucast (make_branch_imm t r AND 0xFFFF) = t"
  "ucast (drop_bit 16 (make_branch_imm t r)) = r"
proof -
  have m: "(0xFFFF :: u32) = mask 16" by (simp add: mask_eq_exp_minus_1)
  show "ucast (make_branch_imm t r AND 0xFFFF) = t"
    by (rule bit_word_eqI) (auto simp: make_branch_imm_def m bit_simps)
  show "ucast (drop_bit 16 (make_branch_imm t r)) = r"
    by (rule bit_word_eqI) (auto simp: make_branch_imm_def bit_simps dest: bit_imp_le_length)
qed

lemma branch_target_make [simp]: "branch_target (i\<lparr>imm := make_branch_imm t r\<rparr>) = t"
  by (simp add: branch_target_def)

lemma reconvergence_pc_make [simp]: "reconvergence_pc (i\<lparr>imm := make_branch_imm t r\<rparr>) = r"
  by (simp add: reconvergence_pc_def)

lemma make_branch_imm_surj: "make_branch_imm (branch_target i) (reconvergence_pc i) = imm i"
proof -
  have m: "(0xFFFF :: u32) = mask 16" by (simp add: mask_eq_exp_minus_1)
  show ?thesis
    by (rule bit_word_eqI)
       (auto simp: make_branch_imm_def branch_target_def reconvergence_pc_def m bit_simps)
qed

section \<open>Properties\<close>

text \<open>C18: encoding and decoding are inverse to each other: a word decodes to an instruction
  exactly when the instruction encodes to the word. So each instruction has one encoding and the
  decoder rejects every other word.\<close>

theorem encode_decode_inverse: "encode i = Inr w \<longleftrightarrow> decode w = Inr i"
  using encode_imp_decode decode_imp_encode by blast

text \<open>C30: the encoder accepts exactly the instructions the specification allows: guard and
  operand fields in range, unused fields zero, the immediate flag as the shape demands.\<close>

theorem encode_accepts_valid: "has_value (encode i) \<longleftrightarrow> valid_instruction i"
  by (cases "encode i") (auto simp: encode_def fail_def validate_iff [symmetric] split: sum.splits)

text \<open>Every register an accepted word names is in range, which is the bound the accessors of
  the register file assert.\<close>

theorem decoded_registers_in_range:
  "decode w = Inr i \<Longrightarrow> dst i < 64 \<and> src0 i < 64 \<and> src1 i < 64 \<and> gpred (guard i) < 8"
  using valid_instruction_ranges [OF decode_valid] by blast

lemma exit_word:
  "encode (default_instruction\<lparr>opcode := Exit\<rparr>) =
    Inr (encode_word (default_instruction\<lparr>opcode := Exit\<rparr>))"
  by (simp add: encode_eq_Inr_iff valid_instruction_def guard_ok_def default_instruction_def no_guard_def)

theorem decoded_registers_in_range_witness:
  "dst (default_instruction\<lparr>opcode := Exit\<rparr>) < 64 \<and>
   src0 (default_instruction\<lparr>opcode := Exit\<rparr>) < 64 \<and>
   src1 (default_instruction\<lparr>opcode := Exit\<rparr>) < 64 \<and>
   gpred (guard (default_instruction\<lparr>opcode := Exit\<rparr>)) < 8"
  by (rule decoded_registers_in_range [OF encode_imp_decode [OF exit_word]])

end
