(* ===== verification/Lane_Types.thy ===== *)
theory Lane_Types
  imports Isa_Instruction
begin

text \<open>
  \<^verbatim>\<open>include/warpsim/core/types.hpp\<close>, \<^verbatim>\<open>register_file.hpp\<close> and
  \<^verbatim>\<open>lane_context.hpp\<close>: lane masks, the two-dimensional launch geometry, the register file
  of a warp and the special registers a lane reads. A mask is read as a set of lanes by
  \<open>lanes_of\<close>; the lemmas turn the bit operations of the code into set operations, which is
  how the warp theories reason about masks.
\<close>

unbundle bit_operations_syntax

section \<open>Lane masks\<close>

definition warp_size :: nat where "warp_size = 32"

type_synonym LaneMask = u32

definition full_mask :: LaneMask where "full_mask = 0xFFFFFFFF"

definition lane_bit :: "nat \<Rightarrow> LaneMask" where
  "lane_bit lane = push_bit lane 1"

definition has_lane :: "LaneMask \<Rightarrow> nat \<Rightarrow> bool" where
  "has_lane m lane \<longleftrightarrow> (m AND lane_bit lane) \<noteq> 0"

text \<open>\<^verbatim>\<open>std::popcount\<close> counts the set bits of the 32-bit mask.\<close>

definition lane_count :: "LaneMask \<Rightarrow> nat" where
  "lane_count m = length (filter (has_lane m) [0..<warp_size])"

definition lanes_of :: "LaneMask \<Rightarrow> nat set" where
  "lanes_of m = {lane. lane < warp_size \<and> has_lane m lane}"

lemma bit_lane_bit: "bit (lane_bit lane) n \<longleftrightarrow> n = lane \<and> n < 32"
  by (auto simp: lane_bit_def bit_simps)

lemma has_lane_bit: "lane < 32 \<Longrightarrow> has_lane m lane \<longleftrightarrow> bit m lane"
proof -
  assume "lane < 32"
  then have "bit (m AND lane_bit lane) n \<longleftrightarrow> n = lane \<and> bit m lane" for n
    by (auto simp: bit_and_iff bit_lane_bit)
  then show ?thesis
    unfolding has_lane_def by (metis bit_0_eq bot_apply bot_bool_def bit_word_eqI)
qed

lemma has_lane_simps [simp]:
  "\<not> has_lane 0 lane"
  "lane < 32 \<Longrightarrow> has_lane full_mask lane"
  "lane < 32 \<Longrightarrow> has_lane (a AND b) lane \<longleftrightarrow> has_lane a lane \<and> has_lane b lane"
  "lane < 32 \<Longrightarrow> has_lane (a OR b) lane \<longleftrightarrow> has_lane a lane \<or> has_lane b lane"
  "lane < 32 \<Longrightarrow> has_lane (NOT a) lane \<longleftrightarrow> \<not> has_lane a lane"
  "lane < 32 \<Longrightarrow> has_lane (lane_bit k) lane \<longleftrightarrow> k = lane"
proof -
  show "\<not> has_lane 0 lane" by (simp add: has_lane_def)
  have all: "full_mask = -1" by (simp add: full_mask_def)
  show "lane < 32 \<Longrightarrow> has_lane full_mask lane"
    unfolding all by (simp add: has_lane_bit)
qed (auto simp: has_lane_bit bit_simps bit_lane_bit)

lemma mask_eqI: "(\<And>lane. lane < 32 \<Longrightarrow> has_lane a lane = has_lane b lane) \<Longrightarrow> a = b"
  by (rule bit_word_eqI) (simp add: has_lane_bit)

lemma lanes_of_simps [simp]:
  "lanes_of 0 = {}"
  "lanes_of full_mask = {..<32}"
  "lanes_of (a AND b) = lanes_of a \<inter> lanes_of b"
  "lanes_of (a OR b) = lanes_of a \<union> lanes_of b"
  "lanes_of (a AND NOT b) = lanes_of a - lanes_of b"
  by (auto simp: lanes_of_def warp_size_def)

lemma finite_lanes_of [simp]: "finite (lanes_of m)"
  by (simp add: lanes_of_def)

lemma lanes_of_lt: "lane \<in> lanes_of m \<Longrightarrow> lane < 32"
  by (simp add: lanes_of_def warp_size_def)

lemma lanes_of_inject [simp]: "lanes_of a = lanes_of b \<longleftrightarrow> a = b"
  by (auto intro!: mask_eqI simp: lanes_of_def warp_size_def set_eq_iff)

lemma lanes_of_empty_iff [simp]: "lanes_of m = {} \<longleftrightarrow> m = 0"
  using lanes_of_inject [of m 0] by simp

lemma mask_and_eq_0_iff: "a AND b = 0 \<longleftrightarrow> lanes_of a \<inter> lanes_of b = {}"
  by (metis lanes_of_empty_iff lanes_of_simps(3))

lemma lane_count_card: "lane_count m = card (lanes_of m)"
proof -
  have "lanes_of m = set (filter (has_lane m) [0..<warp_size])"
    by (auto simp: lanes_of_def)
  moreover have "distinct (filter (has_lane m) [0..<warp_size])" by simp
  ultimately show ?thesis
    unfolding lane_count_def by (metis distinct_card)
qed

lemma lane_count_le: "lane_count m \<le> 32"
  using length_filter_le [of "has_lane m" "[0..<warp_size]"]
  by (simp add: lane_count_def warp_size_def)

lemma lane_count_0_iff [simp]: "lane_count m = 0 \<longleftrightarrow> m = 0"
  by (simp add: lane_count_card)

text \<open>The mask of the first \<open>k\<close> lanes, as \<^verbatim>\<open>run_block\<close> builds it for a ragged warp.\<close>

lemma lanes_of_low_lanes: "k < 32 \<Longrightarrow> lanes_of (lane_bit k - 1) = {..<k}"
proof -
  assume k: "k < 32"
  have "lane_bit k - 1 = mask k"
    by (simp add: lane_bit_def mask_eq_exp_minus_1 push_bit_eq_mult)
  with k show ?thesis
    by (auto simp: lanes_of_def warp_size_def has_lane_bit bit_mask_iff)
qed

section \<open>Launch geometry\<close>

record Dim2 =
  dim_x :: u32
  dim_y :: u32

text \<open>\<^verbatim>\<open>Dim2::count\<close> multiplies on 32 bits, so the product wraps.\<close>

definition dim_count :: "Dim2 \<Rightarrow> u32" where
  "dim_count d = dim_x d * dim_y d"

section \<open>The register file\<close>

text \<open>
  The two arrays of the class, indexed by lane and register. The indices are in range on every
  path: lanes are below \<open>warp_size\<close> and \<open>decode_valid\<close> bounds the register fields, so
  the asserted bounds of the accessors hold and the arrays are total functions here.
\<close>

record RegisterFile =
  general :: "nat \<Rightarrow> u8 \<Rightarrow> u32"
  predicates :: "nat \<Rightarrow> u8 \<Rightarrow> bool"

definition empty_register_file :: RegisterFile where
  "empty_register_file = \<lparr>general = (\<lambda>_ _. 0), predicates = (\<lambda>_ _. False)\<rparr>"

definition read_reg :: "RegisterFile \<Rightarrow> nat \<Rightarrow> u8 \<Rightarrow> u32" where
  "read_reg rf lane reg = general rf lane reg"

definition write_reg :: "nat \<Rightarrow> u8 \<Rightarrow> u32 \<Rightarrow> RegisterFile \<Rightarrow> RegisterFile" where
  "write_reg lane reg v rf =
    rf\<lparr>general := (general rf)(lane := (general rf lane)(reg := v))\<rparr>"

definition read_pred :: "RegisterFile \<Rightarrow> nat \<Rightarrow> u8 \<Rightarrow> bool" where
  "read_pred rf lane p = predicates rf lane p"

definition write_pred :: "nat \<Rightarrow> u8 \<Rightarrow> bool \<Rightarrow> RegisterFile \<Rightarrow> RegisterFile" where
  "write_pred lane p v rf =
    rf\<lparr>predicates := (predicates rf)(lane := (predicates rf lane)(p := v))\<rparr>"

text \<open>
  A bank of cells per lane: what a client of the register file relies on. Both halves of the
  register file are such banks, and neither touches the other.
\<close>

locale lane_bank =
  fixes get :: "'s \<Rightarrow> nat \<Rightarrow> u8 \<Rightarrow> 'v"
    and put :: "nat \<Rightarrow> u8 \<Rightarrow> 'v \<Rightarrow> 's \<Rightarrow> 's"
  assumes get_put: "get (put l r v s) l' r' = (if l' = l \<and> r' = r then v else get s l' r')"
begin

lemma get_put_same [simp]: "get (put l r v s) l r = v"
  by (simp add: get_put)

lemma get_put_other_lane [simp]: "l' \<noteq> l \<Longrightarrow> get (put l r v s) l' r' = get s l' r'"
  by (simp add: get_put)

text \<open>
  A loop over lanes that writes one cell per lane, computed from the state the loop started
  with, leaves every other cell alone.
\<close>

lemma get_fold_put:
  assumes "distinct ls"
  shows "get (fold (\<lambda>l. put l r (f l)) ls s) l' r' =
    (if l' \<in> set ls \<and> r' = r then f l' else get s l' r')"
  using assms by (induction ls arbitrary: s) (auto simp: get_put)

end

interpretation greg: lane_bank read_reg write_reg
  by unfold_locales (simp add: read_reg_def write_reg_def)

interpretation preg: lane_bank read_pred write_pred
  by unfold_locales (simp add: read_pred_def write_pred_def)

lemma bank_independent [simp]:
  "read_pred (write_reg l r v rf) = read_pred rf"
  "read_reg (write_pred l p b rf) = read_reg rf"
  by (simp_all add: read_pred_def write_reg_def read_reg_def write_pred_def fun_eq_iff)

lemma register_file_eqI:
  "read_reg a = read_reg b \<Longrightarrow> read_pred a = read_pred b \<Longrightarrow> a = b"
  by (cases a; cases b) (simp add: read_reg_def read_pred_def fun_eq_iff)

text \<open>The cells of one lane, and the property that makes a loop over lanes a lockstep
  operation: the body for a lane reads and writes the cells of that lane only. Then the order
  of the lanes does not matter and every lane sees the state the loop started with.\<close>

definition lane_view :: "RegisterFile \<Rightarrow> nat \<Rightarrow> (u8 \<Rightarrow> u32) \<times> (u8 \<Rightarrow> bool)" where
  "lane_view rf lane = (read_reg rf lane, read_pred rf lane)"

locale lockstep =
  fixes view :: "'s \<Rightarrow> nat \<Rightarrow> 'v"
    and body :: "nat \<Rightarrow> 's \<Rightarrow> 's"
  assumes writes_own: "l' \<noteq> l \<Longrightarrow> view (body l s) l' = view s l'"
    and reads_own: "view s l = view t l \<Longrightarrow> view (body l s) l = view (body l t) l"
begin

lemma fold_view:
  assumes "distinct ls"
  shows "view (fold body ls s) l = (if l \<in> set ls then view (body l s) l else view s l)"
  using assms
proof (induction ls arbitrary: s)
  case Nil
  then show ?case by simp
next
  case (Cons k ls)
  then have IH: "view (fold body ls (body k s)) l =
      (if l \<in> set ls then view (body l (body k s)) l else view (body k s) l)"
    by simp
  show ?case
  proof (cases "l = k")
    case True
    with Cons.prems IH show ?thesis by simp
  next
    case False
    then have "view (body l (body k s)) l = view (body l s) l"
      by (intro reads_own writes_own)
    with False IH show ?thesis by (simp add: writes_own)
  qed
qed

end

lemma lane_view_write [simp]:
  "lane_view (write_reg l r v rf) l' =
    (if l' = l then ((read_reg rf l)(r := v), read_pred rf l) else lane_view rf l')"
  "lane_view (write_pred l p b rf) l' =
    (if l' = l then (read_reg rf l, (read_pred rf l)(p := b)) else lane_view rf l')"
  by (auto simp: lane_view_def fun_eq_iff greg.get_put preg.get_put)

section \<open>Special registers of a lane\<close>

record LaneContext =
  ntid :: Dim2
  nctaid :: Dim2
  ctaid :: Dim2
  warp_id :: u32

definition linear_index :: "LaneContext \<Rightarrow> nat \<Rightarrow> u32" where
  "linear_index ctx lane = warp_id ctx * of_nat warp_size + of_nat lane"

fun special :: "LaneContext \<Rightarrow> SpecialRegister \<Rightarrow> nat \<Rightarrow> u32" where
  "special ctx TidX lane = linear_index ctx lane mod dim_x (ntid ctx)"
| "special ctx TidY lane = linear_index ctx lane div dim_x (ntid ctx)"
| "special ctx NtidX lane = dim_x (ntid ctx)"
| "special ctx NtidY lane = dim_y (ntid ctx)"
| "special ctx CtaidX lane = dim_x (ctaid ctx)"
| "special ctx CtaidY lane = dim_y (ctaid ctx)"
| "special ctx NctaidX lane = dim_x (nctaid ctx)"
| "special ctx NctaidY lane = dim_y (nctaid ctx)"
| "special ctx LaneId lane = of_nat lane"
| "special ctx WarpId lane = warp_id ctx"

text \<open>
  \<^verbatim>\<open>%tid.y * %ntid.x + %tid.x\<close> is the linear index of the lane in its block, and
  \<^verbatim>\<open>%tid.x\<close> is below \<^verbatim>\<open>%ntid.x\<close>: the linearisation of section 1 of the
  specification.
\<close>

lemma tid_linearises:
  "special ctx TidY lane * special ctx NtidX lane + special ctx TidX lane = linear_index ctx lane"
  by (simp add: word_arith_nat_div word_arith_nat_mod) (metis div_mult_mod_eq word_arith_nat_div word_arith_nat_mod word_mod_def)

lemma tid_x_bound:
  "dim_x (ntid ctx) \<noteq> 0 \<Longrightarrow> special ctx TidX lane < special ctx NtidX lane"
  by (simp add: word_less_nat_alt unat_mod_distrib unat_gt_0)

section \<open>Properties\<close>

text \<open>The two-dimensional index a lane reads is the row-major position of its linear index
  in the block.\<close>

theorem tid_row_major:
  "dim_x (ntid ctx) \<noteq> 0 \<Longrightarrow>
    special ctx TidX lane < special ctx NtidX lane \<and>
    special ctx TidY lane * special ctx NtidX lane + special ctx TidX lane =
      warp_id ctx * of_nat warp_size + of_nat lane"
  using tid_x_bound [of ctx lane] tid_linearises [of ctx lane] by (simp add: linear_index_def)

definition example_context :: LaneContext where
  "example_context =
    \<lparr>ntid = \<lparr>dim_x = 48, dim_y = 2\<rparr>, nctaid = \<lparr>dim_x = 3, dim_y = 1\<rparr>,
     ctaid = \<lparr>dim_x = 2, dim_y = 0\<rparr>, warp_id = 2\<rparr>"

theorem tid_row_major_witness:
  "special example_context TidX 5 = 21 \<and> special example_context TidY 5 = 1 \<and>
   special example_context TidX 5 < special example_context NtidX 5 \<and>
   special example_context TidY 5 * special example_context NtidX 5 + special example_context TidX 5 = 69"
  using tid_row_major [of example_context 5]
  by (simp add: example_context_def linear_index_def warp_size_def)

end
