(* ===== verification/Float32.thy ===== *)
theory Float32
  imports Lane_Types
begin

text \<open>
  The binary32 arithmetic of the language that \<^verbatim>\<open>src/core/alu.cpp\<close> uses: the operators
  \<^verbatim>\<open>+ - *\<close>, \<^verbatim>\<open>std::fma\<close>, \<^verbatim>\<open>std::fmin\<close>, \<^verbatim>\<open>std::fmax\<close>, the comparisons and
  the conversions to and from \<^verbatim>\<open>std::int32_t\<close>, in the default rounding mode (to nearest,
  ties to even) with subnormals. A finite value is an exact dyadic number, every operation is
  computed exactly and rounded once, as IEEE 754 prescribes.

  IEEE 754 and the C++ library leave three things to the platform, and they are the fields of
  the parameter \<open>fp_env\<close>: the bits of a NaN result, which of two zeros of opposite sign
  \<^verbatim>\<open>fmin\<close> and \<^verbatim>\<open>fmax\<close> return, and what the two return for a signaling NaN operand.
\<close>

unbundle bit_operations_syntax

section \<open>Values\<close>

text \<open>\<open>Fin s m e\<close> is the number \<open>m * 2 ^ e\<close>, negated when \<open>s\<close>; zeros are signed.\<close>

datatype F32 = NaN | Inf bool | Fin bool nat int

definition sign_bit :: "u32 \<Rightarrow> bool" where
  "sign_bit w = bit w 31"

definition exponent_field :: "u32 \<Rightarrow> nat" where
  "exponent_field w = unat (take_bit 8 (drop_bit 23 w))"

definition fraction_field :: "u32 \<Rightarrow> nat" where
  "fraction_field w = unat (take_bit 23 w)"

text \<open>\<^verbatim>\<open>as_f32\<close> reinterprets the 32 bits of a register.\<close>

definition as_f32 :: "u32 \<Rightarrow> F32" where
  "as_f32 w =
    (let s = sign_bit w; ex = exponent_field w; fr = fraction_field w in
     if ex = 255 then (if fr = 0 then Inf s else NaN)
     else if ex = 0 then Fin s fr (-149)
     else Fin s (fr + 2 ^ 23) (int ex - 150))"

definition is_nan :: "u32 \<Rightarrow> bool" where
  "is_nan w \<longleftrightarrow> as_f32 w = NaN"

text \<open>A NaN is signaling when the top bit of its fraction is clear.\<close>

definition is_snan :: "u32 \<Rightarrow> bool" where
  "is_snan w \<longleftrightarrow> is_nan w \<and> \<not> bit w 22"

section \<open>Rounding\<close>

fun bit_length :: "nat \<Rightarrow> nat" where
  "bit_length n = (if n = 0 then 0 else Suc (bit_length (n div 2)))"

declare bit_length.simps [simp del]

text \<open>\<open>m / 2 ^ k\<close> rounded to the nearest integer, ties to even.\<close>

definition round_shift :: "nat \<Rightarrow> nat \<Rightarrow> nat" where
  "round_shift m k =
    (let d = m div 2 ^ k; r = 2 * (m mod 2 ^ k)
     in if r > 2 ^ k \<or> (r = 2 ^ k \<and> odd d) then Suc d else d)"

text \<open>
  The exponent of the last place of the result: 24 significant bits, but never below the
  subnormal exponent. The bits of the magnitude are then the biased exponent above the 23
  fraction bits; a carry out of the fraction increments the exponent, and everything from
  \<^verbatim>\<open>0x7F800000\<close> on is infinity.
\<close>

definition quantum :: "nat \<Rightarrow> int \<Rightarrow> int" where
  "quantum m e = max (e + int (bit_length m) - 24) (-149)"

definition significand :: "nat \<Rightarrow> int \<Rightarrow> nat" where
  "significand m e =
    (let q = quantum m e
     in if q \<le> e then m * 2 ^ nat (e - q) else round_shift m (nat (q - e)))"

definition round_magnitude :: "nat \<Rightarrow> int \<Rightarrow> nat" where
  "round_magnitude m e =
    (if m = 0 then 0
     else min 0x7F800000 (nat (quantum m e + 149) * 2 ^ 23 + significand m e))"

definition signed_bits :: "bool \<Rightarrow> nat \<Rightarrow> u32" where
  "signed_bits s mag = of_nat (mag + (if s then 2 ^ 31 else 0))"

definition round_f32 :: "bool \<Rightarrow> nat \<Rightarrow> int \<Rightarrow> u32" where
  "round_f32 s m e = signed_bits s (round_magnitude m e)"

definition inf_bits :: "bool \<Rightarrow> u32" where
  "inf_bits s = signed_bits s 0x7F800000"

definition zero_bits :: "bool \<Rightarrow> u32" where
  "zero_bits s = signed_bits s 0"

section \<open>What the platform chooses\<close>

record fp_env =
  nan_result :: "Opcode \<Rightarrow> u32 list \<Rightarrow> u32"
  minmax_zero :: "Opcode \<Rightarrow> u32 \<Rightarrow> u32 \<Rightarrow> u32"
  minmax_snan :: "Opcode \<Rightarrow> u32 \<Rightarrow> u32 \<Rightarrow> u32"

text \<open>
  The documented behaviour: an operation without a numeric result gives a NaN, and the minimum
  of two zeros is one of them.
\<close>

definition fp_env_ok :: "fp_env \<Rightarrow> bool" where
  "fp_env_ok env \<longleftrightarrow>
    (\<forall>op ws. is_nan (nan_result env op ws)) \<and>
    (\<forall>op a b. minmax_zero env op a b \<in> {a, b})"

text \<open>A platform that meets it: x86, which returns the default NaN and the first operand.\<close>

definition example_fp_env :: fp_env where
  "example_fp_env =
    \<lparr>nan_result = (\<lambda>_ _. 0x7FC00000), minmax_zero = (\<lambda>_ a _. a), minmax_snan = (\<lambda>_ a _. a)\<rparr>"

section \<open>Arithmetic\<close>

definition signed_int :: "bool \<Rightarrow> nat \<Rightarrow> int" where
  "signed_int s m = (if s then - int m else int m)"

text \<open>The exact sum of two finite values, rounded; an exact zero is negative only if both are.\<close>

definition round_sum :: "bool \<Rightarrow> nat \<Rightarrow> int \<Rightarrow> bool \<Rightarrow> nat \<Rightarrow> int \<Rightarrow> u32" where
  "round_sum s m e t n f =
    (let g = min e f;
         v = signed_int s m * 2 ^ nat (e - g) + signed_int t n * 2 ^ nat (f - g)
     in if v = 0 then zero_bits (s \<and> t) else round_f32 (v < 0) (nat \<bar>v\<bar>) g)"

fun f32_add_values :: "F32 \<Rightarrow> F32 \<Rightarrow> u32 option" where
  "f32_add_values NaN _ = None"
| "f32_add_values _ NaN = None"
| "f32_add_values (Inf s) (Inf t) = (if s = t then Some (inf_bits s) else None)"
| "f32_add_values (Inf s) _ = Some (inf_bits s)"
| "f32_add_values _ (Inf t) = Some (inf_bits t)"
| "f32_add_values (Fin s m e) (Fin t n f) = Some (round_sum s m e t n f)"

fun f32_negate :: "F32 \<Rightarrow> F32" where
  "f32_negate NaN = NaN"
| "f32_negate (Inf s) = Inf (\<not> s)"
| "f32_negate (Fin s m e) = Fin (\<not> s) m e"

fun f32_mul_values :: "F32 \<Rightarrow> F32 \<Rightarrow> u32 option" where
  "f32_mul_values NaN _ = None"
| "f32_mul_values _ NaN = None"
| "f32_mul_values (Inf s) (Inf t) = Some (inf_bits (s \<noteq> t))"
| "f32_mul_values (Inf s) (Fin t n f) = (if n = 0 then None else Some (inf_bits (s \<noteq> t)))"
| "f32_mul_values (Fin s m e) (Inf t) = (if m = 0 then None else Some (inf_bits (s \<noteq> t)))"
| "f32_mul_values (Fin s m e) (Fin t n f) = Some (round_f32 (s \<noteq> t) (m * n) (e + f))"

text \<open>The exact product that \<^verbatim>\<open>std::fma\<close> adds: not rounded before the addition.\<close>

fun f32_exact_product :: "F32 \<Rightarrow> F32 \<Rightarrow> F32" where
  "f32_exact_product NaN _ = NaN"
| "f32_exact_product _ NaN = NaN"
| "f32_exact_product (Inf s) (Inf t) = Inf (s \<noteq> t)"
| "f32_exact_product (Inf s) (Fin t n f) = (if n = 0 then NaN else Inf (s \<noteq> t))"
| "f32_exact_product (Fin s m e) (Inf t) = (if m = 0 then NaN else Inf (s \<noteq> t))"
| "f32_exact_product (Fin s m e) (Fin t n f) = Fin (s \<noteq> t) (m * n) (e + f)"

definition or_nan :: "fp_env \<Rightarrow> Opcode \<Rightarrow> u32 list \<Rightarrow> u32 option \<Rightarrow> u32" where
  "or_nan env op ws r = (case r of Some w \<Rightarrow> w | None \<Rightarrow> nan_result env op ws)"

definition f32_add :: "fp_env \<Rightarrow> u32 \<Rightarrow> u32 \<Rightarrow> u32" where
  "f32_add env a b = or_nan env FAdd [a, b] (f32_add_values (as_f32 a) (as_f32 b))"

definition f32_sub :: "fp_env \<Rightarrow> u32 \<Rightarrow> u32 \<Rightarrow> u32" where
  "f32_sub env a b = or_nan env FSub [a, b] (f32_add_values (as_f32 a) (f32_negate (as_f32 b)))"

definition f32_mul :: "fp_env \<Rightarrow> u32 \<Rightarrow> u32 \<Rightarrow> u32" where
  "f32_mul env a b = or_nan env FMul [a, b] (f32_mul_values (as_f32 a) (as_f32 b))"

definition f32_fma :: "fp_env \<Rightarrow> u32 \<Rightarrow> u32 \<Rightarrow> u32 \<Rightarrow> u32" where
  "f32_fma env a b c =
    or_nan env FFma [a, b, c]
      (f32_add_values (f32_exact_product (as_f32 a) (as_f32 b)) (as_f32 c))"

section \<open>Comparisons, minimum and maximum\<close>

text \<open>\<open>Some\<close> of the order of two values; a NaN compares with nothing.\<close>

definition finite_diff :: "bool \<Rightarrow> nat \<Rightarrow> int \<Rightarrow> bool \<Rightarrow> nat \<Rightarrow> int \<Rightarrow> int" where
  "finite_diff s m e t n f =
    (let g = min e f in signed_int s m * 2 ^ nat (e - g) - signed_int t n * 2 ^ nat (f - g))"

fun f32_compare :: "F32 \<Rightarrow> F32 \<Rightarrow> int option" where
  "f32_compare NaN _ = None"
| "f32_compare _ NaN = None"
| "f32_compare (Inf s) (Inf t) = Some (if s = t then 0 else if s then -1 else 1)"
| "f32_compare (Inf s) (Fin _ _ _) = Some (if s then -1 else 1)"
| "f32_compare (Fin _ _ _) (Inf t) = Some (if t then 1 else -1)"
| "f32_compare (Fin s m e) (Fin t n f) = Some (sgn (finite_diff s m e t n f))"

definition f32_eq :: "u32 \<Rightarrow> u32 \<Rightarrow> bool" where
  "f32_eq a b \<longleftrightarrow> f32_compare (as_f32 a) (as_f32 b) = Some 0"

definition f32_lt :: "u32 \<Rightarrow> u32 \<Rightarrow> bool" where
  "f32_lt a b \<longleftrightarrow> f32_compare (as_f32 a) (as_f32 b) = Some (-1)"

definition f32_le :: "u32 \<Rightarrow> u32 \<Rightarrow> bool" where
  "f32_le a b \<longleftrightarrow> f32_lt a b \<or> f32_eq a b"

definition f32_fmin :: "fp_env \<Rightarrow> u32 \<Rightarrow> u32 \<Rightarrow> u32" where
  "f32_fmin env a b =
    (if is_snan a \<or> is_snan b then minmax_snan env FMin a b
     else if is_nan a \<and> is_nan b then nan_result env FMin [a, b]
     else if is_nan a then b
     else if is_nan b then a
     else if f32_lt a b then a
     else if f32_lt b a then b
     else if a = b then a
     else minmax_zero env FMin a b)"

definition f32_fmax :: "fp_env \<Rightarrow> u32 \<Rightarrow> u32 \<Rightarrow> u32" where
  "f32_fmax env a b =
    (if is_snan a \<or> is_snan b then minmax_snan env FMax a b
     else if is_nan a \<and> is_nan b then nan_result env FMax [a, b]
     else if is_nan a then b
     else if is_nan b then a
     else if f32_lt b a then a
     else if f32_lt a b then b
     else if a = b then a
     else minmax_zero env FMax a b)"

section \<open>Conversions\<close>

definition s32_to_f32 :: "u32 \<Rightarrow> u32" where
  "s32_to_f32 a = round_f32 (sint a < 0) (nat \<bar>sint a\<bar>) 0"

text \<open>\<^verbatim>\<open>static_cast<std::int32_t>\<close> of a finite value: its integral part, toward zero.\<close>

definition trunc_value :: "bool \<Rightarrow> nat \<Rightarrow> int \<Rightarrow> int" where
  "trunc_value s m e =
    signed_int s (if 0 \<le> e then m * 2 ^ nat e else m div 2 ^ nat (- e))"

section \<open>The fields of a word\<close>

lemma unat_fields:
  "unat w = (if sign_bit w then 2 ^ 31 else 0) + exponent_field w * 2 ^ 23 + fraction_field w"
proof -
  let ?n = "unat w"
  have lt: "?n < 2 ^ 32" using unsigned_less [of w, where ?'a = nat] by simp
  have s: "sign_bit w \<longleftrightarrow> odd (?n div 2 ^ 31)"
  proof -
    have "bit ?n 31 \<longleftrightarrow> bit w 31" by (simp add: bit_unsigned_iff)
    then show ?thesis by (simp add: sign_bit_def bit_iff_odd)
  qed
  have e: "exponent_field w = ?n div 2 ^ 23 mod 2 ^ 8"
    by (simp add: exponent_field_def unsigned_take_bit_eq unat_drop_bit_eq take_bit_eq_mod drop_bit_eq_div
        unat_div_distrib unat_mod_distrib)
  have f: "fraction_field w = ?n mod 2 ^ 23"
    by (simp add: fraction_field_def take_bit_eq_mod unat_mod_distrib)
  have "?n div 2 ^ 31 = ?n div 2 ^ 23 div 2 ^ 8"
    by (simp flip: div_mult2_eq)
  moreover have "?n div 2 ^ 31 < 2"
    using lt by (simp add: div_less_iff_less_mult)
  then have "?n div 2 ^ 31 = (if sign_bit w then 1 else 0)"
    unfolding s by (auto simp: less_2_cases_iff)
  ultimately have "?n div 2 ^ 23 = (if sign_bit w then 2 ^ 8 else 0) + exponent_field w"
    unfolding e using mult_div_mod_eq [of "2 ^ 8" "?n div 2 ^ 23"] by (auto split: if_splits)
  then show ?thesis
    using mult_div_mod_eq [of "2 ^ 23" ?n] unfolding f by (auto split: if_splits)
qed

lemma exponent_field_lt: "exponent_field w < 256"
  using unsigned_less [of "take_bit 8 (drop_bit 23 w)", where ?'a = nat]
    take_bit_nat_less_exp [of 8 "unat (drop_bit 23 w)"]
  by (simp add: exponent_field_def unsigned_take_bit_eq)

lemma fraction_field_lt: "fraction_field w < 2 ^ 23"
  using take_bit_nat_less_exp [of 23 "unat w"]
  by (simp add: fraction_field_def unsigned_take_bit_eq)

lemma signed_bits_fields:
  assumes "mag = exponent_field w * 2 ^ 23 + fraction_field w"
  shows "signed_bits (sign_bit w) mag = w"
proof -
  have "mag + (if sign_bit w then 2 ^ 31 else 0) = unat w"
    using unat_fields [of w] assms by simp
  then show ?thesis by (simp add: signed_bits_def)
qed

section \<open>Rounding keeps every representable value\<close>

lemma bit_length_0 [simp]: "bit_length 0 = 0"
  by (simp add: bit_length.simps)

lemma bit_length_le_iff: "bit_length m \<le> k \<longleftrightarrow> m < 2 ^ k"
proof (induction k arbitrary: m)
  case 0
  then show ?case by (auto simp: bit_length.simps [of m])
next
  case (Suc k)
  show ?case
  proof (cases "m = 0")
    case False
    have "bit_length m \<le> Suc k \<longleftrightarrow> bit_length (m div 2) \<le> k"
      using False by (simp add: bit_length.simps [of m])
    also have "\<dots> \<longleftrightarrow> m div 2 < 2 ^ k" by (rule Suc.IH)
    also have "\<dots> \<longleftrightarrow> m < 2 ^ Suc k" by auto
    finally show ?thesis .
  qed simp
qed

lemma bit_length_eqI: "2 ^ k \<le> m \<Longrightarrow> m < 2 ^ Suc k \<Longrightarrow> bit_length m = Suc k"
  using bit_length_le_iff [of m k] bit_length_le_iff [of m "Suc k"] by linarith

lemma bit_length_double [simp]: "0 < m \<Longrightarrow> bit_length (m * 2 ^ k) = bit_length m + k"
  by (induction k) (simp_all add: bit_length.simps [of "m * (2 * 2 ^ _)"])

text \<open>
  A magnitude with at most 24 significant bits at or above the subnormal exponent is not
  changed: its bits are the biased exponent and the significand.
\<close>

lemma round_magnitude_exact:
  assumes m: "0 < m" "m < 2 ^ 24" and e: "-149 \<le> e" "e \<le> 104" and n: "2 ^ 23 \<le> m \<or> e = -149"
  shows "round_magnitude m e = nat (e + 149) * 2 ^ 23 + m"
proof -
  have len: "bit_length m \<le> 24"
    using m(2) by (simp add: bit_length_le_iff)
  have q: "quantum m e = e"
  proof (cases "2 ^ 23 \<le> m")
    case True
    then have "bit_length m = 24"
      using bit_length_eqI [of 23 m] m(2) by simp
    with e show ?thesis by (simp add: quantum_def)
  next
    case False
    with n len show ?thesis by (simp add: quantum_def)
  qed
  have "nat (e + 149) \<le> 253"
    using e by linarith
  then have "nat (e + 149) * 2 ^ 23 + m < 255 * 2 ^ 23"
    using m(2) by simp
  with m q show ?thesis
    by (simp add: round_magnitude_def significand_def)
qed

lemma round_as_f32:
  assumes "as_f32 w = Fin s m e"
  shows "round_f32 s m e = w"
proof -
  have s: "s = sign_bit w" and ex: "exponent_field w < 255"
    using assms exponent_field_lt [of w] by (auto simp: as_f32_def Let_def split: if_splits)
  have "round_magnitude m e = exponent_field w * 2 ^ 23 + fraction_field w"
  proof (cases "exponent_field w = 0")
    case True
    with assms ex have m: "m = fraction_field w" and e: "e = -149"
      by (auto simp: as_f32_def Let_def)
    show ?thesis
    proof (cases "m = 0")
      case True
      with m show ?thesis using \<open>exponent_field w = 0\<close> by (simp add: round_magnitude_def)
    next
      case False
      with m e show ?thesis
        using round_magnitude_exact [of m e] fraction_field_lt [of w] \<open>exponent_field w = 0\<close>
        by simp
    qed
  next
    case False
    with assms ex have m: "m = fraction_field w + 2 ^ 23" and e: "e = int (exponent_field w) - 150"
      by (auto simp: as_f32_def Let_def)
    have "round_magnitude m e = nat (e + 149) * 2 ^ 23 + m"
      using fraction_field_lt [of w] ex False unfolding m e
      by (intro round_magnitude_exact) simp_all
    also have "nat (e + 149) = exponent_field w - 1"
      using False unfolding e by simp
    finally show ?thesis
      using False unfolding m by (simp add: algebra_simps)
  qed
  then show ?thesis
    by (simp add: round_f32_def s signed_bits_fields)
qed

section \<open>Rounded results are numbers\<close>

lemma round_magnitude_le: "round_magnitude m e \<le> 0x7F800000"
  by (simp add: round_magnitude_def)

lemma signed_bits_parts:
  assumes "mag \<le> 0x7F800000"
  shows "sign_bit (signed_bits s mag) = s"
    and "exponent_field (signed_bits s mag) = mag div 2 ^ 23"
    and "fraction_field (signed_bits s mag) = mag mod 2 ^ 23"
proof -
  let ?w = "signed_bits s mag"
  have u: "unat ?w = mag + (if s then 2 ^ 31 else 0)"
    using assms unfolding signed_bits_def by (simp only: unat_of_nat) simp
  have "bit ?w 31 \<longleftrightarrow> bit (unat ?w) 31" by (simp add: bit_unsigned_iff)
  then show "sign_bit ?w = s"
    using assms by (auto simp: sign_bit_def bit_iff_odd u div_add1_eq)
  have "unat ?w div 2 ^ 23 mod 2 ^ 8 = mag div 2 ^ 23"
  proof -
    have "unat ?w div 2 ^ 23 = mag div 2 ^ 23 + (if s then 2 ^ 8 else 0)"
      unfolding u by (simp add: div_add1_eq)
    moreover have "mag div 2 ^ 23 < 2 ^ 8"
      using assms by (simp add: div_less_iff_less_mult)
    ultimately show ?thesis by simp
  qed
  then show "exponent_field ?w = mag div 2 ^ 23"
    by (simp add: exponent_field_def unat_drop_bit_eq take_bit_eq_mod drop_bit_eq_div
        unat_div_distrib unat_mod_distrib)
  have "unat ?w mod 2 ^ 23 = mag mod 2 ^ 23"
    unfolding u by (simp add: mod_add_eq [symmetric, of mag])
  then show "fraction_field ?w = mag mod 2 ^ 23"
    by (simp add: fraction_field_def take_bit_eq_mod unat_mod_distrib)
qed

lemma as_f32_signed_bits:
  assumes "mag \<le> 0x7F800000"
  shows "as_f32 (signed_bits s mag) =
    (if mag = 0x7F800000 then Inf s
     else if mag < 2 ^ 23 then Fin s mag (-149)
     else Fin s (mag mod 2 ^ 23 + 2 ^ 23) (int (mag div 2 ^ 23) - 150))"
proof -
  have d: "mag div 2 ^ 23 = 255 \<longleftrightarrow> mag = 0x7F800000"
    using assms by (auto intro!: antisym)
  show ?thesis
    using assms d
    by (auto simp: as_f32_def Let_def signed_bits_parts [OF assms] div_eq_0_iff)
qed

lemma is_nan_signed_bits [simp]: "mag \<le> 0x7F800000 \<Longrightarrow> \<not> is_nan (signed_bits s mag)"
  by (simp add: is_nan_def as_f32_signed_bits)

lemma is_nan_results [simp]:
  "\<not> is_nan (round_f32 s m e)" "\<not> is_nan (inf_bits s)" "\<not> is_nan (zero_bits s)"
  "\<not> is_nan (round_sum s m e t n f)"
  by (simp_all add: round_f32_def inf_bits_def zero_bits_def round_magnitude_le
      round_sum_def Let_def)

section \<open>Algebraic laws\<close>

lemma round_sum_commute: "round_sum s m e t n f = round_sum t n f s m e"
  by (simp add: round_sum_def Let_def min.commute conj_commute add.commute)

lemma f32_add_values_commute: "f32_add_values x y = f32_add_values y x"
  by (cases x; cases y) (simp_all add: round_sum_commute)

lemma f32_mul_values_commute: "f32_mul_values x y = f32_mul_values y x"
proof -
  have sw: "(a = (\<not> b)) = (b = (\<not> a))" for a b by auto
  show ?thesis
    by (cases x; cases y) (simp_all add: mult.commute add.commute sw)
qed

lemma f32_compare_swap: "f32_compare y x = map_option uminus (f32_compare x y)"
proof -
  have "finite_diff t n f s m e = - finite_diff s m e t n f" for s m e t n f
    by (simp add: finite_diff_def Let_def min.commute)
  note fd = this
  show ?thesis
  proof (cases x)
    case (Fin s m e)
    then show ?thesis
      by (cases y) (simp_all add: fd [of _ _ _ s m e] sgn_minus)
  qed (cases y; simp)+
qed

lemma f32_compare_range: "f32_compare x y = Some c \<Longrightarrow> c \<in> {-1, 0, 1}"
  by (cases x; cases y) (auto simp: sgn_if split: if_splits)

lemma f32_compare_None_iff: "f32_compare x y = None \<longleftrightarrow> x = NaN \<or> y = NaN"
  by (cases x; cases y) simp_all

end
