(* ===== verification/Alu.thy ===== *)
theory Alu
  imports Float32 "HOL-Library.Signed_Division"
begin

text \<open>
  \<^verbatim>\<open>src/core/alu.cpp\<close>: the lane-wise evaluation of every instruction that is neither
  control flow, barrier nor memory. The lemmas give the arithmetic of
  \<^verbatim>\<open>docs/wisa-spec.md\<close> section 4 over the integers, show that no operand is outside the
  definition of an operation, and that an ALU instruction writes exactly one cell of each
  executing lane.
\<close>

unbundle bit_operations_syntax

section \<open>Integer operations\<close>

definition shift_mask :: u32 where "shift_mask = 31"

definition as_s32 :: "u32 \<Rightarrow> int" where "as_s32 bits = sint bits"
definition from_s32 :: "int \<Rightarrow> u32" where "from_s32 value = word_of_int value"

definition wrap_add :: "u32 \<Rightarrow> u32 \<Rightarrow> u32" where "wrap_add a b = a + b"
definition wrap_sub :: "u32 \<Rightarrow> u32 \<Rightarrow> u32" where "wrap_sub a b = a - b"
definition wrap_mul :: "u32 \<Rightarrow> u32 \<Rightarrow> u32" where "wrap_mul a b = a * b"

definition s32_min :: int where "s32_min = - (2 ^ 31)"
definition s32_max :: int where "s32_max = 2 ^ 31 - 1"

text \<open>\<^verbatim>\<open>/\<close> and \<^verbatim>\<open>%\<close> on \<^verbatim>\<open>std::int32_t\<close> truncate toward zero.\<close>

definition s32_div :: "u32 \<Rightarrow> u32 \<Rightarrow> u32" where
  "s32_div a b =
    (let x = as_s32 a; y = as_s32 b in
     if y = 0 then 0
     else if x = s32_min \<and> y = -1 then a
     else from_s32 (x sdiv y))"

definition s32_rem :: "u32 \<Rightarrow> u32 \<Rightarrow> u32" where
  "s32_rem a b =
    (let x = as_s32 a; y = as_s32 b in
     if y = 0 \<or> (x = s32_min \<and> y = -1) then 0
     else from_s32 (x smod y))"

definition sra :: "u32 \<Rightarrow> u32 \<Rightarrow> u32" where
  "sra a count =
    (let n = unat (count AND shift_mask);
         logical = drop_bit n a
     in if as_s32 a < 0 \<and> n > 0 then logical OR push_bit (32 - n) (NOT 0) else logical)"

definition f32_upper :: u32 where "f32_upper = 0x4F000000"
definition f32_lower :: u32 where "f32_lower = 0xCF000000"

definition f32_to_s32 :: "u32 \<Rightarrow> u32" where
  "f32_to_s32 bits =
    (if is_nan bits then 0
     else if f32_le f32_upper bits then from_s32 s32_max
     else if f32_le bits f32_lower then from_s32 s32_min
     else (case as_f32 bits of Fin s m e \<Rightarrow> from_s32 (trunc_value s m e) | _ \<Rightarrow> 0))"

section \<open>Comparisons\<close>

fun compare_s32 :: "Opcode \<Rightarrow> u32 \<Rightarrow> u32 \<Rightarrow> bool" where
  "compare_s32 SetpEqS32 a b = (as_s32 a = as_s32 b)"
| "compare_s32 SetpNeS32 a b = (as_s32 a \<noteq> as_s32 b)"
| "compare_s32 SetpLtS32 a b = (as_s32 a < as_s32 b)"
| "compare_s32 SetpLeS32 a b = (as_s32 a \<le> as_s32 b)"
| "compare_s32 SetpGtS32 a b = (as_s32 a > as_s32 b)"
| "compare_s32 SetpGeS32 a b = (as_s32 a \<ge> as_s32 b)"
| "compare_s32 _ a b = False"

fun compare_f32 :: "Opcode \<Rightarrow> u32 \<Rightarrow> u32 \<Rightarrow> bool" where
  "compare_f32 SetpEqF32 x y = f32_eq x y"
| "compare_f32 SetpNeF32 x y = (\<not> f32_eq x y)"
| "compare_f32 SetpLtF32 x y = f32_lt x y"
| "compare_f32 SetpLeF32 x y = f32_le x y"
| "compare_f32 SetpGtF32 x y = f32_lt y x"
| "compare_f32 SetpGeF32 x y = f32_le y x"
| "compare_f32 _ x y = False"

section \<open>Operands and evaluation\<close>

record Operands =
  op_a :: u32
  op_b :: u32

definition fetch :: "Instruction \<Rightarrow> RegisterFile \<Rightarrow> nat \<Rightarrow> Operands" where
  "fetch i rf lane =
    (if shape (opcode_info (opcode i)) = Rr
     then \<lparr>op_a = (if imm_flag i then imm i else read_reg rf lane (src0 i)), op_b = 0\<rparr>
     else \<lparr>op_a = read_reg rf lane (src0 i),
           op_b = (if imm_flag i then imm i else read_reg rf lane (src1 i))\<rparr>)"

text \<open>\<^verbatim>\<open>LaneContext::special\<close> at a register number: unknown numbers read zero.\<close>

definition special_at :: "LaneContext \<Rightarrow> u8 \<Rightarrow> nat \<Rightarrow> u32" where
  "special_at ctx index lane =
    (case special_register_info index of
       Some info \<Rightarrow> special ctx (special_reg info) lane
     | None \<Rightarrow> 0)"

definition evaluate ::
    "fp_env \<Rightarrow> Instruction \<Rightarrow> Operands \<Rightarrow> u32 \<Rightarrow> nat \<Rightarrow> LaneContext \<Rightarrow> u32" where
  "evaluate env i ops dst_old lane ctx =
    (let a = op_a ops; b = op_b ops in
     case opcode i of
       Add \<Rightarrow> wrap_add a b
     | Sub \<Rightarrow> wrap_sub a b
     | Mul \<Rightarrow> wrap_mul a b
     | Div \<Rightarrow> s32_div a b
     | Rem \<Rightarrow> s32_rem a b
     | Min_op \<Rightarrow> from_s32 (min (as_s32 a) (as_s32 b))
     | Max_op \<Rightarrow> from_s32 (max (as_s32 a) (as_s32 b))
     | Neg \<Rightarrow> wrap_sub 0 a
     | And \<Rightarrow> a AND b
     | Or \<Rightarrow> a OR b
     | Xor \<Rightarrow> a XOR b
     | Not_op \<Rightarrow> NOT a
     | Shl \<Rightarrow> push_bit (unat (b AND shift_mask)) a
     | Shr \<Rightarrow> drop_bit (unat (b AND shift_mask)) a
     | Sra \<Rightarrow> sra a b
     | Mov \<Rightarrow> a
     | FAdd \<Rightarrow> f32_add env a b
     | FSub \<Rightarrow> f32_sub env a b
     | FMul \<Rightarrow> f32_mul env a b
     | FFma \<Rightarrow> f32_fma env a b dst_old
     | FMin \<Rightarrow> f32_fmin env a b
     | FMax \<Rightarrow> f32_fmax env a b
     | FNeg \<Rightarrow> a XOR 0x80000000
     | CvtF32S32 \<Rightarrow> s32_to_f32 a
     | CvtS32F32 \<Rightarrow> f32_to_s32 a
     | MovSreg \<Rightarrow> special_at ctx (src0 i) lane
     | _ \<Rightarrow> 0)"

definition is_setp :: "Opcode \<Rightarrow> bool" where
  "is_setp opc \<longleftrightarrow>
    opcode_number opc \<ge> opcode_number SetpEqS32 \<and> opcode_number opc \<le> opcode_number SetpGeF32"

definition is_setp_f32 :: "Opcode \<Rightarrow> bool" where
  "is_setp_f32 opc \<longleftrightarrow> opcode_number opc \<ge> opcode_number SetpEqF32"

fun is_alu_opcode :: "Opcode \<Rightarrow> bool" where
  "is_alu_opcode Bra = False"
| "is_alu_opcode Exit = False"
| "is_alu_opcode BarSync = False"
| "is_alu_opcode LdGlobal = False"
| "is_alu_opcode StGlobal = False"
| "is_alu_opcode LdShared = False"
| "is_alu_opcode StShared = False"
| "is_alu_opcode LdParam = False"
| "is_alu_opcode _ = True"

text \<open>The body of the loop of \<^verbatim>\<open>execute_alu\<close> for one executing lane.\<close>

definition alu_lane ::
    "fp_env \<Rightarrow> Instruction \<Rightarrow> LaneContext \<Rightarrow> nat \<Rightarrow> RegisterFile \<Rightarrow> RegisterFile" where
  "alu_lane env i ctx lane rf =
    (let ops = fetch i rf lane in
     if is_setp (opcode i) then
       (let result = (if is_setp_f32 (opcode i)
                      then compare_f32 (opcode i) (op_a ops) (op_b ops)
                      else compare_s32 (opcode i) (op_a ops) (op_b ops))
        in write_pred lane (dst i) result rf)
     else write_reg lane (dst i) (evaluate env i ops (read_reg rf lane (dst i)) lane ctx) rf)"

definition execute_alu ::
    "fp_env \<Rightarrow> Instruction \<Rightarrow> LaneMask \<Rightarrow> RegisterFile \<Rightarrow> LaneContext \<Rightarrow> RegisterFile" where
  "execute_alu env i exec rf ctx =
    fold (\<lambda>lane rf. if \<not> has_lane exec lane then rf else alu_lane env i ctx lane rf)
      [0..<warp_size] rf"

section \<open>Integer arithmetic meets the specification\<close>

lemma as_s32_range: "- (2 ^ 31) \<le> as_s32 a" "as_s32 a < 2 ^ 31"
  using sint_greater_eq [of a] sint_lt [of a] by (simp_all add: as_s32_def)

lemma as_s32_from_s32: "- (2 ^ 31) \<le> v \<Longrightarrow> v < 2 ^ 31 \<Longrightarrow> as_s32 (from_s32 v) = v"
  by (simp add: as_s32_def from_s32_def signed_of_int signed_take_bit_int_eq_self)

lemma from_s32_as_s32 [simp]: "from_s32 (as_s32 a) = a"
  by (simp add: as_s32_def from_s32_def)

lemma as_s32_inject: "as_s32 a = as_s32 b \<longleftrightarrow> a = b"
  by (metis from_s32_as_s32)

lemma sdiv_range:
  fixes x y :: int
  assumes "- (2 ^ 31) \<le> x" "x < 2 ^ 31" "\<not> (x = - (2 ^ 31) \<and> y = -1)"
  shows "- (2 ^ 31) \<le> x sdiv y" "x sdiv y < 2 ^ 31"
proof -
  consider "y = 0" | "y = 1" | "y = -1" | "2 \<le> \<bar>y\<bar>" by linarith
  then have "- (2 ^ 31) \<le> x sdiv y \<and> x sdiv y < 2 ^ 31"
  proof cases
    case 4
    have "\<bar>x\<bar> div \<bar>y\<bar> \<le> \<bar>x\<bar> div 2"
      using 4 by (intro zdiv_mono2) auto
    also have "\<dots> \<le> 2 ^ 30" using assms by simp
    finally have "\<bar>\<bar>x\<bar> div \<bar>y\<bar>\<bar> \<le> 2 ^ 30"
      using 4 by (simp add: pos_imp_zdiv_nonneg_iff)
    then have "\<bar>x sdiv y\<bar> \<le> 2 ^ 30"
      by (auto simp: signed_divide_int_def abs_mult abs_sgn_eq)
    then show ?thesis by (simp add: abs_le_iff)
  qed (use assms in auto)
  then show "- (2 ^ 31) \<le> x sdiv y" "x sdiv y < 2 ^ 31" by simp_all
qed

lemma smod_range:
  fixes x y :: int
  assumes "- (2 ^ 31) \<le> x" "x < 2 ^ 31"
  shows "- (2 ^ 31) \<le> x smod y" "x smod y < 2 ^ 31"
proof -
  have "\<bar>x smod y\<bar> \<le> \<bar>x\<bar>"
    by (cases "y = 0") (auto simp: signed_modulo_int_def abs_mult abs_sgn_eq zmod_le_nonneg_dividend)
  moreover have "0 \<le> x \<Longrightarrow> 0 \<le> x smod y" "x \<le> 0 \<Longrightarrow> x smod y \<le> 0"
    by (cases "y = 0"; auto simp: signed_modulo_int_def sgn_if)+
  ultimately show "- (2 ^ 31) \<le> x smod y" "x smod y < 2 ^ 31"
    using assms by linarith+
qed

lemma s32_div_value:
  "as_s32 (s32_div a b) =
    (if as_s32 b = 0 then 0
     else if as_s32 a = s32_min \<and> as_s32 b = -1 then s32_min
     else as_s32 a sdiv as_s32 b)"
proof -
  have "as_s32 0 = 0" by (simp add: as_s32_def)
  moreover have "as_s32 (from_s32 (as_s32 a sdiv as_s32 b)) = as_s32 a sdiv as_s32 b"
    if "\<not> (as_s32 a = s32_min \<and> as_s32 b = -1)"
    using that sdiv_range [OF as_s32_range] by (intro as_s32_from_s32) (simp_all add: s32_min_def)
  ultimately show ?thesis by (simp add: s32_div_def Let_def)
qed

lemma s32_rem_value:
  "as_s32 (s32_rem a b) =
    (if as_s32 b = 0 \<or> (as_s32 a = s32_min \<and> as_s32 b = -1) then 0
     else as_s32 a smod as_s32 b)"
proof -
  have "as_s32 0 = 0" by (simp add: as_s32_def)
  moreover have "as_s32 (from_s32 (as_s32 a smod as_s32 b)) = as_s32 a smod as_s32 b"
    using smod_range [OF as_s32_range] by (intro as_s32_from_s32)
  ultimately show ?thesis by (simp add: s32_rem_def Let_def)
qed

text \<open>The quotient and the remainder fit together on every input, the overflow included.\<close>

lemma s32_div_rem_identity:
  assumes "b \<noteq> 0"
  shows "wrap_add (wrap_mul (s32_div a b) b) (s32_rem a b) = a"
proof (cases "as_s32 a = s32_min \<and> as_s32 b = -1")
  case True
  then have "b = -1" "a = from_s32 s32_min"
    using from_s32_as_s32 [of a] from_s32_as_s32 [of b] by (simp_all add: from_s32_def)
  with True show ?thesis
    by (simp add: s32_div_def s32_rem_def Let_def wrap_add_def wrap_mul_def as_s32_def
        from_s32_def s32_min_def)
next
  case False
  have "as_s32 b \<noteq> 0"
    using assms as_s32_inject [of b 0] by (simp add: as_s32_def)
  with False have "s32_div a b = from_s32 (as_s32 a sdiv as_s32 b)"
    "s32_rem a b = from_s32 (as_s32 a smod as_s32 b)"
    by (auto simp: s32_div_def s32_rem_def Let_def)
  then have "wrap_add (wrap_mul (s32_div a b) b) (s32_rem a b) =
      from_s32 (as_s32 a sdiv as_s32 b) * from_s32 (as_s32 b) + from_s32 (as_s32 a smod as_s32 b)"
    by (simp add: wrap_add_def wrap_mul_def)
  also have "\<dots> = from_s32 (as_s32 a sdiv as_s32 b * as_s32 b + as_s32 a smod as_s32 b)"
    by (simp add: from_s32_def wi_hom_syms)
  also have "\<dots> = a" by (simp add: sdiv_mult_smod_eq)
  finally show ?thesis .
qed

text \<open>The arithmetic shift is division by a power of two, rounded down.\<close>

lemma shift_count: "unat (c AND shift_mask) = unat c mod 32"
proof -
  have m: "shift_mask = mask 5" by (simp add: shift_mask_def mask_eq_exp_minus_1)
  show ?thesis
    unfolding m take_bit_eq_mask [symmetric] by (simp add: take_bit_eq_mod unat_mod_distrib)
qed

lemma sra_signed_drop_bit: "sra a c = signed_drop_bit (unat c mod 32) a"
proof -
  let ?n = "unat c mod 32"
  have neg: "as_s32 a < 0 \<longleftrightarrow> bit a 31"
    using bit_last_iff [of a] by (simp add: as_s32_def)
  show ?thesis
    by (rule bit_word_eqI)
       (auto simp: sra_def Let_def shift_count neg bit_simps min_def not_less split: if_splits
         dest: bit_imp_le_length)
qed

lemma sra_value: "as_s32 (sra a c) = as_s32 a div 2 ^ (unat c mod 32)"
  by (simp add: sra_signed_drop_bit as_s32_def sint_signed_drop_bit_eq drop_bit_eq_div)

section \<open>Conversions meet the specification\<close>

text \<open>The sign of a difference does not depend on the common exponent it is scaled to.\<close>

lemma sgn_finite_diff:
  assumes "g \<le> e" "g \<le> f"
  shows "sgn (finite_diff s m e t n f) =
    sgn (signed_int s m * 2 ^ nat (e - g) - signed_int t n * 2 ^ nat (f - g))"
proof -
  let ?h = "min e f"
  have e: "(2::int) ^ nat (e - g) = 2 ^ nat (e - ?h) * 2 ^ nat (?h - g)"
    and f: "(2::int) ^ nat (f - g) = 2 ^ nat (f - ?h) * 2 ^ nat (?h - g)"
    using assms by (simp_all flip: power_add nat_add_distrib)
  have "signed_int s m * 2 ^ nat (e - g) - signed_int t n * 2 ^ nat (f - g) =
      finite_diff s m e t n f * 2 ^ nat (?h - g)"
    unfolding e f by (simp add: finite_diff_def Let_def algebra_simps)
  then show ?thesis by (simp add: sgn_mult)
qed

lemma as_f32_limits: "as_f32 f32_upper = Fin False (2 ^ 23) 8" "as_f32 f32_lower = Fin True (2 ^ 23) 8"
  by (simp_all add: as_f32_def f32_upper_def f32_lower_def sign_bit_def exponent_field_def
      fraction_field_def bit_simps)

lemma sgn_le_0_iff: "sgn (x::int) = -1 \<or> sgn x = 0 \<longleftrightarrow> x \<le> 0"
  by (auto simp: sgn_if)

lemma f32_le_finite:
  assumes "as_f32 a = Fin s m e" "as_f32 b = Fin t n f" "g \<le> e" "g \<le> f"
  shows "f32_le a b \<longleftrightarrow> signed_int s m * 2 ^ nat (e - g) \<le> signed_int t n * 2 ^ nat (f - g)"
  using assms sgn_le_0_iff [of "signed_int s m * 2 ^ nat (e - g) - signed_int t n * 2 ^ nat (f - g)"]
  by (simp add: f32_le_def f32_lt_def f32_eq_def sgn_finite_diff)

lemma nat_limit_div: "(2::nat) ^ 31 \<le> m div 2 ^ k \<longleftrightarrow> 2 ^ 23 * 2 ^ (8 + k) \<le> m"
proof -
  have "(2::nat) ^ 31 \<le> m div 2 ^ k \<longleftrightarrow> 2 ^ 31 * 2 ^ k \<le> m"
    by (simp add: less_eq_div_iff_mult_less_eq)
  also have "(2::nat) ^ 31 * 2 ^ k = 2 ^ 23 * 2 ^ (8 + k)"
    by (simp add: power_add)
  finally show ?thesis .
qed

lemma int_limit_div: "2 ^ 31 \<le> int (m div 2 ^ k) \<longleftrightarrow> 2 ^ 23 * 2 ^ (8 + k) \<le> int m"
proof -
  have "2 ^ 31 \<le> int (m div 2 ^ k) \<longleftrightarrow> (2::nat) ^ 31 \<le> m div 2 ^ k"
    by (metis of_nat_le_iff of_nat_numeral of_nat_power)
  also have "\<dots> \<longleftrightarrow> 2 ^ 23 * 2 ^ (8 + k) \<le> m" by (rule nat_limit_div)
  also have "\<dots> \<longleftrightarrow> int (2 ^ 23 * 2 ^ (8 + k)) \<le> int m" by (rule of_nat_le_iff [symmetric])
  finally show ?thesis by (simp only: of_nat_mult of_nat_power of_nat_numeral)
qed

lemma trunc_value_limits:
  fixes s m e
  defines "l \<equiv> (2::int) ^ 23 * 2 ^ nat (8 - min e 0)" and "v \<equiv> signed_int s m * 2 ^ nat (e - min e 0)"
  shows "2 ^ 31 \<le> trunc_value s m e \<longleftrightarrow> l \<le> v" and "trunc_value s m e \<le> - (2 ^ 31) \<longleftrightarrow> v \<le> - l"
proof -
  have "(2 ^ 31 \<le> trunc_value s m e \<longleftrightarrow> l \<le> v) \<and> (trunc_value s m e \<le> - (2 ^ 31) \<longleftrightarrow> v \<le> - l)"
  proof (cases "0 \<le> e")
    case True
    then show ?thesis by (simp add: l_def v_def trunc_value_def signed_int_def)
  next
    case False
    define k where "k = nat (- e)"
    have "nat (8 - min e 0) = 8 + k" and e: "nat (e - min e 0) = 0"
      using False by (simp_all add: k_def)
    then have l: "l = 2 ^ 23 * 2 ^ (8 + k)" and v: "v = signed_int s m"
      by (simp_all add: l_def v_def)
    have t: "trunc_value s m e = signed_int s (m div 2 ^ k)"
      using False by (simp add: trunc_value_def k_def)
    have "(2 ^ 31 \<le> signed_int s q \<longleftrightarrow> c \<le> signed_int s m) \<and>
        (signed_int s q \<le> - (2 ^ 31) \<longleftrightarrow> signed_int s m \<le> - c)"
      if "0 < c" "2 ^ 31 \<le> int q \<longleftrightarrow> c \<le> int m" for c :: int and q
      using that by (cases s) (simp_all add: signed_int_def)
    from this [OF _ int_limit_div] show ?thesis
      unfolding l v t by simp
  qed
  then show "2 ^ 31 \<le> trunc_value s m e \<longleftrightarrow> l \<le> v"
    and "trunc_value s m e \<le> - (2 ^ 31) \<longleftrightarrow> v \<le> - l" by simp_all
qed

definition saturate_s32 :: "int \<Rightarrow> int" where
  "saturate_s32 v = max s32_min (min s32_max v)"

lemma f32_to_s32_finite:
  assumes "as_f32 w = Fin s m e"
  shows "as_s32 (f32_to_s32 w) = saturate_s32 (trunc_value s m e)"
proof -
  let ?g = "min e 0"
  have up: "f32_le f32_upper w \<longleftrightarrow> 2 ^ 31 \<le> trunc_value s m e"
    unfolding trunc_value_limits
    using f32_le_finite [OF as_f32_limits(1) assms, of ?g] by (simp add: signed_int_def)
  have low: "f32_le w f32_lower \<longleftrightarrow> trunc_value s m e \<le> - (2 ^ 31)"
    unfolding trunc_value_limits
    using f32_le_finite [OF assms as_f32_limits(2), of ?g] by (simp add: signed_int_def)
  have "\<not> is_nan w" using assms by (simp add: is_nan_def)
  then show ?thesis
    by (simp add: f32_to_s32_def up low assms as_s32_from_s32 saturate_s32_def s32_min_def s32_max_def)
qed

text \<open>Integers of up to 24 bits survive the conversion to binary32 and back.\<close>

lemma round_magnitude_int:
  assumes "0 < n" "n < 2 ^ 24"
  obtains k where "round_f32 s n 0 = round_f32 s (n * 2 ^ k) (- int k)"
    "2 ^ 23 \<le> n * 2 ^ k" "n * 2 ^ k < 2 ^ 24" "k \<le> 23"
proof -
  define b where "b = bit_length n"
  have b: "0 < b" "b \<le> 24"
    using assms bit_length_le_iff [of n 24] bit_length_le_iff [of n 0] by (auto simp: b_def)
  define k where "k = 24 - b"
  have lo: "2 ^ (b - 1) \<le> n"
    using bit_length_le_iff [of n "b - 1"] b(1) unfolding b_def by linarith
  have hi: "n < 2 ^ b" using bit_length_le_iff [of n b] by (simp add: b_def)
  have "(2::nat) ^ 23 = 2 ^ (b - 1) * 2 ^ k" "(2::nat) ^ 24 = 2 ^ b * 2 ^ k"
    using b by (simp_all add: k_def flip: power_add)
  with lo hi have "2 ^ 23 \<le> n * 2 ^ k" "n * 2 ^ k < 2 ^ 24"
    by (metis mult_le_mono1) (metis \<open>2 ^ 24 = 2 ^ b * 2 ^ k\<close> hi mult_less_cancel2 zero_less_numeral zero_less_power)
  moreover have "quantum n 0 = quantum (n * 2 ^ k) (- int k)"
    using assms by (simp add: quantum_def)
  moreover have "quantum n 0 = - int k"
    using b by (simp add: quantum_def k_def flip: b_def)
  ultimately have "round_magnitude n 0 = round_magnitude (n * 2 ^ k) (- int k)"
    using assms by (simp add: round_magnitude_def significand_def)
  then show ?thesis
    using that [of k] \<open>2 ^ 23 \<le> n * 2 ^ k\<close> \<open>n * 2 ^ k < 2 ^ 24\<close> b
    by (simp add: round_f32_def k_def)
qed

lemma as_f32_round_exact:
  assumes "2 ^ 23 \<le> m" "m < 2 ^ 24" "-149 \<le> e" "e \<le> 104"
  shows "as_f32 (round_f32 s m e) = Fin s m e"
proof -
  define n where "n = nat (e + 149)"
  have e: "e = int n - 149" "n \<le> 253" using assms by (simp_all add: n_def)
  define f where "f = m - 2 ^ 23"
  have f: "m = f + 2 ^ 23" "f < 2 ^ 23" using assms by (simp_all add: f_def)
  define mag where "mag = Suc n * 2 ^ 23 + f"
  have mag: "round_magnitude m e = mag"
    using round_magnitude_exact [of m e] assms by (simp add: mag_def f(1) flip: n_def)
  have "mag div 2 ^ 23 = Suc n" "2 ^ 23 \<le> mag"
    using f(2) by (simp_all add: mag_def div_add1_eq)
  moreover have "mag mod 2 ^ 23 = f"
    unfolding mag_def using f(2) by (simp only: mod_mult_self3 mod_less)
  moreover have "mag < 0x7F800000"
    using e(2) f(2) by (simp add: mag_def)
  ultimately have "as_f32 (signed_bits s mag) = Fin s (f + 2 ^ 23) (int (Suc n) - 150)"
    by (simp add: as_f32_signed_bits)
  then show ?thesis unfolding round_f32_def mag by (simp add: f(1) e(1))
qed

lemma int_float_round_trip:
  assumes "\<bar>as_s32 a\<bar> < 2 ^ 24"
  shows "f32_to_s32 (s32_to_f32 a) = a"
proof (cases "as_s32 a = 0")
  case True
  then have "a = 0" using as_s32_inject [of a 0] by (simp add: as_s32_def)
  then show ?thesis
    by (simp add: s32_to_f32_def round_f32_def round_magnitude_def signed_bits_def
        f32_to_s32_def is_nan_def as_f32_def sign_bit_def exponent_field_def fraction_field_def
        f32_le_def f32_lt_def f32_eq_def f32_upper_def f32_lower_def trunc_value_def from_s32_def
        signed_int_def finite_diff_def bit_simps)
next
  case False
  define s n where "s = (as_s32 a < 0)" and "n = nat \<bar>as_s32 a\<bar>"
  have n: "0 < n" "n < 2 ^ 24" using False assms by (simp_all add: n_def)
  obtain k where k: "round_f32 s n 0 = round_f32 s (n * 2 ^ k) (- int k)"
    "2 ^ 23 \<le> n * 2 ^ k" "n * 2 ^ k < 2 ^ 24" "k \<le> 23"
    using round_magnitude_int [OF n] by blast
  have "as_f32 (s32_to_f32 a) = Fin s (n * 2 ^ k) (- int k)"
    using k as_f32_round_exact [of "n * 2 ^ k" "- int k" s]
    by (simp add: s32_to_f32_def s_def n_def as_s32_def)
  then have "as_s32 (f32_to_s32 (s32_to_f32 a)) =
      saturate_s32 (trunc_value s (n * 2 ^ k) (- int k))"
    by (rule f32_to_s32_finite)
  also have "trunc_value s (n * 2 ^ k) (- int k) = as_s32 a"
    by (cases "k = 0") (simp_all add: trunc_value_def signed_int_def s_def n_def)
  also have "saturate_s32 (as_s32 a) = as_s32 a"
    using as_s32_range [of a] by (simp add: saturate_s32_def s32_min_def s32_max_def)
  finally show ?thesis by (simp add: as_s32_inject)
qed

section \<open>One instruction on the lanes of a warp\<close>

lemma read_lane_view: "lane_view rf l = (read_reg rf l, read_pred rf l)"
  by (simp add: lane_view_def)

lemma alu_lane_other: "l' \<noteq> l \<Longrightarrow> lane_view (alu_lane env i ctx l rf) l' = lane_view rf l'"
  by (simp add: alu_lane_def Let_def)

lemma alu_lane_own:
  assumes "lane_view rf l = lane_view rf' l"
  shows "lane_view (alu_lane env i ctx l rf) l = lane_view (alu_lane env i ctx l rf') l"
proof -
  have eq: "read_reg rf l = read_reg rf' l" "read_pred rf l = read_pred rf' l"
    using assms by (simp_all add: lane_view_def)
  then have "fetch i rf l = fetch i rf' l" by (simp add: fetch_def)
  with eq show ?thesis by (simp add: alu_lane_def Let_def)
qed

interpretation alu: lockstep lane_view
    "\<lambda>lane rf. if \<not> has_lane exec lane then rf else alu_lane env i ctx lane rf"
  for exec env i ctx
  by unfold_locales (auto simp: alu_lane_other intro: alu_lane_own)

lemma execute_alu_view:
  assumes "l < 32"
  shows "lane_view (execute_alu env i exec rf ctx) l =
    (if has_lane exec l then lane_view (alu_lane env i ctx l rf) l else lane_view rf l)"
  using assms alu.fold_view [of "[0..<warp_size]" exec env i ctx rf l]
  by (simp add: execute_alu_def warp_size_def)

lemma execute_alu_no_lane:
  "\<not> l < 32 \<Longrightarrow> lane_view (execute_alu env i exec rf ctx) l = lane_view rf l"
  using alu.fold_view [of "[0..<warp_size]" exec env i ctx rf l]
  by (simp add: execute_alu_def warp_size_def)

section \<open>Properties\<close>

text \<open>Signed division and remainder are those of section 4 of the specification over the
  integers: truncation toward zero, zero for a zero divisor, and \<open>INT_MIN\<close> for the quotient that
  overflows. No operand faults.\<close>

theorem signed_division_values:
  "as_s32 (s32_div a b) =
     (if as_s32 b = 0 then 0
      else if as_s32 a = - (2 ^ 31) \<and> as_s32 b = -1 then - (2 ^ 31)
      else as_s32 a sdiv as_s32 b) \<and>
   as_s32 (s32_rem a b) =
     (if as_s32 b = 0 \<or> (as_s32 a = - (2 ^ 31) \<and> as_s32 b = -1) then 0
      else as_s32 a smod as_s32 b)"
  by (simp add: s32_div_value s32_rem_value s32_min_def)

text \<open>Quotient and remainder fit together on every non-zero divisor, the overflowing division
  included.\<close>

theorem quotient_times_divisor:
  "b \<noteq> 0 \<Longrightarrow> wrap_add (wrap_mul (s32_div a b) b) (s32_rem a b) = a"
  by (rule s32_div_rem_identity)

theorem quotient_times_divisor_witness:
  "wrap_add (wrap_mul (s32_div 0x80000000 (-1)) (-1)) (s32_rem 0x80000000 (-1)) = 0x80000000"
  by (rule quotient_times_divisor) simp

text \<open>The arithmetic shift divides by a power of two and rounds down; only the low five bits of
  the count are used.\<close>

theorem arithmetic_shift_value: "as_s32 (sra a c) = as_s32 a div 2 ^ (unat c mod 32)"
  by (rule sra_value)

text \<open>C38: the conversion to an integer truncates toward zero and saturates at both ends; a NaN
  converts to zero and the infinities to the limits.\<close>

theorem float_to_int_saturates:
  "as_s32 (f32_to_s32 w) =
    (case as_f32 w of
       NaN \<Rightarrow> 0
     | Inf s \<Rightarrow> (if s then - (2 ^ 31) else 2 ^ 31 - 1)
     | Fin s m e \<Rightarrow> max (- (2 ^ 31)) (min (2 ^ 31 - 1) (trunc_value s m e)))"
proof (cases "as_f32 w")
  case NaN
  then show ?thesis by (simp add: f32_to_s32_def is_nan_def as_s32_def)
next
  case (Inf s)
  then show ?thesis
    by (simp add: f32_to_s32_def is_nan_def f32_le_def f32_lt_def f32_eq_def as_f32_limits
        as_s32_from_s32 s32_min_def s32_max_def)
next
  case (Fin s m e)
  then show ?thesis
    by (simp add: f32_to_s32_finite saturate_s32_def s32_min_def s32_max_def)
qed

text \<open>Integers of at most 24 bits survive the conversion to binary32 and back.\<close>

theorem small_int_float_round_trip:
  "\<bar>as_s32 a\<bar> < 2 ^ 24 \<Longrightarrow> f32_to_s32 (s32_to_f32 a) = a"
  by (rule int_float_round_trip)

theorem small_int_float_round_trip_witness: "f32_to_s32 (s32_to_f32 (-12345)) = -12345"
  by (rule small_int_float_round_trip) (simp add: as_s32_def)

text \<open>A floating-point comparison with a NaN is false, except \<^verbatim>\<open>setp.ne\<close>, which is
  true.\<close>

theorem nan_comparisons:
  "is_nan x \<or> is_nan y \<Longrightarrow> compare_f32 opc x y \<longleftrightarrow> opc = SetpNeF32"
proof -
  assume "is_nan x \<or> is_nan y"
  then have "as_f32 x = NaN \<or> as_f32 y = NaN" by (auto simp: is_nan_def)
  then have "f32_compare (as_f32 x) (as_f32 y) = None" "f32_compare (as_f32 y) (as_f32 x) = None"
    by (auto simp: f32_compare_None_iff)
  then show ?thesis by (cases opc) (simp_all add: f32_eq_def f32_lt_def f32_le_def)
qed

lemma default_nan_is_nan: "is_nan 0x7FC00000"
  by (simp add: is_nan_def as_f32_def exponent_field_def fraction_field_def bit_simps)

theorem nan_comparisons_witness:
  "\<not> compare_f32 SetpGeF32 0x7FC00000 0 \<and> compare_f32 SetpNeF32 0x7FC00000 0"
  using nan_comparisons [of "0x7FC00000" 0] default_nan_is_nan by simp

text \<open>C29: an arithmetic instruction writes one register or predicate of every executing lane, computed
  from the cells of that lane before the instruction, and leaves every other lane alone. The order
  in which the loop visits the lanes is not observable.\<close>

theorem alu_is_lanewise:
  "lane_view (execute_alu env i exec rf ctx) l =
    (if l < 32 \<and> has_lane exec l
     then (if is_setp (opcode i)
           then (read_reg rf l,
                 (read_pred rf l)(dst i :=
                   (if is_setp_f32 (opcode i)
                    then compare_f32 (opcode i) (op_a (fetch i rf l)) (op_b (fetch i rf l))
                    else compare_s32 (opcode i) (op_a (fetch i rf l)) (op_b (fetch i rf l)))))
           else ((read_reg rf l)(dst i := evaluate env i (fetch i rf l) (read_reg rf l (dst i)) l ctx),
                 read_pred rf l))
     else lane_view rf l)"
proof (cases "l < 32")
  case True
  then show ?thesis by (simp add: execute_alu_view alu_lane_def Let_def)
next
  case False
  then show ?thesis by (simp add: execute_alu_no_lane)
qed

end
