(* ===== verification/Memory_Analysis.thy ===== *)
theory Memory_Analysis
  imports Lane_Types
begin

text \<open>
  \<^verbatim>\<open>include/warpsim/core/memory_stats.hpp\<close> and \<^verbatim>\<open>src/core/memory_analysis.cpp\<close>:
  the coalescing and bank-conflict counting of one warp-level access, and the accumulator that
  adds them up over a launch. The counting loops keep arrays of the values seen so far; the
  lemmas show that they compute the cardinalities the comments of the header define.
\<close>

section \<open>Geometry and counters\<close>

definition segment_bytes :: u32 where "segment_bytes = 128"
definition bank_count :: u32 where "bank_count = 32"
definition bank_width_bytes :: u32 where "bank_width_bytes = 4"

record MemoryStats =
  global_loads :: u64
  global_stores :: u64
  global_lane_accesses :: u64
  global_segments :: u64
  shared_accesses :: u64
  shared_lane_accesses :: u64
  shared_wavefronts :: u64
  shared_conflicted_accesses :: u64

definition no_memory_stats :: MemoryStats where
  "no_memory_stats = \<lparr>global_loads = 0, global_stores = 0, global_lane_accesses = 0,
     global_segments = 0, shared_accesses = 0, shared_lane_accesses = 0,
     shared_wavefronts = 0, shared_conflicted_accesses = 0\<rparr>"

section \<open>The counting loops\<close>

text \<open>
  The addresses of a warp-level access are an array of 32 words indexed by lane, here a
  function. The loops search the filled prefix of a fixed array and append to it.
\<close>

type_synonym Addresses = "nat \<Rightarrow> u32"

definition segment_step ::
    "Addresses \<Rightarrow> LaneMask \<Rightarrow> nat \<Rightarrow> u32 list \<times> u32 \<Rightarrow> u32 list \<times> u32" where
  "segment_step addresses exec lane st =
    (let (segments, count) = st in
     if \<not> has_lane exec lane then (segments, count)
     else
       (let segment = addresses lane div segment_bytes;
            seen = take (unat count) segments
        in if find (\<lambda>s. s = segment) seen = None
           then (segments[unat count := segment], count + 1)
           else (segments, count)))"

definition distinct_segments :: "Addresses \<Rightarrow> LaneMask \<Rightarrow> u32" where
  "distinct_segments addresses exec =
    snd (fold (segment_step addresses exec) [0..<warp_size] (replicate warp_size 0, 0))"

definition bank_of :: "u32 \<Rightarrow> u32" where
  "bank_of address = (address div bank_width_bytes) mod bank_count"

definition bank_step ::
    "Addresses \<Rightarrow> LaneMask \<Rightarrow> nat \<Rightarrow> u32 list list \<times> u32 list \<times> u32 \<Rightarrow> u32 list list \<times> u32 list \<times> u32"
where
  "bank_step addresses exec lane st =
    (let (seen, counts, degree) = st in
     if \<not> has_lane exec lane then (seen, counts, degree)
     else
       (let address = addresses lane;
            bank = unat (bank_of address);
            bucket = seen ! bank;
            n = counts ! bank;
            in_bank = take (unat n) bucket
        in if find (\<lambda>a. a = address) in_bank = None
           then (seen[bank := bucket[unat n := address]], counts[bank := n + 1], max degree (n + 1))
           else (seen, counts, degree)))"

definition bank_conflict_degree :: "Addresses \<Rightarrow> LaneMask \<Rightarrow> u32" where
  "bank_conflict_degree addresses exec =
    snd (snd (fold (bank_step addresses exec) [0..<warp_size]
      (replicate (unat bank_count) (replicate warp_size 0), replicate (unat bank_count) 0, 0)))"

section \<open>The accumulator\<close>

definition on_global :: "Addresses \<Rightarrow> LaneMask \<Rightarrow> bool \<Rightarrow> MemoryStats \<Rightarrow> MemoryStats" where
  "on_global addresses exec is_store st =
    (if exec = 0 then st
     else
       (let st1 = (if is_store then st\<lparr>global_stores := global_stores st + 1\<rparr>
                   else st\<lparr>global_loads := global_loads st + 1\<rparr>)
        in st1\<lparr>global_lane_accesses := global_lane_accesses st1 + of_nat (lane_count exec),
               global_segments := global_segments st1 + ucast (distinct_segments addresses exec)\<rparr>))"

definition on_shared :: "Addresses \<Rightarrow> LaneMask \<Rightarrow> bool \<Rightarrow> MemoryStats \<Rightarrow> MemoryStats" where
  "on_shared addresses exec is_store st =
    (if exec = 0 then st
     else
       (let degree = bank_conflict_degree addresses exec;
            st1 = st\<lparr>shared_accesses := shared_accesses st + 1,
                     shared_lane_accesses := shared_lane_accesses st + of_nat (lane_count exec),
                     shared_wavefronts := shared_wavefronts st + ucast degree\<rparr>
        in if degree > 1
           then st1\<lparr>shared_conflicted_accesses := shared_conflicted_accesses st1 + 1\<rparr>
           else st1))"

section \<open>The filled prefix of an array as a set\<close>

text \<open>\<open>holds arr n S k\<close>: the first \<open>n\<close> cells of a 32-cell array list the set \<open>S\<close> without
  repetition, and at most \<open>k\<close> of them are filled.\<close>

definition holds :: "u32 list \<Rightarrow> u32 \<Rightarrow> u32 set \<Rightarrow> nat \<Rightarrow> bool" where
  "holds arr n S k \<longleftrightarrow>
    length arr = 32 \<and> unat n \<le> k \<and> distinct (take (unat n) arr) \<and> set (take (unat n) arr) = S"

lemma holds_empty: "holds (replicate 32 0) 0 {} 0"
  by (simp add: holds_def)

lemma holds_card: "holds arr n S k \<Longrightarrow> k \<le> 32 \<Longrightarrow> unat n = card S"
  unfolding holds_def by (metis distinct_card length_take min.absorb2 order_trans)

lemma holds_mono: "holds arr n S k \<Longrightarrow> k \<le> k' \<Longrightarrow> holds arr n S k'"
  by (auto simp: holds_def)

lemma find_eq_None: "find (\<lambda>y. y = x) xs = None \<longleftrightarrow> x \<notin> set xs"
  by (auto simp: find_None_iff)

lemma unat_Suc_small: "unat n \<le> k \<Longrightarrow> k < 32 \<Longrightarrow> unat (n + 1 :: u32) = Suc (unat n)"
  by (subst unat_plus_if') simp

lemma holds_insert:
  assumes "holds arr n S k" "k < 32" "x \<notin> S"
  shows "holds (arr[unat n := x]) (n + 1) (insert x S) (Suc k)"
proof -
  have "unat n < length arr" using assms by (simp add: holds_def)
  then have "take (Suc (unat n)) (arr[unat n := x]) = take (unat n) arr @ [x]"
    by (simp add: take_Suc_conv_app_nth)
  then show ?thesis
    using assms unat_Suc_small [of n k] by (simp add: holds_def)
qed

lemma holds_found:
  "holds arr n S k \<Longrightarrow> find (\<lambda>y. y = x) (take (unat n) arr) = None \<longleftrightarrow> x \<notin> S"
  by (simp add: holds_def find_eq_None)

section \<open>The loops count distinct values\<close>

definition lanes_below :: "LaneMask \<Rightarrow> nat \<Rightarrow> nat set" where
  "lanes_below exec k = {lane. lane < k \<and> has_lane exec lane}"

lemma lanes_below_simps [simp]:
  "lanes_below exec 0 = {}"
  "lanes_below exec (Suc k) =
    (if has_lane exec k then insert k (lanes_below exec k) else lanes_below exec k)"
  by (auto simp: lanes_below_def less_Suc_eq)

lemma lanes_below_32: "lanes_below exec 32 = lanes_of exec"
  by (auto simp: lanes_below_def lanes_of_def warp_size_def)

lemma distinct_segments_card_helper:
  "unat (distinct_segments addresses exec) =
    card ((\<lambda>lane. addresses lane div segment_bytes) ` lanes_of exec)"
proof -
  let ?seg = "\<lambda>lane. addresses lane div segment_bytes"
  define P where "P k st = holds (fst st) (snd st) (?seg ` lanes_below exec k) k" for k st
  have "P 32 (fold (segment_step addresses exec) [0..<32] (replicate 32 0, 0))"
  proof (rule fold_upt_invariant)
    show "P 0 (replicate 32 0, 0)" by (simp add: P_def holds_empty)
  next
    fix k st assume k: "k < 32" and "P k st"
    then obtain arr n where st: "st = (arr, n)" and h: "holds arr n (?seg ` lanes_below exec k) k"
      by (cases st) (auto simp: P_def)
    show "P (Suc k) (segment_step addresses exec k st)"
      using h holds_mono [OF h] holds_insert [OF h k, of "?seg k"]
      by (auto simp: P_def segment_step_def st Let_def holds_found [OF h] insert_absorb)
  qed
  then show ?thesis
    by (simp add: P_def distinct_segments_def warp_size_def holds_card lanes_below_32)
qed

text \<open>The addresses of the executing lanes that fall into one bank.\<close>

definition in_bank :: "Addresses \<Rightarrow> nat set \<Rightarrow> nat \<Rightarrow> u32 set" where
  "in_bank addresses lanes b = addresses ` {lane \<in> lanes. unat (bank_of (addresses lane)) = b}"

lemma in_bank_insert:
  "in_bank addresses (insert k lanes) b =
    (if unat (bank_of (addresses k)) = b then insert (addresses k) (in_bank addresses lanes b)
     else in_bank addresses lanes b)"
  by (auto simp: in_bank_def)

lemma bank_of_less: "unat (bank_of a) < 32"
proof -
  have "unat (bank_of a) = unat (a div bank_width_bytes) mod 32"
    by (simp add: bank_of_def bank_count_def unat_mod_distrib)
  then show ?thesis by simp
qed

text \<open>The state of the loop after the first \<open>k\<close> lanes.\<close>

definition bank_inv ::
    "Addresses \<Rightarrow> nat set \<Rightarrow> nat \<Rightarrow> u32 list list \<times> u32 list \<times> u32 \<Rightarrow> bool" where
  "bank_inv addresses lanes k st \<longleftrightarrow>
    (let (seen, counts, degree) = st in
     length seen = 32 \<and> length counts = 32 \<and>
     (\<forall>b < 32. holds (seen ! b) (counts ! b) (in_bank addresses lanes b) k \<and> counts ! b \<le> degree) \<and>
     (degree = 0 \<or> (\<exists>b < 32. counts ! b = degree)))"

lemma bank_inv_step:
  assumes "bank_inv addresses lanes k st" "k < 32" "has_lane exec k"
  shows "bank_inv addresses (insert k lanes) (Suc k) (bank_step addresses exec k st)"
proof -
  obtain seen counts degree where st: "st = (seen, counts, degree)" by (cases st)
  note inv = assms(1)[unfolded bank_inv_def st Let_def split]
  define c where "c = unat (bank_of (addresses k))"
  have c: "c < 32" by (simp add: c_def bank_of_less)
  have h: "holds (seen ! b) (counts ! b) (in_bank addresses lanes b) k" if "b < 32" for b
    using inv that by blast
  show ?thesis
  proof (cases "addresses k \<in> in_bank addresses lanes c")
    case True
    then have "bank_step addresses exec k st = st"
      using assms(3) holds_found [OF h [OF c]] by (simp add: bank_step_def st Let_def c_def)
    moreover have "in_bank addresses (insert k lanes) b = in_bank addresses lanes b" for b
      using True by (auto simp: in_bank_insert c_def)
    ultimately show ?thesis
      using inv h holds_mono [of _ _ _ k "Suc k"] by (simp add: bank_inv_def st)
  next
    case False
    let ?n = "counts ! c"
    have step: "bank_step addresses exec k st =
        (seen[c := (seen ! c)[unat ?n := addresses k]], counts[c := ?n + 1], max degree (?n + 1))"
      using assms(3) False holds_found [OF h [OF c]] by (simp add: bank_step_def st Let_def c_def)
    have new: "holds ((seen ! c)[unat ?n := addresses k]) (?n + 1)
        (insert (addresses k) (in_bank addresses lanes c)) (Suc k)"
      using h [OF c] assms(2) False by (rule holds_insert)
    have deg: "counts ! b \<le> max degree (?n + 1)" if "b < 32" for b
      using inv that by (meson le_max_iff_disj)
    have "max degree (?n + 1) = degree \<or> max degree (?n + 1) = ?n + 1"
      by (simp add: max_def)
    moreover have "degree \<noteq> 0 \<Longrightarrow> max degree (?n + 1) = degree \<Longrightarrow>
        \<exists>b < 32. counts[c := ?n + 1] ! b = degree"
    proof -
      assume "degree \<noteq> 0" and m: "max degree (?n + 1) = degree"
      then obtain b where b: "b < 32" "counts ! b = degree" using inv by blast
      show ?thesis
      proof (cases "b = c")
        case True
        have "?n + 1 \<le> ?n" using m b(2) True by (metis max.cobounded2)
        moreover have "unat (?n + 1) = Suc (unat ?n)"
          using h [OF c] assms(2) by (intro unat_Suc_small) (simp_all add: holds_def)
        ultimately show ?thesis by (simp add: word_le_nat_alt)
      next
        case False
        with b show ?thesis by (metis nth_list_update_neq)
      qed
    qed
    ultimately have "max degree (?n + 1) = 0 \<or> (\<exists>b < 32. counts[c := ?n + 1] ! b = max degree (?n + 1))"
      using c inv by (metis nth_list_update_eq)
    then show ?thesis
      using inv c new h deg holds_mono [of _ _ _ k "Suc k"]
      by (simp add: bank_inv_def step nth_list_update in_bank_insert flip: c_def)
  qed
qed

lemma bank_conflict_degree_helper:
  "unat (bank_conflict_degree addresses exec) =
    Max ((\<lambda>b. card (in_bank addresses (lanes_of exec) b)) ` {..<32})"
proof -
  have "bank_inv addresses (lanes_below exec 32) 32
      (fold (bank_step addresses exec) [0..<32] (replicate 32 (replicate 32 0), replicate 32 0, 0))"
  proof (rule fold_upt_invariant)
    show "bank_inv addresses (lanes_below exec 0) 0 (replicate 32 (replicate 32 0), replicate 32 0, 0)"
      by (simp add: bank_inv_def holds_empty in_bank_def)
  next
    fix k st assume k: "k < 32" and inv: "bank_inv addresses (lanes_below exec k) k st"
    show "bank_inv addresses (lanes_below exec (Suc k)) (Suc k) (bank_step addresses exec k st)"
    proof (cases "has_lane exec k")
      case True
      with bank_inv_step [OF inv k] show ?thesis by simp
    next
      case False
      with inv holds_mono [of _ _ _ k "Suc k"] show ?thesis
        by (auto simp: bank_step_def bank_inv_def)
    qed
  qed
  then obtain seen counts degree where
    f: "fold (bank_step addresses exec) [0..<32] (replicate 32 (replicate 32 0), replicate 32 0, 0) =
      (seen, counts, degree)" and
    inv: "bank_inv addresses (lanes_of exec) 32 (seen, counts, degree)"
    by (metis lanes_below_32 prod_cases3)
  have count: "unat (counts ! b) = card (in_bank addresses (lanes_of exec) b)" if "b < 32" for b
    using inv that holds_card [of "seen ! b" "counts ! b" _ 32] by (auto simp: bank_inv_def)
  have "Max ((\<lambda>b. card (in_bank addresses (lanes_of exec) b)) ` {..<32}) = unat degree"
  proof (rule Max_eqI)
    fix y assume "y \<in> (\<lambda>b. card (in_bank addresses (lanes_of exec) b)) ` {..<32}"
    with inv count show "y \<le> unat degree"
      by (auto simp: bank_inv_def word_le_nat_alt)
  next
    have "\<exists>b < 32. counts ! b = degree"
    proof (cases "degree = 0")
      case True
      with inv have "counts ! 0 = degree" by (auto simp: bank_inv_def)
      then show ?thesis by (intro exI [of _ 0]) simp
    qed (use inv in \<open>auto simp: bank_inv_def\<close>)
    then show "unat degree \<in> (\<lambda>b. card (in_bank addresses (lanes_of exec) b)) ` {..<32}"
      using count by fastforce
  qed simp
  then show ?thesis
    by (simp add: bank_conflict_degree_def bank_count_def warp_size_def f)
qed

section \<open>Bounds of the counts\<close>

lemma distinct_segments_bounds_helper:
  "unat (distinct_segments addresses exec) \<le> lane_count exec"
  "exec \<noteq> 0 \<Longrightarrow> 0 < unat (distinct_segments addresses exec)"
  by (simp_all add: distinct_segments_card_helper lane_count_card card_image_le card_gt_0_iff)

lemma in_bank_card_le: "card (in_bank addresses (lanes_of exec) b) \<le> lane_count exec"
proof -
  have "card (in_bank addresses (lanes_of exec) b) \<le>
      card {lane \<in> lanes_of exec. unat (bank_of (addresses lane)) = b}"
    by (simp add: in_bank_def card_image_le)
  also have "\<dots> \<le> card (lanes_of exec)" by (rule card_mono) auto
  finally show ?thesis by (simp add: lane_count_card)
qed

lemma bank_conflict_degree_bounds_helper:
  "unat (bank_conflict_degree addresses exec) \<le> lane_count exec"
  "exec \<noteq> 0 \<Longrightarrow> 0 < unat (bank_conflict_degree addresses exec)"
proof -
  show "unat (bank_conflict_degree addresses exec) \<le> lane_count exec"
    by (subst bank_conflict_degree_helper, subst Max_le_iff) (auto simp: in_bank_card_le lessThan_empty_iff)
next
  assume "exec \<noteq> 0"
  then obtain lane where lane: "lane \<in> lanes_of exec"
    using lanes_of_empty_iff by blast
  let ?b = "unat (bank_of (addresses lane))"
  have "addresses lane \<in> in_bank addresses (lanes_of exec) ?b"
    using lane by (auto simp: in_bank_def)
  then have "0 < card (in_bank addresses (lanes_of exec) ?b)"
    by (auto simp: card_gt_0_iff in_bank_def)
  then show "0 < unat (bank_conflict_degree addresses exec)"
    by (subst bank_conflict_degree_helper, subst Max_gr_iff) (auto intro: bank_of_less simp: lessThan_empty_iff)
qed

text \<open>An access is free of conflicts exactly when no two executing lanes hit different
  addresses of one bank: lanes of one address broadcast.\<close>

lemma conflict_free_iff:
  "unat (bank_conflict_degree addresses exec) \<le> 1 \<longleftrightarrow>
    (\<forall>l \<in> lanes_of exec. \<forall>l' \<in> lanes_of exec.
      bank_of (addresses l) = bank_of (addresses l') \<longrightarrow> addresses l = addresses l')"
proof -
  have "unat (bank_conflict_degree addresses exec) \<le> 1 \<longleftrightarrow>
      (\<forall>b < 32. card (in_bank addresses (lanes_of exec) b) \<le> 1)"
    by (subst bank_conflict_degree_helper, subst Max_le_iff) (auto simp: lessThan_empty_iff)
  also have "\<dots> \<longleftrightarrow> (\<forall>b < 32. \<forall>x \<in> in_bank addresses (lanes_of exec) b.
      \<forall>y \<in> in_bank addresses (lanes_of exec) b. x = y)"
    unfolding One_nat_def by (subst card_le_Suc0_iff_eq) (simp_all add: in_bank_def)
  also have "\<dots> \<longleftrightarrow> (\<forall>l \<in> lanes_of exec. \<forall>l' \<in> lanes_of exec.
      bank_of (addresses l) = bank_of (addresses l') \<longrightarrow> addresses l = addresses l')"
    (is "?L \<longleftrightarrow> ?R")
  proof
    assume L: ?L
    show ?R
    proof (intro ballI impI)
      fix l l' assume "l \<in> lanes_of exec" "l' \<in> lanes_of exec"
        "bank_of (addresses l) = bank_of (addresses l')"
      with L bank_of_less [of "addresses l"] show "addresses l = addresses l'"
        by (simp add: in_bank_def)
    qed
  next
    assume ?R
    then show ?L by (auto simp: in_bank_def simp flip: word_unat_eq_iff)
  qed
  finally show ?thesis .
qed

section \<open>Properties\<close>

text \<open>C32: the coalescing counter is the number of distinct 128-byte segments among the addresses
  of the executing lanes.\<close>

theorem segments_counted:
  "unat (distinct_segments addresses exec) =
    card ((\<lambda>lane. addresses lane div 128) ` {lane. lane < 32 \<and> has_lane exec lane})"
  using distinct_segments_card_helper [of addresses exec]
  by (simp add: lanes_of_def warp_size_def segment_bytes_def)

text \<open>C31: the conflict degree is the maximum over the 32 banks of the number of distinct addresses
  the executing lanes direct at the bank.\<close>

theorem conflict_degree_counted:
  "unat (bank_conflict_degree addresses exec) =
    Max ((\<lambda>b. card {a. \<exists>lane < 32. has_lane exec lane \<and> addresses lane = a \<and> unat a div 4 mod 32 = b}) ` {..<32})"
proof -
  have "in_bank addresses (lanes_of exec) b =
      {a. \<exists>lane < 32. has_lane exec lane \<and> addresses lane = a \<and> unat a div 4 mod 32 = b}" for b
    by (auto simp: in_bank_def lanes_of_def warp_size_def bank_of_def bank_width_bytes_def bank_count_def unat_div_distrib unat_mod_distrib)
  then show ?thesis by (simp add: bank_conflict_degree_helper)
qed

text \<open>A shared access is free of conflicts exactly when no two executing lanes hit different
  addresses of one bank; lanes that share an address broadcast.\<close>

theorem conflict_free_means_broadcast:
  "unat (bank_conflict_degree addresses exec) \<le> 1 \<longleftrightarrow>
    (\<forall>l \<in> lanes_of exec. \<forall>l' \<in> lanes_of exec.
      bank_of (addresses l) = bank_of (addresses l') \<longrightarrow> addresses l = addresses l')"
  by (rule conflict_free_iff)

theorem conflict_free_means_broadcast_witness:
  "unat (bank_conflict_degree (\<lambda>_. 64) full_mask) \<le> 1"
  unfolding conflict_free_means_broadcast by simp

text \<open>Both measures of an access lie between one and the number of executing lanes, so an
  access costs at most 32 passes.\<close>

theorem access_measures_bounded:
  assumes "exec \<noteq> 0"
  shows "1 \<le> unat (distinct_segments addresses exec) \<and>
    unat (distinct_segments addresses exec) \<le> lane_count exec \<and>
    1 \<le> unat (bank_conflict_degree addresses exec) \<and>
    unat (bank_conflict_degree addresses exec) \<le> lane_count exec \<and> lane_count exec \<le> 32"
  using distinct_segments_bounds_helper [where addresses = addresses and exec = exec] bank_conflict_degree_bounds_helper [where addresses = addresses and exec = exec]
    lane_count_le [of exec] assms by simp

theorem access_measures_bounded_witness:
  "1 \<le> unat (distinct_segments (\<lambda>_. 0) 1) \<and> unat (bank_conflict_degree (\<lambda>_. 0) 1) \<le> lane_count 1"
  using access_measures_bounded [of 1 "\<lambda>_. 0"] by simp

text \<open>One warp-level access adds exactly its own measures to the totals, and an access without
  executing lanes adds nothing.\<close>

theorem accumulator_adds_measures:
  "global_segments (on_global addresses exec is_store st) =
     global_segments st + (if exec = 0 then 0 else ucast (distinct_segments addresses exec)) \<and>
   global_loads (on_global addresses exec is_store st) + global_stores (on_global addresses exec is_store st) =
     global_loads st + global_stores st + (if exec = 0 then 0 else 1) \<and>
   global_lane_accesses (on_global addresses exec is_store st) =
     global_lane_accesses st + of_nat (lane_count exec) \<and>
   shared_wavefronts (on_shared addresses exec is_store st) =
     shared_wavefronts st + (if exec = 0 then 0 else ucast (bank_conflict_degree addresses exec)) \<and>
   shared_conflicted_accesses (on_shared addresses exec is_store st) =
     shared_conflicted_accesses st + of_bool (exec \<noteq> 0 \<and> 1 < bank_conflict_degree addresses exec) \<and>
   shared_accesses (on_shared addresses exec is_store st) = shared_accesses st + of_bool (exec \<noteq> 0) \<and>
   shared_lane_accesses (on_shared addresses exec is_store st) =
     shared_lane_accesses st + of_nat (lane_count exec)"
proof -
  have "(of_nat (lane_count 0) :: u64) = 0" unfolding lane_count_card by simp
  then show ?thesis by (simp add: on_global_def on_shared_def Let_def)
qed

end
