(* ===== verification/Memory_Port.thy ===== *)
theory Memory_Port
  imports Memory_Analysis
begin

text \<open>
  \<^verbatim>\<open>include/warpsim/core/memory_port.hpp\<close>: the interface a warp has to the memory of
  its block. The abstract class is a record of operations on a state; a locale states what the
  warp relies on, and derives what a run of lane accesses does. The memory of a block
  (\<^verbatim>\<open>BlockMemory\<close>) is the implementation the code has.
\<close>

section \<open>The interface\<close>

datatype Space = Global | Shared | Param

record AccessFault =
  access_message :: string
  access_lane :: nat
  access_address :: u32

text \<open>
  The three virtual functions. Each may change the memory, whether it succeeds or not: it
  returns the outcome and the state it leaves.
\<close>

record 'm MemoryPort =
  port_load :: "Space \<Rightarrow> u32 \<Rightarrow> nat \<Rightarrow> 'm \<Rightarrow> (u32, AccessFault) result \<times> 'm"
  port_store :: "Space \<Rightarrow> u32 \<Rightarrow> u32 \<Rightarrow> nat \<Rightarrow> 'm \<Rightarrow> (unit, AccessFault) result \<times> 'm"
  port_on_warp_access :: "Space \<Rightarrow> bool \<Rightarrow> Addresses \<Rightarrow> LaneMask \<Rightarrow> 'm \<Rightarrow> 'm"

section \<open>What a warp relies on\<close>

locale memory_port =
  fixes port :: "'m MemoryPort"
  assumes load_frame: "snd (port_load port space a lane m) = m"
    and store_fault: "fst (port_store port space a v lane m) = Inl e \<Longrightarrow>
      snd (port_store port space a v lane m) = m"
    and load_store: "fst (port_store port space a v lane m) = Inr () \<Longrightarrow>
      fst (port_load port space' a' lane' (snd (port_store port space a v lane m))) =
        (if space' = space \<and> a' = a then Inr v else fst (port_load port space' a' lane' m))"
    and store_store: "fst (port_store port space a v lane
        (snd (port_store port space' a' v' lane' m))) = fst (port_store port space a v lane m)"
    and load_hook: "fst (port_load port space a lane
        (port_on_warp_access port space' is_store addresses exec m)) = fst (port_load port space a lane m)"
    and store_hook: "fst (port_store port space a v lane
        (port_on_warp_access port space' is_store addresses exec m)) = fst (port_store port space a v lane m)"
begin

text \<open>A run of stores that all succeed: every cell holds the value stored last.\<close>

definition store_run :: "Space \<Rightarrow> Addresses \<Rightarrow> (nat \<Rightarrow> u32) \<Rightarrow> nat list \<Rightarrow> 'm \<Rightarrow> 'm" where
  "store_run space addresses vs lanes m =
    fold (\<lambda>lane m. snd (port_store port space (addresses lane) (vs lane) lane m)) lanes m"

lemma store_run_result:
  "fst (port_store port space a v lane (store_run space' addresses vs lanes m)) =
    fst (port_store port space a v lane m)"
  by (induction lanes arbitrary: m) (simp_all add: store_run_def store_store)

lemma store_run_load:
  assumes "\<forall>lane \<in> set lanes. fst (port_store port space (addresses lane) (vs lane) lane m) = Inr ()"
  shows "fst (port_load port space' a' lane' (store_run space addresses vs lanes m)) =
    (case find (\<lambda>lane. space' = space \<and> addresses lane = a') (rev lanes) of
       Some lane \<Rightarrow> Inr (vs lane)
     | None \<Rightarrow> fst (port_load port space' a' lane' m))"
  using assms
proof (induction lanes rule: rev_induct)
  case Nil
  then show ?case by (simp add: store_run_def)
next
  case (snoc lane lanes)
  let ?m = "store_run space addresses vs lanes m"
  have "store_run space addresses vs (lanes @ [lane]) m =
      snd (port_store port space (addresses lane) (vs lane) lane ?m)"
    by (simp add: store_run_def)
  moreover have "fst (port_store port space (addresses lane) (vs lane) lane ?m) = Inr ()"
    using snoc.prems by (simp add: store_run_result)
  ultimately show ?case
    using snoc by (auto simp: load_store)
qed

end

end
