(* ===== verification/Warp.thy ===== *)
theory Warp
  imports Alu Memory_Port
begin

text \<open>
  \<^verbatim>\<open>include/warpsim/core/fault.hpp\<close>, \<^verbatim>\<open>warp_state.hpp\<close>, \<^verbatim>\<open>warp.hpp\<close>
  and \<^verbatim>\<open>src/core/warp.cpp\<close>: one warp of 32 lanes with its divergence stack, and the
  scheduling step that issues at most one instruction. The members of \<^verbatim>\<open>WarpState\<close> and
  the private members of the class \<^verbatim>\<open>Warp\<close> are one record; the vector of the stack is a
  list whose head is the top (the back of the vector).
\<close>

unbundle bit_operations_syntax

section \<open>State\<close>

record Fault =
  fault_message :: string
  fault_block :: u32
  fault_warp :: u32
  fault_lane :: u32
  fault_pc :: u16
  fault_address :: u32

definition default_fault :: Fault where
  "default_fault = \<lparr>fault_message = [], fault_block = 0, fault_warp = 0, fault_lane = 0,
     fault_pc = 0, fault_address = 0\<rparr>"

record DivergenceEntry =
  reconv_pc :: u16
  resume_pc :: u16
  entry_mask :: LaneMask

definition is_join :: "DivergenceEntry \<Rightarrow> bool" where
  "is_join entry \<longleftrightarrow> resume_pc entry = reconv_pc entry"

record WarpState =
  wpc :: u16
  active :: LaneMask
  live :: LaneMask
  dstack :: "DivergenceEntry list"
  registers :: RegisterFile
  state_warp_id :: u32
  parked :: bool

definition finished :: "'a WarpState_scheme \<Rightarrow> bool" where
  "finished w \<longleftrightarrow> live w = 0"

record Warp = WarpState +
  lane_ctx :: LaneContext
  last_exec :: LaneMask
  divergent :: u64
  reconverged :: u64
  last_opcode :: Opcode

datatype StepOutcome = Issued | Barrier | Finished

definition new_warp :: "u32 \<Rightarrow> LaneMask \<Rightarrow> LaneContext \<Rightarrow> Warp" where
  "new_warp wid lanes ctx =
    \<lparr>wpc = 0, active = lanes, live = lanes, dstack = [], registers = empty_register_file,
     state_warp_id = wid, parked = False, lane_ctx = ctx, last_exec = 0, divergent = 0,
     reconverged = 0, last_opcode = Exit\<rparr>"

section \<open>Faults\<close>

definition make_fault :: "Warp \<Rightarrow> string \<Rightarrow> nat \<Rightarrow> u32 \<Rightarrow> Fault" where
  "make_fault w message lane address =
    \<lparr>fault_message = message,
     fault_block = dim_y (ctaid (lane_ctx w)) * dim_x (nctaid (lane_ctx w)) + dim_x (ctaid (lane_ctx w)),
     fault_warp = state_warp_id w,
     fault_lane = of_nat lane,
     fault_pc = wpc w,
     fault_address = address\<rparr>"

text \<open>\<^verbatim>\<open>std::to_string\<close> of an unsigned number, and the eight hexadecimal digits of the
  address.\<close>

fun decimal :: "nat \<Rightarrow> string" where
  "decimal n = (if n < 10 then [''0123456789'' ! n] else decimal (n div 10) @ [''0123456789'' ! (n mod 10)])"

declare decimal.simps [simp del]

definition hex_digits :: "u32 \<Rightarrow> string" where
  "hex_digits address =
    List.map (\<lambda>shift. ''0123456789abcdef'' ! unat (drop_bit shift address AND 0xF))
      [28, 24, 20, 16, 12, 8, 4, 0]"

definition describe :: "Fault \<Rightarrow> string" where
  "describe f =
    fault_message f @ '' (block '' @ decimal (unat (fault_block f)) @ '', warp '' @
    decimal (unat (fault_warp f)) @ '', lane '' @ decimal (unat (fault_lane f)) @ '', pc '' @
    decimal (unat (fault_pc f)) @ '', address 0x'' @ hex_digits (fault_address f) @ '')''"

section \<open>The divergence stack\<close>

definition switch_to :: "DivergenceEntry \<Rightarrow> LaneMask \<Rightarrow> Warp \<Rightarrow> Warp" where
  "switch_to entry arrived w =
    (if is_join entry then w\<lparr>active := arrived OR entry_mask entry, wpc := reconv_pc entry\<rparr>
     else
       (let w1 = (if arrived \<noteq> 0
                  then w\<lparr>dstack := \<lparr>reconv_pc = reconv_pc entry, resume_pc = reconv_pc entry,
                                    entry_mask = arrived\<rparr> # dstack w\<rparr>
                  else w)
        in w1\<lparr>active := entry_mask entry, wpc := resume_pc entry\<rparr>))"

text \<open>A deferred path is switched to once and then waits as a join entry: it weighs two pops,
  a join entry one.\<close>

fun stack_weight :: "DivergenceEntry list \<Rightarrow> nat" where
  "stack_weight [] = 0"
| "stack_weight (e # es) = (if is_join e then 1 else 2) + stack_weight es"

lemma switch_to_weight:
  "stack_weight (dstack (switch_to entry arrived w)) <
    (if is_join entry then 1 else 2) + stack_weight (dstack w)"
  by (simp add: switch_to_def is_join_def)

lemma switch_to_weight_empty:
  "stack_weight (dstack (switch_to entry 0 w)) = stack_weight (dstack w)"
  by (simp add: switch_to_def)

function resolve_stack :: "Warp \<Rightarrow> bool \<times> Warp" where
  "resolve_stack w =
    (if active w = 0 then
       (case dstack w of
          [] \<Rightarrow> (False, w)
        | entry # rest \<Rightarrow> resolve_stack (switch_to entry 0 (w\<lparr>dstack := rest\<rparr>)))
     else
       (case dstack w of
          [] \<Rightarrow> (True, w)
        | entry # rest \<Rightarrow>
            if reconv_pc entry = wpc w
            then resolve_stack
                   (switch_to entry (active w) (w\<lparr>dstack := rest, reconverged := reconverged w + 1\<rparr>))
            else (True, w)))"
  by pat_completeness auto

termination
proof (relation "measure (\<lambda>w. stack_weight (dstack w))")
  show "wf (measure (\<lambda>w. stack_weight (dstack w)))" by simp
next
  fix w :: Warp and entry rest
  assume "dstack w = entry # rest"
  then show "(switch_to entry 0 (w\<lparr>dstack := rest\<rparr>), w) \<in> measure (\<lambda>w. stack_weight (dstack w))"
    using switch_to_weight_empty [of entry "w\<lparr>dstack := rest\<rparr>"] by simp
next
  fix w :: Warp and entry rest
  assume "dstack w = entry # rest"
  then show "(switch_to entry (active w) (w\<lparr>dstack := rest, reconverged := reconverged w + 1\<rparr>), w)
      \<in> measure (\<lambda>w. stack_weight (dstack w))"
    using switch_to_weight [of entry "active w" "w\<lparr>dstack := rest, reconverged := reconverged w + 1\<rparr>"]
    by simp
qed

declare resolve_stack.simps [simp del]

definition retire :: "LaneMask \<Rightarrow> Warp \<Rightarrow> Warp" where
  "retire lanes w =
    w\<lparr>live := live w AND NOT lanes, active := active w AND NOT lanes,
      dstack := List.map (\<lambda>e. e\<lparr>entry_mask := entry_mask e AND NOT lanes\<rparr>) (dstack w)\<rparr>"

text \<open>The assertions of \<^verbatim>\<open>check_invariants\<close>: the result is true when none of them
  fires. The loop runs from the bottom of the stack to its top.\<close>

definition check_invariants :: "Warp \<Rightarrow> bool" where
  "check_invariants w =
    (let (seen, ok) =
       fold (\<lambda>e (seen, ok). (seen OR entry_mask e, ok \<and> seen AND entry_mask e = 0))
         (rev (dstack w)) (active w, True)
     in ok \<and> seen AND NOT (live w) = 0)"

section \<open>One scheduling step\<close>

text \<open>What a pass of the loop leaves to be resolved: \<open>resolve_stack\<close> does not increase it
  and retiring the active lanes decreases it.\<close>

definition pending :: "Warp \<Rightarrow> nat" where
  "pending w = stack_weight (dstack w) + (if active w = 0 then 0 else 1)"

lemma resolve_stack_pending: "pending (snd (resolve_stack w)) \<le> pending w"
proof (induction w rule: resolve_stack.induct)
  case (1 w)
  show ?case
  proof (cases "dstack w")
    case Nil
    then show ?thesis by (subst resolve_stack.simps) simp
  next
    case (Cons entry rest)
    let ?w0 = "switch_to entry 0 (w\<lparr>dstack := rest\<rparr>)"
    let ?w1 = "switch_to entry (active w) (w\<lparr>dstack := rest, reconverged := reconverged w + 1\<rparr>)"
    have "pending ?w0 \<le> pending w" if "active w = 0"
      using that Cons switch_to_weight_empty [of entry "w\<lparr>dstack := rest\<rparr>"]
      by (simp add: pending_def)
    moreover have "pending ?w1 \<le> pending w" if "active w \<noteq> 0"
      using that Cons switch_to_weight [of entry "active w" "w\<lparr>dstack := rest, reconverged := reconverged w + 1\<rparr>"]
      by (simp add: pending_def)
    ultimately show ?thesis
      using 1 Cons by (subst resolve_stack.simps) (auto intro: order_trans)
  qed
qed

lemma resolve_stack_True: "fst (resolve_stack w) \<Longrightarrow> active (snd (resolve_stack w)) \<noteq> 0"
proof (induction w rule: resolve_stack.induct)
  case (1 w)
  from "1.prems" "1.IH" show ?case
    by (subst resolve_stack.simps, subst (asm) resolve_stack.simps [of w])
       (auto split: list.splits if_splits)
qed

lemma stack_weight_map [simp]:
  "stack_weight (List.map (\<lambda>e. e\<lparr>entry_mask := f e\<rparr>) es) = stack_weight es"
  by (induction es) (simp_all add: is_join_def)

text \<open>The loop at the head of \<^verbatim>\<open>step\<close>: the first component tells whether an
  instruction is left to issue.\<close>

function settle :: "nat \<Rightarrow> Warp \<Rightarrow> bool \<times> Warp" where
  "settle n w =
    (let (more, w1) = resolve_stack w in
     if \<not> more then (False, w1)
     else if unat (wpc w1) < n then (True, w1)
     else settle n (retire (active w1) w1))"
  by pat_completeness auto

termination
proof (relation "measure (\<lambda>(n, w). pending w)")
  show "wf (measure (\<lambda>(n, w). pending w))" by simp
next
  fix n :: nat and w w1 :: Warp and x more
  assume x: "x = resolve_stack w" and p: "(more, w1) = x" and "\<not> \<not> more"
  then have "pending w1 \<le> pending w" "active w1 \<noteq> 0"
    using resolve_stack_pending [of w] resolve_stack_True [of w] by (metis fst_conv snd_conv)+
  then show "((n, retire (active w1) w1), (n, w)) \<in> measure (\<lambda>(n, w). pending w)"
    by (simp add: pending_def retire_def)
qed

declare settle.simps [simp del]

definition guard_mask :: "Instruction \<Rightarrow> Warp \<Rightarrow> LaneMask" where
  "guard_mask i w =
    fold (\<lambda>lane mask.
        if has_lane (active w) lane \<and>
           read_pred (registers w) lane (gpred (guard i)) \<noteq> negate (guard i)
        then mask OR lane_bit lane else mask)
      [0..<warp_size] 0"

fun memory_space :: "Opcode \<Rightarrow> Space" where
  "memory_space LdShared = Shared"
| "memory_space StShared = Shared"
| "memory_space LdParam = Param"
| "memory_space _ = Global"

definition is_store_opcode :: "Opcode \<Rightarrow> bool" where
  "is_store_opcode opc \<longleftrightarrow> opc = StGlobal \<or> opc = StShared"

definition lane_addresses :: "Instruction \<Rightarrow> LaneMask \<Rightarrow> RegisterFile \<Rightarrow> Addresses" where
  "lane_addresses i exec rf =
    (\<lambda>lane. if has_lane exec lane
            then (if memory_space (opcode i) = Param then imm i
                  else read_reg rf lane (src0 i) + imm i)
            else 0)"

text \<open>The loop over the lanes returns at the first fault, with the effects of the lanes before.\<close>

fun access_lanes ::
    "'m MemoryPort \<Rightarrow> Instruction \<Rightarrow> LaneMask \<Rightarrow> Addresses \<Rightarrow> nat list \<Rightarrow> Warp \<Rightarrow> 'm \<Rightarrow>
     (unit, Fault) result \<times> Warp \<times> 'm" where
  "access_lanes port i exec addresses [] w m = (Inr (), w, m)"
| "access_lanes port i exec addresses (lane # lanes) w m =
    (if \<not> has_lane exec lane then access_lanes port i exec addresses lanes w m
     else if is_store_opcode (opcode i) then
       (case port_store port (memory_space (opcode i)) (addresses lane)
               (read_reg (registers w) lane (src1 i)) lane m of
          (Inl e, m1) \<Rightarrow> (fail (make_fault w (access_message e) lane (addresses lane)), w, m1)
        | (Inr _, m1) \<Rightarrow> access_lanes port i exec addresses lanes w m1)
     else
       (case port_load port (memory_space (opcode i)) (addresses lane) lane m of
          (Inl e, m1) \<Rightarrow> (fail (make_fault w (access_message e) lane (addresses lane)), w, m1)
        | (Inr v, m1) \<Rightarrow>
            access_lanes port i exec addresses lanes
              (w\<lparr>registers := write_reg lane (dst i) v (registers w)\<rparr>) m1))"

definition memory_access ::
    "'m MemoryPort \<Rightarrow> Instruction \<Rightarrow> LaneMask \<Rightarrow> Warp \<Rightarrow> 'm \<Rightarrow> (unit, Fault) result \<times> Warp \<times> 'm"
where
  "memory_access port i exec w m =
    (let addresses = lane_addresses i exec (registers w);
         m1 = (if exec \<noteq> 0
               then port_on_warp_access port (memory_space (opcode i)) (is_store_opcode (opcode i))
                      addresses exec m
               else m)
     in access_lanes port i exec addresses [0..<warp_size] w m1)"

fun is_memory_opcode :: "Opcode \<Rightarrow> bool" where
  "is_memory_opcode LdGlobal = True"
| "is_memory_opcode StGlobal = True"
| "is_memory_opcode LdShared = True"
| "is_memory_opcode StShared = True"
| "is_memory_opcode LdParam = True"
| "is_memory_opcode _ = False"

definition exec_mask :: "Instruction \<Rightarrow> Warp \<Rightarrow> LaneMask" where
  "exec_mask i w = (if present (guard i) then guard_mask i w else active w)"

definition branch :: "Instruction \<Rightarrow> LaneMask \<Rightarrow> Warp \<Rightarrow> Warp" where
  "branch i exec w =
    (let target = branch_target i in
     if \<not> present (guard i) then w\<lparr>wpc := target\<rparr>
     else
       (let taken = exec; fall_through = active w AND NOT exec in
        if taken = 0 then w\<lparr>wpc := wpc w + 1\<rparr>
        else if fall_through = 0 then w\<lparr>wpc := target\<rparr>
        else w\<lparr>divergent := divergent w + 1,
               dstack := \<lparr>reconv_pc = reconvergence_pc i, resume_pc = wpc w + 1,
                          entry_mask = fall_through\<rparr> # dstack w,
               active := taken,
               wpc := target\<rparr>))"

definition issue ::
    "fp_env \<Rightarrow> 'm MemoryPort \<Rightarrow> Instruction \<Rightarrow> Warp \<Rightarrow> 'm \<Rightarrow> (StepOutcome, Fault) result \<times> Warp \<times> 'm"
where
  "issue env port i w0 m =
    (let exec = exec_mask i w0;
         w = w0\<lparr>last_exec := exec, last_opcode := opcode i\<rparr>
     in if opcode i = Bra then (Inr Issued, branch i exec w, m)
        else if opcode i = Exit then
          (let w1 = retire exec w in (Inr Issued, w1\<lparr>wpc := wpc w1 + 1\<rparr>, m))
        else if opcode i = BarSync then
          (if active w \<noteq> live w
           then (fail (make_fault w ''bar.sync executed in divergent code'' 0 0), w, m)
           else (Inr Barrier, w\<lparr>parked := True, wpc := wpc w + 1\<rparr>, m))
        else if is_memory_opcode (opcode i) then
          (case memory_access port i exec w m of
             (Inl e, w1, m1) \<Rightarrow> (fail e, w1, m1)
           | (Inr _, w1, m1) \<Rightarrow> (Inr Issued, w1\<lparr>wpc := wpc w1 + 1\<rparr>, m1))
        else
          (Inr Issued,
           w\<lparr>registers := execute_alu env i exec (registers w) (lane_ctx w), wpc := wpc w + 1\<rparr>, m))"

definition step ::
    "fp_env \<Rightarrow> 'm MemoryPort \<Rightarrow> Instruction list \<Rightarrow> Warp \<Rightarrow> 'm \<Rightarrow>
     (StepOutcome, Fault) result \<times> Warp \<times> 'm" where
  "step env port program w m =
    (let (more, w1) = settle (length program) w in
     if \<not> more then (Inr Finished, w1, m)
     else issue env port (program ! unat (wpc w1)) w1 m)"

end
