(* ===== verification/Charconv.thy ===== *)
theory Charconv
  imports Lexer Warp
begin

text \<open>
  The number conversions of the standard library that the assembler and the disassembler use:
  \<^verbatim>\<open>std::from_chars\<close> on a whole text (the template \<^verbatim>\<open>parse_number\<close> of
  \<^verbatim>\<open>src/asm/assembler.cpp\<close> demands that every character is consumed) and
  \<^verbatim>\<open>std::to_chars\<close> in base 16; \<open>decimal\<close> of \<open>Warp\<close> is \<^verbatim>\<open>std::to_string\<close>.

  \<^verbatim>\<open>std::from_chars\<close> to \<^verbatim>\<open>float\<close> is computed exactly and rounded once, to nearest
  with ties to even. Two things of the library are left to the platform and are the fields of
  the parameter \<open>chars_env\<close>: whether a nonzero text that rounds to a value below the normal range is reported as
  out of range, and which of the shortest texts \<^verbatim>\<open>std::to_chars\<close> picks for a
  \<^verbatim>\<open>float\<close>.
\<close>

section \<open>Unsigned integers\<close>

definition digit_value :: "char \<Rightarrow> nat" where
  "digit_value c =
     (if is_digit c then code c - 48 else if 97 \<le> code c then code c - 87 else code c - 55)"

definition number_value :: "nat \<Rightarrow> string \<Rightarrow> nat" where
  "number_value base = foldl (\<lambda>n c. n * base + digit_value c) 0"

definition base_digit :: "nat \<Rightarrow> char \<Rightarrow> bool" where
  "base_digit base c \<longleftrightarrow> (if base = 16 then is_hex_digit c else is_digit c)"

text \<open>\<^verbatim>\<open>parse_number<T>\<close> for an unsigned type of the given width.\<close>

definition parse_unsigned :: "nat \<Rightarrow> nat \<Rightarrow> string \<Rightarrow> nat option" where
  "parse_unsigned width base text =
     (if text \<noteq> [] \<and> list_all (base_digit base) text \<and> number_value base text < 2 ^ width
      then Some (number_value base text) else None)"

fun hex_string :: "nat \<Rightarrow> string" where
  "hex_string n = (if n < 16 then [''0123456789abcdef'' ! n]
     else hex_string (n div 16) @ [''0123456789abcdef'' ! (n mod 16)])"

declare hex_string.simps [simp del]

section \<open>Floats\<close>

record chars_env =
  underflows :: "nat \<Rightarrow> bool"
  f32_to_chars :: "u32 \<Rightarrow> string"

text \<open>
  The decimal text of a number without a sign: its digits with the decimal exponent. The texts
  the assembler passes start with a digit, so signs and the names of infinities do not occur.
\<close>

definition scan_exponent :: "string \<Rightarrow> int option" where
  "scan_exponent text =
     (case text of
        [] \<Rightarrow> Some 0
      | c # cs \<Rightarrow>
          let negative = (cs \<noteq> [] \<and> hd cs = CHR ''-'');
              digits = (if cs \<noteq> [] \<and> (hd cs = CHR ''-'' \<or> hd cs = CHR ''+'') then tl cs else cs)
          in if (c = CHR ''e'' \<or> c = CHR ''E'') \<and> digits \<noteq> [] \<and> list_all is_digit digits
             then Some (if negative then - int (number_value 10 digits)
                        else int (number_value 10 digits))
             else None)"

definition scan_decimal :: "string \<Rightarrow> (nat \<times> int) option" where
  "scan_decimal text =
     (let whole = takeWhile is_digit text;
          tail1 = dropWhile is_digit text;
          point = (tail1 \<noteq> [] \<and> hd tail1 = CHR ''.'');
          fraction = (if point then takeWhile is_digit (tl tail1) else []);
          tail2 = (if point then dropWhile is_digit (tl tail1) else tail1)
      in if whole = [] \<and> fraction = [] then None
         else map_option (\<lambda>e. (number_value 10 (whole @ fraction), e - int (length fraction)))
                (scan_exponent tail2))"

text \<open>
  \<open>n * 10 ^ e\<close> rounded once. A negative power is divided out with at least 160 bits to spare and
  a sticky bit for the remainder, so that the rounding of the dyadic number is that of the
  fraction.
\<close>

definition decimal_magnitude :: "nat \<Rightarrow> int \<Rightarrow> nat" where
  "decimal_magnitude n e =
     (if 0 \<le> e then round_magnitude (n * 10 ^ nat e) 0
      else let d = 10 ^ nat (- e);
               s = 160 + bit_length d;
               q = n * 2 ^ s div d;
               sticky = (if n * 2 ^ s mod d = 0 then 0 else 1)
           in round_magnitude (2 * q + sticky) (- int (s + 1)))"

definition parse_f32 :: "chars_env \<Rightarrow> string \<Rightarrow> u32 option" where
  "parse_f32 env text =
     (case scan_decimal text of
        None \<Rightarrow> None
      | Some (n, e) \<Rightarrow>
          let mag = decimal_magnitude n e in
          if mag = 0x7F800000 then None
          else if n \<noteq> 0 \<and> mag < 2 ^ 23 \<and> underflows env mag then None
          else Some (signed_bits False mag))"

section \<open>Facts on digits\<close>

lemma digit_nth:
  "k < 10 \<Longrightarrow> is_digit (''0123456789'' ! k) \<and> digit_value (''0123456789'' ! k) = k"
proof -
  assume "k < 10"
  then have "k \<in> {0, 1, 2, 3, 4, 5, 6, 7, 8, 9}" by auto
  then show ?thesis by (auto simp: is_digit_def digit_value_def)
qed

lemma hex_digit_nth:
  "k < 16 \<Longrightarrow> is_hex_digit (''0123456789abcdef'' ! k) \<and> digit_value (''0123456789abcdef'' ! k) = k"
proof -
  assume "k < 16"
  then have "k \<in> {0, 1, 2, 3, 4, 5, 6, 7, 8, 9, 10, 11, 12, 13, 14, 15}"
    unfolding insert_iff empty_iff by presburger
  then show ?thesis by (auto simp: is_hex_digit_def is_digit_def digit_value_def)
qed

lemma number_value_snoc [simp]: "number_value base (xs @ [c]) = number_value base xs * base + digit_value c"
  and number_value_Nil [simp]: "number_value base [] = 0"
  by (simp_all add: number_value_def)

lemma decimal_digits:
  "decimal n \<noteq> [] \<and> list_all is_digit (decimal n) \<and> number_value 10 (decimal n) = n"
proof (induction n rule: decimal.induct)
  case (1 n)
  show ?case
  proof (cases "n < 10")
    case True
    then have "decimal n = [] @ [''0123456789'' ! n]" by (simp add: decimal.simps [of n])
    with digit_nth [OF True] show ?thesis by (simp del: append_Nil)
  next
    case False
    with 1 digit_nth [of "n mod 10"] show ?thesis by (simp add: decimal.simps [of n])
  qed
qed

lemma hex_string_digits:
  "hex_string n \<noteq> [] \<and> list_all is_hex_digit (hex_string n) \<and> number_value 16 (hex_string n) = n"
proof (induction n rule: hex_string.induct)
  case (1 n)
  show ?case
  proof (cases "n < 16")
    case True
    then have "hex_string n = [] @ [''0123456789abcdef'' ! n]" by (simp add: hex_string.simps [of n])
    with hex_digit_nth [OF True] show ?thesis by (simp del: append_Nil)
  next
    case False
    with 1 hex_digit_nth [of "n mod 16"] show ?thesis by (simp add: hex_string.simps [of n])
  qed
qed

lemma decimal_leading:
  "n < 10 \<or> hd (decimal n) \<noteq> CHR ''0''"
proof (induction n rule: decimal.induct)
  case (1 n)
  show ?case
  proof (cases "n < 10")
    case False
    show ?thesis
    proof (cases "n div 10 < 10")
      case True
      have small: "m \<in> {1, 2, 3, 4, 5, 6, 7, 8, 9}" if "0 < m" "m < 10" for m :: nat
        using that unfolding insert_iff empty_iff by presburger
      from False have "0 < n div 10" by (simp add: div_greater_zero_iff)
      from small [OF this True] have "n div 10 \<in> {1, 2, 3, 4, 5, 6, 7, 8, 9}" .
      with False True show ?thesis
        by (auto simp: decimal.simps [of n] decimal.simps [of "n div 10"])
    next
      case big: False
      with 1 False have "hd (decimal (n div 10)) \<noteq> CHR ''0''" by simp
      with False decimal_digits [of "n div 10"] show ?thesis by (simp add: decimal.simps [of n])
    qed
  qed simp
qed

lemma parse_unsigned_decimal [simp]:
  "n < 2 ^ width \<Longrightarrow> parse_unsigned width 10 (decimal n) = Some n"
  using decimal_digits [of n] by (simp add: parse_unsigned_def base_digit_def cong: list.pred_cong)

lemma parse_unsigned_hex [simp]:
  "n < 2 ^ width \<Longrightarrow> parse_unsigned width 16 (hex_string n) = Some n"
  using hex_string_digits [of n] by (simp add: parse_unsigned_def base_digit_def cong: list.pred_cong)

section \<open>Rounding does not see how a number is scaled\<close>

lemma round_shift_exact: "k \<le> j \<Longrightarrow> round_shift (m * 2 ^ j) k = m * 2 ^ (j - k)"
proof -
  assume "k \<le> j"
  then have "(2::nat) ^ j = 2 ^ (j - k) * 2 ^ k" by (simp flip: power_add)
  then show ?thesis by (simp add: round_shift_def Let_def flip: mult.assoc)
qed

lemma round_shift_scale: "round_shift (m * 2 ^ k) (j + k) = round_shift m j"
proof -
  have d: "m * 2 ^ k div 2 ^ (j + k) = m div 2 ^ j" by (simp add: power_add)
  have r: "m * 2 ^ k mod 2 ^ (j + k) = (m mod 2 ^ j) * 2 ^ k"
    by (simp add: power_add mult.commute mod_mult_mult1)
  have c: "2 * (a * 2 ^ k) > 2 ^ (j + k) \<longleftrightarrow> 2 * a > 2 ^ j" "2 * (a * 2 ^ k) = 2 ^ (j + k) \<longleftrightarrow> 2 * a = 2 ^ j"
    for a :: nat
    by (simp_all add: power_add flip: mult.assoc)
  show ?thesis unfolding round_shift_def Let_def d r c by (rule refl)
qed

lemma round_magnitude_scale: "round_magnitude (m * 2 ^ k) (e - int k) = round_magnitude m e"
proof (cases "m = 0")
  case True
  then show ?thesis by (simp add: round_magnitude_def)
next
  case False
  have q: "quantum (m * 2 ^ k) (e - int k) = quantum m e"
    using False by (simp add: quantum_def)
  let ?q = "quantum m e"
  have "significand (m * 2 ^ k) (e - int k) = significand m e"
  proof (cases "?q \<le> e - int k")
    case True
    then have "nat (e - ?q) = k + nat (e - int k - ?q)" by simp
    with True show ?thesis by (simp add: significand_def q Let_def power_add)
  next
    case above: False
    show ?thesis
    proof (cases "?q \<le> e")
      case True
      with above have "nat (?q - (e - int k)) \<le> k" "k - nat (?q - (e - int k)) = nat (e - ?q)" by auto
      with True above show ?thesis by (simp add: significand_def q Let_def round_shift_exact)
    next
      case False
      then have "nat (?q - (e - int k)) = nat (?q - e) + k" by simp
      with False above show ?thesis by (simp add: significand_def q Let_def round_shift_scale)
    qed
  qed
  with False q show ?thesis by (simp add: round_magnitude_def)
qed

text \<open>
  A decimal number that equals a dyadic number \<open>m / 2 ^ k\<close> is rounded as that number: nothing
  is left for the sticky bit.
\<close>

lemma decimal_magnitude_exact:
  assumes "n * 2 ^ k = m * 10 ^ j" "k \<le> 160"
  shows "decimal_magnitude n (- int j) = round_magnitude m (- int k)"
proof -
  let ?d = "10 ^ j :: nat"
  define s where "s = 160 + bit_length ?d"
  show ?thesis
  proof (cases "j = 0")
    case True
    with assms have "m = n * 2 ^ k" by simp
    with True round_magnitude_scale [of n k 0] show ?thesis by (simp add: decimal_magnitude_def)
  next
    case False
    define q where "q = n * 2 ^ s div ?d"
    have "k \<le> s" using assms(2) by (simp add: s_def)
    then have "n * 2 ^ s = n * 2 ^ k * 2 ^ (s - k)" by (simp flip: power_add)
    then have exact: "n * 2 ^ s = m * 2 ^ (s - k) * ?d" using assms(1) by (simp add: ac_simps)
    then have q: "q = m * 2 ^ (s - k)" by (simp add: q_def)
    have "2 * q * 2 ^ k = m * 2 ^ (s + 1)" using q \<open>k \<le> s\<close> by (simp flip: power_add)
    then have "round_magnitude (2 * q) (- int (s + 1)) = round_magnitude (m * 2 ^ (s + 1)) (- int (s + 1) - int k)"
      using round_magnitude_scale [of "2 * q" k "- int (s + 1)", symmetric] by (simp only:)
    also have "\<dots> = round_magnitude m (- int k)"
    proof -
      have "- int (s + 1) - int k = - int k - int (s + 1)" by simp
      then show ?thesis by (simp only: round_magnitude_scale)
    qed
    finally have "round_magnitude (2 * q) (- int (s + 1)) = round_magnitude m (- int k)" .
    moreover have "decimal_magnitude n (- int j) =
        round_magnitude (2 * q + (if n * 2 ^ s mod ?d = 0 then 0 else 1)) (- int (s + 1))"
      using False by (simp add: decimal_magnitude_def Let_def q_def s_def)
    moreover have "n * 2 ^ s mod ?d = 0" using exact by simp
    ultimately show ?thesis by simp
  qed
qed

text \<open>Digits alone are read as the same number as with a fraction of zero.\<close>

lemma takeWhile_digits: "list_all is_digit t \<Longrightarrow> takeWhile is_digit (t @ CHR ''.'' # u) = t \<and>
    dropWhile is_digit (t @ CHR ''.'' # u) = CHR ''.'' # u"
  by (induction t) auto

lemma parse_f32_point_zero:
  assumes "t \<noteq> []" "list_all is_digit t"
  shows "parse_f32 env (t @ ''.0'') = parse_f32 env t"
proof -
  let ?n = "number_value 10 t"
  have all: "takeWhile is_digit t = t" "dropWhile is_digit t = []"
    using assms(2) by (simp_all add: list_all_iff)
  have "scan_decimal t = Some (?n, 0)"
    unfolding scan_decimal_def all Let_def using assms(1) by (simp add: scan_exponent_def)
  moreover have "number_value 10 (t @ ''0'') = ?n * 10" by (simp add: digit_value_def)
  then have "scan_decimal (t @ ''.0'') = Some (?n * 10, -1)"
    using takeWhile_digits [OF assms(2), of "''0''"]
    by (simp add: scan_decimal_def scan_exponent_def Let_def)
  moreover have "decimal_magnitude (?n * 10) (-1) = decimal_magnitude ?n 0"
    using decimal_magnitude_exact [of "?n * 10" 0 ?n 1] by (simp add: decimal_magnitude_def)
  ultimately show ?thesis by (simp add: parse_f32_def Let_def)
qed

end
