(* ===== verification/Block_Set.thy ===== *)
theory Block_Set
  imports Prelude
begin

text \<open>
  The class \<^verbatim>\<open>BlockSet\<close> of \<^verbatim>\<open>src/asm/reconvergence.cpp\<close>: a fixed-size set of
  block indices, packed 64 to a word. Every operation is proved against the set of naturals it
  stands for, and the locale \<open>index_set\<close> states what the post-dominator analysis relies on.
\<close>

section \<open>The packed set\<close>

record BlockSet =
  set_words :: "u64 list"
  set_size :: nat

text \<open>The constructor clears the bits above the size in the last word of a full set.\<close>

definition bs_new :: "nat \<Rightarrow> bool \<Rightarrow> BlockSet" where
  "bs_new n all =
     (let words = replicate ((n + 63) div 64) (if all then NOT 0 else 0);
          last = length words - 1
      in \<lparr> set_words = (if all \<and> words \<noteq> [] \<and> n mod 64 \<noteq> 0
                       then words[last := words ! last AND (push_bit (n mod 64) 1 - 1)]
                       else words),
           set_size = n \<rparr>)"

definition bs_contains :: "BlockSet \<Rightarrow> nat \<Rightarrow> bool" where
  "bs_contains s i \<longleftrightarrow> (drop_bit (i mod 64) (set_words s ! (i div 64)) AND 1) \<noteq> 0"

definition bs_insert :: "nat \<Rightarrow> BlockSet \<Rightarrow> BlockSet" where
  "bs_insert i s = s\<lparr>set_words := (set_words s)[i div 64 :=
     set_words s ! (i div 64) OR push_bit (i mod 64) 1]\<rparr>"

definition bs_erase :: "nat \<Rightarrow> BlockSet \<Rightarrow> BlockSet" where
  "bs_erase i s = s\<lparr>set_words := (set_words s)[i div 64 :=
     set_words s ! (i div 64) AND NOT (push_bit (i mod 64) 1)]\<rparr>"

definition bs_intersect :: "BlockSet \<Rightarrow> BlockSet \<Rightarrow> BlockSet" where
  "bs_intersect s other = s\<lparr>set_words :=
     List.map (\<lambda>w. set_words s ! w AND set_words other ! w) [0..<length (set_words s)]\<rparr>"

definition popcount :: "u64 \<Rightarrow> nat" where
  "popcount w = length (List.filter (bit w) [0..<64])"

definition bs_count :: "BlockSet \<Rightarrow> nat" where
  "bs_count s = sum_list (List.map popcount (set_words s))"

section \<open>The set it stands for\<close>

text \<open>
  The invariant of the class: as many words as the size needs, and no bit at or above the size.
\<close>

definition bs_ok :: "nat \<Rightarrow> BlockSet \<Rightarrow> bool" where
  "bs_ok n s \<longleftrightarrow> set_size s = n \<and> length (set_words s) = (n + 63) div 64 \<and>
     (\<forall>w < length (set_words s). \<forall>k < 64. bit (set_words s ! w) k \<longrightarrow> 64 * w + k < n)"

definition bs_elems :: "BlockSet \<Rightarrow> nat set" where
  "bs_elems s = {i. i < set_size s \<and> bs_contains s i}"

lemma word_index_less: "i < n \<Longrightarrow> i div 64 < (n + 63) div (64::nat)"
  by linarith

lemma bs_contains_bit: "bs_contains s i \<longleftrightarrow> bit (set_words s ! (i div 64)) (i mod 64)"
  by (simp add: bs_contains_def and_one_eq bit_iff_odd_drop_bit mod_2_eq_odd)

lemma bit_single_word:
  "bit (2 ^ k :: u64) j \<longleftrightarrow> k = j \<and> j < 64"
  by (auto simp: bit_exp_iff)

lemma word_index_eq: "i div 64 = j div 64 \<Longrightarrow> i mod 64 = j mod (64::nat) \<Longrightarrow> i = j"
  by (metis div_mult_mod_eq)

lemma words_needed: "(n + 63) div 64 = (if n mod 64 = 0 then n div 64 else n div 64 + (1::nat))"
proof -
  have "(64 * q + r + 63) div 64 = (if r = 0 then q else q + 1)" if "r < 64" for q r :: nat
    using that by auto
  from this [of "n mod 64" "n div 64"] show ?thesis by simp
qed

lemma bs_size_simps [simp]:
  "set_size (bs_insert i s) = set_size s" "set_size (bs_erase i s) = set_size s"
  "set_size (bs_intersect s t) = set_size s" "set_size (bs_new n all) = n"
  by (simp_all add: bs_insert_def bs_erase_def bs_intersect_def bs_new_def Let_def)

lemma bs_ok_size: "bs_ok n s \<Longrightarrow> set_size s = n"
  by (simp add: bs_ok_def)

lemma bs_ok_bit:
  "bs_ok n s \<Longrightarrow> w < length (set_words s) \<Longrightarrow> k < 64 \<Longrightarrow> bit (set_words s ! w) k \<Longrightarrow> 64 * w + k < n"
  by (simp add: bs_ok_def)

lemma bs_elems_less: "bs_ok n s \<Longrightarrow> bs_elems s \<subseteq> {..<n}"
  by (auto simp: bs_elems_def bs_ok_def)

lemma bs_contains_elems: "bs_ok n s \<Longrightarrow> i < n \<Longrightarrow> bs_contains s i \<longleftrightarrow> i \<in> bs_elems s"
  by (simp add: bs_elems_def bs_ok_def)

lemma bs_insert_ok [simp]:
  assumes "bs_ok n s" "i < n"
  shows "bs_ok n (bs_insert i s)" "bs_elems (bs_insert i s) = insert i (bs_elems s)"
proof -
  have L: "i div 64 < length (set_words s)" using assms word_index_less by (simp add: bs_ok_def)
  have "64 * (i div 64) + i mod 64 = i" by simp
  then show "bs_ok n (bs_insert i s)"
    using assms L
    by (auto simp: bs_ok_def bs_insert_def nth_list_update bit_or_iff bit_single_word split: if_splits)
  show "bs_elems (bs_insert i s) = insert i (bs_elems s)"
    using assms L
    by (auto simp: bs_elems_def bs_ok_def bs_insert_def bs_contains_bit nth_list_update bit_or_iff
          bit_single_word dest: word_index_eq split: if_splits)
qed

lemma bs_erase_ok [simp]:
  assumes "bs_ok n s" "i < n"
  shows "bs_ok n (bs_erase i s)" "bs_elems (bs_erase i s) = bs_elems s - {i}"
proof -
  have L: "i div 64 < length (set_words s)" using assms word_index_less by (simp add: bs_ok_def)
  show "bs_ok n (bs_erase i s)"
    using assms L
    by (auto simp: bs_ok_def bs_erase_def nth_list_update bit_and_iff split: if_splits)
  show "bs_elems (bs_erase i s) = bs_elems s - {i}"
    using assms L
    by (auto simp: bs_elems_def bs_ok_def bs_erase_def bs_contains_bit nth_list_update bit_and_iff
          bit_not_iff bit_single_word dest: word_index_eq split: if_splits)
qed

lemma bs_intersect_ok [simp]:
  assumes "bs_ok n s" "bs_ok n t"
  shows "bs_ok n (bs_intersect s t)" "bs_elems (bs_intersect s t) = bs_elems s \<inter> bs_elems t"
proof -
  show "bs_ok n (bs_intersect s t)"
    using assms by (auto simp: bs_ok_def bs_intersect_def bit_and_iff)
  show "bs_elems (bs_intersect s t) = bs_elems s \<inter> bs_elems t"
    using assms word_index_less
    by (auto simp: bs_elems_def bs_ok_def bs_intersect_def bs_contains_bit bit_and_iff)
qed

lemma bit_low_ones: "k < 64 \<Longrightarrow> bit (push_bit k 1 - 1 :: u64) j \<longleftrightarrow> j < k"
proof -
  assume "k < 64"
  have "push_bit k 1 - 1 = (mask k :: u64)" by (simp add: mask_eq_exp_minus_1 push_bit_eq_mult)
  then show ?thesis using \<open>k < 64\<close> by (auto simp: bit_mask_iff)
qed

lemma bs_new_bit:
  assumes "w < (n + 63) div 64" "k < 64"
  shows "bit (set_words (bs_new n all) ! w) k \<longleftrightarrow> all \<and> 64 * w + k < n"
proof -
  obtain q r where n: "n = 64 * q + r" "r < 64"
    by (metis mult.commute div_mult_mod_eq mod_less_divisor zero_less_numeral)
  then have m: "n mod 64 = r" "n div 64 = q" by simp_all
  show ?thesis
  proof (cases "w = q")
    case True
    with assms m have "r \<noteq> 0" by (auto simp: words_needed split: if_splits)
    then have "(n + 63) div 64 = Suc q" using m by (simp add: words_needed)
    with True n m assms \<open>r \<noteq> 0\<close> show ?thesis
      by (auto simp: bs_new_def Let_def bit_and_iff bit_low_ones simp del: push_bit_of_1 replicate_Suc)
  next
    case False
    with assms m have "w < q" by (auto simp: words_needed split: if_splits)
    moreover from this n assms have "64 * w + k < n" by simp
    ultimately show ?thesis
      using False m assms
      by (cases "r = 0") (simp_all add: bs_new_def Let_def words_needed del: replicate_Suc)
  qed
qed

lemma length_bs_new: "length (set_words (bs_new n all)) = (n + 63) div 64"
  by (simp add: bs_new_def Let_def)

lemma bs_new_ok [simp]: "bs_ok n (bs_new n all)"
  by (simp add: bs_ok_def length_bs_new bs_new_bit)

lemma bs_new_elems [simp]: "bs_elems (bs_new n all) = (if all then {..<n} else {})"
  by (auto simp: bs_elems_def bs_contains_bit bs_new_bit word_index_less)

text \<open>Two well-formed sets are equal as objects when they have the same elements.\<close>

lemma bs_eqI:
  assumes "bs_ok n s" "bs_ok n t" "bs_elems s = bs_elems t"
  shows "s = t"
proof -
  have "set_words s ! w = set_words t ! w" if w: "w < (n + 63) div 64" for w
  proof (rule bit_word_eqI)
    fix k assume "k < LENGTH(64)"
    then have k: "k < 64" by simp
    have B: "bit (set_words u ! w) k \<longleftrightarrow> 64 * w + k \<in> bs_elems u" if "bs_ok n u" for u
      using that w k by (auto simp: bs_ok_def bs_elems_def bs_contains_bit)
    show "bit (set_words s ! w) k \<longleftrightarrow> bit (set_words t ! w) k"
      using B [OF assms(1)] B [OF assms(2)] assms(3) by simp
  qed
  then have "set_words s = set_words t"
    using assms(1,2) by (auto simp: bs_ok_def intro: nth_equalityI)
  then show ?thesis using assms(1,2) by (simp add: bs_ok_def)
qed

lemma popcount_card: "popcount w = card {k. k < 64 \<and> bit w k}"
proof -
  have "popcount w = card (set (List.filter (bit w) [0..<64]))"
    by (simp only: popcount_def distinct_card distinct_filter distinct_upt)
  also have "set (List.filter (bit w) [0..<64]) = {k. k < 64 \<and> bit w k}" by auto
  finally show ?thesis .
qed

lemma sum_popcount:
  "sum_list (List.map popcount ws) = card {i. i < 64 * length ws \<and> bit (ws ! (i div 64)) (i mod 64)}"
proof (induction ws rule: rev_induct)
  case Nil
  then show ?case by simp
next
  case (snoc w ws)
  let ?n = "length ws"
  let ?A = "{i. i < 64 * ?n \<and> bit (ws ! (i div 64)) (i mod 64)}"
  let ?B = "{k. k < 64 \<and> bit w k}"
  have "{i. i < 64 * length (ws @ [w]) \<and> bit ((ws @ [w]) ! (i div 64)) (i mod 64)} =
      ?A \<union> (\<lambda>k. 64 * ?n + k) ` ?B" (is "?L = _")
  proof (intro set_eqI iffI)
    fix i assume i: "i \<in> ?L"
    show "i \<in> ?A \<union> (\<lambda>k. 64 * ?n + k) ` ?B"
    proof (cases "i < 64 * ?n")
      case True
      then have "i div 64 < ?n" by auto
      with i True show ?thesis by (simp add: nth_append)
    next
      case False
      with i have d: "i div 64 = ?n" by auto
      then have "i = 64 * ?n + i mod 64" by (metis mult.commute div_mult_mod_eq)
      moreover have "i mod 64 \<in> ?B" using i d by (simp add: nth_append)
      ultimately show ?thesis by blast
    qed
  qed (auto simp: nth_append)
  moreover have "card (?A \<union> (\<lambda>k. 64 * ?n + k) ` ?B) = card ?A + card ((\<lambda>k. 64 * ?n + k) ` ?B)"
    by (rule card_Un_disjoint) auto
  moreover have "card ((\<lambda>k. 64 * ?n + k) ` ?B) = card ?B"
    by (rule card_image) (auto simp: inj_on_def)
  ultimately show ?case using snoc.IH by (simp add: popcount_card)
qed

lemma bs_count_ok [simp]:
  assumes "bs_ok n s"
  shows "bs_count s = card (bs_elems s)"
proof -
  have "{i. i < 64 * length (set_words s) \<and> bit (set_words s ! (i div 64)) (i mod 64)} = bs_elems s"
  proof (intro set_eqI iffI)
    fix i
    assume "i \<in> {i. i < 64 * length (set_words s) \<and> bit (set_words s ! (i div 64)) (i mod 64)}"
    then have i: "i < 64 * length (set_words s)" "bit (set_words s ! (i div 64)) (i mod 64)" by simp_all
    then have "i div 64 < length (set_words s)" by simp
    from bs_ok_bit [OF assms this _ i(2)] have "i < n" by simp
    then show "i \<in> bs_elems s"
      using i(2) bs_ok_size [OF assms] by (simp add: bs_elems_def bs_contains_bit)
  next
    fix i assume i: "i \<in> bs_elems s"
    then have "i < set_size s" by (simp add: bs_elems_def)
    then have "i div 64 < length (set_words s)"
      using assms word_index_less by (simp add: bs_ok_def)
    then have "i < 64 * length (set_words s)" by linarith
    with i show "i \<in> {i. i < 64 * length (set_words s) \<and> bit (set_words s ! (i div 64)) (i mod 64)}"
      by (simp add: bs_elems_def bs_contains_bit)
  qed
  then show ?thesis by (simp add: bs_count_def sum_popcount)
qed

section \<open>The contract of a set of indices\<close>

text \<open>
  What a client of the class relies on, with the operations as parameters: the laws of each
  operation over the elements, and the two facts the dataflow analysis needs of them, that a
  loop of intersections computes the intersection and that sets are compared by their elements.
\<close>

locale index_set =
  fixes ok :: "nat \<Rightarrow> 's \<Rightarrow> bool"
    and elems :: "'s \<Rightarrow> nat set"
    and full :: "nat \<Rightarrow> 's"
    and add :: "nat \<Rightarrow> 's \<Rightarrow> 's"
    and meet :: "'s \<Rightarrow> 's \<Rightarrow> 's"
    and number :: "'s \<Rightarrow> nat"
  assumes elems_less: "ok n s \<Longrightarrow> elems s \<subseteq> {..<n}"
    and full_ok: "ok n (full n)" and full_elems: "elems (full n) = {..<n}"
    and add_ok: "ok n s \<Longrightarrow> i < n \<Longrightarrow> ok n (add i s)"
    and add_elems: "ok n s \<Longrightarrow> i < n \<Longrightarrow> elems (add i s) = insert i (elems s)"
    and meet_ok: "ok n s \<Longrightarrow> ok n t \<Longrightarrow> ok n (meet s t)"
    and meet_elems: "ok n s \<Longrightarrow> ok n t \<Longrightarrow> elems (meet s t) = elems s \<inter> elems t"
    and number_card: "ok n s \<Longrightarrow> number s = card (elems s)"
    and elems_inject: "ok n s \<Longrightarrow> ok n t \<Longrightarrow> elems s = elems t \<Longrightarrow> s = t"
begin

lemma elems_finite: "ok n s \<Longrightarrow> finite (elems s)"
  using elems_less finite_subset by blast

lemma fold_meet:
  assumes "ok n s" "\<And>x. x \<in> set xs \<Longrightarrow> ok n (f x)"
  shows "ok n (fold (\<lambda>x t. meet t (f x)) xs s) \<and>
    elems (fold (\<lambda>x t. meet t (f x)) xs s) = elems s \<inter> (\<Inter>x \<in> set xs. elems (f x))"
  using assms by (induction xs arbitrary: s) (auto simp: meet_ok meet_elems)

text \<open>A set that shrinks without staying the same loses at least one from its count.\<close>

lemma number_less:
  assumes "ok n s" "ok n t" "elems s \<subseteq> elems t" "s \<noteq> t"
  shows "number s < number t"
  using assms elems_inject elems_finite by (metis number_card psubsetI psubset_card_mono)

lemma number_bound: "ok n s \<Longrightarrow> number s \<le> n"
  using elems_less number_card by (metis card_lessThan card_mono finite_lessThan)

end

interpretation blocks: index_set bs_ok bs_elems "\<lambda>n. bs_new n True" bs_insert bs_intersect bs_count
  by unfold_locales (use bs_elems_less bs_eqI in auto)

section \<open>Properties\<close>

text \<open>C36: the bit set of \<^verbatim>\<open>reconvergence.cpp\<close> implements sets of block numbers below its size: a new set
  is full or empty, membership, insertion, removal and intersection are those of the set of its
  elements, the count is its cardinality, and every operation keeps the spare bits of the last word
  clear. The size may be any number, whether or not it is a multiple of 64.\<close>

theorem block_set_refines_sets:
  assumes "bs_ok n s" "bs_ok n t" "i < n"
  shows "bs_elems (bs_new n full) = (if full then {..<n} else {}) \<and> bs_ok n (bs_new n full) \<and>
    (bs_contains s i \<longleftrightarrow> i \<in> bs_elems s) \<and>
    bs_elems (bs_insert i s) = insert i (bs_elems s) \<and> bs_ok n (bs_insert i s) \<and>
    bs_elems (bs_erase i s) = bs_elems s - {i} \<and> bs_ok n (bs_erase i s) \<and>
    bs_elems (bs_intersect s t) = bs_elems s \<inter> bs_elems t \<and> bs_ok n (bs_intersect s t) \<and>
    bs_count s = card (bs_elems s)"
  using bs_contains_elems [OF assms(1,3)] bs_insert_ok [OF assms(1,3)] bs_erase_ok [OF assms(1,3)]
    bs_intersect_ok [OF assms(1,2)] bs_count_ok [OF assms(1)]
  by simp

theorem block_set_refines_sets_witness:
  "bs_elems (bs_erase 65 (bs_new 70 True)) = {..<70} - {65}"
  using block_set_refines_sets [of 70 "bs_new 70 True" "bs_new 70 True" 65 True] by simp

end
