(* ===== verification/Reconvergence.thy ===== *)
theory Reconvergence
  imports Isa_Instruction Block_Set
begin

text \<open>
  The reconvergence analysis of \<^verbatim>\<open>src/asm/reconvergence.hpp\<close> and
  \<^verbatim>\<open>reconvergence.cpp\<close>: the control-flow graph of a decoded program, post-dominator
  sets by iterative dataflow, and the annotation of every branch with its reconvergence PC.
  Sizes and indices are bounded by the length of the program and are naturals.

  The dataflow loop has no bound of its own in the code, so it is a partial function to an
  option; \<open>Post_Dominators\<close> proves that it returns on every graph \<open>build_cfg\<close> builds.
\<close>

section \<open>The control-flow graph\<close>

record ReconvergenceError =
  recon_pc :: nat
  recon_message :: string

definition is_terminator :: "Instruction \<Rightarrow> bool" where
  "is_terminator i \<longleftrightarrow> opcode i = Bra \<or> opcode i = Exit"

record Cfg =
  leaders :: "nat list"
  block_of :: "nat list"
  succs :: "nat list list"
  exit_node :: nat

text \<open>
  The first loop of \<^verbatim>\<open>build_cfg\<close> marks the leaders and stops at the first branch whose
  target is outside the program.
\<close>

definition out_of_range :: "Instruction list \<Rightarrow> nat \<Rightarrow> bool" where
  "out_of_range program pc \<longleftrightarrow>
     opcode (program ! pc) = Bra \<and> length program \<le> unat (branch_target (program ! pc))"

definition mark_pc :: "Instruction list \<Rightarrow> nat \<Rightarrow> bool list \<Rightarrow> bool list" where
  "mark_pc program pc is_leader =
     (let i = program ! pc;
          marked = (if opcode i = Bra then is_leader[unat (branch_target i) := True] else is_leader)
      in if is_terminator i \<and> pc + 1 < length program then marked[pc + 1 := True] else marked)"

function mark_leaders ::
    "Instruction list \<Rightarrow> nat \<Rightarrow> bool list \<Rightarrow> (bool list, ReconvergenceError) result" where
  "mark_leaders program pc is_leader =
     (if pc < length program then
        if out_of_range program pc then
          fail \<lparr> recon_pc = pc, recon_message = ''branch target out of range'' \<rparr>
        else mark_leaders program (pc + 1) (mark_pc program pc is_leader)
      else Inr is_leader)"
  by pat_completeness auto
termination
  by (relation "measure (\<lambda>(program, pc, _). length program - pc)") auto

declare mark_leaders.simps [simp del]

text \<open>The second loop numbers the blocks; PC 0 is always a leader.\<close>

definition number_pc :: "bool list \<Rightarrow> nat \<Rightarrow> nat list \<times> nat list \<Rightarrow> nat list \<times> nat list" where
  "number_pc is_leader pc = (\<lambda>(starts, of_pc).
     let starts' = (if pc = 0 \<or> is_leader ! pc then starts @ [pc] else starts)
     in (starts', of_pc[pc := length starts' - 1]))"

definition block_last :: "nat \<Rightarrow> nat list \<Rightarrow> nat \<Rightarrow> nat" where
  "block_last n starts b = (if b + 1 < length starts then starts ! (b + 1) else n) - 1"

definition fallthrough :: "nat \<Rightarrow> nat list \<Rightarrow> nat \<Rightarrow> nat \<Rightarrow> nat" where
  "fallthrough n of_pc exit pc = (if pc + 1 < n then of_pc ! (pc + 1) else exit)"

text \<open>The third loop: the successors of one block, from its last instruction.\<close>

definition block_succs :: "Instruction list \<Rightarrow> nat list \<Rightarrow> nat list \<Rightarrow> nat \<Rightarrow> nat list" where
  "block_succs program starts of_pc b =
     (let n = length program;
          exit = length starts;
          last = block_last n starts b;
          i = program ! last;
          next = fallthrough n of_pc exit last in
      if opcode i = Bra then
        of_pc ! unat (branch_target i) # (if present (guard i) then [next] else [])
      else if opcode i = Exit then
        exit # (if present (guard i) then [next] else [])
      else [next])"

definition build_cfg :: "Instruction list \<Rightarrow> (Cfg, ReconvergenceError) result" where
  "build_cfg program =
     (let n = length program in
      case mark_leaders program 0 (replicate (n + 1) False) of
        Inl e \<Rightarrow> fail e
      | Inr is_leader \<Rightarrow>
          (case fold (number_pc is_leader) [0..<n] ([], replicate n 0) of
             (starts, of_pc) \<Rightarrow>
               let blocks = length starts in
               Inr \<lparr> leaders = starts, block_of = of_pc,
                     succs = fold (\<lambda>b out. out[b := block_succs program starts of_pc b])
                               [0..<blocks] (replicate (blocks + 1) []),
                     exit_node = blocks \<rparr>))"

section \<open>Post-dominators\<close>

definition pdom_next :: "Cfg \<Rightarrow> BlockSet list \<Rightarrow> nat \<Rightarrow> BlockSet" where
  "pdom_next cfg pdom b =
     bs_insert b (fold (\<lambda>s next. bs_intersect next (pdom ! s)) (succs cfg ! b)
                    (bs_new (exit_node cfg + 1) True))"

definition pdom_visit :: "Cfg \<Rightarrow> nat \<Rightarrow> BlockSet list \<times> bool \<Rightarrow> BlockSet list \<times> bool" where
  "pdom_visit cfg b = (\<lambda>(pdom, changed).
     let next = pdom_next cfg pdom b
     in if next \<noteq> pdom ! b then (pdom[b := next], True) else (pdom, changed))"

definition pdom_round :: "Cfg \<Rightarrow> BlockSet list \<Rightarrow> BlockSet list \<times> bool" where
  "pdom_round cfg pdom = fold (pdom_visit cfg) [0..<exit_node cfg] (pdom, False)"

partial_function (option) pdom_loop :: "Cfg \<Rightarrow> BlockSet list \<Rightarrow> BlockSet list option" where
  "pdom_loop cfg pdom =
     (case pdom_round cfg pdom of (pdom', changed) \<Rightarrow>
        if changed then pdom_loop cfg pdom' else Some pdom')"

declare pdom_loop.simps [code]

definition post_dominators :: "Cfg \<Rightarrow> BlockSet list option" where
  "post_dominators cfg =
     (let nodes = exit_node cfg + 1 in
      pdom_loop cfg ((replicate nodes (bs_new nodes True))
        [exit_node cfg := bs_insert (exit_node cfg) (bs_new nodes False)]))"

definition immediate_post_dominator :: "BlockSet list \<Rightarrow> nat \<Rightarrow> nat" where
  "immediate_post_dominator pdom b =
     (let strict = bs_erase b (pdom ! b);
          wanted = bs_count strict in
      case find (\<lambda>d. bs_contains strict d \<and> bs_count (pdom ! d) = wanted) [0..<set_size strict] of
        Some d \<Rightarrow> d
      | None \<Rightarrow> set_size strict - 1)"

section \<open>The annotation\<close>

definition reconvergence_of :: "Cfg \<Rightarrow> BlockSet list \<Rightarrow> nat \<Rightarrow> Instruction \<Rightarrow> u16" where
  "reconvergence_of cfg pdom pc i =
     (if present (guard i) then
        let ipdom = immediate_post_dominator pdom (block_of cfg ! pc)
        in if ipdom \<noteq> exit_node cfg then of_nat (leaders cfg ! ipdom) else no_reconvergence
      else no_reconvergence)"

definition annotate_at :: "Cfg \<Rightarrow> BlockSet list \<Rightarrow> nat \<Rightarrow> Instruction \<Rightarrow> Instruction" where
  "annotate_at cfg pdom pc i =
     (if opcode i \<noteq> Bra then i
      else i\<lparr>imm := make_branch_imm (branch_target i) (reconvergence_of cfg pdom pc i)\<rparr>)"

definition annotate_reconvergence ::
    "Instruction list \<Rightarrow> (Instruction list, ReconvergenceError) result option" where
  "annotate_reconvergence program =
     (case build_cfg program of
        Inl e \<Rightarrow> Some (fail e)
      | Inr cfg \<Rightarrow>
          (case post_dominators cfg of
             None \<Rightarrow> None
           | Some pdom \<Rightarrow>
               Some (Inr (List.map (\<lambda>pc. annotate_at cfg pdom pc (program ! pc))
                           [0..<length program]))))"

section \<open>The blocks of a program\<close>

text \<open>What \<open>mark_leaders\<close> computes: the PCs some instruction marks.\<close>

definition marks :: "Instruction list \<Rightarrow> nat \<Rightarrow> nat \<Rightarrow> bool" where
  "marks program pc k \<longleftrightarrow>
     opcode (program ! pc) = Bra \<and> k = unat (branch_target (program ! pc)) \<or>
     is_terminator (program ! pc) \<and> k = pc + 1 \<and> pc + 1 < length program"

definition is_lead :: "Instruction list \<Rightarrow> nat \<Rightarrow> bool" where
  "is_lead program k \<longleftrightarrow> k = 0 \<or> (\<exists>pc < length program. marks program pc k)"

lemma first_from:
  "(\<exists>k \<ge> m. Q k \<and> (\<forall>j. m \<le> j \<and> j < k \<longrightarrow> \<not> P j)) \<longleftrightarrow>
     Q m \<or> \<not> P m \<and> (\<exists>k \<ge> m + 1. Q k \<and> (\<forall>j. m + 1 \<le> j \<and> j < k \<longrightarrow> \<not> P j))"
  (is "?L \<longleftrightarrow> ?R") for m :: nat
proof
  assume ?L
  then obtain k where k: "m \<le> k" "Q k" "\<forall>j. m \<le> j \<and> j < k \<longrightarrow> \<not> P j" by blast
  show ?R
  proof (cases "k = m")
    case False
    then have "m + 1 \<le> k" "\<not> P m" using k by auto
    with k show ?thesis by auto
  qed (use k in simp)
next
  assume ?R
  then show ?L
  proof
    assume "\<not> P m \<and> (\<exists>k \<ge> m + 1. Q k \<and> (\<forall>j. m + 1 \<le> j \<and> j < k \<longrightarrow> \<not> P j))"
    then obtain k where k: "m + 1 \<le> k" "Q k" "\<not> P m" "\<forall>j. m + 1 \<le> j \<and> j < k \<longrightarrow> \<not> P j" by blast
    then have "\<forall>j. m \<le> j \<and> j < k \<longrightarrow> \<not> P j" by (metis Suc_eq_plus1 Suc_leI le_neq_implies_less)
    with k show ?L by (auto intro: exI [of _ k])
  qed (auto intro: exI [of _ m])
qed

lemma mark_leaders_error:
  "mark_leaders program pc is_leader = Inl e \<longleftrightarrow>
     (\<exists>pc' \<ge> pc. (pc' < length program \<and> out_of_range program pc' \<and>
        e = \<lparr> recon_pc = pc', recon_message = ''branch target out of range'' \<rparr>) \<and>
        (\<forall>k. pc \<le> k \<and> k < pc' \<longrightarrow> \<not> out_of_range program k))"
proof (induction program pc is_leader rule: mark_leaders.induct)
  case (1 program pc is_leader)
  show ?case
  proof (cases "pc < length program")
    case False
    then show ?thesis by (subst mark_leaders.simps) auto
  next
    case inside: True
    show ?thesis
    proof (cases "out_of_range program pc")
      case True
      with inside show ?thesis
        by (subst first_from) (auto simp: mark_leaders.simps [of program pc] fail_def)
    next
      case False
      from "1.IH" [OF inside False] False inside show ?thesis
        by (subst first_from) (simp add: mark_leaders.simps [of program pc])
    qed
  qed
qed

lemma length_mark_pc [simp]: "length (mark_pc program pc is_leader) = length is_leader"
  by (simp add: mark_pc_def Let_def)

lemma mark_pc_marks:
  assumes "length is_leader = length program + 1" "k < length program + 1"
    "\<not> out_of_range program pc"
  shows "mark_pc program pc is_leader ! k \<longleftrightarrow> is_leader ! k \<or> marks program pc k"
  using assms by (auto simp: mark_pc_def marks_def out_of_range_def Let_def nth_list_update)

lemma mark_leaders_marks:
  assumes "mark_leaders program pc is_leader = Inr m" "length is_leader = length program + 1"
  shows "length m = length program + 1 \<and>
    (\<forall>k < length program + 1. m ! k \<longleftrightarrow>
       is_leader ! k \<or> (\<exists>pc' \<ge> pc. pc' < length program \<and> marks program pc' k))"
  using assms
proof (induction program pc is_leader rule: mark_leaders.induct)
  case (1 program pc is_leader)
  show ?case
  proof (cases "pc < length program")
    case False
    with "1.prems" show ?thesis by (auto simp: mark_leaders.simps [of program pc])
  next
    case True
    have ex: "(\<exists>pc' \<ge> pc. P pc') \<longleftrightarrow> P pc \<or> (\<exists>pc' \<ge> pc + 1. P pc')" for P
      by (metis Suc_eq_plus1 Suc_leD le_neq_implies_less Suc_leI order_refl)
    from "1.prems" True have ok: "\<not> out_of_range program pc"
      and rest: "mark_leaders program (pc + 1) (mark_pc program pc is_leader) = Inr m"
      by (simp_all add: mark_leaders.simps [of program pc] split: if_splits)
    from "1.IH" [OF True ok rest] "1.prems"(2) mark_pc_marks [OF "1.prems"(2) _ ok] True
    show ?thesis by (subst ex) auto
  qed
qed

text \<open>What the numbering loop computes: the leaders in order, and their number up to each PC.\<close>

abbreviation leads_below :: "Instruction list \<Rightarrow> nat \<Rightarrow> nat list" where
  "leads_below program k \<equiv> List.filter (is_lead program) [0..<k]"

lemma number_blocks:
  assumes lead: "\<And>k. k < n \<Longrightarrow> (k = 0 \<or> is_leader ! k) = is_lead program k" and "k \<le> n"
  shows "\<exists>out. fold (number_pc is_leader) [0..<k] ([], replicate n 0) = (leads_below program k, out) \<and>
     length out = n \<and> (\<forall>j < k. out ! j = length (leads_below program (j + 1)) - 1)"
  using assms(2)
proof (induction k)
  case 0
  then show ?case by simp
next
  case (Suc k)
  then obtain out where out: "fold (number_pc is_leader) [0..<k] ([], replicate n 0) = (leads_below program k, out)"
    "length out = n" "\<forall>j < k. out ! j = length (leads_below program (j + 1)) - 1" by auto
  have "number_pc is_leader k (leads_below program k, out) =
     (leads_below program (Suc k), out[k := length (leads_below program (Suc k)) - 1])"
    using lead [of k] Suc.prems by (simp add: number_pc_def Let_def)
  moreover have "fold (number_pc is_leader) [0..<Suc k] ([], replicate n 0) =
     number_pc is_leader k (leads_below program k, out)"
    using out(1) by simp
  ultimately show ?case
    using out(2,3) Suc.prems by (auto simp: nth_list_update less_Suc_eq simp del: upt_Suc)
qed

lemma fold_update_each:
  "k \<le> length xs \<Longrightarrow> fold (\<lambda>b out. out[b := f b]) [0..<k] xs = List.map f [0..<k] @ drop k xs"
proof (induction k)
  case 0
  then show ?case by simp
next
  case (Suc k)
  then have "fold (\<lambda>b out. out[b := f b]) [0..<Suc k] xs = (List.map f [0..<k] @ drop k xs)[k := f k]"
    by simp
  also have "\<dots> = List.map f [0..<Suc k] @ drop (Suc k) xs"
    using Suc.prems by (simp add: list_update_append Cons_nth_drop_Suc [symmetric])
  finally show ?case .
qed

text \<open>The graph in closed form.\<close>

lemma build_cfg_error:
  "build_cfg program = Inl e \<longleftrightarrow>
     (\<exists>pc. (pc < length program \<and> out_of_range program pc \<and>
        e = \<lparr> recon_pc = pc, recon_message = ''branch target out of range'' \<rparr>) \<and>
        (\<forall>k < pc. \<not> out_of_range program k))"
proof -
  have "build_cfg program = Inl e \<longleftrightarrow>
      mark_leaders program 0 (replicate (length program + 1) False) = Inl e"
    by (auto simp: build_cfg_def Let_def fail_def split: sum.splits prod.splits)
  then show ?thesis by (simp add: mark_leaders_error)
qed

lemma build_cfg_shape:
  assumes g: "build_cfg program = Inr g"
  shows "leaders g = leads_below program (length program)"
    and "length (block_of g) = length program"
    and "pc < length program \<Longrightarrow> block_of g ! pc = length (leads_below program (pc + 1)) - 1"
    and "exit_node g = length (leaders g)"
    and "length (succs g) = exit_node g + 1" and "succs g ! exit_node g = []"
    and "b < exit_node g \<Longrightarrow> succs g ! b = block_succs program (leaders g) (block_of g) b"
    and "pc < length program \<Longrightarrow> \<not> out_of_range program pc"
proof -
  let ?n = "length program"
  from g obtain m where m: "mark_leaders program 0 (replicate (?n + 1) False) = Inr m"
    by (auto simp: build_cfg_def Let_def)
  have marked: "m ! k \<longleftrightarrow> (\<exists>pc < ?n. marks program pc k)" if "k < ?n + 1" for k
    using mark_leaders_marks [OF m] that by (auto simp del: replicate_Suc)
  have lead: "(k = 0 \<or> m ! k) = is_lead program k" if "k < ?n" for k
    using marked [of k] that by (auto simp: is_lead_def)
  obtain out where out: "fold (number_pc m) [0..<?n] ([], replicate ?n 0) = (leads_below program ?n, out)"
    "length out = ?n" "\<forall>j < ?n. out ! j = length (leads_below program (j + 1)) - 1"
    using number_blocks [OF lead order_refl] by blast
  have "g = \<lparr> leaders = leads_below program ?n, block_of = out,
      succs = List.map (block_succs program (leads_below program ?n) out)
        [0..<length (leads_below program ?n)] @ [[]],
      exit_node = length (leads_below program ?n) \<rparr>"
    using g m out(1) by (simp add: build_cfg_def Let_def fold_update_each del: replicate_Suc) simp
  with out show "leaders g = leads_below program ?n" "length (block_of g) = ?n"
    "pc < length program \<Longrightarrow> block_of g ! pc = length (leads_below program (pc + 1)) - 1"
    "exit_node g = length (leaders g)" "length (succs g) = exit_node g + 1" "succs g ! exit_node g = []"
    "b < exit_node g \<Longrightarrow> succs g ! b = block_succs program (leaders g) (block_of g) b"
    by (simp_all add: nth_append)
  show "\<not> out_of_range program pc" if "pc < length program"
  proof
    assume "out_of_range program pc"
    then have "\<exists>k. k < ?n \<and> out_of_range program k \<and> (\<forall>j < k. \<not> out_of_range program j)"
      using that by (metis (mono_tags, lifting) exists_least_iff less_trans linorder_neqE_nat)
    then have "\<exists>e. build_cfg program = Inl e" by (auto simp: build_cfg_error)
    with g show False by simp
  qed
qed

end
