(* ===== verification/Warp_Invariant.thy ===== *)
theory Warp_Invariant
  imports Warp
begin

text \<open>
  The stack invariants of section 8.3 of \<^verbatim>\<open>docs/wisa-spec.md\<close>: every lane that has not
  retired is in exactly one of the active mask and the masks of the divergence stack. Every
  operation of a warp keeps the invariant, so the assertions of \<^verbatim>\<open>check_invariants\<close>
  never fire and no lane is lost by the stack.
\<close>

unbundle bit_operations_syntax

section \<open>Loops over the stack keep what each pass keeps\<close>

lemma resolve_stack_preserves:
  assumes "P w"
    and "\<And>w e rest. P w \<Longrightarrow> active w = 0 \<Longrightarrow> dstack w = e # rest \<Longrightarrow>
      P (switch_to e 0 (w\<lparr>dstack := rest\<rparr>))"
    and "\<And>w e rest. P w \<Longrightarrow> active w \<noteq> 0 \<Longrightarrow> dstack w = e # rest \<Longrightarrow> reconv_pc e = wpc w \<Longrightarrow>
      P (switch_to e (active w) (w\<lparr>dstack := rest, reconverged := reconverged w + 1\<rparr>))"
  shows "P (snd (resolve_stack w))"
  using assms(1)
proof (induction w rule: resolve_stack.induct)
  case (1 w)
  show ?case
    using 1 assms(2,3)
    by (subst resolve_stack.simps) (cases "dstack w"; auto)
qed

lemma settle_preserves:
  assumes "P w"
    and "\<And>w. P w \<Longrightarrow> P (snd (resolve_stack w))"
    and "\<And>w. P w \<Longrightarrow> \<not> unat (wpc w) < n \<Longrightarrow> P (retire (active w) w)"
  shows "P (snd (settle n w))"
  using assms(1,3)
proof (induction n w rule: settle.induct)
  case (1 n w)
  obtain more w1 where r: "resolve_stack w = (more, w1)" by fastforce
  then have w1: "P w1" using assms(2) [OF 1(2)] by simp
  show ?case
  proof (cases "more \<and> \<not> unat (wpc w1) < n")
    case True
    then have "P (retire (active w1) w1)" using 1(3) [OF w1] by blast
    with True have "P (snd (settle n (retire (active w1) w1)))"
      using 1(1) [OF r [symmetric] refl] 1(3) by blast
    with True show ?thesis by (subst settle.simps) (simp add: r)
  next
    case False
    with w1 show ?thesis by (subst settle.simps) (auto simp: r)
  qed
qed

lemma settle_True:
  "fst (settle n w) \<Longrightarrow> unat (wpc (snd (settle n w))) < n \<and> active (snd (settle n w)) \<noteq> 0"
proof (induction n w rule: settle.induct)
  case (1 n w)
  obtain more w1 where r: "resolve_stack w = (more, w1)" by fastforce
  have eq: "settle n w = (if \<not> more then (False, w1) else if unat (wpc w1) < n then (True, w1)
      else settle n (retire (active w1) w1))"
    by (subst settle.simps) (simp add: r)
  show ?case
    using 1(1) [OF refl r [symmetric]] 1(2) resolve_stack_True [of w] unfolding eq
    by (simp add: r split: if_splits)
qed

lemma resolve_stack_False:
  "\<not> fst (resolve_stack w) \<Longrightarrow> active (snd (resolve_stack w)) = 0 \<and> dstack (snd (resolve_stack w)) = []"
proof (induction w rule: resolve_stack.induct)
  case (1 w)
  from "1.prems" "1.IH" show ?case
    by (subst (1 2) resolve_stack.simps, subst (asm) resolve_stack.simps [of w])
       (auto split: list.splits if_splits)
qed

lemma settle_False:
  "\<not> fst (settle n w) \<Longrightarrow> active (snd (settle n w)) = 0 \<and> dstack (snd (settle n w)) = []"
proof (induction n w rule: settle.induct)
  case (1 n w)
  obtain more w1 where r: "resolve_stack w = (more, w1)" by fastforce
  have eq: "settle n w = (if \<not> more then (False, w1) else if unat (wpc w1) < n then (True, w1)
      else settle n (retire (active w1) w1))"
    by (subst settle.simps) (simp add: r)
  show ?case
    using 1(1) [OF refl r [symmetric]] 1(2) resolve_stack_False [of w] unfolding eq
    by (simp add: r split: if_splits)
qed

text \<open>The parts of the state the stack loops leave alone.\<close>

lemma switch_to_frame [simp, frame_simps]:
  "live (switch_to e a w) = live w"
  "registers (switch_to e a w) = registers w"
  "state_warp_id (switch_to e a w) = state_warp_id w"
  "parked (switch_to e a w) = parked w"
  "lane_ctx (switch_to e a w) = lane_ctx w"
  "last_exec (switch_to e a w) = last_exec w"
  "last_opcode (switch_to e a w) = last_opcode w"
  "divergent (switch_to e a w) = divergent w"
  by (simp_all add: switch_to_def)

lemma retire_frame [simp, frame_simps]:
  "registers (retire x w) = registers w"
  "state_warp_id (retire x w) = state_warp_id w"
  "parked (retire x w) = parked w"
  "lane_ctx (retire x w) = lane_ctx w"
  "last_exec (retire x w) = last_exec w"
  "last_opcode (retire x w) = last_opcode w"
  "divergent (retire x w) = divergent w"
  "wpc (retire x w) = wpc w"
  by (simp_all add: retire_def)

lemma resolve_stack_frame [simp, frame_simps]:
  "live (snd (resolve_stack w)) = live w"
  "registers (snd (resolve_stack w)) = registers w"
  "state_warp_id (snd (resolve_stack w)) = state_warp_id w"
  "parked (snd (resolve_stack w)) = parked w"
  "lane_ctx (snd (resolve_stack w)) = lane_ctx w"
  "last_exec (snd (resolve_stack w)) = last_exec w"
  "last_opcode (snd (resolve_stack w)) = last_opcode w"
  "divergent (snd (resolve_stack w)) = divergent w"
  by (rule resolve_stack_preserves [where P = "\<lambda>v. f v = f w" for f]; simp)+

lemma settle_frame [simp, frame_simps]:
  "registers (snd (settle n w)) = registers w"
  "state_warp_id (snd (settle n w)) = state_warp_id w"
  "parked (snd (settle n w)) = parked w"
  "lane_ctx (snd (settle n w)) = lane_ctx w"
  "last_exec (snd (settle n w)) = last_exec w"
  "last_opcode (snd (settle n w)) = last_opcode w"
  "divergent (snd (settle n w)) = divergent w"
  by (rule settle_preserves [where P = "\<lambda>v. f v = f w" for f]; simp)+

section \<open>Lanes and masks\<close>

fun disjoint_masks :: "LaneMask list \<Rightarrow> bool" where
  "disjoint_masks [] = True"
| "disjoint_masks (m # ms) = ((\<forall>k \<in> set ms. m AND k = 0) \<and> disjoint_masks ms)"

definition masks :: "Warp \<Rightarrow> LaneMask list" where
  "masks w = active w # List.map entry_mask (dstack w)"

definition union_masks :: "LaneMask list \<Rightarrow> LaneMask" where
  "union_masks ms = foldr (\<lambda>m u. m OR u) ms 0"

definition warp_inv :: "Warp \<Rightarrow> bool" where
  "warp_inv w \<longleftrightarrow> disjoint_masks (masks w) \<and> union_masks (masks w) = live w"

lemma union_masks_Nil [simp]: "union_masks [] = 0"
  and union_masks_Cons [simp]: "union_masks (m # ms) = m OR union_masks ms"
  by (simp_all add: union_masks_def)

lemma has_lane_union: "l < 32 \<Longrightarrow> has_lane (union_masks ms) l \<longleftrightarrow> (\<exists>m \<in> set ms. has_lane m l)"
  by (induction ms) auto

lemma disjoint_iff: "m AND k = 0 \<longleftrightarrow> (\<forall>l < 32. \<not> (has_lane m l \<and> has_lane k l))"
proof
  assume "m AND k = 0"
  then show "\<forall>l < 32. \<not> (has_lane m l \<and> has_lane k l)"
    by (metis has_lane_simps(1) has_lane_simps(3))
next
  assume "\<forall>l < 32. \<not> (has_lane m l \<and> has_lane k l)"
  then show "m AND k = 0" by (intro mask_eqI) simp
qed

lemma warp_inv_iff:
  "warp_inv w \<longleftrightarrow>
    (\<forall>m \<in> set (List.map entry_mask (dstack w)). active w AND m = 0) \<and>
    disjoint_masks (List.map entry_mask (dstack w)) \<and>
    active w OR union_masks (List.map entry_mask (dstack w)) = live w"
  by (simp add: warp_inv_def masks_def)

lemma or_and_eq_0: "(a OR b) AND c = 0 \<longleftrightarrow> a AND c = 0 \<and> b AND (c :: LaneMask) = 0"
  by (auto simp: disjoint_iff)

lemma and_eq_0_commute: "a AND b = 0 \<longleftrightarrow> b AND (a :: LaneMask) = 0"
  by (simp add: and.commute)

lemma disjoint_masks_retire:
  "disjoint_masks ms \<Longrightarrow> disjoint_masks (List.map (\<lambda>m. m AND NOT x) ms)"
  by (induction ms) (auto simp: disjoint_iff)

lemma union_masks_retire:
  "union_masks (List.map (\<lambda>m. m AND NOT x) ms) = union_masks ms AND NOT x"
  by (rule mask_eqI) (auto simp: has_lane_union)

section \<open>Every operation keeps the invariant\<close>

lemma new_warp_inv [inv_intros]: "warp_inv (new_warp wid lanes ctx)"
  by (simp add: warp_inv_iff new_warp_def)

lemma warp_inv_cong:
  "active w = active v \<Longrightarrow> live w = live v \<Longrightarrow> dstack w = dstack v \<Longrightarrow> warp_inv w = warp_inv v"
  by (simp add: warp_inv_iff)

lemma warp_inv_update [simp]:
  "warp_inv (w\<lparr>wpc := a\<rparr>) = warp_inv w"
  "warp_inv (w\<lparr>registers := b\<rparr>) = warp_inv w"
  "warp_inv (w\<lparr>parked := c\<rparr>) = warp_inv w"
  "warp_inv (w\<lparr>last_exec := d\<rparr>) = warp_inv w"
  "warp_inv (w\<lparr>last_opcode := e\<rparr>) = warp_inv w"
  "warp_inv (w\<lparr>divergent := f\<rparr>) = warp_inv w"
  "warp_inv (w\<lparr>reconverged := f\<rparr>) = warp_inv w"
  by (rule warp_inv_cong; simp)+

lemma switch_to_inv_empty:
  assumes "warp_inv w" "active w = 0" "dstack w = e # rest"
  shows "warp_inv (switch_to e 0 (w\<lparr>dstack := rest\<rparr>))"
  using assms by (simp add: warp_inv_iff switch_to_def)

lemma switch_to_inv:
  assumes "warp_inv w" "dstack w = e # rest"
  shows "warp_inv (switch_to e (active w) (w\<lparr>dstack := rest, reconverged := r\<rparr>))"
  using assms
  by (auto simp: warp_inv_iff switch_to_def or_and_eq_0 and_eq_0_commute [of _ "active w"]
      or.commute or.left_commute or.assoc)

lemma retire_inv [inv_intros]:
  assumes "warp_inv w"
  shows "warp_inv (retire x w)"
proof -
  have m: "masks (retire x w) = List.map (\<lambda>m. m AND NOT x) (masks w)"
    by (simp add: masks_def retire_def)
  show ?thesis
    using assms disjoint_masks_retire [of "masks w" x]
    by (simp add: warp_inv_def m union_masks_retire) (simp add: retire_def)
qed

lemma resolve_stack_inv [inv_intros]: "warp_inv w \<Longrightarrow> warp_inv (snd (resolve_stack w))"
  by (rule resolve_stack_preserves) (auto intro: switch_to_inv_empty switch_to_inv)

lemma settle_inv [inv_intros]: "warp_inv w \<Longrightarrow> warp_inv (snd (settle n w))"
  by (rule settle_preserves) (auto intro: inv_intros)

lemma guard_mask_lane:
  assumes "l < 32"
  shows "has_lane (guard_mask i w) l \<longleftrightarrow>
    has_lane (active w) l \<and> read_pred (registers w) l (gpred (guard i)) \<noteq> negate (guard i)"
proof -
  let ?g = "\<lambda>k. has_lane (active w) k \<and> read_pred (registers w) k (gpred (guard i)) \<noteq> negate (guard i)"
  let ?f = "\<lambda>lane mask. if ?g lane then mask OR lane_bit lane else mask"
  have "\<forall>l < 32. has_lane (fold ?f [0..<32] 0) l \<longleftrightarrow> l < 32 \<and> ?g l"
    by (rule fold_upt_invariant [where P = "\<lambda>k mask. \<forall>l < 32. has_lane mask l \<longleftrightarrow> l < k \<and> ?g l"])
       (auto simp: less_Suc_eq)
  with assms show ?thesis by (simp add: guard_mask_def warp_size_def)
qed

lemma exec_mask_lane:
  "l < 32 \<Longrightarrow> has_lane (exec_mask i w) l \<longleftrightarrow> has_lane (active w) l \<and>
    (present (guard i) \<longrightarrow> read_pred (registers w) l (gpred (guard i)) \<noteq> negate (guard i))"
  by (simp add: exec_mask_def guard_mask_lane)

lemma exec_mask_within: "exec_mask i w AND NOT (active w) = 0"
  by (rule mask_eqI) (auto simp: exec_mask_lane)

lemma branch_inv [inv_intros]:
  assumes "warp_inv w" "exec AND NOT (active w) = 0"
  shows "warp_inv (branch i exec w)"
proof -
  let ?f = "active w AND NOT exec"
  have split: "exec OR ?f = active w"
    using assms(2) by (intro mask_eqI) (auto simp: disjoint_iff)
  have "exec AND ?f = 0" by (auto simp: disjoint_iff)
  moreover have "exec AND m = 0" "?f AND m = 0" if "active w AND m = 0" for m
    using that assms(2) by (auto simp: disjoint_iff)
  ultimately show ?thesis
    using assms split
    by (auto simp: warp_inv_iff branch_def Let_def or.assoc [symmetric])
qed

lemma access_lanes_frame:
  assumes "access_lanes port i exec addresses lanes w m = (r, w', m')"
  shows "\<exists>rf. w' = w\<lparr>registers := rf\<rparr>"
  using assms
proof (induction lanes arbitrary: w m)
  case Nil
  then show ?case by (auto intro: exI [of _ "registers w"])
next
  case (Cons lane lanes)
  show ?case
    using Cons.prems
    by (auto split: if_splits prod.splits sum.splits dest!: Cons.IH intro: exI [of _ "registers w"])
qed

lemma memory_access_frame:
  "memory_access port i exec w m = (r, w', m') \<Longrightarrow> \<exists>rf. w' = w\<lparr>registers := rf\<rparr>"
  by (auto simp: memory_access_def Let_def dest: access_lanes_frame)

lemma issue_inv [inv_intros]:
  assumes "warp_inv w"
  shows "warp_inv (fst (snd (issue env port i w m)))"
proof (cases "memory_access port i (exec_mask i w)
    (w\<lparr>last_exec := exec_mask i w, last_opcode := opcode i\<rparr>) m")
  case (fields r w1 m1)
  then obtain rf where "w1 = w\<lparr>last_exec := exec_mask i w, last_opcode := opcode i, registers := rf\<rparr>"
    using memory_access_frame [OF fields] by auto
  with fields assms exec_mask_within [of i w] show ?thesis
    by (auto simp: issue_def Let_def intro!: inv_intros split: sum.split)
qed

lemma step_inv [inv_intros]:
  "warp_inv w \<Longrightarrow> warp_inv (fst (snd (step env port program w m)))"
  using settle_inv [of w "length program"]
  by (auto simp: step_def split: prod.splits intro: inv_intros)

section \<open>The assertions of the code\<close>

lemma or_union_and:
  "(s OR union_masks ms) AND k = 0 \<longleftrightarrow> s AND k = 0 \<and> (\<forall>m \<in> set ms. k AND m = 0)"
  by (auto simp: disjoint_iff has_lane_union)

lemma check_invariants_iff:
  "check_invariants w \<longleftrightarrow>
    disjoint_masks (masks w) \<and> union_masks (masks w) AND NOT (live w) = 0"
proof -
  let ?f = "\<lambda>e (seen, ok). (seen OR entry_mask e, ok \<and> seen AND entry_mask e = 0)"
  have f: "fold ?f (rev es) (s, True) =
      (s OR union_masks (List.map entry_mask es), disjoint_masks (s # List.map entry_mask es))" for es s
  proof (induction es)
    case Nil
    then show ?case by simp
  next
    case (Cons e es)
    have "(s OR union_masks (List.map entry_mask es)) OR entry_mask e =
        s OR (entry_mask e OR union_masks (List.map entry_mask es))"
      by (simp add: ac_simps)
    then show ?case
      by (auto simp: Cons.IH or_union_and)
  qed
  show ?thesis by (simp add: check_invariants_def masks_def f ac_simps)
qed

lemma warp_inv_check: "warp_inv w \<Longrightarrow> check_invariants w"
  by (auto simp: check_invariants_iff warp_inv_def disjoint_iff)

section \<open>Properties\<close>

text \<open>The states of a warp: created live, stepped with any outcome, and released from a barrier.\<close>

inductive warp_reachable ::
    "fp_env \<Rightarrow> 'm MemoryPort \<Rightarrow> Instruction list \<Rightarrow> Warp \<Rightarrow> bool"
  for env port program where
  created: "warp_reachable env port program (new_warp wid lanes ctx)"
| stepped: "warp_reachable env port program w \<Longrightarrow> step env port program w m = (r, w', m') \<Longrightarrow>
    warp_reachable env port program w'"
| released: "warp_reachable env port program w \<Longrightarrow> warp_reachable env port program (w\<lparr>parked := False\<rparr>)"

lemma lanes_of_union_masks: "lanes_of (union_masks ms) = \<Union> (lanes_of ` set ms)"
  by (induction ms) auto

lemma reachable_inv: "warp_reachable env port program w \<Longrightarrow> warp_inv w"
proof (induction rule: warp_reachable.induct)
  case (stepped w m r w' m')
  then show ?case using step_inv [of w env port program m] by simp
qed (simp_all add: new_warp_inv)

text \<open>C14: in every state a warp can reach, each lane that has not retired is in exactly one of the
  active mask and the masks of the divergence stack, a retired lane is in none, and the assertions
  of \<^verbatim>\<open>check_invariants\<close> hold.\<close>

theorem lanes_partitioned_by_stack:
  "warp_reachable env port program w \<Longrightarrow>
    check_invariants w \<and> disjoint_masks (active w # List.map entry_mask (dstack w)) \<and>
    lanes_of (live w) = \<Union> (lanes_of ` set (active w # List.map entry_mask (dstack w)))"
proof -
  assume "warp_reachable env port program w"
  then have inv: "warp_inv w" by (rule reachable_inv)
  have "lanes_of (live w) = \<Union> (lanes_of ` set (masks w))"
    using inv lanes_of_union_masks [of "masks w"] by (simp add: warp_inv_def)
  with inv warp_inv_check [OF inv] show ?thesis by (simp add: warp_inv_def masks_def)
qed

theorem lanes_partitioned_by_stack_witness:
  "check_invariants (new_warp 0 full_mask example_context) \<and>
   lanes_of (live (new_warp 0 full_mask example_context)) = {..<32}"
  using lanes_partitioned_by_stack [OF created [where program = "[]"], of 0 full_mask example_context]
  by (simp add: new_warp_def)

end
