(* ===== verification/Lane_Machine.thy ===== *)
theory Lane_Machine
  imports Warp_Invariant
begin

text \<open>
  The abstract specification of a warp: 32 independent lanes, each with its own program counter
  and its own cells, as section 8.4 of \<^verbatim>\<open>docs/wisa-spec.md\<close> promises
  (\<open>every lane executes exactly its own path\<close>). A warp is read as its lanes by
  \<open>lane_of\<close>; the simulation lemma shows that a scheduling step of the warp is one step of
  each lane of the issued path and no step of any other lane.
\<close>

unbundle bit_operations_syntax

section \<open>The lane machine\<close>

type_synonym Cells = "(u8 \<Rightarrow> u32) \<times> (u8 \<Rightarrow> bool)"

record LaneState =
  lane_pc :: "u16 option"
  lane_cells :: Cells

type_synonym Loader = "Space \<Rightarrow> u32 \<Rightarrow> nat \<Rightarrow> (u32, AccessFault) result"

definition spread :: "Cells \<Rightarrow> RegisterFile" where
  "spread cells = \<lparr>general = (\<lambda>_. fst cells), predicates = (\<lambda>_. snd cells)\<rparr>"

definition lane_guard :: "Instruction \<Rightarrow> Cells \<Rightarrow> bool" where
  "lane_guard i cells \<longleftrightarrow> (present (guard i) \<longrightarrow> snd cells (gpred (guard i)) \<noteq> negate (guard i))"

definition lane_address :: "Instruction \<Rightarrow> Cells \<Rightarrow> u32" where
  "lane_address i cells =
    (if memory_space (opcode i) = Param then imm i else fst cells (src0 i) + imm i)"

definition lane_next :: "Instruction \<Rightarrow> bool \<Rightarrow> u16 \<Rightarrow> u16 option" where
  "lane_next i taken pc =
    (if opcode i = Bra then Some (if taken then branch_target i else pc + 1)
     else if opcode i = Exit then (if taken then None else Some (pc + 1))
     else Some (pc + 1))"

definition lane_load :: "Instruction \<Rightarrow> u32 \<Rightarrow> Cells \<Rightarrow> Cells" where
  "lane_load i v cells = ((fst cells)(dst i := v), snd cells)"

definition lane_effect ::
    "fp_env \<Rightarrow> Loader \<Rightarrow> LaneContext \<Rightarrow> nat \<Rightarrow> Instruction \<Rightarrow> Cells \<Rightarrow> Cells" where
  "lane_effect env ld ctx l i cells =
    (if is_memory_opcode (opcode i) then
       (if is_store_opcode (opcode i) then cells
        else (case ld (memory_space (opcode i)) (lane_address i cells) l of
                Inl _ \<Rightarrow> cells
              | Inr v \<Rightarrow> lane_load i v cells))
     else if is_alu_opcode (opcode i) then lane_view (alu_lane env i ctx l (spread cells)) l
     else cells)"

definition in_program :: "nat \<Rightarrow> u16 option \<Rightarrow> u16 option" where
  "in_program n p = (case p of None \<Rightarrow> None | Some pc \<Rightarrow> if unat pc < n then Some pc else None)"

definition lane_step ::
    "fp_env \<Rightarrow> Loader \<Rightarrow> Instruction list \<Rightarrow> LaneContext \<Rightarrow> nat \<Rightarrow> LaneState \<Rightarrow> LaneState" where
  "lane_step env ld program ctx l L =
    (case lane_pc L of
       None \<Rightarrow> L
     | Some pc \<Rightarrow>
         let i = program ! unat pc; exec = lane_guard i (lane_cells L) in
         \<lparr>lane_pc = in_program (length program) (lane_next i exec pc),
          lane_cells = (if exec then lane_effect env ld ctx l i (lane_cells L) else lane_cells L)\<rparr>)"

section \<open>A warp as its lanes\<close>

definition position :: "Warp \<Rightarrow> nat \<Rightarrow> u16 option" where
  "position w l =
    (if has_lane (active w) l then Some (wpc w)
     else map_option resume_pc (find (\<lambda>e. has_lane (entry_mask e) l) (dstack w)))"

definition lane_of :: "nat \<Rightarrow> Warp \<Rightarrow> nat \<Rightarrow> LaneState" where
  "lane_of n w l =
    \<lparr>lane_pc = in_program n (position w l), lane_cells = lane_view (registers w) l\<rparr>"

lemma in_program_simps [simp]:
  "in_program n None = None"
  "in_program n (Some pc) = (if unat pc < n then Some pc else None)"
  by (simp_all add: in_program_def)

lemma in_program_idem [simp]: "in_program n (in_program n p) = in_program n p"
  by (cases p) simp_all

lemma position_new_warp:
  "position (new_warp wid lanes ctx) l = (if has_lane lanes l then Some 0 else None)"
  by (simp add: position_def new_warp_def)

lemma position_update [simp]:
  "position (w\<lparr>registers := b\<rparr>) = position w"
  "position (w\<lparr>parked := c\<rparr>) = position w"
  "position (w\<lparr>last_exec := d\<rparr>) = position w"
  "position (w\<lparr>last_opcode := e\<rparr>) = position w"
  "position (w\<lparr>divergent := f\<rparr>) = position w"
  "position (w\<lparr>reconverged := f\<rparr>) = position w"
  by (simp_all add: position_def fun_eq_iff)

lemma position_wpc:
  "position (w\<lparr>wpc := p\<rparr>) l = (if has_lane (active w) l then Some p else position w l)"
  by (simp add: position_def)

lemma position_None_iff:
  assumes "warp_inv w" "l < 32"
  shows "position w l = None \<longleftrightarrow> \<not> has_lane (live w) l"
proof -
  have "has_lane (live w) l \<longleftrightarrow> (\<exists>m \<in> set (masks w). has_lane m l)"
    using assms has_lane_union [of l "masks w"] by (simp add: warp_inv_def)
  then show ?thesis
    by (auto simp: position_def masks_def find_None_iff)
qed

lemma position_switch_to_empty:
  assumes "active w = 0" "dstack w = e # rest" "l < 32"
  shows "position (switch_to e 0 (w\<lparr>dstack := rest\<rparr>)) l = position w l"
  using assms by (auto simp: position_def switch_to_def is_join_def)

lemma position_switch_to:
  assumes "warp_inv w" "dstack w = e # rest" "reconv_pc e = wpc w" "l < 32"
  shows "position (switch_to e (active w) (w\<lparr>dstack := rest, reconverged := r\<rparr>)) l = position w l"
proof -
  have "\<not> (has_lane (active w) l \<and> has_lane (entry_mask e) l)"
    using assms by (simp add: warp_inv_iff disjoint_iff)
  then show ?thesis
    using assms by (auto simp: position_def switch_to_def is_join_def)
qed

lemma position_resolve_stack:
  assumes "warp_inv w" "l < 32"
  shows "position (snd (resolve_stack w)) l = position w l"
proof -
  have "warp_inv (snd (resolve_stack w)) \<and> position (snd (resolve_stack w)) l = position w l"
    using assms
    by (intro resolve_stack_preserves [where P = "\<lambda>v. warp_inv v \<and> position v l = position w l"])
       (auto simp: position_switch_to_empty position_switch_to intro: switch_to_inv_empty switch_to_inv)
  then show ?thesis ..
qed

lemma position_retire:
  assumes "l < 32"
  shows "position (retire x w) l = (if has_lane x l then None else position w l)"
proof -
  have f: "find (\<lambda>e. has_lane (entry_mask e) l) (List.map (\<lambda>e. e\<lparr>entry_mask := entry_mask e AND NOT x\<rparr>) es) =
      (if has_lane x l then None
       else map_option (\<lambda>e. e\<lparr>entry_mask := entry_mask e AND NOT x\<rparr>)
              (find (\<lambda>e. has_lane (entry_mask e) l) es))" for es
    using assms by (induction es) auto
  then show ?thesis
    using assms by (simp add: f position_def retire_def option.map_comp comp_def)
qed

lemma lane_of_resolve_stack:
  "warp_inv w \<Longrightarrow> l < 32 \<Longrightarrow> lane_of n (snd (resolve_stack w)) l = lane_of n w l"
  by (simp add: lane_of_def position_resolve_stack)

lemma lane_of_retire_active:
  assumes "\<not> unat (wpc w) < n" "l < 32"
  shows "lane_of n (retire (active w) w) l = lane_of n w l"
  using assms by (simp add: lane_of_def position_retire) (simp add: position_def)

lemma lane_of_settle:
  assumes "warp_inv w" "l < 32"
  shows "lane_of n (snd (settle n w)) l = lane_of n w l"
proof -
  have "warp_inv (snd (settle n w)) \<and> lane_of n (snd (settle n w)) l = lane_of n w l"
    using assms
    by (intro settle_preserves [where P = "\<lambda>v. warp_inv v \<and> lane_of n v l = lane_of n w l"])
       (auto simp: lane_of_resolve_stack lane_of_retire_active intro: inv_intros)
  then show ?thesis ..
qed

section \<open>The branch and exit rules on the lanes\<close>

lemma position_branch:
  assumes inv: "warp_inv w" and exec: "exec AND NOT (active w) = 0" and l: "l < 32"
    and unguarded: "\<not> present (guard i) \<Longrightarrow> exec = active w" and i: "opcode i = Bra"
  shows "position (branch i exec w) l =
    (if has_lane (active w) l then lane_next i (has_lane exec l) (wpc w) else position w l)"
proof -
  have sub: "has_lane exec l \<Longrightarrow> has_lane (active w) l"
    using exec l by (auto simp: disjoint_iff)
  consider (plain) "\<not> present (guard i)" | (none) "present (guard i)" "exec = 0"
    | (all) "present (guard i)" "exec \<noteq> 0" "active w AND NOT exec = 0"
    | (diverge) "present (guard i)" "exec \<noteq> 0" "active w AND NOT exec \<noteq> 0"
    by blast
  then show ?thesis
  proof cases
    case plain
    with unguarded i show ?thesis by (simp add: branch_def Let_def position_wpc lane_next_def)
  next
    case none
    with i show ?thesis by (simp add: branch_def Let_def position_wpc lane_next_def)
  next
    case all
    then have "has_lane (active w) l \<Longrightarrow> has_lane exec l"
      using l by (auto simp: disjoint_iff)
    with all i show ?thesis by (simp add: branch_def Let_def position_wpc lane_next_def)
  next
    case diverge
    then show ?thesis
      using sub l i by (auto simp: branch_def Let_def position_def lane_next_def)
  qed
qed

lemma exec_mask_guard:
  "l < 32 \<Longrightarrow> has_lane (exec_mask i w) l \<longleftrightarrow>
    has_lane (active w) l \<and> lane_guard i (lane_view (registers w) l)"
  by (auto simp: exec_mask_lane lane_guard_def lane_view_def)

end
