(* ===== verification/Block_Memory.thy ===== *)
theory Block_Memory
  imports Memory_Port
begin

text \<open>
  \<^verbatim>\<open>include/warpsim/core/memory_port.hpp\<close>, \<^verbatim>\<open>memory.hpp\<close> and
  \<^verbatim>\<open>src/core/memory.cpp\<close>: the byte memories with 32-bit access, and the memory system a
  block shows its warps. The lemmas give the bounds and alignment rules of section 2.5 of
  \<^verbatim>\<open>docs/wisa-spec.md\<close>, that a load returns the word stored last, and that a failed access
  changes nothing.
\<close>

unbundle bit_operations_syntax

section \<open>Byte memories\<close>

type_synonym ByteMemory = "u8 list"

text \<open>\<^verbatim>\<open>ByteMemory(bytes)\<close> starts with every byte zero.\<close>

definition byte_memory :: "nat \<Rightarrow> ByteMemory" where
  "byte_memory n = replicate n 0"

definition check :: "u32 \<Rightarrow> nat \<Rightarrow> ByteMemory \<Rightarrow> (unit, AccessFault) result" where
  "check address lane bytes =
    (if address mod 4 \<noteq> 0 then
       fail \<lparr>access_message = ''misaligned 32-bit access'', access_lane = lane,
             access_address = address\<rparr>
     else if unat address + 4 > length bytes then
       fail \<lparr>access_message = ''access out of bounds'', access_lane = lane,
             access_address = address\<rparr>
     else Inr ())"

text \<open>\<^verbatim>\<open>memcpy\<close> between a word and four bytes, on a little-endian host.\<close>

definition word_of_bytes :: "u8 list \<Rightarrow> u32" where
  "word_of_bytes bs =
    ucast (bs ! 0) OR push_bit 8 (ucast (bs ! 1)) OR
    push_bit 16 (ucast (bs ! 2)) OR push_bit 24 (ucast (bs ! 3))"

definition bytes_of_word :: "u32 \<Rightarrow> u8 list" where
  "bytes_of_word v =
    [ucast v, ucast (drop_bit 8 v), ucast (drop_bit 16 v), ucast (drop_bit 24 v)]"

definition load32 :: "u32 \<Rightarrow> nat \<Rightarrow> ByteMemory \<Rightarrow> (u32, AccessFault) result" where
  "load32 address lane bytes =
    (case check address lane bytes of
       Inl e \<Rightarrow> fail e
     | Inr _ \<Rightarrow> Inr (word_of_bytes (take 4 (drop (unat address) bytes))))"

definition store32 :: "u32 \<Rightarrow> u32 \<Rightarrow> nat \<Rightarrow> ByteMemory \<Rightarrow> (ByteMemory, AccessFault) result" where
  "store32 address v lane bytes =
    (case check address lane bytes of
       Inl e \<Rightarrow> fail e
     | Inr _ \<Rightarrow>
         Inr (take (unat address) bytes @ bytes_of_word v @ drop (unat address + 4) bytes))"

section \<open>The memory of a block\<close>

record BlockMemory =
  global :: ByteMemory
  shared :: ByteMemory
  params :: "u32 list"
  analyzer :: MemoryStats

text \<open>
  The device's global memory is referenced by the block and not copied; a block has it to
  itself while it runs, so the reference is a component of the state that \<open>launch\<close> hands from
  one block to the next.
\<close>

definition block_memory :: "ByteMemory \<Rightarrow> u32 \<Rightarrow> u32 list \<Rightarrow> BlockMemory" where
  "block_memory g shared_bytes ps =
    \<lparr>global = g, shared = byte_memory (unat shared_bytes), params = ps,
     analyzer = no_memory_stats\<rparr>"

fun block_load ::
    "Space \<Rightarrow> u32 \<Rightarrow> nat \<Rightarrow> BlockMemory \<Rightarrow> (u32, AccessFault) result \<times> BlockMemory" where
  "block_load Global address lane m = (load32 address lane (global m), m)"
| "block_load Shared address lane m = (load32 address lane (shared m), m)"
| "block_load Param address lane m =
    (if unat address \<ge> length (params m) then
       (fail \<lparr>access_message = ''parameter ordinal out of range'', access_lane = lane,
              access_address = address\<rparr>, m)
     else (Inr (params m ! unat address), m))"

fun block_store ::
    "Space \<Rightarrow> u32 \<Rightarrow> u32 \<Rightarrow> nat \<Rightarrow> BlockMemory \<Rightarrow> (unit, AccessFault) result \<times> BlockMemory"
where
  "block_store Global address v lane m =
    (case store32 address v lane (global m) of
       Inl e \<Rightarrow> (fail e, m) | Inr g \<Rightarrow> (Inr (), m\<lparr>global := g\<rparr>))"
| "block_store Shared address v lane m =
    (case store32 address v lane (shared m) of
       Inl e \<Rightarrow> (fail e, m) | Inr s \<Rightarrow> (Inr (), m\<lparr>shared := s\<rparr>))"
| "block_store Param address v lane m =
    (fail \<lparr>access_message = ''store to parameter space'', access_lane = lane,
           access_address = address\<rparr>, m)"

definition on_warp_access ::
    "Space \<Rightarrow> bool \<Rightarrow> Addresses \<Rightarrow> LaneMask \<Rightarrow> BlockMemory \<Rightarrow> BlockMemory" where
  "on_warp_access space is_store addresses exec m =
    (if space = Global then m\<lparr>analyzer := on_global addresses exec is_store (analyzer m)\<rparr>
     else if space = Shared then m\<lparr>analyzer := on_shared addresses exec is_store (analyzer m)\<rparr>
     else m)"

definition block_port :: "BlockMemory MemoryPort" where
  "block_port =
    \<lparr>port_load = block_load, port_store = block_store, port_on_warp_access = on_warp_access\<rparr>"

section \<open>Words and bytes\<close>

lemma bit_word_of_bytes [field_bits]:
  "bit (word_of_bytes [b0, b1, b2, b3]) n \<longleftrightarrow> n < 32 \<and>
    (if n < 8 then bit b0 n else if n < 16 then bit b1 (n - 8)
     else if n < 24 then bit b2 (n - 16) else bit b3 (n - 24))"
  by (auto simp: word_of_bytes_def bit_simps dest: bit_imp_le_length)

lemma word_of_bytes_of_word [simp]: "word_of_bytes (bytes_of_word v) = v"
  by (rule bit_word_eqI) (auto simp: bytes_of_word_def bit_word_of_bytes bit_simps)

lemma bytes_of_word_of_bytes:
  "bytes_of_word (word_of_bytes [b0, b1, b2, b3]) = [b0, b1, b2, b3]"
  by (auto simp: bytes_of_word_def bit_word_of_bytes bit_simps intro!: bit_word_eqI
      dest: bit_imp_le_length)

lemma length_bytes_of_word [simp]: "length (bytes_of_word v) = 4"
  by (simp add: bytes_of_word_def)

section \<open>Access checks\<close>

definition accessible :: "u32 \<Rightarrow> nat \<Rightarrow> bool" where
  "accessible address n \<longleftrightarrow> unat address mod 4 = 0 \<and> unat address + 4 \<le> n"

lemma check_eq_Inr: "check address lane bytes = Inr u \<longleftrightarrow> accessible address (length bytes)"
proof -
  have "unat (address mod 4) = unat address mod 4" by (simp add: unat_mod_distrib)
  then have "address mod 4 = 0 \<longleftrightarrow> unat address mod 4 = 0" by (simp add: unat_eq_0 flip: unat_eq_0)
  then show ?thesis by (simp add: check_def accessible_def not_less)
qed

lemma check_cases:
  obtains (ok) "check address lane bytes = Inr ()" "accessible address (length bytes)"
    | (error) e where "check address lane bytes = Inl e" "\<not> accessible address (length bytes)"
  by (metis check_eq_Inr result_unit_cases)

lemma load32_ok: "has_value (load32 a lane bytes) \<longleftrightarrow> accessible a (length bytes)"
  by (rule check_cases [of a lane bytes]) (simp_all add: load32_def)

lemma store32_ok: "has_value (store32 a v lane bytes) \<longleftrightarrow> accessible a (length bytes)"
  by (rule check_cases [of a lane bytes]) (simp_all add: store32_def)

lemma load32_fault_iff_store32_fault: "load32 a lane bytes = Inl e \<longleftrightarrow> store32 a v lane bytes = Inl e"
  by (cases "check a lane bytes") (simp_all add: load32_def store32_def)

lemma store32_eq_Inr:
  "store32 a v lane bytes = Inr bytes' \<longleftrightarrow> accessible a (length bytes) \<and>
    bytes' = take (unat a) bytes @ bytes_of_word v @ drop (unat a + 4) bytes"
  by (auto simp: store32_def check_eq_Inr)

lemma store32_length: "store32 a v lane bytes = Inr bytes' \<Longrightarrow> length bytes' = length bytes"
  by (auto simp: store32_eq_Inr accessible_def)

text \<open>Two aligned words are the same word or do not overlap.\<close>

lemma take_drop_patch:
  assumes "i + 4 \<le> length xs" "length w = 4" "j + 4 \<le> i \<or> i + 4 \<le> j"
  shows "take 4 (drop j (take i xs @ w @ drop (i + 4) xs)) = take 4 (drop j xs)"
  using assms
proof (elim disjE)
  assume "j + 4 \<le> i"
  then have "take 4 (drop j (take i xs)) = take 4 (drop j xs)"
    by (simp add: take_drop min_def)
  with \<open>j + 4 \<le> i\<close> assms show ?thesis by simp
next
  assume j: "i + 4 \<le> j"
  then have "j - i - 4 + (i + 4) = j" by simp
  with j assms show ?thesis by simp
qed

lemma load32_store32:
  assumes st: "store32 a v lane bytes = Inr bytes'"
  shows "load32 a' lane' bytes' = (if a' = a then Inr v else load32 a' lane' bytes)"
proof -
  from st have acc: "accessible a (length bytes)"
    and b': "bytes' = take (unat a) bytes @ bytes_of_word v @ drop (unat a + 4) bytes"
    by (auto simp: store32_eq_Inr)
  have len: "length bytes' = length bytes" using st by (rule store32_length)
  have ck: "check a' lane' bytes' = check a' lane' bytes"
    by (simp add: check_def len)
  show ?thesis
  proof (cases "a' = a")
    case True
    have "take 4 (drop (unat a) bytes') = bytes_of_word v"
      using acc by (simp add: b' accessible_def)
    moreover have "check a lane' bytes = Inr ()" using acc by (simp add: check_eq_Inr)
    ultimately show ?thesis using ck unfolding True by (simp add: load32_def)
  next
    case False
    show ?thesis
    proof (rule check_cases [of a' lane' bytes])
      assume acc': "accessible a' (length bytes)" and ok: "check a' lane' bytes = Inr ()"
      have "unat a' \<noteq> unat a" using False by (simp add: word_unat_eq_iff)
      then have "unat a' + 4 \<le> unat a \<or> unat a + 4 \<le> unat a'"
        using acc acc' unfolding accessible_def by presburger
      then have "take 4 (drop (unat a') bytes') = take 4 (drop (unat a') bytes)"
        unfolding b' using acc by (intro take_drop_patch) (simp_all add: accessible_def)
      with False ok show ?thesis by (simp add: load32_def ck)
    qed (use False in \<open>simp add: load32_def ck\<close>)
  qed
qed

section \<open>The block's memory is a memory port\<close>

lemma block_load_frame: "snd (block_load space a lane m) = m"
  by (cases space) simp_all

lemma block_store_cases:
  obtains (ok) "fst (block_store space a v lane m) = Inr ()"
      "length (global (snd (block_store space a v lane m))) = length (global m)"
      "length (shared (snd (block_store space a v lane m))) = length (shared m)"
    | (fault) e where "fst (block_store space a v lane m) = Inl e"
      "snd (block_store space a v lane m) = m"
  using store32_length
  by (cases space; fastforce split: sum.splits simp: fail_def)

text \<open>Whether a store is accepted depends on the sizes of the memories only.\<close>

lemma check_length: "length bytes = length bytes' \<Longrightarrow> check a lane bytes = check a lane bytes'"
  by (simp add: check_def)

lemma fst_block_store:
  "fst (block_store Global a v lane m) = check a lane (global m)"
  "fst (block_store Shared a v lane m) = check a lane (shared m)"
  by (simp_all add: store32_def fail_def split: sum.split)

lemma block_store_lengths:
  "length (global (snd (block_store space a v lane m))) = length (global m)"
  "length (shared (snd (block_store space a v lane m))) = length (shared m)"
  by (rule block_store_cases [of space a v lane m]; simp)+

interpretation block: memory_port block_port
proof
  fix space space' a a' v v' lane lane' m e ex is_store addresses
  show "snd (port_load block_port space a lane m) = m"
    by (simp add: block_port_def block_load_frame)
  show "snd (port_store block_port space a v lane m) = m"
    if "fst (port_store block_port space a v lane m) = Inl e"
    using that by (cases rule: block_store_cases [of space a v lane m]) (simp_all add: block_port_def)
  show "fst (port_load block_port space' a' lane' (snd (port_store block_port space a v lane m))) =
      (if space' = space \<and> a' = a then Inr v else fst (port_load block_port space' a' lane' m))"
    if "fst (port_store block_port space a v lane m) = Inr ()"
    using that by (cases space; cases space') (auto simp: block_port_def load32_store32 split: sum.splits)
  show "fst (port_store block_port space a v lane (snd (port_store block_port space' a' v' lane' m))) =
      fst (port_store block_port space a v lane m)"
    by (cases space) (simp_all add: block_port_def fst_block_store block_store_lengths
        check_length [OF block_store_lengths(1)] check_length [OF block_store_lengths(2)]
        del: block_store.simps(1,2))
  show "fst (port_load block_port space a lane (port_on_warp_access block_port space' is_store addresses ex m)) =
      fst (port_load block_port space a lane m)"
    by (cases space) (auto simp: block_port_def on_warp_access_def)
  show "fst (port_store block_port space a v lane (port_on_warp_access block_port space' is_store addresses ex m)) =
      fst (port_store block_port space a v lane m)"
    by (cases space) (auto simp: block_port_def on_warp_access_def split: sum.splits)
qed

section \<open>Properties\<close>

text \<open>A word and its four bytes in memory determine each other.\<close>

theorem word_bytes_inverse:
  "word_of_bytes (bytes_of_word v) = v \<and>
   bytes_of_word (word_of_bytes [b0, b1, b2, b3]) = [b0, b1, b2, b3]"
  by (simp add: bytes_of_word_of_bytes)

text \<open>An access to global or shared memory succeeds exactly when its address is a multiple of
  four and the word lies inside the memory; a parameter is read exactly when its ordinal is in the
  table and is never stored to.\<close>

theorem access_succeeds_iff:
  "(has_value (fst (block_load Global a lane m)) \<longleftrightarrow> unat a mod 4 = 0 \<and> unat a + 4 \<le> length (global m)) \<and>
   (has_value (fst (block_load Shared a lane m)) \<longleftrightarrow> unat a mod 4 = 0 \<and> unat a + 4 \<le> length (shared m)) \<and>
   (has_value (fst (block_load Param a lane m)) \<longleftrightarrow> unat a < length (params m)) \<and>
   (has_value (fst (block_store Global a v lane m)) \<longleftrightarrow> unat a mod 4 = 0 \<and> unat a + 4 \<le> length (global m)) \<and>
   (has_value (fst (block_store Shared a v lane m)) \<longleftrightarrow> unat a mod 4 = 0 \<and> unat a + 4 \<le> length (shared m)) \<and>
   \<not> has_value (fst (block_store Param a v lane m))"
proof -
  have "has_value (check a lane bytes) \<longleftrightarrow> unat a mod 4 = 0 \<and> unat a + 4 \<le> length bytes" for bytes
    by (rule check_cases [of a lane bytes]) (auto simp: accessible_def)
  then show ?thesis
    by (simp add: load32_ok accessible_def fst_block_store not_le del: block_store.simps(1,2))
qed

text \<open>C37: after a store that succeeded, a load returns the stored word at that address of that space
  and what it returned before everywhere else.\<close>

theorem load_after_store:
  "fst (block_store space a v lane m) = Inr () \<Longrightarrow>
    fst (block_load space' a' lane' (snd (block_store space a v lane m))) =
      (if space' = space \<and> a' = a then Inr v else fst (block_load space' a' lane' m))"
  using block.load_store [of space a v lane m] by (simp add: block_port_def)

theorem load_after_store_witness:
  "fst (block_load Global 4 0 (snd (block_store Global 4 7 0 (block_memory (byte_memory 8) 0 [])))) = Inr 7"
  by (subst load_after_store)
     (simp_all add: fst_block_store check_eq_Inr accessible_def block_memory_def byte_memory_def
        del: block_store.simps)

text \<open>An access that fails changes nothing, and a load never does.\<close>

theorem failed_access_changes_nothing:
  "snd (block_load space a lane m) = m \<and>
   (fst (block_store space a v lane m) = Inl e \<longrightarrow> snd (block_store space a v lane m) = m)"
  using block.store_fault [of space a v lane m e] by (simp add: block_port_def block_load_frame)

theorem failed_access_changes_nothing_witness:
  "snd (block_store Param 0 1 2 (block_memory [] 0 [])) = block_memory [] 0 []"
  using failed_access_changes_nothing [of Param 0 2 "block_memory [] 0 []" 1
      "\<lparr>access_message = ''store to parameter space'', access_lane = 2, access_address = 0\<rparr>"]
  by (simp add: fail_def)

end
