(* ===== verification/Warp_Refinement.thy ===== *)
theory Warp_Refinement
  imports Lane_Machine Block_Memory
begin

text \<open>
  The simulation between a warp and the lane machine: what one scheduling step does to every
  lane, and what a run of steps computes. The lemmas hold over every memory port; the memory
  of a block is one.
\<close>

unbundle bit_operations_syntax

section \<open>Effects of an instruction on the cells of a lane\<close>

lemma alu_lane_spread:
  "lane_view (alu_lane env i ctx l (spread (lane_view rf l))) l = lane_view (alu_lane env i ctx l rf) l"
  by (rule alu_lane_own) (simp add: lane_view_def spread_def read_reg_def read_pred_def fun_eq_iff)

lemma execute_alu_effect:
  assumes "l < 32" "\<not> is_memory_opcode (opcode i)" "is_alu_opcode (opcode i)"
  shows "lane_view (execute_alu env i exec rf ctx) l =
    (if has_lane exec l then lane_effect env ld ctx l i (lane_view rf l) else lane_view rf l)"
  using assms by (simp add: execute_alu_view lane_effect_def alu_lane_spread)

lemma opcode_classes:
  "is_alu_opcode opc \<longleftrightarrow> opc \<noteq> Bra \<and> opc \<noteq> Exit \<and> opc \<noteq> BarSync \<and> \<not> is_memory_opcode opc"
  by (cases opc) simp_all

lemma access_lanes_store:
  "is_store_opcode (opcode i) \<Longrightarrow> access_lanes port i exec addresses lanes w m = (r, w', m') \<Longrightarrow> w' = w"
  by (induction lanes arbitrary: m) (auto split: if_splits prod.splits sum.splits)

text \<open>The address a lane accesses is the address of the lane machine.\<close>

lemma lane_addresses_eq:
  "has_lane exec l \<Longrightarrow> lane_addresses i exec rf l = lane_address i (lane_view rf l)"
  by (simp add: lane_addresses_def lane_address_def lane_view_def)

lemma store_space: "is_store_opcode opc \<Longrightarrow> memory_space opc \<noteq> Param"
  by (auto simp: is_store_opcode_def)

section \<open>A memory instruction\<close>

text \<open>The outcome of a load that succeeded, on the cells of the lane.\<close>

definition loaded :: "Instruction \<Rightarrow> (u32, AccessFault) result \<Rightarrow> Cells \<Rightarrow> Cells \<Rightarrow> bool" where
  "loaded i r cells cells' = (case r of Inl _ \<Rightarrow> False | Inr v \<Rightarrow> cells' = lane_load i v cells)"

definition loader :: "'m MemoryPort \<Rightarrow> 'm \<Rightarrow> Loader" where
  "loader port m space a lane = fst (port_load port space a lane m)"

context memory_port begin

lemma loader_hook [simp]:
  "loader port (port_on_warp_access port space is_store addresses exec m) = loader port m"
  by (simp add: loader_def fun_eq_iff load_hook)

lemma access_lanes_load:
  assumes "\<not> is_store_opcode (opcode i)" "distinct lanes"
    and "access_lanes port i exec addresses lanes w m = (Inr u, w', m')"
  shows "m' = m \<and> (\<exists>rf. w' = w\<lparr>registers := rf\<rparr>) \<and>
    (if l \<in> set lanes \<and> has_lane exec l
         then loaded i (loader port m (memory_space (opcode i)) (addresses l) l)
              (lane_view (registers w) l) (lane_view (registers w') l)
         else lane_view (registers w') l = lane_view (registers w) l)"
  using assms(2,3)
proof (induction lanes arbitrary: w)
  case Nil
  then show ?case by (auto intro: exI [of _ "registers w"])
next
  case (Cons lane lanes)
  show ?case
  proof (cases "has_lane exec lane")
    case False
    with Cons show ?thesis by simp metis
  next
    case True
    define w1 where "w1 v = w\<lparr>registers := write_reg lane (dst i) v (registers w)\<rparr>" for v
    obtain v where v: "loader port m (memory_space (opcode i)) (addresses lane) lane = Inr v"
      and run: "access_lanes port i exec addresses lanes (w1 v) m = (Inr u, w', m')"
      using Cons.prems True assms(1) load_frame [of "memory_space (opcode i)" "addresses lane" lane m]
      by (auto simp: loader_def w1_def fail_def split: prod.splits sum.splits)
    have IH: "m' = m \<and> (\<exists>rf. w' = (w1 v)\<lparr>registers := rf\<rparr>) \<and>
        (if l \<in> set lanes \<and> has_lane exec l
         then loaded i (loader port m (memory_space (opcode i)) (addresses l) l)
              (lane_view (registers (w1 v)) l) (lane_view (registers w') l)
         else lane_view (registers w') l = lane_view (registers (w1 v)) l)"
      using Cons.IH [OF _ run] Cons.prems(1) by simp
    have view: "lane_view (registers (w1 v)) l =
        (if l = lane then lane_load i v (lane_view (registers w) lane) else lane_view (registers w) l)" for l
      by (simp add: w1_def lane_load_def) (simp add: lane_view_def)
    show ?thesis
    proof (intro conjI)
      show "m' = m" using IH by blast
      show "\<exists>rf. w' = w\<lparr>registers := rf\<rparr>" using IH by (auto simp: w1_def)
    next
      show "if l \<in> set (lane # lanes) \<and> has_lane exec l
         then loaded i (loader port m (memory_space (opcode i)) (addresses l) l)
              (lane_view (registers w) l) (lane_view (registers w') l)
         else lane_view (registers w') l = lane_view (registers w) l"
        using IH view [of l] v True Cons.prems(1) by (cases "l = lane") (simp_all add: loaded_def cong: if_cong)
    qed
  qed
qed

lemma memory_access_effect:
  assumes i: "is_memory_opcode (opcode i)"
    and run: "memory_access port i exec w m = (Inr u, w', m')" and l: "l < 32"
  shows "lane_view (registers w') l =
    (if has_lane exec l then lane_effect env (loader port m) ctx l i (lane_view (registers w) l)
     else lane_view (registers w) l)"
proof (cases "is_store_opcode (opcode i)")
  case True
  with run have "w' = w" by (auto simp: memory_access_def Let_def dest: access_lanes_store)
  with True i show ?thesis by (simp add: lane_effect_def)
next
  case False
  define m1 where "m1 = (if exec \<noteq> 0 then port_on_warp_access port (memory_space (opcode i))
      (is_store_opcode (opcode i)) (lane_addresses i exec (registers w)) exec m else m)"
  have run1: "access_lanes port i exec (lane_addresses i exec (registers w)) [0..<warp_size] w m1 = (Inr u, w', m')"
    using run by (simp add: memory_access_def m1_def Let_def)
  have "loader port m1 = loader port m" by (simp add: m1_def)
  then have "if l < 32 \<and> has_lane exec l
      then loaded i (loader port m (memory_space (opcode i)) (lane_addresses i exec (registers w) l) l)
           (lane_view (registers w) l) (lane_view (registers w') l)
      else lane_view (registers w') l = lane_view (registers w) l"
    using access_lanes_load [OF False distinct_upt run1, of l] by (simp add: warp_size_def cong: if_cong)
  with l i False show ?thesis
    by (simp add: lane_effect_def lane_addresses_eq loaded_def split: if_splits sum.splits)
qed

section \<open>One scheduling step is one step of every lane of the issued path\<close>

lemma issue_lanes:
  assumes inv: "warp_inv w" and act: "active w \<noteq> 0" and pc: "unat (wpc w) < length program"
    and run: "issue env port (program ! unat (wpc w)) w m = (Inr oc, w', m')" and l: "l < 32"
  shows "lane_of (length program) w' l =
    (if has_lane (active w) l
     then lane_step env (loader port m) program (lane_ctx w) l (lane_of (length program) w l)
     else lane_of (length program) w l)"
proof -
  define i where "i = program ! unat (wpc w)"
  define exec where "exec = exec_mask i w"
  define w0 where "w0 = w\<lparr>last_exec := exec, last_opcode := opcode i\<rparr>"
  have ge: "has_lane exec l \<longleftrightarrow> has_lane (active w) l \<and> lane_guard i (lane_view (registers w) l)"
    using l by (simp add: exec_def exec_mask_guard)
  have spec: "lane_of (length program) w' l =
      (if has_lane (active w) l then lane_step env (loader port m) program (lane_ctx w) l (lane_of (length program) w l)
       else lane_of (length program) w l)"
    if pos: "position w' l = (if has_lane (active w) l then lane_next i (has_lane exec l) (wpc w) else position w l)"
      and view: "lane_view (registers w') l =
        (if has_lane exec l then lane_effect env (loader port m) (lane_ctx w) l i (lane_view (registers w) l)
         else lane_view (registers w) l)"
  proof (cases "has_lane (active w) l")
    case True
    then have "position w l = Some (wpc w)" by (simp add: position_def)
    with True pos view pc ge show ?thesis
      by (simp add: lane_of_def lane_step_def i_def [symmetric] Let_def)
  next
    case False
    with pos view ge show ?thesis by (simp add: lane_of_def)
  qed
  have run': "issue env port i w m = (Inr oc, w', m')" using run by (simp add: i_def)
  consider (bra) "opcode i = Bra" | (exit) "opcode i = Exit" | (bar) "opcode i = BarSync"
    | (mem) "is_memory_opcode (opcode i)" | (alu) "is_alu_opcode (opcode i)"
    by (auto simp: opcode_classes)
  then show ?thesis
  proof cases
    case bra
    then have w': "w' = branch i exec w0"
      using run' by (simp add: issue_def Let_def exec_def w0_def)
    have "position (branch i exec w0) l =
        (if has_lane (active w0) l then lane_next i (has_lane exec l) (wpc w0) else position w0 l)"
      using inv bra l exec_mask_within [of i w]
      by (intro position_branch) (simp_all add: w0_def exec_def exec_mask_def)
    moreover have "registers (branch i exec w0) = registers w"
      by (simp add: branch_def Let_def w0_def)
    ultimately show ?thesis
      using bra by (intro spec) (simp_all add: w' w0_def lane_effect_def)
  next
    case exit
    then have w': "w' = (retire exec w0)\<lparr>wpc := wpc w + 1\<rparr>"
      using run' by (simp add: issue_def Let_def exec_def w0_def)
    have "has_lane (active (retire exec w0)) l \<longleftrightarrow> has_lane (active w) l \<and> \<not> has_lane exec l"
      using l by (simp add: retire_def w0_def)
    then show ?thesis
      using exit l ge by (intro spec)
        (auto simp: w' position_wpc position_retire lane_next_def lane_effect_def, simp_all add: w0_def)
  next
    case bar
    then have w': "w' = w0\<lparr>parked := True, wpc := wpc w + 1\<rparr>"
      using run' by (auto simp: issue_def Let_def exec_def w0_def fail_def split: if_splits)
    then show ?thesis
      using bar by (intro spec)
        (auto simp: position_def lane_next_def lane_effect_def w0_def)
  next
    case mem
    then obtain u w1 where ma: "memory_access port i exec w0 m = (Inr u, w1, m')"
      and w': "w' = w1\<lparr>wpc := wpc w1 + 1\<rparr>"
      using run' by (auto simp: issue_def Let_def exec_def w0_def fail_def split: if_splits prod.splits sum.splits)
    from memory_access_frame [OF ma] obtain rf where w1: "w1 = w0\<lparr>registers := rf\<rparr>" by blast
    have "opcode i \<noteq> Bra" "opcode i \<noteq> Exit" using mem by auto
    moreover have "lane_view rf l = (if has_lane exec l
        then lane_effect env (loader port m) (lane_ctx w) l i (lane_view (registers w) l) else lane_view (registers w) l)"
      using memory_access_effect [OF mem ma l, of env "lane_ctx w"] by (simp add: w1 w0_def)
    ultimately show ?thesis
      by (intro spec) (simp_all add: w' w1 w0_def position_def lane_next_def)
  next
    case alu
    then have c: "opcode i \<noteq> Bra" "opcode i \<noteq> Exit" "opcode i \<noteq> BarSync" "\<not> is_memory_opcode (opcode i)"
      by (simp_all add: opcode_classes)
    then have w': "w' = w0\<lparr>registers := execute_alu env i exec (registers w) (lane_ctx w), wpc := wpc w + 1\<rparr>"
      using run' by (simp add: issue_def Let_def exec_def w0_def)
    show ?thesis
      using c execute_alu_effect [OF l c(4) alu, of env exec "registers w" "lane_ctx w" "loader port m"]
      by (intro spec) (simp_all add: w' w0_def position_def lane_next_def)
  qed
qed

end

lemma settled_lane_pc:
  assumes "warp_inv w" "fst (settle n w)" "l < 32" "has_lane (active (snd (settle n w))) l"
  shows "lane_pc (lane_of n w l) = Some (wpc (snd (settle n w)))"
proof -
  have "lane_pc (lane_of n (snd (settle n w)) l) = Some (wpc (snd (settle n w)))"
    using settle_True [OF assms(2)] assms(4) by (simp add: lane_of_def position_def)
  then show ?thesis by (simp add: lane_of_settle [OF assms(1,3)])
qed

context memory_port begin

text \<open>The whole step: resolving the stack and retiring the paths that fell off the program
  moves no lane.\<close>

lemma step_lanes:
  assumes inv: "warp_inv w" and run: "step env port program w m = (Inr oc, w', m')"
    and oc: "oc \<noteq> Finished" and l: "l < 32"
  shows "lane_of (length program) w' l =
    (if has_lane (active (snd (settle (length program) w))) l
     then lane_step env (loader port m) program (lane_ctx w) l (lane_of (length program) w l)
     else lane_of (length program) w l)"
proof -
  define ws where "ws = snd (settle (length program) w)"
  have more: "fst (settle (length program) w)"
    and iss: "issue env port (program ! unat (wpc ws)) ws m = (Inr oc, w', m')"
    using run oc by (auto simp: step_def ws_def split: prod.splits if_splits)
  have "warp_inv ws" using inv by (simp add: ws_def inv_intros)
  moreover have "active ws \<noteq> 0" "unat (wpc ws) < length program"
    using settle_True [OF more] by (simp_all add: ws_def)
  ultimately show ?thesis
    using issue_lanes [OF _ _ _ iss l] lane_of_settle [OF inv l, of "length program"]
    by (simp add: ws_def)
qed

lemma step_Finished:
  assumes inv: "warp_inv w" and run: "step env port program w m = (Inr Finished, w', m')"
  shows "m' = m" and "live w' = 0"
    and "l < 32 \<Longrightarrow> lane_of (length program) w' l = lane_of (length program) w l"
    and "l < 32 \<Longrightarrow> lane_pc (lane_of (length program) w l) = None"
proof -
  have "issue env port i v m \<noteq> (Inr Finished, w', m')" for i v
    by (auto simp: issue_def Let_def fail_def split: prod.splits sum.splits)
  then have st: "\<not> fst (settle (length program) w)" "m' = m" "w' = snd (settle (length program) w)"
    using run by (auto simp: step_def split: prod.splits if_splits)
  show "m' = m" by (rule st)
  have inv': "warp_inv w'" using inv by (simp add: st inv_intros)
  have empty: "active w' = 0" "dstack w' = []" using settle_False [OF st(1)] by (simp_all add: st)
  then show "live w' = 0" using inv' by (simp add: warp_inv_iff)
  show same: "l < 32 \<Longrightarrow> lane_of (length program) w' l = lane_of (length program) w l"
    using lane_of_settle [OF inv] by (simp add: st)
  have "lane_pc (lane_of (length program) w' l) = None"
    using empty by (simp add: lane_of_def position_def)
  then show "l < 32 \<Longrightarrow> lane_pc (lane_of (length program) w l) = None"
    using same by simp
qed

text \<open>A lane faults when its next instruction is a load that the memory refuses. A warp step
  of a program without stores and barriers fails only on behalf of such a lane.\<close>

lemma access_lanes_load_fault:
  assumes "\<not> is_store_opcode (opcode i)" "access_lanes port i exec addresses lanes w m = (Inl f, w', m')"
  shows "\<exists>l \<in> set lanes. has_lane exec l \<and> (\<exists>e. loader port m (memory_space (opcode i)) (addresses l) l = Inl e)"
  using assms
proof (induction lanes arbitrary: w)
  case Nil
  then show ?case by simp
next
  case (Cons lane lanes)
  have m: "snd (port_load port (memory_space (opcode i)) (addresses lane) lane m) = m"
    by (rule load_frame)
  show ?case
    using Cons.prems m
    by (auto simp: loader_def split: if_splits prod.splits sum.splits dest!: Cons.IH)
qed

lemma memory_access_fault:
  assumes "\<not> is_store_opcode (opcode i)" "memory_access port i exec w m = (Inl f, w', m')"
  shows "\<exists>l < 32. has_lane exec l \<and>
    (\<exists>e. loader port m (memory_space (opcode i)) (lane_address i (lane_view (registers w) l)) l = Inl e)"
proof -
  define m1 where "m1 = (if exec \<noteq> 0 then port_on_warp_access port (memory_space (opcode i))
      (is_store_opcode (opcode i)) (lane_addresses i exec (registers w)) exec m else m)"
  have "access_lanes port i exec (lane_addresses i exec (registers w)) [0..<warp_size] w m1 = (Inl f, w', m')"
    using assms by (simp add: memory_access_def m1_def Let_def)
  from access_lanes_load_fault [OF assms(1) this] obtain l e where
    "l < 32" "has_lane exec l"
    "loader port m1 (memory_space (opcode i)) (lane_addresses i exec (registers w) l) l = Inl e"
    by (auto simp: warp_size_def)
  moreover have "loader port m1 = loader port m" by (simp add: m1_def)
  ultimately show ?thesis by (auto simp: lane_addresses_eq)
qed

end

section \<open>The order of the lanes of a memory instruction\<close>

definition refused :: "'m MemoryPort \<Rightarrow> Instruction \<Rightarrow> Warp \<Rightarrow> 'm \<Rightarrow> nat \<Rightarrow> u32 \<Rightarrow> bool" where
  "refused port i w m l a \<longleftrightarrow>
    (if is_store_opcode (opcode i)
     then \<not> has_value (fst (port_store port (memory_space (opcode i)) a (read_reg (registers w) l (src1 i)) l m))
     else \<not> has_value (fst (port_load port (memory_space (opcode i)) a l m)))"

context memory_port begin

lemma access_lanes_store_run:
  assumes "is_store_opcode (opcode i)"
    and "access_lanes port i exec addresses lanes w m = (Inr u, w', m')"
  defines "vs \<equiv> \<lambda>l. read_reg (registers w) l (src1 i)"
    and "executing \<equiv> filter (has_lane exec) lanes"
  shows "m' = store_run (memory_space (opcode i)) addresses vs executing m \<and>
    (\<forall>l \<in> set executing. fst (port_store port (memory_space (opcode i)) (addresses l) (vs l) l m) = Inr ())"
  using assms(2) unfolding vs_def executing_def
proof (induction lanes arbitrary: m)
  case Nil
  then show ?case by (simp add: store_run_def)
next
  case (Cons lane lanes)
  show ?case
  proof (cases "has_lane exec lane")
    case False
    with Cons show ?thesis by simp
  next
    case True
    let ?v = "read_reg (registers w) lane (src1 i)"
    obtain m1 where st: "port_store port (memory_space (opcode i)) (addresses lane) ?v lane m = (Inr (), m1)"
      and run: "access_lanes port i exec addresses lanes w m1 = (Inr u, w', m')"
      using Cons.prems True assms(1) by (auto simp: fail_def split: prod.splits sum.splits)
    have "fst (port_store port space (addresses l) v l m1) = fst (port_store port space (addresses l) v l m)"
      for space v l
      using store_store [of space "addresses l" v l "memory_space (opcode i)" "addresses lane" ?v lane m]
      by (simp add: st)
    with Cons.IH [OF run] True st show ?thesis by (simp add: store_run_def)
  qed
qed

lemma memory_access_store:
  assumes st: "is_store_opcode (opcode i)"
    and run: "memory_access port i exec w m = (Inr u, w', m')"
  defines "executing \<equiv> filter (has_lane exec) [0..<32]"
  shows "w' = w" and
    "loader port m' space a lane =
      (case find (\<lambda>l. space = memory_space (opcode i) \<and> lane_address i (lane_view (registers w) l) = a)
          (rev executing) of
         Some l \<Rightarrow> Inr (read_reg (registers w) l (src1 i))
       | None \<Rightarrow> loader port m space a lane)"
proof -
  define m1 where "m1 = (if exec \<noteq> 0 then port_on_warp_access port (memory_space (opcode i))
      (is_store_opcode (opcode i)) (lane_addresses i exec (registers w)) exec m else m)"
  define addresses where "addresses = lane_addresses i exec (registers w)"
  have run1: "access_lanes port i exec addresses [0..<32] w m1 = (Inr u, w', m')"
    using run by (simp add: memory_access_def m1_def addresses_def Let_def warp_size_def)
  show "w' = w" using st run1 by (rule access_lanes_store)
  have ld: "loader port m1 = loader port m" by (simp add: m1_def)
  have same: "find (\<lambda>l. space = memory_space (opcode i) \<and> addresses l = a) (rev executing) =
      find (\<lambda>l. space = memory_space (opcode i) \<and> lane_address i (lane_view (registers w) l) = a) (rev executing)"
    by (rule find_cong) (auto simp: executing_def addresses_def lane_addresses_eq)
  show "loader port m' space a lane =
      (case find (\<lambda>l. space = memory_space (opcode i) \<and> lane_address i (lane_view (registers w) l) = a)
          (rev executing) of
         Some l \<Rightarrow> Inr (read_reg (registers w) l (src1 i))
       | None \<Rightarrow> loader port m space a lane)"
  proof -
    note stores = access_lanes_store_run [OF st run1, folded executing_def]
    have "fst (port_load port space a lane m1) = fst (port_load port space a lane m)"
      using fun_cong [OF fun_cong [OF fun_cong [OF ld]]] by (simp add: loader_def)
    with store_run_load [OF conjunct2 [OF stores], of space a lane] show ?thesis
      by (simp only: conjunct1 [OF stores] loader_def same)
  qed
qed

text \<open>A memory instruction that fails names the first executing lane whose access is refused.\<close>

lemma refused_hook [simp]:
  "refused port i w (port_on_warp_access port space is_store addresses exec m) = refused port i w m"
  by (simp add: refused_def fun_eq_iff load_hook store_hook)

lemma refused_store:
  assumes "is_store_opcode (opcode i)"
  shows "refused port i w (snd (port_store port space a v lane m)) = refused port i w m"
  using assms by (simp add: refused_def fun_eq_iff store_store)

lemma refused_write: "\<not> is_store_opcode (opcode i) \<Longrightarrow> refused port i w m = refused port i w' m"
  by (simp add: refused_def fun_eq_iff)

lemma access_lanes_first_fault:
  assumes "access_lanes port i exec addresses lanes w m = (Inl f, w', m')"
  shows "\<exists>before l after. lanes = before @ l # after \<and> has_lane exec l \<and> refused port i w m l (addresses l) \<and>
    (\<forall>k \<in> set before. has_lane exec k \<longrightarrow> \<not> refused port i w m k (addresses k)) \<and>
    fault_lane f = of_nat l \<and> fault_address f = addresses l \<and>
    fault_pc f = wpc w \<and> fault_warp f = state_warp_id w"
    (is "\<exists>before l after. ?P lanes w m before l after")
  using assms
proof (induction lanes arbitrary: w m)
  case Nil
  then show ?case by simp
next
  case (Cons lane lanes)
  have extend: "\<exists>before l after. ?P (lane # lanes) w m before l after"
    if "\<not> has_lane exec lane \<or> \<not> refused port i w m lane (addresses lane)"
      and "\<exists>before l after. ?P lanes w m before l after"
  proof -
    from that(2) obtain before l after where P: "?P lanes w m before l after" by blast
    with that(1) have "?P (lane # lanes) w m (lane # before) l after" by auto
    then show ?thesis by blast
  qed
  show ?case
  proof (cases "has_lane exec lane")
    case False
    with Cons extend show ?thesis by simp
  next
    case True
    have here: "\<exists>before l after. ?P (lane # lanes) w m before l after"
      if "refused port i w m lane (addresses lane)" "f = make_fault w msg lane (addresses lane)" for msg
      using that True by (intro exI [of _ "[]"]) (auto simp: make_fault_def)
    show ?thesis
    proof (cases "is_store_opcode (opcode i)")
      case st: True
      let ?v = "read_reg (registers w) lane (src1 i)"
      obtain r m1 where ps: "port_store port (memory_space (opcode i)) (addresses lane) ?v lane m = (r, m1)"
        by fastforce
      show ?thesis
      proof (cases r)
        case (Inl e)
        with Cons.prems True st ps show ?thesis
          by (intro here [of "access_message e"]) (auto simp: refused_def fail_def)
      next
        case (Inr u)
        with Cons.prems True st ps have "access_lanes port i exec addresses lanes w m1 = (Inl f, w', m')" by simp
        from Cons.IH [OF this] have "\<exists>before l after. ?P lanes w m1 before l after" .
        moreover have "refused port i w m1 = refused port i w m"
          using refused_store [OF st, of w "memory_space (opcode i)" "addresses lane" ?v lane m] by (simp add: ps)
        ultimately show ?thesis using ps Inr st by (intro extend) (auto simp: refused_def)
      qed
    next
      case ld: False
      obtain r where pl: "port_load port (memory_space (opcode i)) (addresses lane) lane m = (r, m)"
        using load_frame [of "memory_space (opcode i)" "addresses lane" lane m] by (metis prod.collapse)
      show ?thesis
      proof (cases r)
        case (Inl e)
        with Cons.prems True ld pl show ?thesis
          by (intro here [of "access_message e"]) (auto simp: refused_def fail_def)
      next
        case (Inr v)
        let ?w = "w\<lparr>registers := write_reg lane (dst i) v (registers w)\<rparr>"
        have "access_lanes port i exec addresses lanes ?w m = (Inl f, w', m')"
          using Inr Cons.prems True ld pl by simp
        from Cons.IH [OF this] have "\<exists>before l after. ?P lanes w m before l after"
          using refused_write [OF ld, of ?w m w] by simp
        then show ?thesis using pl Inr ld by (intro extend) (auto simp: refused_def)
      qed
    qed
  qed
qed

lemma memory_access_first_fault:
  assumes "memory_access port i exec w m = (Inl f, w', m')"
  shows "\<exists>l < 32. has_lane exec l \<and> refused port i w m l (lane_addresses i exec (registers w) l) \<and>
    (\<forall>k < l. has_lane exec k \<longrightarrow> \<not> refused port i w m k (lane_addresses i exec (registers w) k)) \<and>
    fault_lane f = of_nat l \<and> fault_address f = lane_addresses i exec (registers w) l \<and>
    fault_pc f = wpc w \<and> fault_warp f = state_warp_id w"
proof -
  define addresses where "addresses = lane_addresses i exec (registers w)"
  define m1 where "m1 = (if exec \<noteq> 0 then port_on_warp_access port (memory_space (opcode i))
      (is_store_opcode (opcode i)) addresses exec m else m)"
  have "access_lanes port i exec addresses [0..<32] w m1 = (Inl f, w', m')"
    using assms unfolding memory_access_def m1_def addresses_def Let_def warp_size_def .
  from access_lanes_first_fault [OF this] obtain before l after where
    lanes: "[0..<32] = before @ l # after" and l: "has_lane exec l" "refused port i w m1 l (addresses l)"
    "\<forall>k \<in> set before. has_lane exec k \<longrightarrow> \<not> refused port i w m1 k (addresses k)"
    "fault_lane f = of_nat l" "fault_address f = addresses l" "fault_pc f = wpc w" "fault_warp f = state_warp_id w"
    by blast
  have "l = length before" "length before < 32"
    using arg_cong [OF lanes, of "\<lambda>xs. xs ! length before"] arg_cong [OF lanes, of length] by simp_all
  moreover have "before = [0..<length before]"
    using arg_cong [OF lanes, of "take (length before)"] \<open>length before < 32\<close> by simp
  ultimately have "l < 32" "set before = {..<l}" by (simp, metis atLeast0LessThan set_upt)
  moreover have "refused port i w m1 = refused port i w m" by (simp add: m1_def)
  ultimately show ?thesis using l by (auto simp: addresses_def)
qed

end

section \<open>Properties\<close>

text \<open>C1: a scheduling step of a warp advances the lanes of one path: all of them stand at the issued
  instruction, each takes the step of the lane machine there, and every other lane keeps its
  position and its cells. Resolving the divergence stack moves no lane.\<close>

theorem warp_step_simulates_lanes:
  assumes "warp_inv w" and "step env block_port program w m = (Inr oc, w', m')" and "oc \<noteq> Finished"
  shows "\<exists>pc issued. issued \<noteq> 0 \<and> unat pc < length program \<and>
    (\<forall>l < 32. has_lane issued l \<longrightarrow> lane_pc (lane_of (length program) w l) = Some pc) \<and>
    (\<forall>l < 32. lane_of (length program) w' l =
      (if has_lane issued l
       then lane_step env (loader block_port m) program (lane_ctx w) l (lane_of (length program) w l)
       else lane_of (length program) w l))"
proof -
  define ws where "ws = snd (settle (length program) w)"
  have more: "fst (settle (length program) w)"
    using assms(2,3) by (auto simp: step_def split: prod.splits if_splits)
  have "active ws \<noteq> 0" "unat (wpc ws) < length program"
    using settle_True [OF more] by (simp_all add: ws_def)
  moreover have "\<forall>l < 32. has_lane (active ws) l \<longrightarrow> lane_pc (lane_of (length program) w l) = Some (wpc ws)"
    using settled_lane_pc [OF assms(1) more] by (simp add: ws_def)
  ultimately show ?thesis
    using block.step_lanes [OF assms] by (intro exI [of _ "wpc ws"] exI [of _ "active ws"]) (simp add: ws_def)
qed

definition exit_instruction :: Instruction where
  "exit_instruction = default_instruction\<lparr>opcode := Exit\<rparr>"

lemma exit_step:
  assumes "lanes \<noteq> 0" "program = [exit_instruction]"
  shows "step env port program (new_warp wid lanes ctx) m =
    (Inr Issued, (retire lanes (new_warp wid lanes ctx))\<lparr>last_exec := lanes, last_opcode := Exit, wpc := 1\<rparr>, m)"
proof -
  have "resolve_stack (new_warp wid lanes ctx) = (True, new_warp wid lanes ctx)"
    using assms by (subst resolve_stack.simps) (simp add: new_warp_def)
  then have "settle 1 (new_warp wid lanes ctx) = (True, new_warp wid lanes ctx)"
    by (subst settle.simps) (simp add: new_warp_def)
  then show ?thesis
    using assms
    by (simp add: step_def issue_def exit_instruction_def default_instruction_def no_guard_def
        exec_mask_def new_warp_def retire_def Let_def)
qed

theorem warp_step_simulates_lanes_witness:
  "\<exists>pc issued. issued \<noteq> 0 \<and> unat pc < length [exit_instruction] \<and>
    (\<forall>l < 32. has_lane issued l \<longrightarrow>
      lane_pc (lane_of (length [exit_instruction]) (new_warp 0 full_mask example_context) l) = Some pc)"
  using warp_step_simulates_lanes [OF new_warp_inv exit_step [of full_mask "[exit_instruction]"
      example_fp_env block_port 0 example_context "block_memory [] 0 []"]]
  by (auto simp: full_mask_def)

text \<open>C25: when two lanes of one store instruction write the same address, the higher lane wins: after
  the instruction, memory holds the value of the last executing lane with that address, and what it
  held before everywhere else.\<close>

theorem store_lane_order:
  assumes "is_store_opcode (opcode i)" and "memory_access block_port i exec w m = (Inr u, w', m')"
  shows "fst (block_load space a lane m') =
    (case find (\<lambda>l. space = memory_space (opcode i) \<and> read_reg (registers w) l (src0 i) + imm i = a)
        (rev (filter (has_lane exec) [0..<32])) of
       Some l \<Rightarrow> Inr (read_reg (registers w) l (src1 i))
     | None \<Rightarrow> fst (block_load space a lane m))"
proof -
  have "lane_address i (lane_view (registers w) l) = read_reg (registers w) l (src0 i) + imm i" for l
    using store_space [OF assms(1)] by (simp add: lane_address_def lane_view_def)
  with block.memory_access_store(2) [OF assms, of space a lane] show ?thesis
    by (simp add: loader_def block_port_def cong: option.case_cong)
qed

definition store_instruction :: Instruction where
  "store_instruction = default_instruction\<lparr>opcode := StShared, imm_flag := True, src1 := 1\<rparr>"

definition two_lane_warp :: Warp where
  "two_lane_warp = (new_warp 0 3 example_context)
     \<lparr>registers := write_reg 1 1 22 (write_reg 0 1 11 empty_register_file)\<rparr>"

lemma filter_two_lanes: "filter (has_lane 3) [0..<32] = [0, 1]"
proof -
  have "[0..<32] = [0, 1] @ [2..<32]" by (simp add: upt_rec)
  moreover have "filter (has_lane 3) [2..<32] = []"
    by (auto simp: filter_empty_conv has_lane_bit)
  moreover have "has_lane 3 0" "has_lane 3 1" by (simp_all add: has_lane_def lane_bit_def)
  ultimately show ?thesis by simp
qed

theorem store_lane_order_witness:
  "\<exists>w' m'. memory_access block_port store_instruction 3 two_lane_warp (block_memory [] 4 []) = (Inr (), w', m') \<and>
     fst (block_load Shared 0 0 m') = Inr 22"
proof -
  have "fst (memory_access block_port store_instruction 3 two_lane_warp (block_memory [] 4 [])) = Inr ()"
  proof (rule ccontr)
    assume "fst (memory_access block_port store_instruction 3 two_lane_warp (block_memory [] 4 [])) \<noteq> Inr ()"
    then obtain f w' m' where
      "memory_access block_port store_instruction 3 two_lane_warp (block_memory [] 4 []) = (Inl f, w', m')"
      by (metis prod.collapse result_unit_cases)
    from block.memory_access_first_fault [OF this] obtain l where
      "has_lane 3 l" "refused block_port store_instruction two_lane_warp (block_memory [] 4 []) l
        (lane_addresses store_instruction 3 (registers two_lane_warp) l)" by blast
    then show False
      by (auto simp: refused_def store_instruction_def default_instruction_def is_store_opcode_def
          lane_addresses_def two_lane_warp_def empty_register_file_def read_reg_def write_reg_def
          block_port_def fst_block_store block_memory_def byte_memory_def check_def
          simp del: block_store.simps split: if_splits)
  qed
  then obtain w' m' where run:
    "memory_access block_port store_instruction 3 two_lane_warp (block_memory [] 4 []) = (Inr (), w', m')"
    by (metis prod.collapse)
  have "is_store_opcode (opcode store_instruction)"
    by (simp add: store_instruction_def default_instruction_def is_store_opcode_def)
  from store_lane_order [OF this run, of Shared 0 0] run show ?thesis
    by (simp add: filter_two_lanes store_instruction_def default_instruction_def two_lane_warp_def
        new_warp_def empty_register_file_def read_reg_def write_reg_def)
qed

text \<open>C26: a memory instruction that fails reports the first executing lane whose access is refused, with
  the address of that lane, the program counter and the warp; the accesses of the lanes before it
  were accepted.\<close>

theorem fault_names_first_lane:
  assumes "memory_access block_port i exec w m = (Inl f, w', m')"
  shows "\<exists>l < 32. has_lane exec l \<and> refused block_port i w m l (lane_addresses i exec (registers w) l) \<and>
    (\<forall>k < l. has_lane exec k \<longrightarrow> \<not> refused block_port i w m k (lane_addresses i exec (registers w) k)) \<and>
    fault_lane f = of_nat l \<and> fault_address f = lane_addresses i exec (registers w) l \<and>
    fault_pc f = wpc w \<and> fault_warp f = state_warp_id w"
  using assms by (rule block.memory_access_first_fault)

definition param_instruction :: Instruction where
  "param_instruction = default_instruction\<lparr>opcode := LdParam, imm_flag := True, imm := 2\<rparr>"

theorem fault_names_first_lane_witness:
  "\<exists>f. memory_access block_port param_instruction 3 two_lane_warp (block_memory [] 0 [7, 8]) =
      (Inl f, two_lane_warp, block_memory [] 0 [7, 8]) \<and>
    fault_lane f = 0 \<and> fault_address f = 2 \<and> fault_pc f = 0"
proof -
  have lanes: "[0..<32] = 0 # [1..<32]" by (simp add: upt_rec)
  have here: "has_lane 3 0" by (simp add: has_lane_def lane_bit_def)
  obtain f where run: "memory_access block_port param_instruction 3 two_lane_warp (block_memory [] 0 [7, 8]) =
      (Inl f, two_lane_warp, block_memory [] 0 [7, 8])"
    unfolding memory_access_def warp_size_def lanes
    by (simp add: here param_instruction_def default_instruction_def is_store_opcode_def lane_addresses_def
        block_port_def on_warp_access_def block_memory_def fail_def)
  from fault_names_first_lane [OF run] obtain l where l: "l < 32"
    "\<forall>k < l. has_lane 3 k \<longrightarrow> \<not> refused block_port param_instruction two_lane_warp (block_memory [] 0 [7, 8]) k
      (lane_addresses param_instruction 3 (registers two_lane_warp) k)"
    "fault_lane f = of_nat l" "fault_address f = lane_addresses param_instruction 3 (registers two_lane_warp) l"
    "has_lane 3 l" "fault_pc f = wpc two_lane_warp" by blast
  have "refused block_port param_instruction two_lane_warp (block_memory [] 0 [7, 8]) 0
      (lane_addresses param_instruction 3 (registers two_lane_warp) 0)"
    by (simp add: refused_def here param_instruction_def default_instruction_def is_store_opcode_def
        lane_addresses_def block_port_def block_memory_def)
  with l(2) here have "l = 0" by blast
  with l run show ?thesis
    by (simp add: here lane_addresses_def param_instruction_def default_instruction_def two_lane_warp_def new_warp_def)
qed

end
