(* ===== verification/Warp_Runs.thy ===== *)
theory Warp_Runs
  imports Warp_Refinement
begin

text \<open>
  Runs of one warp, from its start to the retirement of its lanes. For programs without stores
  and barriers the lanes are independent: a run that finishes has run every lane on its own
  path to its end, it finishes whenever every lane does, and neither depends on the
  reconvergence points in the program (section 8.4 of \<^verbatim>\<open>docs/wisa-spec.md\<close>).
\<close>

definition lane_faults :: "Loader \<Rightarrow> Instruction list \<Rightarrow> nat \<Rightarrow> LaneState \<Rightarrow> bool" where
  "lane_faults ld program l L =
    (case lane_pc L of
       None \<Rightarrow> False
     | Some pc \<Rightarrow>
         let i = program ! unat pc in
         is_memory_opcode (opcode i) \<and> \<not> is_store_opcode (opcode i) \<and> lane_guard i (lane_cells L) \<and>
         \<not> has_value (ld (memory_space (opcode i)) (lane_address i (lane_cells L)) l))"

definition quiet :: "Instruction list \<Rightarrow> bool" where
  "quiet program \<longleftrightarrow>
    (\<forall>i \<in> set program. \<not> is_store_opcode (opcode i) \<and> opcode i \<noteq> BarSync)"

section \<open>Runs of one warp\<close>

text \<open>A warp stepped on its own until it stops: at most \<open>fuel\<close> steps.\<close>

fun run_warp ::
    "fp_env \<Rightarrow> 'm MemoryPort \<Rightarrow> Instruction list \<Rightarrow> nat \<Rightarrow> Warp \<Rightarrow> 'm \<Rightarrow>
     (StepOutcome, Fault) result option \<times> Warp \<times> 'm" where
  "run_warp env port program 0 w m = (None, w, m)"
| "run_warp env port program (Suc fuel) w m =
    (case step env port program w m of
       (Inr Issued, w1, m1) \<Rightarrow> run_warp env port program fuel w1 m1
     | (r, w1, m1) \<Rightarrow> (Some r, w1, m1))"

lemma lane_step_retired [simp]: "lane_pc L = None \<Longrightarrow> lane_step env ld program ctx l L = L"
  by (simp add: lane_step_def)

lemma lane_run_retired:
  "lane_pc L = None \<Longrightarrow> (lane_step env ld program ctx l ^^ k) L = L"
  by (induction k) simp_all

lemma lane_run_fixed:
  assumes "lane_pc ((lane_step env ld program ctx l ^^ k) L) = None" "k \<le> k'"
  shows "(lane_step env ld program ctx l ^^ k') L = (lane_step env ld program ctx l ^^ k) L"
proof -
  have "(lane_step env ld program ctx l ^^ ((k' - k) + k)) L =
      (lane_step env ld program ctx l ^^ k) L"
    unfolding funpow_add o_apply by (rule lane_run_retired) (rule assms)
  with assms(2) show ?thesis by simp
qed

section \<open>One step of a quiet program\<close>

lemma step_keeps_ctx:
  "step env port program w m = (r, w', m') \<Longrightarrow> lane_ctx w' = lane_ctx w"
  by (auto simp: step_def issue_def branch_def Let_def fail_def frame_simps dest!: memory_access_frame
      split: prod.splits if_splits sum.splits)
     (metis frame_simps snd_conv)+

context memory_port begin

lemma quiet_instruction:
  assumes "quiet program" "unat pc < length program"
  shows "\<not> is_store_opcode (opcode (program ! unat pc))" "opcode (program ! unat pc) \<noteq> BarSync"
  using assms by (auto simp: quiet_def)

lemma access_lanes_load_memory:
  "\<not> is_store_opcode (opcode i) \<Longrightarrow> access_lanes port i exec addresses lanes w m = (r, w', m') \<Longrightarrow> m' = m"
proof (induction lanes arbitrary: w)
  case (Cons lane lanes)
  have "snd (port_load port (memory_space (opcode i)) (addresses lane) lane m) = m"
    by (rule load_frame)
  with Cons show ?case by (auto split: if_splits prod.splits sum.splits)
qed simp

lemma memory_access_loader:
  assumes "\<not> is_store_opcode (opcode i)" "memory_access port i exec w m = (r, w', m')"
  shows "loader port m' = loader port m"
  using assms(2)
  by (auto simp: memory_access_def Let_def split: if_splits dest!: access_lanes_load_memory [OF assms(1)])

lemma issue_loader:
  assumes "\<not> is_store_opcode (opcode i)" "issue env port i w m = (r, w', m')"
  shows "loader port m' = loader port m"
  using assms memory_access_loader [OF assms(1)]
  by (auto simp: issue_def Let_def fail_def split: if_splits prod.splits sum.splits)

lemma step_loader:
  assumes "quiet program" "step env port program w m = (r, w', m')"
  shows "loader port m' = loader port m"
  using assms settle_True [of "length program" w] quiet_instruction(1) [OF assms(1)] issue_loader
  by (fastforce simp: step_def split: prod.splits if_splits)

lemma quiet_issue_outcome:
  assumes "opcode i \<noteq> BarSync"
  shows "fst (issue env port i w m) = Inr Issued \<or>
    (is_memory_opcode (opcode i) \<and>
     (\<exists>f w1 m1. memory_access port i (exec_mask i w)
        (w\<lparr>last_exec := exec_mask i w, last_opcode := opcode i\<rparr>) m = (Inl f, w1, m1)))"
  using assms by (auto simp: issue_def Let_def fail_def split: prod.split sum.split)

lemma lane_faults_position:
  assumes "unat (wpc w) < n" "has_lane (active w) l" "length program = n"
  shows "lane_faults ld program l (lane_of n w l) \<longleftrightarrow>
    (let i = program ! unat (wpc w) in
     is_memory_opcode (opcode i) \<and> \<not> is_store_opcode (opcode i) \<and>
     lane_guard i (lane_view (registers w) l) \<and>
     \<not> has_value (ld (memory_space (opcode i)) (lane_address i (lane_view (registers w) l)) l))"
  using assms by (simp add: lane_faults_def lane_of_def position_def)

lemma no_fault_step:
  assumes q: "quiet program" and inv: "warp_inv w"
    and ok: "\<forall>l < 32. \<not> lane_faults (loader port m) program l (lane_of (length program) w l)"
  shows "fst (step env port program w m) = Inr Finished \<or> fst (step env port program w m) = Inr Issued"
proof (cases "fst (settle (length program) w)")
  case False
  then show ?thesis by (simp add: step_def case_prod_unfold)
next
  case True
  define ws where "ws = snd (settle (length program) w)"
  define i where "i = program ! unat (wpc ws)"
  have pc: "unat (wpc ws) < length program" using settle_True [OF True] by (simp add: ws_def)
  have ns: "\<not> is_store_opcode (opcode i)" "opcode i \<noteq> BarSync"
    using quiet_instruction [OF q pc] by (simp_all add: i_def)
  have "False" if "is_memory_opcode (opcode i)" and
    ma: "memory_access port i (exec_mask i ws) (ws\<lparr>last_exec := exec_mask i ws, last_opcode := opcode i\<rparr>) m
      = (Inl f, w1, m1)" for f w1 m1
  proof -
    from memory_access_fault [OF ns(1) ma] obtain l e where l: "l < 32" "has_lane (exec_mask i ws) l"
      "loader port m (memory_space (opcode i)) (lane_address i (lane_view (registers ws) l)) l = Inl e"
      by auto
    then have "has_lane (active ws) l" "lane_guard i (lane_view (registers ws) l)"
      by (simp_all add: exec_mask_guard)
    then have "lane_faults (loader port m) program l (lane_of (length program) ws l)"
      using l pc that ns by (simp add: lane_faults_position i_def Let_def)
    with ok l(1) show False by (simp add: ws_def lane_of_settle [OF inv l(1)])
  qed
  then have "fst (issue env port i ws m) = Inr Issued"
    using quiet_issue_outcome [OF ns(2)] by blast
  with True show ?thesis by (simp add: step_def ws_def i_def case_prod_unfold Let_def)
qed

lemma issued_no_fault:
  assumes q: "quiet program" and inv: "warp_inv w"
    and run: "step env port program w m = (Inr Issued, w', m')" and l: "l < 32"
    and act: "has_lane (active (snd (settle (length program) w))) l"
  shows "\<not> lane_faults (loader port m) program l (lane_of (length program) w l)"
proof
  assume f: "lane_faults (loader port m) program l (lane_of (length program) w l)"
  define ws where "ws = snd (settle (length program) w)"
  define i where "i = program ! unat (wpc ws)"
  have more: "fst (settle (length program) w)"
    and iss: "issue env port i ws m = (Inr Issued, w', m')"
    using run by (auto simp: step_def ws_def i_def split: prod.splits if_splits)
  have pc: "unat (wpc ws) < length program" using settle_True [OF more] by (simp add: ws_def)
  have "lane_faults (loader port m) program l (lane_of (length program) ws l)"
    using f by (simp add: ws_def lane_of_settle [OF inv l])
  then have i: "is_memory_opcode (opcode i)" "\<not> is_store_opcode (opcode i)"
    "lane_guard i (lane_view (registers ws) l)"
    "\<not> has_value (loader port m (memory_space (opcode i)) (lane_address i (lane_view (registers ws) l)) l)"
    using pc act by (simp_all add: lane_faults_position ws_def i_def Let_def)
  define w0 where "w0 = ws\<lparr>last_exec := exec_mask i ws, last_opcode := opcode i\<rparr>"
  define m1 where "m1 = (if exec_mask i ws \<noteq> 0 then port_on_warp_access port (memory_space (opcode i))
      (is_store_opcode (opcode i)) (lane_addresses i (exec_mask i ws) (registers w0)) (exec_mask i ws) m else m)"
  have "opcode i \<noteq> Bra" "opcode i \<noteq> Exit" "opcode i \<noteq> BarSync" using i(1) by auto
  with iss i(1) obtain u w1 m2 where "memory_access port i (exec_mask i ws) w0 m = (Inr u, w1, m2)"
    by (auto simp: issue_def Let_def w0_def fail_def split: prod.splits sum.splits)
  then have run1: "access_lanes port i (exec_mask i ws) (lane_addresses i (exec_mask i ws) (registers w0))
      [0..<warp_size] w0 m1 = (Inr u, w1, m2)"
    by (simp add: memory_access_def m1_def Let_def)
  have ld: "loader port m1 = loader port m" by (simp add: m1_def)
  have "has_lane (exec_mask i ws) l"
    using act i(3) l by (simp add: exec_mask_guard ws_def)
  with access_lanes_load [OF i(2) distinct_upt run1, of l] i(4) l show False
    by (simp add: warp_size_def loaded_def lane_addresses_eq ld w0_def split: sum.splits)
qed

section \<open>A run that finishes has run every lane to its end\<close>

lemma run_warp_Suc:
  "run_warp env port program (Suc fuel) w m =
    (if fst (step env port program w m) = Inr Issued
     then run_warp env port program fuel (fst (snd (step env port program w m))) (snd (snd (step env port program w m)))
     else (Some (fst (step env port program w m)), snd (step env port program w m)))"
  by (auto split: prod.splits sum.splits StepOutcome.splits)

lemma step_inv': "warp_inv w \<Longrightarrow> step env port program w m = (r, w', m') \<Longrightarrow> warp_inv w'"
  using step_inv [of w env port program m] by simp

lemma run_warp_lanes:
  assumes "quiet program" "warp_inv w"
    and "run_warp env port program fuel w m = (Some (Inr Finished), w', m')"
  shows "live w' = 0 \<and> loader port m' = loader port m \<and>
    (\<forall>l < 32. lane_pc (lane_of (length program) w' l) = None \<and>
      (\<exists>k \<le> fuel. lane_of (length program) w' l =
        (lane_step env (loader port m) program (lane_ctx w) l ^^ k) (lane_of (length program) w l)))"
  using assms(2,3)
proof (induction fuel arbitrary: w m)
  case 0
  then show ?case by simp
next
  case (Suc fuel)
  obtain r w1 m1 where st: "step env port program w m = (r, w1, m1)" by (cases rule: prod_cases3)
  show ?case
  proof (cases "r = Inr Issued")
    case False
    with Suc.prems st have r: "r = Inr Finished" "w1 = w'" "m1 = m'"
      by (auto simp: run_warp_Suc simp del: run_warp.simps)
    with st have fin: "step env port program w m = (Inr Finished, w', m')" by simp
    have "lane_pc (lane_of (length program) w' l) = None \<and>
        (\<exists>k \<le> Suc fuel. lane_of (length program) w' l =
          (lane_step env (loader port m) program (lane_ctx w) l ^^ k) (lane_of (length program) w l))"
      if "l < 32" for l
      using step_Finished(3,4) [OF Suc.prems(1) fin that] by (auto intro: exI [of _ 0])
    then show ?thesis
      using step_Finished(1,2) [OF Suc.prems(1) fin] by simp
  next
    case True
    with st have iss: "step env port program w m = (Inr Issued, w1, m1)" by simp
    have run: "run_warp env port program fuel w1 m1 = (Some (Inr Finished), w', m')"
      using Suc.prems(2) by (simp add: run_warp_Suc iss del: run_warp.simps)
    have ld: "loader port m1 = loader port m" using assms(1) iss by (rule step_loader)
    have ctx: "lane_ctx w1 = lane_ctx w" using iss by (rule step_keeps_ctx)
    note IH = Suc.IH [OF step_inv' [OF Suc.prems(1) iss] run, unfolded ld ctx]
    have "\<exists>k \<le> Suc fuel. lane_of (length program) w' l =
          (lane_step env (loader port m) program (lane_ctx w) l ^^ k) (lane_of (length program) w l)"
      if l: "l < 32" for l
    proof -
      from IH l obtain k where k: "k \<le> fuel" "lane_of (length program) w' l =
          (lane_step env (loader port m) program (lane_ctx w) l ^^ k) (lane_of (length program) w1 l)"
        by blast
      show ?thesis
      proof (cases "has_lane (active (snd (settle (length program) w))) l")
        case True
        then have "lane_of (length program) w1 l =
            lane_step env (loader port m) program (lane_ctx w) l (lane_of (length program) w l)"
          using step_lanes [OF Suc.prems(1) iss _ l] by simp
        with k show ?thesis
          by (intro exI [of _ "Suc k"]) (simp add: funpow_swap1)
      next
        case False
        then have "lane_of (length program) w1 l = lane_of (length program) w l"
          using step_lanes [OF Suc.prems(1) iss _ l] by simp
        with k show ?thesis by (intro exI [of _ k]) simp
      qed
    qed
    with IH show ?thesis by blast
  qed
qed

lemma run_warp_no_faults:
  assumes "quiet program" "warp_inv w"
    and "run_warp env port program fuel w m = (Some (Inr Finished), w', m')" and l: "l < 32"
  shows "\<not> lane_faults (loader port m) program l
    ((lane_step env (loader port m) program (lane_ctx w) l ^^ k) (lane_of (length program) w l))"
  using assms(2,3)
proof (induction fuel arbitrary: w m k)
  case 0
  then show ?case by simp
next
  case (Suc fuel)
  obtain r w1 m1 where st: "step env port program w m = (r, w1, m1)" by (cases rule: prod_cases3)
  show ?case
  proof (cases "r = Inr Issued")
    case False
    with Suc.prems st have fin: "step env port program w m = (Inr Finished, w1, m1)"
      by (simp add: run_warp_Suc del: run_warp.simps)
    from step_Finished(4) [OF Suc.prems(1) fin l] show ?thesis
      by (simp add: lane_run_retired lane_faults_def)
  next
    case True
    with st have iss: "step env port program w m = (Inr Issued, w1, m1)" by simp
    have run: "run_warp env port program fuel w1 m1 = (Some (Inr Finished), w', m')"
      using Suc.prems(2) by (simp add: run_warp_Suc iss del: run_warp.simps)
    have ld: "loader port m1 = loader port m" using assms(1) iss by (rule step_loader)
    have ctx: "lane_ctx w1 = lane_ctx w" using iss by (rule step_keeps_ctx)
    note IH = Suc.IH [OF step_inv' [OF Suc.prems(1) iss] run, unfolded ld ctx]
    note step = step_lanes [OF Suc.prems(1) iss _ l]
    show ?thesis
    proof (cases "has_lane (active (snd (settle (length program) w))) l")
      case False
      with step IH show ?thesis by simp
    next
      case True
      show ?thesis
      proof (cases k)
        case 0
        with issued_no_fault [OF assms(1) Suc.prems(1) iss l True] show ?thesis by simp
      next
        case (Suc j)
        with step True IH [of j] show ?thesis by (simp add: funpow_swap1)
      qed
    qed
  qed
qed

section \<open>A run finishes when every lane does\<close>

text \<open>Every issued instruction advances at least one lane, so the lanes' own path lengths bound
  the length of the run.\<close>

lemma run_warp_finishes:
  assumes "quiet program" "warp_inv w"
    and "\<forall>l < 32. lane_pc ((lane_step env (loader port m) program (lane_ctx w) l ^^ K l)
        (lane_of (length program) w l)) = None"
    and "\<forall>l < 32. \<forall>k. \<not> lane_faults (loader port m) program l
        ((lane_step env (loader port m) program (lane_ctx w) l ^^ k) (lane_of (length program) w l))"
    and "(\<Sum>l < 32. K l) < fuel"
  shows "fst (run_warp env port program fuel w m) = Some (Inr Finished)"
  using assms(2-5)
proof (induction fuel arbitrary: w m K)
  case 0
  then show ?case by simp
next
  case (Suc fuel)
  let ?f = "\<lambda>l. lane_step env (loader port m) program (lane_ctx w) l"
  obtain r w1 m1 where st: "step env port program w m = (r, w1, m1)" by (cases rule: prod_cases3)
  have "\<not> lane_faults (loader port m) program l (lane_of (length program) w l)" if "l < 32" for l
    using Suc.prems(3) [rule_format, OF that, of 0] by simp
  then have "r = Inr Finished \<or> r = Inr Issued"
    using no_fault_step [OF assms(1) Suc.prems(1), of m env] st by simp
  then show ?case
  proof
    assume "r = Inr Finished"
    then show ?thesis by (simp add: st)
  next
    assume "r = Inr Issued"
    with st have iss: "step env port program w m = (Inr Issued, w1, m1)" by simp
    define act where "act l = has_lane (active (snd (settle (length program) w))) l" for l
    define K' where "K' l = (if act l then K l - 1 else K l)" for l
    have ld: "loader port m1 = loader port m" using assms(1) iss by (rule step_loader)
    have ctx: "lane_ctx w1 = lane_ctx w" using iss by (rule step_keeps_ctx)
    have more: "fst (settle (length program) w)"
      using iss by (auto simp: step_def split: prod.splits if_splits)
    have lane: "lane_of (length program) w1 l =
        (if act l then ?f l (lane_of (length program) w l) else lane_of (length program) w l)"
      if "l < 32" for l
      using step_lanes [OF Suc.prems(1) iss _ that] by (simp add: act_def)
    have pos: "0 < K l" if "l < 32" "act l" for l
    proof (rule ccontr)
      assume "\<not> 0 < K l"
      with Suc.prems(2) [rule_format, OF that(1)]
      have "lane_pc (lane_of (length program) w l) = None" by simp
      moreover have "lane_of (length program) w l = lane_of (length program) (snd (settle (length program) w)) l"
        using lane_of_settle [OF Suc.prems(1) that(1)] by simp
      ultimately show False
        using settle_True [OF more] that(2) by (simp add: lane_of_def position_def act_def)
    qed
    have run': "(?f l ^^ k) (lane_of (length program) w1 l) =
        (?f l ^^ (if act l then Suc k else k)) (lane_of (length program) w l)" if "l < 32" for l k
      using lane [OF that] by (simp add: funpow_swap1)
    have "fst (run_warp env port program fuel w1 m1) = Some (Inr Finished)"
    proof (rule Suc.IH)
      show "warp_inv w1" using Suc.prems(1) iss by (rule step_inv')
      show "\<forall>l < 32. lane_pc ((lane_step env (loader port m1) program (lane_ctx w1) l ^^ K' l)
          (lane_of (length program) w1 l)) = None"
        using Suc.prems(2) pos by (simp add: ld ctx run' K'_def)
      show "\<forall>l < 32. \<forall>k. \<not> lane_faults (loader port m1) program l
          ((lane_step env (loader port m1) program (lane_ctx w1) l ^^ k) (lane_of (length program) w1 l))"
        using Suc.prems(3) by (simp add: ld ctx run')
      obtain l0 where l0: "l0 < 32" "act l0"
      proof -
        have "active (snd (settle (length program) w)) \<noteq> 0" using settle_True [OF more] by simp
        then obtain l where "l \<in> lanes_of (active (snd (settle (length program) w)))"
          using lanes_of_empty_iff by blast
        then show thesis using that [of l] by (simp add: lanes_of_def warp_size_def act_def)
      qed
      have "(\<Sum>l < 32. K' l) < (\<Sum>l < 32. K l)"
        using l0 pos [OF l0]
        by (intro sum_strict_mono_ex1) (auto simp: K'_def intro!: bexI [of _ l0])
      with Suc.prems(4) show "(\<Sum>l < 32. K' l) < fuel" by simp
    qed
    then show ?thesis by (simp add: run_warp_Suc iss del: run_warp.simps)
  qed
qed

end

section \<open>The reconvergence point is not observable\<close>

text \<open>Two instructions that differ at most in the reconvergence half of a branch immediate.\<close>

definition forget_reconvergence :: "Instruction \<Rightarrow> Instruction" where
  "forget_reconvergence i =
    (if opcode i = Bra then i\<lparr>imm := make_branch_imm (branch_target i) no_reconvergence\<rparr> else i)"

definition same_paths :: "Instruction list \<Rightarrow> Instruction list \<Rightarrow> bool" where
  "same_paths p q \<longleftrightarrow> List.map forget_reconvergence p = List.map forget_reconvergence q"

lemma forget_fields:
  assumes "forget_reconvergence i = forget_reconvergence j"
  shows "opcode i = opcode j" "guard i = guard j" "dst i = dst j" "src0 i = src0 j"
    "src1 i = src1 j" "imm_flag i = imm_flag j" "opcode i \<noteq> Bra \<Longrightarrow> i = j"
    "opcode i = Bra \<Longrightarrow> branch_target i = branch_target j"
proof -
  have f: "opcode (forget_reconvergence k) = opcode k" "guard (forget_reconvergence k) = guard k"
    "dst (forget_reconvergence k) = dst k" "src0 (forget_reconvergence k) = src0 k"
    "src1 (forget_reconvergence k) = src1 k" "imm_flag (forget_reconvergence k) = imm_flag k" for k
    by (simp_all add: forget_reconvergence_def)
  show op: "opcode i = opcode j" and "guard i = guard j" "dst i = dst j" "src0 i = src0 j"
    "src1 i = src1 j" "imm_flag i = imm_flag j"
    using assms f by metis+
  show "opcode i \<noteq> Bra \<Longrightarrow> i = j" using assms op by (simp add: forget_reconvergence_def)
  assume "opcode i = Bra"
  with op have "opcode j = Bra" by simp
  have "branch_target (forget_reconvergence k) = branch_target k" if "opcode k = Bra" for k
    using that by (simp add: forget_reconvergence_def)
  with assms \<open>opcode i = Bra\<close> \<open>opcode j = Bra\<close> show "branch_target i = branch_target j" by metis
qed

lemma same_paths_nth:
  assumes "same_paths p q"
  shows "length p = length q"
    and "k < length p \<Longrightarrow> forget_reconvergence (p ! k) = forget_reconvergence (q ! k)"
  using assms by (auto simp: same_paths_def dest: map_eq_imp_length_eq)
     (metis map_eq_imp_length_eq nth_map)

lemma same_paths_quiet:
  assumes "same_paths p q" "quiet p"
  shows "quiet q"
proof -
  have "\<not> is_store_opcode (opcode (q ! k)) \<and> opcode (q ! k) \<noteq> BarSync" if "k < length q" for k
  proof -
    have k: "k < length p" using that same_paths_nth(1) [OF assms(1)] by simp
    with assms(2) have "\<not> is_store_opcode (opcode (p ! k)) \<and> opcode (p ! k) \<noteq> BarSync"
      by (simp add: quiet_def)
    with forget_fields(1) [OF same_paths_nth(2) [OF assms(1) k]] show ?thesis by simp
  qed
  then show ?thesis unfolding quiet_def by (metis in_set_conv_nth)
qed

lemma in_program_same:
  assumes "same_paths p q" and L: "lane_pc L = in_program (length p) (lane_pc L)"
  shows "lane_step env ld p ctx l L = lane_step env ld q ctx l L"
proof (cases "lane_pc L")
  case None
  then show ?thesis by simp
next
  case (Some pc)
  with L have pc: "unat pc < length p" by (simp split: if_splits)
  let ?i = "p ! unat pc" and ?j = "q ! unat pc"
  have f: "forget_reconvergence ?i = forget_reconvergence ?j"
    using same_paths_nth(2) [OF assms(1) pc] .
  have len: "length q = length p" using same_paths_nth(1) [OF assms(1)] by simp
  show ?thesis
  proof (cases "opcode ?i = Bra")
    case False
    with forget_fields(7) [OF f] Some len show ?thesis by (simp add: lane_step_def)
  next
    case True
    then have "opcode ?j = Bra" using forget_fields(1) [OF f] by simp
    with True Some len forget_fields(2) [OF f] forget_fields(8) [OF f True] show ?thesis
      by (simp add: lane_step_def Let_def lane_guard_def lane_next_def lane_effect_def)
  qed
qed

lemma lane_run_in_program:
  assumes "lane_pc L = in_program (length p) (lane_pc L)"
  shows "lane_pc ((lane_step env ld p ctx l ^^ k) L) =
    in_program (length p) (lane_pc ((lane_step env ld p ctx l ^^ k) L))"
proof (induction k)
  case 0
  then show ?case using assms by simp
next
  case (Suc k)
  let ?L = "(lane_step env ld p ctx l ^^ k) L"
  have "lane_pc (lane_step env ld p ctx l ?L) = in_program (length p) (lane_pc (lane_step env ld p ctx l ?L))"
  proof (cases "lane_pc ?L")
    case None
    then show ?thesis by simp
  next
    case (Some pc)
    then show ?thesis by (simp add: lane_step_def Let_def)
  qed
  then show ?case by simp
qed

lemma lane_run_same_paths:
  assumes "same_paths p q" "lane_pc L = in_program (length p) (lane_pc L)"
  shows "(lane_step env ld p ctx l ^^ k) L = (lane_step env ld q ctx l ^^ k) L"
proof (induction k)
  case (Suc k)
  have "lane_step env ld p ctx l ((lane_step env ld p ctx l ^^ k) L) =
      lane_step env ld q ctx l ((lane_step env ld p ctx l ^^ k) L)"
    by (rule in_program_same [OF assms(1) lane_run_in_program [OF assms(2)]])
  with Suc show ?case by simp
qed simp

lemma lane_faults_same_paths:
  assumes "same_paths p q" "lane_pc L = in_program (length p) (lane_pc L)"
  shows "lane_faults ld p l L = lane_faults ld q l L"
proof (cases "lane_pc L")
  case None
  then show ?thesis by (simp add: lane_faults_def)
next
  case (Some pc)
  with assms(2) have pc: "unat pc < length p" by (simp split: if_splits)
  have f: "forget_reconvergence (p ! unat pc) = forget_reconvergence (q ! unat pc)"
    using same_paths_nth(2) [OF assms(1) pc] .
  then show ?thesis
    using forget_fields(1,7) [OF f] Some by (cases "opcode (p ! unat pc) = Bra") (auto simp: lane_faults_def Let_def)
qed

lemma lane_of_in_program: "lane_pc (lane_of n w l) = in_program n (lane_pc (lane_of n w l))"
  by (simp add: lane_of_def)

context memory_port begin

lemma run_warp_same_paths:
  assumes quiet: "quiet p" and same: "same_paths p q" and inv: "warp_inv w"
    and run: "run_warp env port p fuel w m = (Some (Inr Finished), w1, m1)"
  shows "\<exists>w2 m2. run_warp env port q (32 * fuel + 1) w m = (Some (Inr Finished), w2, m2) \<and>
    loader port m2 = loader port m1 \<and>
    (\<forall>l < 32. lane_view (registers w2) l = lane_view (registers w1) l)"
proof -
  let ?fp = "\<lambda>l. lane_step env (loader port m) p (lane_ctx w) l"
  let ?fq = "\<lambda>l. lane_step env (loader port m) q (lane_ctx w) l"
  have qq: "quiet q" using same quiet by (rule same_paths_quiet)
  have len: "length q = length p" using same_paths_nth(1) [OF same] by simp
  note P = run_warp_lanes [OF quiet inv run]
  have eq: "(?fq l ^^ k) (lane_of (length p) w l) = (?fp l ^^ k) (lane_of (length p) w l)" for l k
    using lane_run_same_paths [OF same lane_of_in_program] by simp
  have retired: "lane_pc ((?fp l ^^ fuel) (lane_of (length p) w l)) = None"
    and result: "lane_of (length p) w1 l = (?fp l ^^ fuel) (lane_of (length p) w l)" if l: "l < 32" for l
  proof -
    from P l obtain k where k: "k \<le> fuel" "lane_of (length p) w1 l = (?fp l ^^ k) (lane_of (length p) w l)"
      and none: "lane_pc (lane_of (length p) w1 l) = None" by blast
    with lane_run_fixed [OF _ k(1)] show "lane_of (length p) w1 l = (?fp l ^^ fuel) (lane_of (length p) w l)"
      by metis
    with none show "lane_pc ((?fp l ^^ fuel) (lane_of (length p) w l)) = None" by simp
  qed
  have nofault: "\<not> lane_faults (loader port m) q l ((?fq l ^^ k) (lane_of (length q) w l))" if l: "l < 32" for l k
  proof -
    have "lane_pc ((?fp l ^^ k) (lane_of (length p) w l)) =
        in_program (length p) (lane_pc ((?fp l ^^ k) (lane_of (length p) w l)))"
      by (rule lane_run_in_program) (rule lane_of_in_program)
    from lane_faults_same_paths [OF same this, of "loader port m" l] run_warp_no_faults [OF quiet inv run l, of k]
    show ?thesis by (simp add: len eq)
  qed
  have "fst (run_warp env port q (32 * fuel + 1) w m) = Some (Inr Finished)"
    using retired nofault by (intro run_warp_finishes [OF qq inv, where K = "\<lambda>_. fuel"]) (simp_all add: len eq)
  then obtain w2 m2 where run2: "run_warp env port q (32 * fuel + 1) w m = (Some (Inr Finished), w2, m2)"
    by (metis prod.exhaust_sel)
  note Q = run_warp_lanes [OF qq inv run2, unfolded len]
  have "lane_of (length p) w2 l = lane_of (length p) w1 l" if l: "l < 32" for l
  proof -
    from Q l obtain k where k: "lane_of (length p) w2 l = (?fq l ^^ k) (lane_of (length p) w l)"
      and none: "lane_pc (lane_of (length p) w2 l) = None" by blast
    then have "lane_of (length p) w2 l = (?fp l ^^ k) (lane_of (length p) w l)" by (simp add: eq)
    moreover have "(?fp l ^^ k) (lane_of (length p) w l) = (?fp l ^^ fuel) (lane_of (length p) w l)"
    proof (cases "k \<le> fuel")
      case True
      have "lane_pc ((?fp l ^^ k) (lane_of (length p) w l)) = None" using none k by (simp add: eq)
      from lane_run_fixed [OF this True] show ?thesis by simp
    next
      case False
      then have "fuel \<le> k" by simp
      from lane_run_fixed [OF retired [OF l] this] show ?thesis by simp
    qed
    ultimately show ?thesis using result [OF l] by simp
  qed
  then have "\<forall>l < 32. lane_view (registers w2) l = lane_view (registers w1) l"
    by (simp add: lane_of_def)
  with run2 P Q show ?thesis by auto
qed

end

section \<open>Properties\<close>

text \<open>The result of a warp does not depend on the reconvergence points in its program. For a program
  without stores and barriers, if the warp finishes, then it also finishes under every program that
  differs only in the reconvergence halves of its branches, and every lane ends with the same
  registers and predicates (section 8.4 of the specification).\<close>

theorem reconvergence_points_unobservable:
  assumes "quiet p" and "same_paths p q" and "warp_inv w"
    and "run_warp env block_port p fuel w m = (Some (Inr Finished), w1, m1)"
  shows "\<exists>w2 m2. run_warp env block_port q (32 * fuel + 1) w m = (Some (Inr Finished), w2, m2) \<and>
    (\<forall>l < 32. lane_view (registers w2) l = lane_view (registers w1) l)"
  using block.run_warp_same_paths [OF assms] by blast

definition branch_program :: "u16 \<Rightarrow> Instruction list" where
  "branch_program r =
    [default_instruction\<lparr>opcode := Bra, guard := \<lparr>present = True, negate = False, gpred = 0\<rparr>,
       imm := make_branch_imm 1 r\<rparr>,
     exit_instruction]"

lemma branch_program_parts [simp]:
  "length (branch_program r) = 2"
  "opcode (branch_program r ! 0) = Bra" "present (guard (branch_program r ! 0))"
  "\<not> negate (guard (branch_program r ! 0))"
  "branch_program r ! 1 = exit_instruction" "branch_program r ! Suc 0 = exit_instruction"
  by (simp_all add: branch_program_def)

lemma branch_program_quiet: "quiet (branch_program r)" "same_paths (branch_program r) (branch_program r')"
  by (simp_all add: quiet_def same_paths_def branch_program_def forget_reconvergence_def
      exit_instruction_def default_instruction_def is_store_opcode_def branch_target_def)

lemma settle_running:
  assumes "active w \<noteq> 0" "dstack w = []" "unat (wpc w) < n"
  shows "settle n w = (True, w)"
proof -
  have "resolve_stack w = (True, w)" using assms by (subst resolve_stack.simps) simp
  then show ?thesis using assms by (subst settle.simps) simp
qed

lemma settle_finished:
  assumes "active w = 0" "dstack w = []"
  shows "settle n w = (False, w)"
proof -
  have "resolve_stack w = (False, w)" using assms by (subst resolve_stack.simps) simp
  then show ?thesis by (subst settle.simps) simp
qed

lemma branch_program_run:
  assumes "lanes \<noteq> 0"
  shows "\<exists>w1. run_warp env port (branch_program r) 3 (new_warp wid lanes ctx) m = (Some (Inr Finished), w1, m)"
proof -
  define w where "w = new_warp wid lanes ctx"
  let ?i = "branch_program r ! 0"
  have "guard_mask ?i w = 0"
    by (rule mask_eqI) (simp add: guard_mask_lane w_def new_warp_def empty_register_file_def read_pred_def)
  then have exec: "exec_mask ?i w = 0" by (simp add: exec_mask_def)
  define w1 where "w1 = w\<lparr>last_exec := 0, last_opcode := Bra, wpc := 1\<rparr>"
  define w2 where "w2 = (retire lanes w1)\<lparr>last_exec := lanes, last_opcode := Exit, wpc := 2\<rparr>"
  have s1: "step env port (branch_program r) w m = (Inr Issued, w1, m)"
    using assms settle_running [of w 2] exec
    by (simp add: step_def issue_def branch_def w_def w1_def new_warp_def Let_def)
  have s2: "step env port (branch_program r) w1 m = (Inr Issued, w2, m)"
    using assms settle_running [of w1 2]
    by (simp add: step_def issue_def w_def w1_def w2_def new_warp_def Let_def retire_def
        exit_instruction_def default_instruction_def no_guard_def exec_mask_def)
  have s3: "step env port (branch_program r) w2 m = (Inr Finished, w2, m)"
    using settle_finished [of w2 2]
    by (simp add: step_def w_def w1_def w2_def new_warp_def retire_def)
  have "run_warp env port (branch_program r) 3 w m = (Some (Inr Finished), w2, m)"
    by (simp add: numeral_3_eq_3 s1 s2 s3)
  then show ?thesis by (auto simp: w_def)
qed

theorem reconvergence_points_unobservable_witness:
  "\<exists>w2 m2. run_warp example_fp_env block_port (branch_program 0xFFFF) 97
      (new_warp 0 full_mask example_context) (block_memory [] 0 []) = (Some (Inr Finished), w2, m2)"
proof -
  have "full_mask \<noteq> 0" by (simp add: full_mask_def)
  from branch_program_run [OF this, of example_fp_env block_port 1 0 example_context "block_memory [] 0 []"]
  obtain w1 where "run_warp example_fp_env block_port (branch_program 1) 3
      (new_warp 0 full_mask example_context) (block_memory [] 0 []) =
      (Some (Inr Finished), w1, block_memory [] 0 [])" by blast
  from reconvergence_points_unobservable [OF branch_program_quiet new_warp_inv this, of "0xFFFF"]
  show ?thesis by auto
qed

text \<open>A warp whose program has no stores and barriers and that finishes has run every lane on its own
  path to its end: the cells of each lane are those the lane machine computes alone, and the lane
  machine has retired.\<close>

theorem finished_warp_ran_every_lane:
  assumes "quiet program" and "warp_inv w"
    and "run_warp env block_port program fuel w m = (Some (Inr Finished), w', m')" and "l < 32"
  shows "\<exists>k \<le> fuel. let L = (lane_step env (loader block_port m) program (lane_ctx w) l ^^ k)
      (lane_of (length program) w l)
    in lane_pc L = None \<and> lane_cells L = lane_view (registers w') l"
proof -
  from block.run_warp_lanes [OF assms(1-3)] assms(4) obtain k where k: "k \<le> fuel"
    "lane_of (length program) w' l =
      (lane_step env (loader block_port m) program (lane_ctx w) l ^^ k) (lane_of (length program) w l)"
    and none: "lane_pc (lane_of (length program) w' l) = None" by blast
  have "lane_cells (lane_of (length program) w' l) = lane_view (registers w') l"
    by (simp add: lane_of_def)
  with k none show ?thesis by (intro exI [of _ k]) (simp add: Let_def)
qed

theorem finished_warp_ran_every_lane_witness:
  "\<exists>k \<le> 3. lane_pc ((lane_step example_fp_env (loader block_port (block_memory [] 0 [])) (branch_program 1)
      (lane_ctx (new_warp 0 full_mask example_context)) 7 ^^ k)
      (lane_of (length (branch_program 1)) (new_warp 0 full_mask example_context) 7)) = None"
proof -
  have "full_mask \<noteq> 0" by (simp add: full_mask_def)
  from branch_program_run [OF this, of example_fp_env block_port 1 0 example_context "block_memory [] 0 []"]
  obtain w1 where run: "run_warp example_fp_env block_port (branch_program 1) 3
      (new_warp 0 full_mask example_context) (block_memory [] 0 []) =
      (Some (Inr Finished), w1, block_memory [] 0 [])" by blast
  have "(7 :: nat) < 32" by simp
  from finished_warp_ran_every_lane [OF branch_program_quiet(1) new_warp_inv run this]
  show ?thesis by (auto simp: Let_def)
qed

text \<open>A warp finishes whenever its lanes do. If every lane alone retires within its number of steps
  and no load of it is refused, the warp finishes after at most the sum of these numbers, whatever
  the divergence.\<close>

theorem warp_finishes_with_its_lanes:
  assumes "quiet program" and "warp_inv w"
    and "\<forall>l < 32. lane_pc ((lane_step env (loader block_port m) program (lane_ctx w) l ^^ K l)
        (lane_of (length program) w l)) = None"
    and "\<forall>l < 32. \<forall>k. \<not> lane_faults (loader block_port m) program l
        ((lane_step env (loader block_port m) program (lane_ctx w) l ^^ k) (lane_of (length program) w l))"
  shows "fst (run_warp env block_port program (Suc (\<Sum>l < 32. K l)) w m) = Some (Inr Finished)"
  by (rule block.run_warp_finishes [OF assms]) simp

theorem warp_finishes_with_its_lanes_witness:
  "fst (run_warp example_fp_env block_port [exit_instruction] 33
      (new_warp 0 full_mask example_context) (block_memory [] 0 [])) = Some (Inr Finished)"
proof -
  have q: "quiet [exit_instruction]"
    by (simp add: quiet_def exit_instruction_def default_instruction_def is_store_opcode_def)
  have ok: "\<not> lane_faults ld [exit_instruction] l L" if "lane_pc L \<in> {None, Some 0}" for ld l L
    using that by (auto simp: lane_faults_def exit_instruction_def default_instruction_def)
  have start: "lane_pc (lane_of (length [exit_instruction]) (new_warp 0 full_mask example_context) l) \<in> {None, Some 0}" for l
    by (simp add: lane_of_def position_new_warp)
  have one: "lane_pc (lane_step env ld [exit_instruction] ctx l L) = None" if "lane_pc L \<in> {None, Some 0}" for env ld ctx l L
    using that by (auto simp: lane_step_def lane_next_def lane_guard_def exit_instruction_def
        default_instruction_def no_guard_def Let_def)
  have later: "lane_pc ((lane_step env ld [exit_instruction] ctx l ^^ k) L) \<in> {None, Some 0}"
    if "lane_pc L \<in> {None, Some 0}" for env ld ctx l k L
    by (induction k) (use that one in auto)
  have "\<forall>l < 32. lane_pc ((lane_step example_fp_env (loader block_port (block_memory [] 0 [])) [exit_instruction]
      (lane_ctx (new_warp 0 full_mask example_context)) l ^^ 1)
      (lane_of (length [exit_instruction]) (new_warp 0 full_mask example_context) l)) = None"
    using one [OF start] by simp
  from warp_finishes_with_its_lanes [OF q new_warp_inv this] ok [OF later [OF start]]
  show ?thesis by simp
qed

end
