(* ===== verification/Device.thy ===== *)
theory Device
  imports Warp_Runs
begin

text \<open>
  \<^verbatim>\<open>include/warpsim/asm/program.hpp\<close>, \<^verbatim>\<open>include/warpsim/core/device.hpp\<close> and
  \<^verbatim>\<open>src/core/device.cpp\<close>: the round-robin scheduler that runs the warps of one block, and
  the launch of a grid of blocks over one global memory, with the counters it reports. The loop
  of the scheduler may run forever, so it is a partial function whose value is \<open>None\<close> then.
\<close>

section \<open>Programs and totals\<close>

record Program =
  entry_name :: string
  param_names :: "string list"
  shared_bytes :: u32
  code_words :: "u64 list"
  label_names :: "u16 \<rightharpoonup> string"

record LaunchStats =
  instructions_issued :: u64
  alu_instructions :: u64
  memory_instructions :: u64
  control_instructions :: u64
  barrier_instructions :: u64
  divergent_branches :: u64
  reconvergence_events :: u64
  barriers_completed :: u64
  active_lane_sum :: u64
  active_lane_histogram :: "u64 list"
  blocks_executed :: u32
  warps_launched :: u32
  lanes_launched :: u32
  memory_stats :: MemoryStats

definition no_launch_stats :: LaunchStats where
  "no_launch_stats =
    \<lparr>instructions_issued = 0, alu_instructions = 0, memory_instructions = 0,
     control_instructions = 0, barrier_instructions = 0, divergent_branches = 0,
     reconvergence_events = 0, barriers_completed = 0, active_lane_sum = 0,
     active_lane_histogram = replicate (warp_size + 1) 0, blocks_executed = 0,
     warps_launched = 0, lanes_launched = 0, memory_stats = no_memory_stats\<rparr>"

section \<open>The warps of a block\<close>

definition warp_count :: "u32 \<Rightarrow> u32" where
  "warp_count lanes_in_block = (lanes_in_block + of_nat warp_size - 1) div of_nat warp_size"

definition live_lanes :: "u32 \<Rightarrow> u32 \<Rightarrow> LaneMask" where
  "live_lanes lanes_in_block w =
    (let first = w * of_nat warp_size;
         in_warp = (if lanes_in_block - first < of_nat warp_size then lanes_in_block - first
                    else of_nat warp_size)
     in if in_warp = of_nat warp_size then full_mask else lane_bit (unat in_warp) - 1)"

definition create_warps :: "LaneContext \<Rightarrow> u32 \<Rightarrow> Warp list" where
  "create_warps base_context lanes_in_block =
    List.map (\<lambda>k. let w = of_nat k in
        new_warp w (live_lanes lanes_in_block w) (base_context\<lparr>warp_id := w\<rparr>))
      [0..<unat (warp_count lanes_in_block)]"

section \<open>One pass over the warps\<close>

definition count_class :: "Opcode \<Rightarrow> LaunchStats \<Rightarrow> LaunchStats" where
  "count_class opc st =
    (if opc = Bra \<or> opc = Exit
     then st\<lparr>control_instructions := control_instructions st + 1\<rparr>
     else if opc = BarSync
     then st\<lparr>barrier_instructions := barrier_instructions st + 1\<rparr>
     else if opc = LdGlobal \<or> opc = StGlobal \<or> opc = LdShared \<or> opc = StShared \<or> opc = LdParam
     then st\<lparr>memory_instructions := memory_instructions st + 1\<rparr>
     else st\<lparr>alu_instructions := alu_instructions st + 1\<rparr>)"

definition count_issue :: "Warp \<Rightarrow> LaunchStats \<Rightarrow> LaunchStats" where
  "count_issue w st =
    (let lanes = lane_count (last_exec w);
         st1 = st\<lparr>instructions_issued := instructions_issued st + 1,
                  active_lane_sum := active_lane_sum st + of_nat lanes,
                  active_lane_histogram :=
                    (active_lane_histogram st)[lanes := active_lane_histogram st ! lanes + 1]\<rparr>
     in count_class (last_opcode w) st1)"

text \<open>The state of the scheduler: the warps, the memory of the block and the totals.\<close>

record Scheduler =
  sched_warps :: "Warp list"
  sched_memory :: BlockMemory
  sched_stats :: LaunchStats

text \<open>The first loop of the body: the warps already visited are handed back in front of the
  rest. The value is \<open>any_runnable\<close>.\<close>

fun issue_pass ::
    "fp_env \<Rightarrow> Instruction list \<Rightarrow> bool \<Rightarrow> Warp list \<Rightarrow> BlockMemory \<Rightarrow> LaunchStats \<Rightarrow>
     (bool, Fault) result \<times> Scheduler" where
  "issue_pass env program any_runnable [] m st =
    (Inr any_runnable, \<lparr>sched_warps = [], sched_memory = m, sched_stats = st\<rparr>)"
| "issue_pass env program any_runnable (warp # warps) m st =
    (if finished warp \<or> parked warp then
       (let (r, s) = issue_pass env program any_runnable warps m st
        in (r, s\<lparr>sched_warps := warp # sched_warps s\<rparr>))
     else
       (case step env block_port program warp m of
          (Inl e, warp1, m1) \<Rightarrow>
            (fail e, \<lparr>sched_warps = warp1 # warps, sched_memory = m1, sched_stats = st\<rparr>)
        | (Inr outcome, warp1, m1) \<Rightarrow>
            (let (r, s) = issue_pass env program True warps m1
                   (if outcome \<noteq> Finished then count_issue warp1 st else st)
             in (r, s\<lparr>sched_warps := warp1 # sched_warps s\<rparr>))))"

section \<open>The scheduler\<close>

text \<open>The second loop of the body computes two flags over the warps.\<close>

definition any_unfinished :: "Warp list \<Rightarrow> bool" where
  "any_unfinished warps \<longleftrightarrow> (\<exists>warp \<in> set warps. \<not> finished warp)"

definition all_parked :: "Warp list \<Rightarrow> bool" where
  "all_parked warps \<longleftrightarrow> (\<forall>warp \<in> set warps. \<not> finished warp \<longrightarrow> parked warp)"

text \<open>One iteration of \<^verbatim>\<open>while (true)\<close>: the value tells whether the loop breaks.\<close>

definition scheduler_round ::
    "fp_env \<Rightarrow> Instruction list \<Rightarrow> Scheduler \<Rightarrow> (bool, Fault) result \<times> Scheduler" where
  "scheduler_round env program s =
    (case issue_pass env program False (sched_warps s) (sched_memory s) (sched_stats s) of
       (Inl e, s1) \<Rightarrow> (fail e, s1)
     | (Inr any_runnable, s1) \<Rightarrow>
         if \<not> any_unfinished (sched_warps s1) then (Inr True, s1)
         else if all_parked (sched_warps s1) then
           (Inr False,
            s1\<lparr>sched_warps := List.map (\<lambda>warp. warp\<lparr>parked := False\<rparr>) (sched_warps s1),
               sched_stats := (sched_stats s1)\<lparr>barriers_completed := barriers_completed (sched_stats s1) + 1\<rparr>\<rparr>)
         else if \<not> any_runnable then
           (fail (default_fault\<lparr>fault_message := ''scheduler made no progress''\<rparr>), s1)
         else (Inr False, s1))"

partial_function (option) scheduler_loop ::
    "fp_env \<Rightarrow> Instruction list \<Rightarrow> Scheduler \<Rightarrow> ((unit, Fault) result \<times> Scheduler) option" where
  "scheduler_loop env program s =
    (case scheduler_round env program s of
       (Inl e, s1) \<Rightarrow> Some (fail e, s1)
     | (Inr is_done, s1) \<Rightarrow>
         if is_done then Some (Inr (), s1) else scheduler_loop env program s1)"

definition add_events :: "Warp list \<Rightarrow> LaunchStats \<Rightarrow> LaunchStats" where
  "add_events warps st =
    fold (\<lambda>warp st. st\<lparr>divergent_branches := divergent_branches st + divergent warp,
                       reconvergence_events := reconvergence_events st + reconverged warp\<rparr>)
      warps st"

definition run_block ::
    "fp_env \<Rightarrow> Instruction list \<Rightarrow> BlockMemory \<Rightarrow> LaneContext \<Rightarrow> u32 \<Rightarrow> LaunchStats \<Rightarrow>
     ((unit, Fault) result \<times> BlockMemory \<times> LaunchStats) option" where
  "run_block env program m base_context lanes_in_block st =
    (let st1 = st\<lparr>warps_launched := warps_launched st + warp_count lanes_in_block\<rparr>
     in case scheduler_loop env program
               \<lparr>sched_warps = create_warps base_context lanes_in_block,
                sched_memory = m, sched_stats = st1\<rparr> of
          None \<Rightarrow> None
        | Some (Inl e, s) \<Rightarrow> Some (fail e, sched_memory s, sched_stats s)
        | Some (Inr _, s) \<Rightarrow>
            Some (Inr (), sched_memory s, add_events (sched_warps s) (sched_stats s)))"

section \<open>The launch\<close>

text \<open>The decoding loop: the first word that does not decode is reported with its index.\<close>

fun decode_program :: "nat \<Rightarrow> u64 list \<Rightarrow> (Instruction list, Fault) result" where
  "decode_program pc [] = Inr []"
| "decode_program pc (word # words) =
    (case decode word of
       Inl e \<Rightarrow> fail (default_fault\<lparr>fault_message := ''invalid instruction word: '' @ isa_error_to_string e,
                                   fault_pc := of_nat pc\<rparr>)
     | Inr i \<Rightarrow>
         (case decode_program (Suc pc) words of
            Inl f \<Rightarrow> fail f
          | Inr is \<Rightarrow> Inr (i # is)))"

definition add_memory_stats :: "MemoryStats \<Rightarrow> MemoryStats \<Rightarrow> MemoryStats" where
  "add_memory_stats m st =
    \<lparr>global_loads = global_loads st + global_loads m,
     global_stores = global_stores st + global_stores m,
     global_lane_accesses = global_lane_accesses st + global_lane_accesses m,
     global_segments = global_segments st + global_segments m,
     shared_accesses = shared_accesses st + shared_accesses m,
     shared_lane_accesses = shared_lane_accesses st + shared_lane_accesses m,
     shared_wavefronts = shared_wavefronts st + shared_wavefronts m,
     shared_conflicted_accesses = shared_conflicted_accesses st + shared_conflicted_accesses m\<rparr>"

text \<open>The two nested loops visit the blocks of a row before the next row.\<close>

definition block_indices :: "Dim2 \<Rightarrow> Dim2 list" where
  "block_indices grid =
    concat (List.map (\<lambda>by. List.map (\<lambda>bx. \<lparr>dim_x = of_nat bx, dim_y = of_nat by\<rparr>)
      [0..<unat (dim_x grid)]) [0..<unat (dim_y grid)])"

fun run_blocks ::
    "fp_env \<Rightarrow> Instruction list \<Rightarrow> u32 \<Rightarrow> Dim2 \<Rightarrow> Dim2 \<Rightarrow> u32 list \<Rightarrow> Dim2 list \<Rightarrow>
     ByteMemory \<Rightarrow> LaunchStats \<Rightarrow> ((LaunchStats, Fault) result \<times> ByteMemory) option" where
  "run_blocks env program sh grid blk ps [] g st = Some (Inr st, g)"
| "run_blocks env program sh grid blk ps (b # bs) g st =
    (case run_block env program (block_memory g sh ps)
            \<lparr>ntid = blk, nctaid = grid, ctaid = b, warp_id = 0\<rparr> (dim_count blk) st of
       None \<Rightarrow> None
     | Some (Inl e, m, st1) \<Rightarrow> Some (fail e, global m)
     | Some (Inr _, m, st1) \<Rightarrow>
         run_blocks env program sh grid blk ps bs (global m)
           (st1\<lparr>blocks_executed := blocks_executed st1 + 1,
                lanes_launched := lanes_launched st1 + dim_count blk,
                memory_stats := add_memory_stats (analyzer m) (memory_stats st1)\<rparr>))"

definition launch ::
    "fp_env \<Rightarrow> Program \<Rightarrow> Dim2 \<Rightarrow> Dim2 \<Rightarrow> u32 list \<Rightarrow> ByteMemory \<Rightarrow>
     ((LaunchStats, Fault) result \<times> ByteMemory) option" where
  "launch env program grid blk ps g =
    (case decode_program 0 (code_words program) of
       Inl f \<Rightarrow> Some (fail f, g)
     | Inr decoded \<Rightarrow>
         if dim_count blk = 0 \<or> dim_count grid = 0
         then Some (fail (default_fault\<lparr>fault_message := ''empty grid or block''\<rparr>), g)
         else run_blocks env decoded (shared_bytes program) grid blk ps (block_indices grid) g
                no_launch_stats)"

section \<open>The warps cover the lanes of the block\<close>

lemma warp_count_value:
  assumes "unat lanes + 31 < 2 ^ 32"
  shows "unat (warp_count lanes) = (unat lanes + 31) div 32"
proof -
  have "lanes + of_nat warp_size - 1 = lanes + 31" by (simp add: warp_size_def)
  moreover have "unat (31 + lanes) = unat lanes + 31"
    using assms by (subst unat_add_lem [THEN iffD1]) simp_all
  ultimately show ?thesis by (simp add: warp_count_def warp_size_def unat_div_distrib)
qed

lemma live_lanes_set:
  assumes n: "unat lanes + 31 < 2 ^ 32" and k: "k < unat (warp_count lanes)"
  shows "lanes_of (live_lanes lanes (of_nat k)) = {lane. lane < 32 \<and> 32 * k + lane < unat lanes}"
proof -
  have k': "32 * k < unat lanes" using k warp_count_value [OF n] by simp
  have first: "unat (of_nat k * 32 :: u32) = 32 * k"
    using k' n by (simp add: unat_of_nat unat_word_ariths)
  have rest: "unat (lanes - of_nat k * 32) = unat lanes - 32 * k"
    using k' by (subst unat_sub) (simp_all add: word_le_nat_alt first)
  show ?thesis
  proof (cases "lanes - of_nat k * 32 < 32")
    case True
    then have lt: "unat lanes - 32 * k < 32" by (simp add: word_less_nat_alt rest)
    then have "live_lanes lanes (of_nat k) = lane_bit (unat lanes - 32 * k) - 1"
      using True rest by (auto simp: live_lanes_def warp_size_def Let_def)
    then show ?thesis using lt by (auto simp: lanes_of_low_lanes)
  next
    case False
    then have "32 \<le> unat lanes - 32 * k" by (simp add: word_less_nat_alt rest)
    then show ?thesis using False by (auto simp: live_lanes_def warp_size_def Let_def)
  qed
qed

section \<open>Properties\<close>

text \<open>C27: the warps of a block cover its lanes exactly once: lane \<open>l\<close> of warp \<open>k\<close> is live at the
  start exactly when \<open>32 k + l\<close> is below the size of the block, for blocks of fewer than
  2^32 - 31 lanes.\<close>

theorem warps_cover_block:
  assumes "unat lanes + 31 < 2 ^ 32"
  shows "length (create_warps ctx lanes) = (unat lanes + 31) div 32 \<and>
    (\<forall>k < length (create_warps ctx lanes).
      lanes_of (live (create_warps ctx lanes ! k)) = {lane. lane < 32 \<and> 32 * k + lane < unat lanes} \<and>
      active (create_warps ctx lanes ! k) = live (create_warps ctx lanes ! k) \<and>
      warp_id (lane_ctx (create_warps ctx lanes ! k)) = of_nat k)"
  using live_lanes_set [OF assms] warp_count_value [OF assms]
  by (simp add: create_warps_def Let_def new_warp_def)

theorem warps_cover_block_witness:
  "lanes_of (live (create_warps example_context 35 ! 1)) = {lane. lane < 32 \<and> 32 + lane < 35}"
  using warps_cover_block [of 35 example_context] by simp

text \<open>The number of warps wraps for a block of nearly 2^32 lanes: such a block creates no warp, and
  running it succeeds without executing a lane.\<close>

theorem huge_block_runs_no_warp:
  "create_warps ctx 0xFFFFFFFF = [] \<and>
   run_block env program m ctx 0xFFFFFFFF st = Some (Inr (), m, st)"
proof -
  have "warp_count 0xFFFFFFFF = 0" by (simp add: warp_count_def warp_size_def)
  then have c: "create_warps ctx 0xFFFFFFFF = []" and z: "warp_count 0xFFFFFFFF = 0"
    by (simp_all add: create_warps_def)
  then show ?thesis
    by (simp add: run_block_def scheduler_loop.simps scheduler_round_def any_unfinished_def add_events_def)
qed

end
