(* ===== verification/Assembler.thy ===== *)
theory Assembler
  imports Charconv Reconvergence Device
begin

text \<open>
  \<^verbatim>\<open>src/asm/assembler.cpp\<close>: the parser, function by function. The members of the class
  \<^verbatim>\<open>Parser\<close> are one record. A member function that can fail returns the error or its result
  with the parser it leaves; a parser that failed is discarded by every caller, so its state
  after the failure is not kept. The out-parameter of the operand parsers is part of the result.

  \<^verbatim>\<open>Parser::run\<close> is an option of a result. \<open>None\<close> stands for not returning one: a token loop
  that never reaches the end token, or \<^verbatim>\<open>value()\<close> of a result that holds an error, which
  throws. \<open>Assembler_Facts\<close> proves that it does not happen for the tokens of a source.
\<close>

section \<open>The parser and its tokens\<close>

record PendingBranch =
  branch_pc :: nat
  branch_label :: string
  branch_line :: u32
  branch_column :: u32

record Parser =
  p_tokens :: "Token list"
  p_index :: nat
  p_program :: Program
  p_labels :: "string \<rightharpoonup> u16"
  p_pending :: "PendingBranch list"

definition empty_program :: Program where
  "empty_program =
     \<lparr> entry_name = [], param_names = [], shared_bytes = 0, code_words = [], label_names = Map.empty \<rparr>"

definition new_parser :: "Token list \<Rightarrow> Parser" where
  "new_parser tokens =
     \<lparr> p_tokens = tokens, p_index = 0, p_program = empty_program, p_labels = Map.empty, p_pending = [] \<rparr>"

definition cur :: "Parser \<Rightarrow> Token" where
  "cur p = p_tokens p ! p_index p"

definition at :: "Parser \<Rightarrow> TokenKind \<Rightarrow> bool" where
  "at p k \<longleftrightarrow> kind (cur p) = k"

definition next_tok :: "Parser \<Rightarrow> Parser" where
  "next_tok p = (if p_index p + 1 < length (p_tokens p) then p\<lparr>p_index := p_index p + 1\<rparr> else p)"

definition parse_error :: "Parser \<Rightarrow> string \<Rightarrow> AssemblyError" where
  "parse_error p message =
     \<lparr> error_line = token_line (cur p), error_column = token_column (cur p), error_message = message \<rparr>"

definition expect :: "TokenKind \<Rightarrow> string \<Rightarrow> Parser \<Rightarrow> (Parser, AssemblyError) result" where
  "expect k what p =
     (if at p k then Inr (next_tok p) else fail (parse_error p (''expected '' @ what)))"

definition end_of_line :: "Parser \<Rightarrow> (Parser, AssemblyError) result" where
  "end_of_line p =
     (if \<not> at p Newline \<and> \<not> at p End then
        fail (parse_error p (''unexpected token '' @ quoted (token_text (cur p)) @ '' at end of line''))
      else Inr p)"

section \<open>Literals and names\<close>

definition accepts_float_immediate :: "Opcode \<Rightarrow> bool" where
  "accepts_float_immediate opc \<longleftrightarrow>
     opc \<in> {FAdd, FSub, FMul, FMin, FMax, FNeg, CvtS32F32, SetpEqF32, SetpNeF32, SetpLtF32,
            SetpLeF32, SetpGtF32, SetpGeF32, Mov}"

definition integer_literal :: "Parser \<Rightarrow> (u32 \<times> Parser, AssemblyError) result" where
  "integer_literal p =
     (if \<not> at p Integer then fail (parse_error p ''expected an integer'')
      else
        let text = token_text (cur p);
            hex = (take 2 text = ''0x'');
            digits = (if hex then drop 2 text else text)
        in case parse_unsigned 64 (if hex then 16 else 10) digits of
             None \<Rightarrow> fail (parse_error p (''integer does not fit in 32 bits: '' @ quoted text))
           | Some value \<Rightarrow>
               if value > 0xFFFFFFFF then
                 fail (parse_error p (''integer does not fit in 32 bits: '' @ quoted text))
               else Inr (of_nat value, next_tok p))"

definition register_index :: "string \<Rightarrow> char \<Rightarrow> u8 \<Rightarrow> u8 option" where
  "register_index text prefix count =
     (if length text < 2 \<or> text ! 0 \<noteq> prefix then None
      else
        (case parse_unsigned 32 10 (drop 1 text) of
           None \<Rightarrow> None
         | Some value \<Rightarrow>
             if value \<ge> unat count then None
             else if length text > 2 \<and> text ! 1 = CHR ''0'' then None
             else Some (of_nat value)))"

definition predicate_name :: "string \<Rightarrow> u8 option" where
  "predicate_name text = register_index text (CHR ''p'') predicate_register_count"

section \<open>Operands\<close>

text \<open>A step of an operand list works on the instruction under construction.\<close>

type_synonym operand_step = "Parser \<Rightarrow> Instruction \<Rightarrow> (Parser \<times> Instruction, AssemblyError) result"

fun sequence :: "operand_step list \<Rightarrow> operand_step" where
  "sequence [] p out = Inr (p, out)"
| "sequence (parse # parses) p out =
     (case parse p out of
        Inl e \<Rightarrow> fail e
      | Inr (p', out') \<Rightarrow> sequence parses p' out')"

definition comma :: operand_step where
  "comma p out =
     (case expect Comma (quoted '','') p of
        Inl e \<Rightarrow> fail e
      | Inr p' \<Rightarrow> Inr (p', out))"

definition general_register :: "Parser \<Rightarrow> (u8 \<times> Parser, AssemblyError) result" where
  "general_register p =
     (case (if at p Identifier then register_index (token_text (cur p)) (CHR ''r'') general_register_count
            else None) of
        Some index \<Rightarrow> Inr (index, next_tok p)
      | None \<Rightarrow> fail (parse_error p ''expected a general register r0..r63''))"

definition dst_reg :: operand_step where
  "dst_reg p out =
     (case general_register p of
        Inl e \<Rightarrow> fail e
      | Inr (r, p') \<Rightarrow> Inr (p', out\<lparr>dst := r\<rparr>))"

definition src0_reg :: operand_step where
  "src0_reg p out =
     (case general_register p of
        Inl e \<Rightarrow> fail e
      | Inr (r, p') \<Rightarrow> Inr (p', out\<lparr>src0 := r\<rparr>))"

definition src1_reg :: operand_step where
  "src1_reg p out =
     (case general_register p of
        Inl e \<Rightarrow> fail e
      | Inr (r, p') \<Rightarrow> Inr (p', out\<lparr>src1 := r\<rparr>))"

text \<open>An immediate operand: a minus sign, then an integer or, where allowed, a float.\<close>

definition immediate :: "chars_env \<Rightarrow> operand_step" where
  "immediate env p out =
     (let negative = at p Minus;
          p1 = (if negative then next_tok p else p)
      in if at p1 Float then
           if \<not> accepts_float_immediate (opcode out) then
             fail (parse_error p1 ''float immediate is not valid for this instruction'')
           else
             (case parse_f32 env (token_text (cur p1)) of
                None \<Rightarrow> fail (parse_error p1 (''invalid float literal '' @ quoted (token_text (cur p1))))
              | Some bits \<Rightarrow>
                  Inr (next_tok p1, out\<lparr>imm_flag := True,
                                   imm := (if negative then bits XOR 0x80000000 else bits)\<rparr>))
         else if \<not> at p1 Integer then fail (parse_error p1 ''expected a register or an immediate'')
         else
           (case integer_literal p1 of
              Inl e \<Rightarrow> fail e
            | Inr (magnitude, p2) \<Rightarrow>
                if negative \<and> magnitude > 0x80000000 then
                  fail (parse_error p2 ''immediate does not fit in 32 bits'')
                else Inr (p2, out\<lparr>imm_flag := True,
                                 imm := (if negative then 0 - magnitude else magnitude)\<rparr>)))"

definition src1_reg_or_imm :: "chars_env \<Rightarrow> operand_step" where
  "src1_reg_or_imm env p out = (if at p Identifier then src1_reg p out else immediate env p out)"

definition src0_reg_or_imm :: "chars_env \<Rightarrow> operand_step" where
  "src0_reg_or_imm env p out = (if at p Identifier then src0_reg p out else immediate env p out)"

definition dst_pred :: operand_step where
  "dst_pred p out =
     (case (if at p Identifier then predicate_name (token_text (cur p)) else None) of
        Some index \<Rightarrow> Inr (next_tok p, out\<lparr>dst := index\<rparr>)
      | None \<Rightarrow> fail (parse_error p ''expected a predicate register p0..p7''))"

definition special_operand :: operand_step where
  "special_operand p out =
     (if at p Special then
        (case special_register_info_name (token_text (cur p)) of
           Some info \<Rightarrow> Inr (next_tok p, out\<lparr>src0 := special_number (special_reg info)\<rparr>)
         | None \<Rightarrow> fail (parse_error p (''unknown special register '' @ quoted (token_text (cur p)))))
      else fail (parse_error p ''expected a special register''))"

definition branch_operand :: operand_step where
  "branch_operand p out =
     (if \<not> at p Identifier then fail (parse_error p ''expected a label'')
      else
        Inr (next_tok (p\<lparr>p_pending := p_pending p @
                 [\<lparr> branch_pc = length (code_words (p_program p)), branch_label = token_text (cur p),
                    branch_line = token_line (cur p), branch_column = token_column (cur p) \<rparr>]\<rparr>),
             out\<lparr>imm := make_branch_imm 0 no_reconvergence\<rparr>))"

definition address :: operand_step where
  "address p out =
     (case expect LBracket (quoted ''['') p of
        Inl e \<Rightarrow> fail e
      | Inr p1 \<Rightarrow>
          (case general_register p1 of
             Inl e \<Rightarrow> fail e
           | Inr (base, p2) \<Rightarrow>
               let out1 = out\<lparr>src0 := base, imm_flag := True, imm := 0\<rparr>;
                   offset = (if at p2 Plus \<or> at p2 Minus then
                       (case integer_literal (next_tok p2) of
                          Inl e \<Rightarrow> fail e
                        | Inr (v, p3) \<Rightarrow> Inr (if at p2 Minus then 0 - v else v, p3))
                     else Inr (0, p2))
               in (case offset of
                     Inl e \<Rightarrow> fail e
                   | Inr (v, p3) \<Rightarrow>
                       (case expect RBracket (quoted '']'') p3 of
                          Inl e \<Rightarrow> fail e
                        | Inr p4 \<Rightarrow> Inr (p4, out1\<lparr>imm := v\<rparr>)))))"

text \<open>The first parameter of that name.\<close>

definition param_ref :: operand_step where
  "param_ref p out =
     (case expect LBracket (quoted ''['') p of
        Inl e \<Rightarrow> fail e
      | Inr p1 \<Rightarrow>
          if \<not> at p1 Identifier then fail (parse_error p1 ''expected a parameter name'')
          else
            (case find (\<lambda>i. param_names (p_program p1) ! i = token_text (cur p1))
                    [0..<length (param_names (p_program p1))] of
               Some i \<Rightarrow>
                 (case expect RBracket (quoted '']'') (next_tok p1) of
                    Inl e \<Rightarrow> fail e
                  | Inr p2 \<Rightarrow> Inr (p2, out\<lparr>imm_flag := True, imm := of_nat i\<rparr>))
             | None \<Rightarrow> fail (parse_error p1 (''undeclared parameter '' @ quoted (token_text (cur p1))))))"

fun parse_operands :: "chars_env \<Rightarrow> Shape \<Rightarrow> operand_step" where
  "parse_operands env Rrr = sequence [dst_reg, comma, src0_reg, comma, src1_reg_or_imm env]"
| "parse_operands env Rr = sequence [dst_reg, comma, src0_reg_or_imm env]"
| "parse_operands env Acc = sequence [dst_reg, comma, src0_reg, comma, src1_reg]"
| "parse_operands env Prr = sequence [dst_pred, comma, src0_reg, comma, src1_reg_or_imm env]"
| "parse_operands env Sreg = sequence [dst_reg, comma, special_operand]"
| "parse_operands env Bra_shape = branch_operand"
| "parse_operands env None_shape = sequence []"
| "parse_operands env Ld = sequence [dst_reg, comma, address]"
| "parse_operands env St = sequence [address, comma, src1_reg]"
| "parse_operands env Ldp = sequence [dst_reg, comma, param_ref]"

section \<open>Directives\<close>

definition entry_directive :: "Parser \<Rightarrow> (Parser, AssemblyError) result" where
  "entry_directive p =
     (if entry_name (p_program p) \<noteq> [] then fail (parse_error p ''duplicate .entry'')
      else if code_words (p_program p) \<noteq> [] then
        fail (parse_error p ''.entry must precede the first instruction'')
      else if \<not> at p Identifier then fail (parse_error p ''expected a kernel name after .entry'')
      else end_of_line (next_tok (p\<lparr>p_program := (p_program p)\<lparr>entry_name := token_text (cur p)\<rparr>\<rparr>)))"

definition param_directive :: "Parser \<Rightarrow> (Parser, AssemblyError) result" where
  "param_directive p =
     (if \<not> at p Identifier then fail (parse_error p ''expected a parameter name after .param'')
      else if token_text (cur p) \<in> set (param_names (p_program p)) then
        fail (parse_error p (''duplicate parameter '' @ quoted (token_text (cur p))))
      else end_of_line (next_tok (p\<lparr>p_program := (p_program p)\<lparr>param_names :=
             param_names (p_program p) @ [token_text (cur p)]\<rparr>\<rparr>)))"

definition shared_directive :: "Parser \<Rightarrow> (Parser, AssemblyError) result" where
  "shared_directive p =
     (case integer_literal p of
        Inl e \<Rightarrow> fail e
      | Inr (value, p') \<Rightarrow>
          end_of_line (p'\<lparr>p_program := (p_program p')\<lparr>shared_bytes := value\<rparr>\<rparr>))"

definition directive :: "Parser \<Rightarrow> (Parser, AssemblyError) result" where
  "directive p =
     (let name = token_text (cur p);
          p' = next_tok p
      in if name = ''.entry'' then entry_directive p'
         else if name = ''.param'' then param_directive p'
         else if name = ''.shared'' then shared_directive p'
         else fail (parse_error p' (''unknown directive '' @ quoted name)))"

section \<open>Statements\<close>

text \<open>
  The label of a statement, if it has one: the flag tells whether the statement ends there.
  \<^verbatim>\<open>labels_\<close> maps names to PCs; the program keeps the first name of each PC.
\<close>

definition label_part :: "Parser \<Rightarrow> (bool \<times> Parser, AssemblyError) result" where
  "label_part p =
     (if at p Identifier \<and> kind (p_tokens p ! (p_index p + 1)) = Colon then
        let name = token_text (cur p);
            pc = of_nat (length (code_words (p_program p))) :: u16 in
        if p_labels p name \<noteq> None then fail (parse_error p (''duplicate label '' @ quoted name))
        else
          let names = label_names (p_program p);
              p1 = p\<lparr>p_labels := (p_labels p)(name \<mapsto> pc),
                      p_program := (p_program p)\<lparr>label_names :=
                        (if names pc = None then names(pc \<mapsto> name) else names)\<rparr>\<rparr>;
              p2 = next_tok (next_tok p1)
          in Inr (at p2 Newline, p2)
      else Inr (False, p))"

definition guard_part :: "Parser \<Rightarrow> Instruction \<Rightarrow> (Parser \<times> Instruction, AssemblyError) result" where
  "guard_part p out =
     (if at p Guard_kind then
        (case predicate_name (token_text (cur p)) of
           None \<Rightarrow> fail (parse_error p (''invalid guard predicate '' @ quoted (token_text (cur p))))
         | Some index \<Rightarrow>
             Inr (next_tok p, out\<lparr>guard := \<lparr> present = True, negate = token_negate (cur p), gpred = index \<rparr>\<rparr>))
      else Inr (p, out))"

definition append_word :: "u64 \<Rightarrow> Parser \<Rightarrow> Parser" where
  "append_word w p = p\<lparr>p_program := (p_program p)\<lparr>code_words := code_words (p_program p) @ [w]\<rparr>\<rparr>"

definition mnemonic_part :: "chars_env \<Rightarrow> Parser \<Rightarrow> Instruction \<Rightarrow> (Parser, AssemblyError) result" where
  "mnemonic_part env p out =
     (if \<not> at p Identifier then fail (parse_error p ''expected an instruction mnemonic'')
      else
        (case opcode_info_mnemonic (token_text (cur p)) of
           None \<Rightarrow> fail (parse_error p (''unknown mnemonic '' @ quoted (token_text (cur p))))
         | Some info \<Rightarrow>
             (case parse_operands env (shape info) (next_tok p) (out\<lparr>opcode := info_opcode info\<rparr>) of
                Inl e \<Rightarrow> fail e
              | Inr (p1, i) \<Rightarrow>
                  (case end_of_line p1 of
                     Inl e \<Rightarrow> fail e
                   | Inr p2 \<Rightarrow>
                       (case encode i of
                          Inl e \<Rightarrow> fail (parse_error p2 (isa_error_to_string e))
                        | Inr w \<Rightarrow> Inr (append_word w p2))))))"

definition statement :: "chars_env \<Rightarrow> Parser \<Rightarrow> (Parser, AssemblyError) result" where
  "statement env p =
     (case label_part p of
        Inl e \<Rightarrow> fail e
      | Inr (done_here, p1) \<Rightarrow>
          if done_here then Inr p1
          else
            (case guard_part p1 default_instruction of
               Inl e \<Rightarrow> fail e
             | Inr (p2, i) \<Rightarrow> mnemonic_part env p2 i))"

section \<open>The whole program\<close>

partial_function (option) parse_lines ::
    "chars_env \<Rightarrow> Parser \<Rightarrow> (Parser, AssemblyError) result option" where
  "parse_lines env p =
     (if at p End then Some (Inr p)
      else if at p Newline then parse_lines env (next_tok p)
      else
        (case (if at p Directive then directive p else statement env p) of
           Inl e \<Rightarrow> Some (fail e)
         | Inr p' \<Rightarrow> parse_lines env p'))"

declare parse_lines.simps [code]

fun resolve_branches ::
    "(string \<rightharpoonup> u16) \<Rightarrow> PendingBranch list \<Rightarrow> u64 list \<Rightarrow> (u64 list, AssemblyError) result option" where
  "resolve_branches names [] words = Some (Inr words)"
| "resolve_branches names (b # bs) words =
     (case names (branch_label b) of
        None \<Rightarrow> Some (fail \<lparr> error_line = branch_line b, error_column = branch_column b,
                            error_message = ''undefined label '' @ quoted (branch_label b) \<rparr>)
      | Some target \<Rightarrow>
          (case decode (words ! branch_pc b) of
             Inl _ \<Rightarrow> None
           | Inr i \<Rightarrow>
               (case encode (i\<lparr>imm := make_branch_imm target no_reconvergence\<rparr>) of
                  Inl _ \<Rightarrow> None
                | Inr w \<Rightarrow> resolve_branches names bs (words[branch_pc b := w]))))"

text \<open>\<^verbatim>\<open>value()\<close> of every element.\<close>

fun all_values :: "('a, 'e) result list \<Rightarrow> 'a list option" where
  "all_values [] = Some []"
| "all_values (r # rs) =
     (case r of
        Inl _ \<Rightarrow> None
      | Inr v \<Rightarrow> map_option ((#) v) (all_values rs))"

definition annotate_words :: "u64 list \<Rightarrow> (u64 list, AssemblyError) result option" where
  "annotate_words words =
     (case all_values (List.map decode words) of
        None \<Rightarrow> None
      | Some decoded \<Rightarrow>
          (case annotate_reconvergence decoded of
             None \<Rightarrow> None
           | Some (Inl e) \<Rightarrow>
               Some (fail \<lparr> error_line = 0, error_column = 0, error_message = recon_message e \<rparr>)
           | Some (Inr annotated) \<Rightarrow> map_option Inr (all_values (List.map encode annotated))))"

definition finish_program :: "Parser \<Rightarrow> (Program, AssemblyError) result option" where
  "finish_program p =
     (let program = p_program p in
      if entry_name program = [] then
        Some (fail \<lparr> error_line = 1, error_column = 1, error_message = ''missing .entry'' \<rparr>)
      else if length (code_words program) > unat no_reconvergence then
        Some (fail \<lparr> error_line = 1, error_column = 1,
                     error_message = ''program exceeds 65535 instructions'' \<rparr>)
      else
        (case resolve_branches (p_labels p) (p_pending p) (code_words program) of
           None \<Rightarrow> None
         | Some (Inl e) \<Rightarrow> Some (fail e)
         | Some (Inr resolved) \<Rightarrow>
             (case annotate_words resolved of
                None \<Rightarrow> None
              | Some (Inl e) \<Rightarrow> Some (fail e)
              | Some (Inr words) \<Rightarrow> Some (Inr (program\<lparr>code_words := words\<rparr>)))))"

definition run_parser :: "chars_env \<Rightarrow> Parser \<Rightarrow> (Program, AssemblyError) result option" where
  "run_parser env p =
     (case parse_lines env p of
        None \<Rightarrow> None
      | Some (Inl e) \<Rightarrow> Some (fail e)
      | Some (Inr p') \<Rightarrow> finish_program p')"

definition assemble :: "chars_env \<Rightarrow> string \<Rightarrow> (Program, AssemblyError) result option" where
  "assemble env source =
     (case lex source of
        Inl e \<Rightarrow> Some (fail e)
      | Inr tokens \<Rightarrow> run_parser env (new_parser tokens))"

end
