(* ===== verification/Control_Flow.thy ===== *)
theory Control_Flow
  imports Reconvergence
begin

text \<open>
  What the control-flow graph of \<open>Reconvergence\<close> means. The specification is the flow between
  single instructions and the paths it gives to the end of the program; the graph of basic blocks
  is proved to follow it, in both directions. The locale \<open>graph_builder\<close> is the contract on
  which the dataflow analysis rests, and it is interpreted on \<open>build_cfg\<close>.
\<close>

section \<open>Flow between instructions\<close>

text \<open>
  The PCs a lane may go to from an instruction; the length of the program stands for the exit. A
  guarded branch or exit may also fall through.
\<close>

definition flow :: "Instruction list \<Rightarrow> nat \<Rightarrow> nat list" where
  "flow program pc =
     (let i = program ! pc;
          next = (if present (guard i) then [pc + 1] else []) in
      if opcode i = Bra then unat (branch_target i) # next
      else if opcode i = Exit then length program # next
      else [pc + 1])"

inductive path_to_exit :: "Instruction list \<Rightarrow> nat \<Rightarrow> nat list \<Rightarrow> bool" for program where
  at_exit: "path_to_exit program (length program) [length program]"
| go: "pc < length program \<Longrightarrow> q \<in> set (flow program pc) \<Longrightarrow> path_to_exit program q path \<Longrightarrow>
     path_to_exit program pc (pc # path)"

inductive_cases path_to_exitE: "path_to_exit program pc path"

lemma path_starts: "path_to_exit program pc path \<Longrightarrow> path \<noteq> [] \<and> hd path = pc"
  by (induction rule: path_to_exit.induct) auto

lemma path_Cons: "path_to_exit program pc (x # path) \<Longrightarrow> x = pc"
  using path_starts by fastforce

lemma path_in_range: "path_to_exit program pc path \<Longrightarrow> set path \<subseteq> {..length program}"
  by (induction rule: path_to_exit.induct) auto

lemma path_from_exit: "path_to_exit program (length program) path \<longleftrightarrow> path = [length program]"
  by (auto intro: at_exit elim: path_to_exitE)

lemma path_step:
  "pc < length program \<Longrightarrow> path_to_exit program pc path \<longleftrightarrow>
     (\<exists>q rest. q \<in> set (flow program pc) \<and> path_to_exit program q rest \<and> path = pc # rest)"
  by (rule iffI, erule path_to_exitE) (auto intro: go)

text \<open>A path can be entered at any instruction on it.\<close>

lemma path_suffix:
  "path_to_exit program pc path \<Longrightarrow> q \<in> set path \<Longrightarrow>
     \<exists>before rest. path = before @ rest \<and> path_to_exit program q rest \<and> q \<notin> set (tl rest)"
proof (induction rule: path_to_exit.induct)
  case at_exit
  then show ?case
    by (intro exI [of _ "[]"] exI [of _ "[length program]"]) (auto intro: path_to_exit.at_exit)
next
  case (go pc p path)
  show ?case
  proof (cases "q \<in> set path")
    case True
    then obtain before rest where "path = before @ rest" "path_to_exit program q rest" "q \<notin> set (tl rest)"
      using go.IH by blast
    then show ?thesis by (intro exI [of _ "pc # before"] exI [of _ rest]) simp
  next
    case False
    with go.prems have "q = pc" by simp
    with go False show ?thesis
      by (intro exI [of _ "[]"] exI [of _ "pc # path"]) (auto intro: path_to_exit.go)
  qed
qed

section \<open>The contract of a graph builder\<close>

text \<open>
  What the post-dominator analysis needs of a graph: one list of successors per block and one,
  empty, for the virtual exit; every block has a successor; successors are nodes.
\<close>

definition cfg_ok :: "Cfg \<Rightarrow> bool" where
  "cfg_ok g \<longleftrightarrow> length (succs g) = exit_node g + 1 \<and> succs g ! exit_node g = [] \<and>
     (\<forall>b < exit_node g. succs g ! b \<noteq> [] \<and> (\<forall>s \<in> set (succs g ! b). s \<le> exit_node g))"

text \<open>Paths of blocks to the exit.\<close>

inductive block_path :: "Cfg \<Rightarrow> nat \<Rightarrow> nat list \<Rightarrow> bool" for g where
  at_end: "block_path g (exit_node g) [exit_node g]"
| via: "b < exit_node g \<Longrightarrow> s \<in> set (succs g ! b) \<Longrightarrow> block_path g s path \<Longrightarrow>
     block_path g b (b # path)"

inductive_cases block_pathE: "block_path g b path"

lemma block_path_starts: "block_path g b path \<Longrightarrow> path \<noteq> [] \<and> hd path = b"
  by (induction rule: block_path.induct) auto

lemma block_path_exit: "block_path g (exit_node g) path \<longleftrightarrow> path = [exit_node g]"
  by (auto intro: at_end elim: block_pathE)

lemma block_path_in_range: "block_path g b path \<Longrightarrow> set path \<subseteq> {..exit_node g}"
  by (induction rule: block_path.induct) auto

lemma block_path_last: "block_path g b path \<Longrightarrow> exit_node g \<in> set path"
  by (induction rule: block_path.induct) auto

lemma block_path_suffix:
  "block_path g b path \<Longrightarrow> d \<in> set path \<Longrightarrow>
     \<exists>before rest. path = before @ rest \<and> block_path g d rest \<and> d \<notin> set (tl rest)"
proof (induction rule: block_path.induct)
  case at_end
  then show ?case
    by (intro exI [of _ "[]"] exI [of _ "[exit_node g]"]) (auto intro: block_path.at_end)
next
  case (via b s path)
  show ?case
  proof (cases "d \<in> set path")
    case True
    then obtain before rest where "path = before @ rest" "block_path g d rest" "d \<notin> set (tl rest)"
      using via.IH by blast
    then show ?thesis by (intro exI [of _ "b # before"] exI [of _ rest]) simp
  next
    case False
    with via.prems have "d = b" by simp
    with via False show ?thesis
      by (intro exI [of _ "[]"] exI [of _ "b # path"]) (auto intro: block_path.via)
  qed
qed

text \<open>Replacing the rest of a path after an occurrence of a node.\<close>

lemma block_path_replace:
  "block_path g b (before @ d # rest) \<Longrightarrow> block_path g d other \<Longrightarrow> block_path g b (before @ other)"
proof (induction before arbitrary: b)
  case Nil
  then have "b = d" using block_path_starts by fastforce
  with Nil show ?case by simp
next
  case (Cons x before)
  from Cons.prems(1) obtain s where "x = b" "b < exit_node g" "s \<in> set (succs g ! b)"
    "block_path g s (before @ d # rest)"
    by (auto elim: block_pathE)
  then show ?case using Cons.IH [OF _ Cons.prems(2)] by (auto intro: block_path.via)
qed

section \<open>Blocks\<close>

lemma leads_below_split:
  "k \<le> n \<Longrightarrow> leads_below program n = leads_below program k @ List.filter (is_lead program) [k..<n]"
  by (metis filter_append le_add_diff_inverse upt_add_eq_append zero_le)

lemma leads_below_Suc:
  "leads_below program (k + 1) = leads_below program k @ (if is_lead program k then [k] else [])"
  by simp

lemma is_lead_0 [simp]: "is_lead program 0"
  by (simp add: is_lead_def)

lemma leads_below_pos:
  assumes "0 < k"
  shows "leads_below program k \<noteq> []"
proof -
  have "0 \<in> set (leads_below program k)" using assms by simp
  then show ?thesis by (metis empty_iff empty_set)
qed

lemma block_facts:
  assumes g: "build_cfg program = Inr g" and pc: "pc < length program"
  defines "b \<equiv> block_of g ! pc"
  shows "b < exit_node g" and "leaders g ! b \<le> pc"
    and "pc \<le> block_last (length program) (leaders g) b"
    and "block_last (length program) (leaders g) b = pc \<longleftrightarrow>
      pc + 1 = length program \<or> is_lead program (pc + 1)"
    and "is_lead program pc \<Longrightarrow> leaders g ! b = pc"
proof -
  let ?n = "length program" and ?upto = "leads_below program (pc + 1)"
    and ?after = "List.filter (is_lead program) [pc + 1..<length program]"
  note shape = build_cfg_shape [OF g]
  have L: "leaders g = ?upto @ ?after"
    using pc leads_below_split [of "pc + 1" ?n program] shape(1) by simp
  have len: "b = length ?upto - 1" unfolding b_def by (rule shape(3) [OF pc])
  have ne: "?upto \<noteq> []" by (rule leads_below_pos) simp
  have at_b: "leaders g ! b = last ?upto"
    using L len ne by (simp add: nth_append last_conv_nth del: upt_Suc)
  show "b < exit_node g" using shape(4) L len ne by (cases ?upto) auto
  have "last ?upto \<in> set ?upto" using ne by (rule last_in_set)
  then show "leaders g ! b \<le> pc" using at_b by auto
  show "leaders g ! b = pc" if "is_lead program pc" using that at_b by simp
  have "0 < length ?upto" using ne by (simp only: length_greater_0_conv not_False_eq_True)
  then have b1: "b + 1 = length ?upto" unfolding len by linarith
  show "pc \<le> block_last ?n (leaders g) b"
    "block_last ?n (leaders g) b = pc \<longleftrightarrow> pc + 1 = ?n \<or> is_lead program (pc + 1)"
  proof -
    show "pc \<le> block_last ?n (leaders g) b"
    proof (cases ?after)
      case Nil
      then show ?thesis using L b1 pc by (simp add: block_last_def del: upt_Suc)
    next
      case (Cons q after)
      then have "q \<in> set ?after" by simp
      then have "pc + 1 \<le> q" by simp
      then show ?thesis using L b1 Cons by (simp add: block_last_def nth_append del: upt_Suc)
    qed
    show "block_last ?n (leaders g) b = pc \<longleftrightarrow> pc + 1 = ?n \<or> is_lead program (pc + 1)"
    proof (cases "pc + 1 < ?n")
      case False
      with pc have "pc + 1 = ?n" by simp
      then show ?thesis using L b1 by (simp add: block_last_def del: upt_Suc)
    next
      case True
      then have cons: "[pc + 1..<?n] = (pc + 1) # [pc + 2..<?n]" by (simp add: upt_conv_Cons)
      show ?thesis
      proof (cases "is_lead program (pc + 1)")
        case lead: True
        then have "?after = (pc + 1) # List.filter (is_lead program) [pc + 2..<?n]" using cons by simp
        then show ?thesis using L b1 lead by (simp add: block_last_def nth_append del: upt_Suc)
      next
        case no: False
        then have A: "?after = List.filter (is_lead program) [pc + 2..<?n]" using cons by simp
        show ?thesis
        proof (cases ?after)
          case Nil
          then show ?thesis using L b1 no True by (simp add: block_last_def del: upt_Suc)
        next
          case (Cons q after)
          then have "q \<in> set ?after" by simp
          with A have "pc + 2 \<le> q" by auto
          with Cons show ?thesis using L b1 no True by (simp add: block_last_def nth_append del: upt_Suc)
        qed
      qed
    qed
  qed
qed

text \<open>Inside a block control only falls through.\<close>

lemma terminator_leads:
  "pc + 1 < length program \<Longrightarrow> is_terminator (program ! pc) \<Longrightarrow> is_lead program (pc + 1)"
  unfolding is_lead_def marks_def by (metis add_lessD1)

lemma target_leads:
  "pc < length program \<Longrightarrow> opcode (program ! pc) = Bra \<Longrightarrow>
     is_lead program (unat (branch_target (program ! pc)))"
  unfolding is_lead_def marks_def by blast

lemma inside_block:
  assumes g: "build_cfg program = Inr g" and pc: "pc < length program"
    and not: "block_last (length program) (leaders g) (block_of g ! pc) \<noteq> pc"
  shows "pc + 1 < length program" and "block_of g ! (pc + 1) = block_of g ! pc"
    and "flow program pc = [pc + 1]"
proof -
  from not block_facts(4) [OF g pc] pc
  show lt: "pc + 1 < length program" by auto
  from not block_facts(4) [OF g pc] have no: "\<not> is_lead program (pc + 1)" by simp
  show "block_of g ! (pc + 1) = block_of g ! pc"
    using build_cfg_shape(3) [OF g] lt no by simp
  from no terminator_leads [OF lt] have "\<not> is_terminator (program ! pc)" by blast
  then show "flow program pc = [pc + 1]" by (simp add: flow_def is_terminator_def Let_def)
qed

lemma block_run:
  assumes g: "build_cfg program = Inr g" and pc: "pc < length program"
    and "pc \<le> j" "j \<le> block_last (length program) (leaders g) (block_of g ! pc)"
  shows "j < length program \<and> block_of g ! j = block_of g ! pc"
  using assms(3,4)
proof (induction j rule: dec_induct)
  case base
  show ?case using pc by simp
next
  case (step j)
  then have j: "j < length program" "block_of g ! j = block_of g ! pc" by auto
  with step.prems have "block_last (length program) (leaders g) (block_of g ! j) \<noteq> j" by simp
  from inside_block [OF g j(1) this] j(2) show ?case by simp
qed

lemma leader_block:
  assumes g: "build_cfg program = Inr g" and b: "b < exit_node g"
  shows "leaders g ! b < length program" and "block_of g ! (leaders g ! b) = b"
    and "is_lead program (leaders g ! b)"
proof -
  note shape = build_cfg_shape [OF g]
  from b shape(4) have "leaders g ! b \<in> set (leaders g)" by simp
  then show lt: "leaders g ! b < length program" and lead: "is_lead program (leaders g ! b)"
    using shape(1) by auto
  have "leaders g ! (block_of g ! (leaders g ! b)) = leaders g ! b" by (rule block_facts(5) [OF g lt lead])
  moreover have "block_of g ! (leaders g ! b) < exit_node g" by (rule block_facts(1) [OF g lt])
  moreover have "distinct (leaders g)" using shape(1) by simp
  ultimately show "block_of g ! (leaders g ! b) = b" using b shape(4) by (metis nth_eq_iff_index_eq)
qed

text \<open>The node of the graph a PC belongs to, and where a node starts.\<close>

definition node_of :: "Instruction list \<Rightarrow> Cfg \<Rightarrow> nat \<Rightarrow> nat" where
  "node_of program g pc = (if pc < length program then block_of g ! pc else exit_node g)"

definition node_start :: "Instruction list \<Rightarrow> Cfg \<Rightarrow> nat \<Rightarrow> nat" where
  "node_start program g b = (if b < exit_node g then leaders g ! b else length program)"

lemma end_of_block:
  assumes g: "build_cfg program = Inr g" and pc: "pc < length program"
    and last: "block_last (length program) (leaders g) (block_of g ! pc) = pc"
  shows "succs g ! (block_of g ! pc) = List.map (node_of program g) (flow program pc)"
    and "q \<in> set (flow program pc) \<Longrightarrow> q \<le> length program \<and> node_start program g (node_of program g q) = q"
proof -
  note shape = build_cfg_shape [OF g]
  have target: "unat (branch_target (program ! pc)) < length program" if "opcode (program ! pc) = Bra"
    using shape(8) [OF pc] that by (simp add: out_of_range_def)
  have next_pc: "pc + 1 = length program \<or> pc + 1 < length program \<and> is_lead program (pc + 1)"
    using block_facts(4) [OF g pc] last pc by auto
  show "succs g ! (block_of g ! pc) = List.map (node_of program g) (flow program pc)"
    using shape(7) [OF block_facts(1) [OF g pc]] last target shape(4)
    by (auto simp: block_succs_def Let_def flow_def node_of_def fallthrough_def)
  assume q: "q \<in> set (flow program pc)"
  have "q = length program \<or> q < length program \<and> is_lead program q"
    using q target target_leads [OF pc] next_pc
    by (auto simp: flow_def Let_def split: if_splits)
  then show "q \<le> length program \<and> node_start program g (node_of program g q) = q"
    using block_facts(1,5) [OF g] by (auto simp: node_of_def node_start_def)
qed

text \<open>Every block has a last instruction that belongs to it.\<close>

lemma block_end:
  assumes g: "build_cfg program = Inr g" and b: "b < exit_node g"
  obtains pc where "pc < length program" "block_of g ! pc = b" "leaders g ! b \<le> pc"
    "block_last (length program) (leaders g) (block_of g ! pc) = pc"
proof -
  let ?k = "leaders g ! b"
  note L = leader_block [OF g b]
  let ?e = "block_last (length program) (leaders g) b"
  have "?k \<le> ?e" using block_facts(3) [OF g L(1)] L(2) by simp
  with block_run [OF g L(1), of ?e] L(2) have "?e < length program" "block_of g ! ?e = b" by auto
  with \<open>?k \<le> ?e\<close> that show ?thesis by simp
qed

text \<open>The contract of a graph builder, and \<open>build_cfg\<close> as its provider.\<close>

locale graph_builder =
  fixes build :: "'p \<Rightarrow> (Cfg, 'e) result"
  assumes succs_length: "build p = Inr g \<Longrightarrow> length (succs g) = exit_node g + 1"
    and exit_succs: "build p = Inr g \<Longrightarrow> succs g ! exit_node g = []"
    and has_succs: "build p = Inr g \<Longrightarrow> b < exit_node g \<Longrightarrow> succs g ! b \<noteq> []"
    and succs_nodes: "build p = Inr g \<Longrightarrow> b < exit_node g \<Longrightarrow> s \<in> set (succs g ! b) \<Longrightarrow> s \<le> exit_node g"
begin

lemma built_ok: "build p = Inr g \<Longrightarrow> cfg_ok g"
  by (simp add: cfg_ok_def succs_length exit_succs has_succs succs_nodes)

end

lemma flow_not_empty: "flow program pc \<noteq> []"
  by (simp add: flow_def Let_def)

lemma block_has_succs:
  assumes "build_cfg program = Inr g" "b < exit_node g"
  shows "succs g ! b \<noteq> [] \<and> (\<forall>s \<in> set (succs g ! b). s \<le> exit_node g)"
proof -
  from block_end [OF assms] obtain pc where pc: "pc < length program" "block_of g ! pc = b"
    "block_last (length program) (leaders g) (block_of g ! pc) = pc" by metis
  from end_of_block(1) [OF assms(1) pc(1,3)] pc(2) block_facts(1) [OF assms(1)]
  show ?thesis by (auto simp: flow_not_empty node_of_def less_imp_le)
qed

interpretation program_graph: graph_builder build_cfg
  by unfold_locales (use build_cfg_shape(5,6) block_has_succs in auto)

section \<open>Paths of instructions and paths of blocks\<close>

lemma path_covers_block:
  assumes g: "build_cfg program = Inr g"
  shows "path_to_exit program pc path \<Longrightarrow> pc < length program \<Longrightarrow>
    pc \<le> j \<Longrightarrow> j \<le> block_last (length program) (leaders g) (block_of g ! pc) \<Longrightarrow> j \<in> set path"
proof (induction rule: path_to_exit.induct)
  case at_exit
  then show ?case by simp
next
  case (go pc q path)
  show ?case
  proof (cases "j = pc")
    case False
    with go.prems have "block_last (length program) (leaders g) (block_of g ! pc) \<noteq> pc" by simp
    from inside_block [OF g go.hyps(1) this] go.hyps(2) go.IH go.prems False show ?thesis by auto
  qed simp
qed

lemma block_path_of_path:
  assumes g: "build_cfg program = Inr g"
  shows "path_to_exit program pc path \<Longrightarrow>
    \<exists>blocks. block_path g (node_of program g pc) blocks \<and>
      (\<forall>d \<in> set blocks. d < exit_node g \<longrightarrow> d \<noteq> node_of program g pc \<longrightarrow>
         (\<forall>q < length program. block_of g ! q = d \<longrightarrow> q \<in> set path))"
proof (induction rule: path_to_exit.induct)
  case at_exit
  then show ?case by (intro exI [of _ "[exit_node g]"]) (auto simp: node_of_def intro: at_end)
next
  case (go pc p path)
  let ?b = "block_of g ! pc"
  have node: "node_of program g pc = ?b" using go.hyps(1) by (simp add: node_of_def)
  from go.IH obtain blocks where IH: "block_path g (node_of program g p) blocks"
    "\<And>d q. d \<in> set blocks \<Longrightarrow> d < exit_node g \<Longrightarrow> d \<noteq> node_of program g p \<Longrightarrow> q < length program \<Longrightarrow>
       block_of g ! q = d \<Longrightarrow> q \<in> set path" by blast
  show ?case
  proof (cases "block_last (length program) (leaders g) ?b = pc")
    case False
    with inside_block [OF g go.hyps(1)] go.hyps(2) have "node_of program g p = ?b"
      by (simp add: node_of_def)
    with IH node show ?thesis by (intro exI [of _ blocks]) auto
  next
    case True
    note ends = end_of_block [OF g go.hyps(1) True]
    have "block_path g ?b (?b # blocks)"
      using block_facts(1) [OF g go.hyps(1)] ends(1) go.hyps(2) IH(1) by (intro via) auto
    moreover have "q \<in> set (pc # path)"
      if d: "d \<in> set (?b # blocks)" "d < exit_node g" "d \<noteq> ?b" "q < length program" "block_of g ! q = d" for d q
    proof (cases "d = node_of program g p")
      case False
      with d IH(2) show ?thesis by auto
    next
      case node_p: True
      then have p: "p < length program" "block_of g ! p = d"
        using d(2) by (auto simp: node_of_def split: if_splits)
      have "leaders g ! d = p" using ends(2) [OF go.hyps(2)] node_p d(2) by (simp add: node_start_def)
      with block_facts(2,3) [OF g d(4)] d(5) p(2)
      have "p \<le> q" "q \<le> block_last (length program) (leaders g) (block_of g ! p)" by auto
      from path_covers_block [OF g go.hyps(3) p(1) this] show ?thesis by simp
    qed
    ultimately show ?thesis using node by (intro exI [of _ "?b # blocks"]) auto
  qed
qed

text \<open>From any instruction of a block, control runs to the end of the block.\<close>

lemma path_to_block_end:
  assumes g: "build_cfg program = Inr g" and pc: "pc < length program"
    and e: "e = block_last (length program) (leaders g) (block_of g ! pc)"
    and rest: "path_to_exit program e (e # rest)"
  shows "\<exists>path. path_to_exit program pc path \<and>
    (\<forall>q \<in> set path. q \<in> set rest \<or> q < length program \<and> block_of g ! q = block_of g ! pc)"
proof -
  have "pc \<le> e" using block_facts(3) [OF g pc] e by simp
  then show ?thesis using pc e rest
  proof (induction pc rule: inc_induct)
    case base
    then show ?case by auto
  next
    case (step k)
    then have ne: "block_last (length program) (leaders g) (block_of g ! k) \<noteq> k" by simp
    from inside_block [OF g \<open>k < length program\<close> ne] step
    obtain path where "path_to_exit program (k + 1) path"
      "\<forall>q \<in> set path. q \<in> set rest \<or> q < length program \<and> block_of g ! q = block_of g ! k"
      by auto
    with inside_block(3) [OF g \<open>k < length program\<close> ne] \<open>k < length program\<close> show ?case
      by (intro exI [of _ "k # path"]) (auto intro: go)
  qed
qed

lemma path_of_block_path:
  assumes g: "build_cfg program = Inr g"
  shows "block_path g b blocks \<Longrightarrow>
    \<exists>path. path_to_exit program (node_start program g b) path \<and>
      (\<forall>q \<in> set path. q < length program \<longrightarrow> block_of g ! q \<in> set blocks)"
proof (induction rule: block_path.induct)
  case at_end
  then show ?case
    by (intro exI [of _ "[length program]"]) (auto simp: node_start_def path_to_exit.at_exit)
next
  case (via b s blocks)
  then obtain path where path: "path_to_exit program (node_start program g s) path"
    "\<forall>q \<in> set path. q < length program \<longrightarrow> block_of g ! q \<in> set blocks" by blast
  from block_end [OF g via.hyps(1)] obtain e where e: "e < length program" "block_of g ! e = b"
    "block_last (length program) (leaders g) (block_of g ! e) = e" by metis
  note ends = end_of_block [OF g e(1,3)]
  from ends(1) via.hyps(2) e(2) obtain q where q: "q \<in> set (flow program e)" "s = node_of program g q"
    by auto
  with ends(2) path(1) have "path_to_exit program q path" by simp
  with go [OF e(1) q(1)] have to_end: "path_to_exit program e (e # path)" by simp
  note L = leader_block [OF g via.hyps(1)]
  from path_to_block_end [OF g L(1) _ to_end] L(2) e(2,3)
  obtain path' where "path_to_exit program (leaders g ! b) path'"
    "\<forall>q \<in> set path'. q \<in> set path \<or> q < length program \<and> block_of g ! q = b" by auto
  with path(2) via.hyps(1) show ?case
    by (intro exI [of _ path']) (auto simp: node_start_def)
qed

end
