(* ===== verification/Post_Dominators.thy ===== *)
theory Post_Dominators
  imports Control_Flow
begin

text \<open>
  The dataflow analysis of \<open>Reconvergence\<close> against its specification: the loop returns, the sets
  it returns are the post-dominators, and the reconvergence PC of a branch is the nearest
  instruction that every path from the branch to the exit must cross.
\<close>

section \<open>The post-dominators of a block\<close>

definition post_doms :: "Cfg \<Rightarrow> nat \<Rightarrow> nat set" where
  "post_doms g b = {d. d \<le> exit_node g \<and> (\<forall>path. block_path g b path \<longrightarrow> d \<in> set path)}"

lemma post_domsD: "d \<in> post_doms g b \<Longrightarrow> block_path g b path \<Longrightarrow> d \<in> set path"
  unfolding post_doms_def by blast

lemma post_doms_exit: "post_doms g (exit_node g) = {exit_node g}"
  by (auto simp: post_doms_def block_path_exit)

lemma post_doms_finite: "finite (post_doms g b)"
  by (rule finite_subset [of _ "{..exit_node g}"]) (auto simp: post_doms_def)

lemma post_doms_step:
  assumes "b < exit_node g" "cfg_ok g"
  shows "post_doms g b \<subseteq> insert b (\<Inter>s \<in> set (succs g ! b). post_doms g s)"
  using assms via [OF assms(1)] unfolding post_doms_def cfg_ok_def by fastforce

text \<open>The state of the loop: a sequence of well-formed sets above the answer, still shrinking.\<close>

definition next_elems :: "Cfg \<Rightarrow> BlockSet list \<Rightarrow> nat \<Rightarrow> nat set" where
  "next_elems g pdom b = insert b (\<Inter>s \<in> set (succs g ! b). bs_elems (pdom ! s))"

definition pdom_inv :: "Cfg \<Rightarrow> BlockSet list \<Rightarrow> bool" where
  "pdom_inv g pdom \<longleftrightarrow> length pdom = exit_node g + 1 \<and>
     (\<forall>b \<le> exit_node g. bs_ok (exit_node g + 1) (pdom ! b) \<and> post_doms g b \<subseteq> bs_elems (pdom ! b)) \<and>
     bs_elems (pdom ! exit_node g) = {exit_node g} \<and>
     (\<forall>b < exit_node g. next_elems g pdom b \<subseteq> bs_elems (pdom ! b))"

lemma pdom_next_elems:
  assumes ok: "cfg_ok g" and b: "b < exit_node g"
    and sets: "\<And>s. s \<le> exit_node g \<Longrightarrow> bs_ok (exit_node g + 1) (pdom ! s)"
  shows "bs_ok (exit_node g + 1) (pdom_next g pdom b)"
    and "bs_elems (pdom_next g pdom b) = next_elems g pdom b"
proof -
  let ?n = "exit_node g + 1"
  have S: "succs g ! b \<noteq> []" "\<And>s. s \<in> set (succs g ! b) \<Longrightarrow> bs_ok ?n (pdom ! s)"
    using ok b sets by (auto simp: cfg_ok_def)
  then have sub: "(\<Inter>s \<in> set (succs g ! b). bs_elems (pdom ! s)) \<subseteq> {..<?n}"
    using bs_elems_less by (metis INF_lower2 hd_in_set)
  let ?meets = "fold (\<lambda>s next. bs_intersect next (pdom ! s)) (succs g ! b) (bs_new ?n True)"
  have F: "bs_ok ?n ?meets" "bs_elems ?meets = (\<Inter>s \<in> set (succs g ! b). bs_elems (pdom ! s))"
    using blocks.fold_meet [where n = ?n and s = "bs_new ?n True" and xs = "succs g ! b"
        and f = "\<lambda>s. pdom ! s", OF bs_new_ok S(2)] sub
    by (auto simp: Int_absorb1)
  have "b < ?n" using b by simp
  from bs_insert_ok [OF F(1) this] F(2)
  show "bs_ok ?n (pdom_next g pdom b)" "bs_elems (pdom_next g pdom b) = next_elems g pdom b"
    by (simp_all add: pdom_next_def next_elems_def)
qed

lemma next_elems_mono:
  "(\<And>s. s \<in> set (succs g ! b) \<Longrightarrow> bs_elems (p ! s) \<subseteq> bs_elems (q ! s)) \<Longrightarrow>
     next_elems g p b \<subseteq> next_elems g q b"
  unfolding next_elems_def by blast

lemma pdom_inv_visit:
  assumes inv: "pdom_inv g pdom" and ok: "cfg_ok g" and b: "b < exit_node g"
  shows "pdom_inv g (pdom[b := pdom_next g pdom b])"
    and "pdom_next g pdom b \<noteq> pdom ! b \<Longrightarrow> bs_count (pdom_next g pdom b) < bs_count (pdom ! b)"
proof -
  let ?next = "pdom_next g pdom b" and ?pdom = "pdom[b := pdom_next g pdom b]"
  have sets: "\<And>s. s \<le> exit_node g \<Longrightarrow> bs_ok (exit_node g + 1) (pdom ! s)"
    using inv by (simp add: pdom_inv_def)
  note N = pdom_next_elems [OF ok b sets]
  have shrink: "bs_elems (?pdom ! s) \<subseteq> bs_elems (pdom ! s)" if "s \<le> exit_node g" for s
    using that inv N b by (cases "s = b") (simp_all add: pdom_inv_def)
  have above: "post_doms g b \<subseteq> next_elems g pdom b"
  proof -
    have "post_doms g s \<subseteq> bs_elems (pdom ! s)" if "s \<in> set (succs g ! b)" for s
      using that ok b inv by (auto simp: cfg_ok_def pdom_inv_def)
    then show ?thesis using post_doms_step [OF b ok] unfolding next_elems_def by blast
  qed
  have "next_elems g ?pdom c \<subseteq> bs_elems (?pdom ! c)" if c: "c < exit_node g" for c
  proof -
    have "next_elems g ?pdom c \<subseteq> next_elems g pdom c"
      using shrink ok c by (intro next_elems_mono) (auto simp: cfg_ok_def)
    moreover have "next_elems g pdom c \<subseteq> bs_elems (pdom ! c)" using inv c by (simp add: pdom_inv_def)
    ultimately have "next_elems g ?pdom c \<subseteq> bs_elems (pdom ! c)" by blast
    with \<open>next_elems g ?pdom c \<subseteq> next_elems g pdom c\<close> N inv c show ?thesis
      by (cases "c = b") (simp_all add: pdom_inv_def)
  qed
  with inv N above b show "pdom_inv g ?pdom"
    by (auto simp: pdom_inv_def nth_list_update)
  assume "?next \<noteq> pdom ! b"
  with blocks.number_less [OF N(1) sets] N(2) inv b
  show "bs_count ?next < bs_count (pdom ! b)" by (simp add: pdom_inv_def)
qed

section \<open>The loop returns the post-dominators\<close>

definition pdom_weight :: "BlockSet list \<Rightarrow> nat" where
  "pdom_weight pdom = sum_list (List.map bs_count pdom)"

lemma weight_update:
  "b < length pdom \<Longrightarrow> bs_count s < bs_count (pdom ! b) \<Longrightarrow> pdom_weight (pdom[b := s]) < pdom_weight pdom"
  unfolding pdom_weight_def
proof (induction pdom arbitrary: b)
  case Nil
  then show ?case by simp
next
  case (Cons t pdom)
  then show ?case by (cases b) auto
qed

lemma pdom_round_progress:
  assumes inv: "pdom_inv g pdom" and ok: "cfg_ok g" and r: "pdom_round g pdom = (pdom', changed)"
  shows "pdom_inv g pdom'"
    and "changed \<Longrightarrow> pdom_weight pdom' < pdom_weight pdom"
    and "\<not> changed \<Longrightarrow> pdom' = pdom \<and> (\<forall>b < exit_node g. pdom_next g pdom b = pdom ! b)"
proof -
  let ?P = "\<lambda>k (p, ch). pdom_inv g p \<and> (if ch then pdom_weight p < pdom_weight pdom
    else p = pdom \<and> (\<forall>b < k. pdom_next g pdom b = pdom ! b))"
  have "?P (exit_node g) (fold (pdom_visit g) [0..<exit_node g] (pdom, False))"
  proof (rule fold_upt_invariant)
    show "?P 0 (pdom, False)" using inv by simp
  next
    fix k t assume k: "k < exit_node g" and P: "?P k t"
    obtain p ch where t: "t = (p, ch)" by force
    with P have I: "pdom_inv g p" by simp
    then have "k < length p" using k by (simp add: pdom_inv_def)
    with pdom_inv_visit [OF I ok k] weight_update P t
    show "?P (Suc k) (pdom_visit g k t)"
      by (auto simp: pdom_visit_def Let_def less_Suc_eq intro: less_trans split: if_splits)
  qed
  with r show "pdom_inv g pdom'" "changed \<Longrightarrow> pdom_weight pdom' < pdom_weight pdom"
    "\<not> changed \<Longrightarrow> pdom' = pdom \<and> (\<forall>b < exit_node g. pdom_next g pdom b = pdom ! b)"
    by (auto simp: pdom_round_def)
qed

lemma pdom_loop_returns:
  assumes "pdom_inv g pdom" "cfg_ok g"
  shows "\<exists>result. pdom_loop g pdom = Some result \<and> pdom_inv g result \<and>
    (\<forall>b < exit_node g. pdom_next g result b = result ! b)"
  using assms(1)
proof (induction pdom rule: measure_induct_rule [where f = pdom_weight])
  case (less pdom)
  obtain pdom' changed where r: "pdom_round g pdom = (pdom', changed)" by force
  note P = pdom_round_progress [OF less.prems assms(2) r]
  show ?case
  proof (cases changed)
    case True
    with less.IH P r show ?thesis by (subst pdom_loop.simps) simp
  next
    case False
    with P r show ?thesis by (subst pdom_loop.simps) auto
  qed
qed

lemma pdom_inv_start:
  assumes ok: "cfg_ok g"
  shows "pdom_inv g ((replicate (exit_node g + 1) (bs_new (exit_node g + 1) True))
     [exit_node g := bs_insert (exit_node g) (bs_new (exit_node g + 1) False)])" (is "pdom_inv g ?start")
proof -
  let ?n = "exit_node g + 1"
  have at: "?start ! b = (if b = exit_node g then bs_insert b (bs_new ?n False) else bs_new ?n True)"
    if "b \<le> exit_node g" for b
    using that by (simp add: nth_list_update del: replicate_Suc)
  have elems: "bs_ok ?n (?start ! b)"
    "bs_elems (?start ! b) = (if b = exit_node g then {exit_node g} else {..exit_node g})"
    if "b \<le> exit_node g" for b
    using at [OF that] bs_insert_ok [OF bs_new_ok, of "exit_node g" ?n False]
    by (auto simp: lessThan_Suc_atMost)
  have "next_elems g ?start b \<subseteq> {..exit_node g}" if b: "b < exit_node g" for b
  proof -
    from ok b obtain s where s: "s \<in> set (succs g ! b)" "s \<le> exit_node g"
      by (auto simp: cfg_ok_def) (metis hd_in_set)
    have "bs_elems (?start ! s) \<subseteq> {..exit_node g}" using elems(2) [OF s(2)] by auto
    with s b show ?thesis unfolding next_elems_def by auto
  qed
  then have "\<forall>b < exit_node g. next_elems g ?start b \<subseteq> bs_elems (?start ! b)"
    using elems(2) by simp
  moreover have "post_doms g b \<subseteq> bs_elems (?start ! b)" if "b \<le> exit_node g" for b
    using elems(2) [OF that] post_doms_exit by (auto simp: post_doms_def)
  moreover have "length ?start = ?n" by (simp del: replicate_Suc)
  moreover have "bs_elems (?start ! exit_node g) = {exit_node g}" using elems(2) [of "exit_node g"] by simp
  ultimately show ?thesis using elems(1) unfolding pdom_inv_def by blast
qed

text \<open>At the fixpoint, membership means that every path passes through.\<close>

lemma fixpoint_on_path:
  assumes inv: "pdom_inv g pdom" and ok: "cfg_ok g"
    and fix_point: "\<And>b. b < exit_node g \<Longrightarrow> pdom_next g pdom b = pdom ! b"
  shows "block_path g b path \<Longrightarrow> d \<in> bs_elems (pdom ! b) \<Longrightarrow> d \<in> set path"
proof (induction rule: block_path.induct)
  case at_end
  with inv show ?case by (simp add: pdom_inv_def)
next
  case (via b s path)
  have "bs_elems (pdom ! b) = next_elems g pdom b"
    using pdom_next_elems(2) [OF ok via.hyps(1), of pdom] fix_point [OF via.hyps(1)] inv
    by (simp add: pdom_inv_def)
  with via show ?case by (auto simp: next_elems_def)
qed

lemma post_dominators_correct:
  assumes ok: "cfg_ok g"
  shows "\<exists>pdom. post_dominators g = Some pdom \<and> length pdom = exit_node g + 1 \<and>
    (\<forall>b \<le> exit_node g. bs_ok (exit_node g + 1) (pdom ! b) \<and> bs_elems (pdom ! b) = post_doms g b)"
proof -
  from pdom_loop_returns [OF pdom_inv_start [OF ok] ok]
  obtain pdom where pdom: "post_dominators g = Some pdom" "pdom_inv g pdom"
    "\<And>b. b < exit_node g \<Longrightarrow> pdom_next g pdom b = pdom ! b"
    by (auto simp: post_dominators_def Let_def)
  have "bs_elems (pdom ! b) \<subseteq> post_doms g b" if "b \<le> exit_node g" for b
  proof
    fix d assume d: "d \<in> bs_elems (pdom ! b)"
    moreover have "bs_ok (exit_node g + 1) (pdom ! b)" using pdom(2) that by (simp add: pdom_inv_def)
    from bs_elems_less [OF this] d have "d \<le> exit_node g" by auto
    ultimately show "d \<in> post_doms g b"
      using fixpoint_on_path [OF pdom(2) ok pdom(3)] unfolding post_doms_def by blast
  qed
  with pdom show ?thesis by (auto simp: pdom_inv_def)
qed

section \<open>The immediate post-dominator\<close>

text \<open>A block that reaches the exit has a path that does not come back to it.\<close>

lemma simple_path:
  assumes "block_path g b path" "b < exit_node g"
  obtains s rest where "s \<in> set (succs g ! b)" "block_path g s rest" "b \<notin> set rest"
proof -
  from block_path_starts [OF assms(1)] have "b \<in> set path" by (metis hd_in_set)
  from block_path_suffix [OF assms(1) this] obtain rest where
    "block_path g b rest" "b \<notin> set (tl rest)" by blast
  then show thesis using assms(2) that by (auto elim: block_pathE)
qed

lemma post_doms_trans:
  "d \<in> post_doms g b \<Longrightarrow> e \<in> post_doms g d \<Longrightarrow> e \<in> post_doms g b"
  unfolding post_doms_def using block_path_suffix by fastforce

lemma post_doms_antisym:
  assumes path: "block_path g b path" and b: "b < exit_node g" and d: "d \<in> post_doms g b" "d \<noteq> b"
  shows "b \<notin> post_doms g d"
proof
  assume bd: "b \<in> post_doms g d"
  from simple_path [OF path b] obtain s rest where
    s: "s \<in> set (succs g ! b)" "block_path g s rest" "b \<notin> set rest" by metis
  have "d \<in> set (b # rest)" using post_domsD [OF d(1) via [OF b s(1,2)]] .
  then have "d \<in> set rest" using d(2) by simp
  from block_path_suffix [OF s(2) this] obtain tail where "block_path g d tail" "set tail \<subseteq> set rest"
    by fastforce
  with bd s(3) show False unfolding post_doms_def by blast
qed

text \<open>The first strict post-dominator on a path is post-dominated by all the others.\<close>

lemma nearest_exists:
  assumes path: "block_path g b path" and b: "b < exit_node g"
  shows "\<exists>d \<in> post_doms g b - {b}. post_doms g d = post_doms g b - {b}"
proof -
  let ?S = "post_doms g b - {b}"
  from simple_path [OF path b] obtain s rest where
    s: "s \<in> set (succs g ! b)" "block_path g s rest" "b \<notin> set rest" by metis
  note full = via [OF b s(1,2)]
  have "exit_node g \<in> set (b # rest)" using block_path_last [OF full] .
  moreover have "exit_node g \<in> ?S" using b block_path_last by (auto simp: post_doms_def)
  ultimately have "\<exists>x \<in> set (b # rest). x \<in> ?S" by blast
  then obtain before d after where split: "b # rest = before @ d # after" "d \<in> ?S"
    "\<forall>x \<in> set before. x \<notin> ?S"
    by (rule split_list_first_propE)
  have "e \<in> post_doms g d" if e: "e \<in> ?S" for e
  proof (rule ccontr)
    assume "e \<notin> post_doms g d"
    with e obtain other where other: "block_path g d other" "e \<notin> set other"
      by (auto simp: post_doms_def)
    from full split(1) have "block_path g b (before @ d # after)" by simp
    from post_domsD [OF _ block_path_replace [OF this other(1)]] e have "e \<in> set (before @ other)"
      by blast
    with other(2) have "e \<in> set before" by simp
    with split(3) e show False by blast
  qed
  moreover have "post_doms g d \<subseteq> ?S"
    using split(2) post_doms_trans post_doms_antisym [OF path b] by blast
  ultimately show ?thesis using split(2) by blast
qed

lemma immediate_post_dominator_correct:
  assumes all: "\<forall>b \<le> exit_node g. bs_ok (exit_node g + 1) (pdom ! b) \<and> bs_elems (pdom ! b) = post_doms g b"
    and b: "b < exit_node g"
  defines "d \<equiv> immediate_post_dominator pdom b"
  shows "block_path g b path \<Longrightarrow> d \<in> post_doms g b - {b} \<and> post_doms g d = post_doms g b - {b}"
    and "\<nexists>path. block_path g b path \<Longrightarrow> c < exit_node g \<Longrightarrow> c \<noteq> b \<Longrightarrow> \<nexists>path. block_path g c path \<Longrightarrow>
      d = exit_node g"
proof -
  let ?n = "exit_node g + 1"
  let ?strict = "bs_erase b (pdom ! b)" and ?S = "post_doms g b - {b}"
  note sets = all [rule_format]
  have pb: "bs_ok ?n (pdom ! b)" "bs_elems (pdom ! b) = post_doms g b" using sets [of b] b less_imp_le by blast+
  have bn: "b < ?n" using b by simp
  have strict: "bs_ok ?n ?strict" "bs_elems ?strict = ?S"
    by (rule bs_erase_ok(1) [OF pb(1) bn]) (simp only: bs_erase_ok(2) [OF pb(1) bn] pb(2))
  let ?Q = "\<lambda>d. bs_contains ?strict d \<and> bs_count (pdom ! d) = bs_count ?strict"
  have Q: "?Q e \<longleftrightarrow> e \<in> ?S \<and> card (post_doms g e) = card ?S" if "e < ?n" for e
  proof -
    have "bs_ok ?n (pdom ! e)" "bs_elems (pdom ! e) = post_doms g e" using sets [of e] that by simp_all
    then show ?thesis
      by (simp only: bs_count_ok [OF strict(1)] bs_count_ok [of ?n "pdom ! e"]
            bs_contains_elems [OF strict(1) that] strict(2))
  qed
  have size: "set_size ?strict = ?n" by (rule bs_ok_size [OF strict(1)])
  have d: "d = (case find ?Q [0..<?n] of Some d \<Rightarrow> d | None \<Rightarrow> exit_node g)"
    unfolding d_def immediate_post_dominator_def Let_def size add_diff_cancel_right' by (rule refl)
  show "d \<in> ?S \<and> post_doms g d = ?S" if path: "block_path g b path"
  proof -
    from nearest_exists [OF path b] obtain x where x: "x \<in> ?S" "post_doms g x = ?S" by blast
    then have "x < ?n" by (auto simp: post_doms_def)
    with Q x have "?Q x" by simp
    with \<open>x < ?n\<close> have "find ?Q [0..<?n] \<noteq> None" by (auto simp: find_None_iff simp del: upt_Suc)
    then obtain y where y: "find ?Q [0..<?n] = Some y" by blast
    then have "y < ?n" "?Q y" by (auto dest: find_SomeD simp del: upt_Suc)
    with Q have S: "y \<in> ?S" "card (post_doms g y) = card ?S" by auto
    have "post_doms g y \<subseteq> ?S"
      using S(1) post_doms_trans post_doms_antisym [OF path b] by blast
    with S(2) have "post_doms g y = ?S" by (simp add: card_subset_eq post_doms_finite)
    with S(1) d y show ?thesis by simp
  qed
  show "d = exit_node g"
    if no: "\<nexists>path. block_path g b path" and c: "c < exit_node g" "c \<noteq> b" "\<nexists>path. block_path g c path"
  proof -
    have S: "?S = {..exit_node g} - {b}" using no by (auto simp: post_doms_def)
    then have card_S: "card ?S = exit_node g" using b by (simp add: card_Diff_singleton)
    have "\<not> ?Q e" if e: "e < ?n" for e
    proof
      assume "?Q e"
      with Q [OF e] card_S have card_e: "card (post_doms g e) = exit_node g" by simp
      show False
      proof (cases "\<exists>path. block_path g e path")
        case False
        then have "post_doms g e = {..exit_node g}" by (auto simp: post_doms_def)
        with card_e show False by simp
      next
        case True
        then obtain path where path: "block_path g e path" by blast
        have "\<exists>tail. block_path g x tail" if "x \<in> post_doms g e" for x
          using that path block_path_suffix unfolding post_doms_def by blast
        then have "post_doms g e \<subseteq> {..exit_node g} - {b, c}"
          using no c(3) by (auto simp: post_doms_def)
        then have "card (post_doms g e) \<le> card ({..exit_node g} - {b, c})"
          by (intro card_mono) auto
        also have "\<dots> = exit_node g + 1 - card {b, c}"
          using b c(1) by (subst card_Diff_subset) auto
        finally show False using card_e c(2) b by simp
      qed
    qed
    then have "find ?Q [0..<?n] = None" by (auto simp: find_None_iff simp del: upt_Suc)
    with d show ?thesis by simp
  qed
qed

section \<open>What the annotation says of the program\<close>

text \<open>The instructions, other than where it starts, that every path from a branch crosses.\<close>

definition must_cross :: "Instruction list \<Rightarrow> nat \<Rightarrow> nat set" where
  "must_cross program pc =
     {q. q < length program \<and> (\<forall>path. path_to_exit program pc (pc # path) \<longrightarrow> q \<in> set path)}"

definition reaches_exit :: "Instruction list \<Rightarrow> nat \<Rightarrow> bool" where
  "reaches_exit program pc \<longleftrightarrow> (\<exists>path. path_to_exit program pc path)"

lemma block_path_from:
  assumes g: "build_cfg program = Inr g" and pc: "pc < length program"
    and path: "path_to_exit program pc path"
  shows "\<exists>blocks. block_path g (block_of g ! pc) blocks"
  using block_path_of_path [OF g path] pc by (auto simp: node_of_def)

text \<open>A path of blocks out of the block of its last instruction is a path of instructions.\<close>

lemma follow_blocks:
  assumes g: "build_cfg program = Inr g" and pc: "pc < length program"
    and last: "block_last (length program) (leaders g) (block_of g ! pc) = pc"
    and s: "s \<in> set (succs g ! (block_of g ! pc))" "block_path g s blocks"
  shows "\<exists>path. path_to_exit program pc (pc # path) \<and>
    (\<forall>q \<in> set path. q < length program \<longrightarrow> block_of g ! q \<in> set blocks)"
proof -
  note ends = end_of_block [OF g pc last]
  from ends(1) s(1) obtain p where p: "p \<in> set (flow program pc)" "s = node_of program g p" by auto
  from path_of_block_path [OF g s(2)] ends(2) [OF p(1)] p(2) obtain path where
    "path_to_exit program p path" "\<forall>q \<in> set path. q < length program \<longrightarrow> block_of g ! q \<in> set blocks"
    by auto
  with go [OF pc p(1)] show ?thesis by blast
qed

text \<open>
  For the last instruction of a block, the instructions every path must cross are the
  instructions of the block's strict post-dominators.
\<close>

lemma must_cross_blocks:
  assumes g: "build_cfg program = Inr g" and pc: "pc < length program"
    and last: "block_last (length program) (leaders g) (block_of g ! pc) = pc"
    and reach: "reaches_exit program pc"
  shows "q \<in> must_cross program pc \<longleftrightarrow>
    q < length program \<and> block_of g ! q \<in> post_doms g (block_of g ! pc) - {block_of g ! pc}"
proof -
  let ?b = "block_of g ! pc"
  note B = block_facts(1) [OF g pc]
  note follow = follow_blocks [OF g pc last]
  show ?thesis
  proof
    assume q: "q \<in> must_cross program pc"
    then have lt: "q < length program"
      and all: "\<And>path. path_to_exit program pc (pc # path) \<Longrightarrow> q \<in> set path"
      by (auto simp: must_cross_def)
    let ?d = "block_of g ! q"
    from reach block_path_from [OF g pc] obtain blocks0 where "block_path g ?b blocks0"
      by (auto simp: reaches_exit_def)
    from simple_path [OF this B] obtain s rest where
      "s \<in> set (succs g ! ?b)" "block_path g s rest" "?b \<notin> set rest" by metis
    with follow all lt have "?d \<noteq> ?b" by metis
    moreover have "?d \<in> set blocks" if "block_path g ?b blocks" for blocks
    proof -
      from that B obtain s rest where "s \<in> set (succs g ! ?b)" "block_path g s rest" "blocks = ?b # rest"
        by (auto elim: block_pathE)
      with follow all lt show ?thesis by (metis list.set_intros(2))
    qed
    ultimately show "q < length program \<and> ?d \<in> post_doms g ?b - {?b}"
      using lt block_facts(1) [OF g lt] by (simp add: post_doms_def less_imp_le)
  next
    assume q: "q < length program \<and> block_of g ! q \<in> post_doms g ?b - {?b}"
    have "q \<in> set path" if path: "path_to_exit program pc (pc # path)" for path
    proof -
      from block_path_of_path [OF g path] pc obtain blocks where
        "block_path g ?b blocks"
        "\<forall>d \<in> set blocks. d < exit_node g \<longrightarrow> d \<noteq> ?b \<longrightarrow>
           (\<forall>q < length program. block_of g ! q = d \<longrightarrow> q \<in> set (pc # path))"
        by (auto simp: node_of_def)
      with q block_facts(1) [OF g] have "q \<in> set (pc # path)" by (auto simp: post_doms_def)
      moreover have "q \<noteq> pc" using q by auto
      ultimately show ?thesis by simp
    qed
    with q show "q \<in> must_cross program pc" by (simp add: must_cross_def)
  qed
qed

text \<open>A branch ends its block, and a guarded one that never exits has a neighbour that never does.\<close>

lemma branch_ends_block:
  assumes "build_cfg program = Inr g" "pc < length program" "opcode (program ! pc) = Bra"
  shows "block_last (length program) (leaders g) (block_of g ! pc) = pc"
  using assms block_facts(4) [OF assms(1,2)] terminator_leads [of pc program]
  by (cases "pc + 1 < length program") (auto simp: is_terminator_def)

lemma stuck_neighbour:
  assumes g: "build_cfg program = Inr g" and pc: "pc < length program"
    and bra: "opcode (program ! pc) = Bra" "present (guard (program ! pc))"
    and stuck: "\<not> reaches_exit program pc"
  shows "\<nexists>path. block_path g (block_of g ! pc) path"
    and "\<exists>c < exit_node g. c \<noteq> block_of g ! pc \<and> (\<nexists>path. block_path g c path)"
proof -
  note last = branch_ends_block [OF g pc bra(1)]
  note B = block_facts(1) [OF g pc]
  show "\<nexists>path. block_path g (block_of g ! pc) path"
  proof
    assume "\<exists>path. block_path g (block_of g ! pc) path"
    with B obtain s rest where "s \<in> set (succs g ! (block_of g ! pc))" "block_path g s rest"
      by (auto elim: block_pathE)
    from follow_blocks [OF g pc last this] stuck show False by (auto simp: reaches_exit_def)
  qed
  have next_flow: "pc + 1 \<in> set (flow program pc)" using bra by (simp add: flow_def Let_def)
  have stuck_next: "\<not> reaches_exit program (pc + 1)"
    using stuck go [OF pc next_flow] by (auto simp: reaches_exit_def)
  then have lt: "pc + 1 < length program"
    using pc at_exit by (metis Suc_eq_plus1 Suc_leI le_neq_implies_less reaches_exit_def)
  have lead: "is_lead program (pc + 1)"
    using terminator_leads [OF lt] bra(1) by (simp add: is_terminator_def)
  let ?c = "block_of g ! (pc + 1)"
  have start: "leaders g ! ?c = pc + 1" by (rule block_facts(5) [OF g lt lead])
  moreover have "leaders g ! (block_of g ! pc) \<le> pc" by (rule block_facts(2) [OF g pc])
  ultimately have "?c \<noteq> block_of g ! pc" by auto
  moreover have c: "?c < exit_node g" by (rule block_facts(1) [OF g lt])
  moreover have "\<nexists>path. block_path g ?c path"
    using path_of_block_path [OF g] stuck_next start c
    by (metis node_start_def reaches_exit_def)
  ultimately show "\<exists>c < exit_node g. c \<noteq> block_of g ! pc \<and> (\<nexists>path. block_path g c path)"
    by blast
qed

lemma must_cross_leader:
  assumes g: "build_cfg program = Inr g" and d: "d < exit_node g"
    and q: "q < length program" "q \<noteq> leaders g ! d" "block_of g ! q \<in> post_doms g d"
  shows "q \<in> must_cross program (leaders g ! d)"
proof -
  let ?k = "leaders g ! d"
  note L = leader_block [OF g d]
  have "q \<in> set path" if path: "path_to_exit program ?k (?k # path)" for path
  proof -
    have "q \<in> set (?k # path)"
    proof (cases "block_of g ! q = d")
      case True
      then show ?thesis
        using path_covers_block [OF g path L(1), of q] L(2) block_facts(2,3) [OF g q(1)] by auto
    next
      case False
      from block_path_of_path [OF g path] L obtain blocks where "block_path g d blocks"
        "\<forall>e \<in> set blocks. e < exit_node g \<longrightarrow> e \<noteq> d \<longrightarrow>
           (\<forall>q < length program. block_of g ! q = e \<longrightarrow> q \<in> set (?k # path))"
        by (auto simp: node_of_def)
      with False q post_domsD block_facts(1) [OF g q(1)] show ?thesis by blast
    qed
    with q(2) show ?thesis by simp
  qed
  with q(1) show ?thesis by (simp add: must_cross_def)
qed

text \<open>What a path crosses after an instruction it must cross, it must cross itself.\<close>

lemma must_cross_trans:
  assumes "r \<in> must_cross program pc" "q \<in> must_cross program r"
  shows "q \<in> must_cross program pc"
proof -
  have "q \<in> set path" if path: "path_to_exit program pc (pc # path)" for path
  proof -
    from assms(1) path have r: "r \<in> set path" by (simp add: must_cross_def)
    from assms(1) path have "pc < length program \<or> path = []"
      by (auto elim: path_to_exitE)
    with r obtain p where "path_to_exit program p path" using path by (auto elim: path_to_exitE)
    from path_suffix [OF this r] obtain before rest where
      split: "path = before @ rest" "path_to_exit program r rest" by blast
    from path_starts [OF this(2)] obtain tail where "rest = r # tail" by (metis list.collapse)
    with split assms(2) show ?thesis by (auto simp: must_cross_def)
  qed
  with assms(2) show ?thesis by (simp add: must_cross_def)
qed

text \<open>The target the analysis picks for a guarded branch.\<close>

lemma reconvergence_target:
  assumes g: "build_cfg program = Inr g" and pd: "post_dominators g = Some pdom"
    and pc: "pc < length program" and bra: "opcode (program ! pc) = Bra" "present (guard (program ! pc))"
  defines "d \<equiv> immediate_post_dominator pdom (block_of g ! pc)"
  shows "\<not> reaches_exit program pc \<Longrightarrow> d = exit_node g"
    and "reaches_exit program pc \<Longrightarrow> d = exit_node g \<Longrightarrow> must_cross program pc = {}"
    and "reaches_exit program pc \<Longrightarrow> d \<noteq> exit_node g \<Longrightarrow> d < exit_node g \<and>
      must_cross program pc = insert (leaders g ! d) (must_cross program (leaders g ! d))"
proof -
  let ?b = "block_of g ! pc"
  note B = block_facts(1) [OF g pc]
  note last = branch_ends_block [OF g pc bra(1)]
  have sets: "\<forall>b \<le> exit_node g.
      bs_ok (exit_node g + 1) (pdom ! b) \<and> bs_elems (pdom ! b) = post_doms g b"
    using post_dominators_correct [OF program_graph.built_ok [OF g]] pd by auto
  note I = immediate_post_dominator_correct [OF sets B, folded d_def]
  show "d = exit_node g" if "\<not> reaches_exit program pc"
    using stuck_neighbour [OF g pc bra that] I(2) by blast
  assume reach: "reaches_exit program pc"
  then obtain blocks where "block_path g ?b blocks"
    using block_path_from [OF g pc] by (auto simp: reaches_exit_def)
  from I(1) [OF this] have d: "d \<in> post_doms g ?b - {?b}" "post_doms g d = post_doms g ?b - {?b}" by auto
  note cross = must_cross_blocks [OF g pc last reach]
  show "must_cross program pc = {}" if "d = exit_node g"
  proof -
    have "post_doms g ?b - {?b} = {exit_node g}" using d(2) that post_doms_exit by simp
    moreover have "block_of g ! q \<noteq> exit_node g" if "q < length program" for q
      using block_facts(1) [OF g that] by simp
    ultimately show ?thesis using cross by auto
  qed
  assume "d \<noteq> exit_node g"
  with d(1) have lt: "d < exit_node g" by (auto simp: post_doms_def)
  note L = leader_block [OF g lt]
  have r: "leaders g ! d \<in> must_cross program pc" using cross L d(1) by simp
  have "q \<in> must_cross program pc \<longleftrightarrow> q \<in> insert (leaders g ! d) (must_cross program (leaders g ! d))" for q
  proof
    assume "q \<in> must_cross program pc"
    with cross d(2) have "q < length program" "block_of g ! q \<in> post_doms g d" by simp_all
    with must_cross_leader [OF g lt] show "q \<in> insert (leaders g ! d) (must_cross program (leaders g ! d))"
      by blast
  qed (use r must_cross_trans [OF r] in blast)
  with lt show "d < exit_node g \<and>
      must_cross program pc = insert (leaders g ! d) (must_cross program (leaders g ! d))" by blast
qed

section \<open>Properties\<close>

text \<open>C19: the data-flow loop of \<^verbatim>\<open>post_dominators\<close> returns on the graph of every program, and the set it
  ends with for each block is the set of blocks that lie on every path from the block to the exit.\<close>

theorem post_dominators_exact:
  "case build_cfg program of
     Inl e \<Rightarrow> True
   | Inr g \<Rightarrow> \<exists>pdom. post_dominators g = Some pdom \<and>
       List.map bs_elems pdom = List.map (post_doms g) [0..<exit_node g + 1]"
proof (cases "build_cfg program")
  case (Inr g)
  from post_dominators_correct [OF program_graph.built_ok [OF Inr]] obtain pdom where
    pdom: "post_dominators g = Some pdom" "length pdom = exit_node g + 1"
    "\<forall>b \<le> exit_node g. bs_elems (pdom ! b) = post_doms g b" by blast
  then have "List.map bs_elems pdom = List.map (post_doms g) [0..<exit_node g + 1]"
    by (intro nth_equalityI) (simp_all add: less_Suc_eq_le del: upt_Suc)
  with Inr pdom(1) show ?thesis by auto
qed simp

end
