(* ===== verification/Annotation.thy ===== *)
theory Annotation
  imports Post_Dominators Warp_Runs
begin

text \<open>
  \<open>annotate_reconvergence\<close> as a whole: it returns, it fails on exactly the programs with a
  branch out of range, it finds the nearest common instruction of every guarded branch, and it
  changes nothing a lane can observe. The last point composes the assembler's analysis with the
  warp.
\<close>

lemma annotate_cases:
  "annotate_reconvergence program =
     (case build_cfg program of
        Inl e \<Rightarrow> Some (Inl e)
      | Inr g \<Rightarrow> Some (Inr (List.map (\<lambda>pc. annotate_at g (the (post_dominators g)) pc (program ! pc))
                  [0..<length program])))"
proof (cases "build_cfg program")
  case (Inl e)
  then show ?thesis by (simp add: annotate_reconvergence_def fail_def)
next
  case (Inr g)
  then obtain pdom where "post_dominators g = Some pdom"
    using post_dominators_correct [OF program_graph.built_ok] by blast
  with Inr show ?thesis by (simp add: annotate_reconvergence_def)
qed

lemma annotate_Inr:
  assumes "annotate_reconvergence program = Some (Inr annotated)"
  obtains g pdom where "build_cfg program = Inr g" "post_dominators g = Some pdom"
    "length annotated = length program"
    "\<And>pc. pc < length program \<Longrightarrow> annotated ! pc = annotate_at g pdom pc (program ! pc)"
proof -
  from assms obtain g where g: "build_cfg program = Inr g" "annotated =
      List.map (\<lambda>pc. annotate_at g (the (post_dominators g)) pc (program ! pc)) [0..<length program]"
    by (auto simp: annotate_cases split: sum.splits)
  moreover obtain pdom where "post_dominators g = Some pdom"
    using post_dominators_correct [OF program_graph.built_ok [OF g(1)]] by blast
  ultimately show thesis using that by simp
qed

lemma annotated_guarded:
  assumes a: "annotate_reconvergence program = Some (Inr annotated)" and len: "length program \<le> 65535"
    and pc: "pc < length program" and bra: "opcode (program ! pc) = Bra" "present (guard (program ! pc))"
  defines "r \<equiv> reconvergence_pc (annotated ! pc)"
  shows "\<not> reaches_exit program pc \<Longrightarrow> r = no_reconvergence"
    and "reaches_exit program pc \<Longrightarrow> r = no_reconvergence \<Longrightarrow> must_cross program pc = {}"
    and "reaches_exit program pc \<Longrightarrow> r \<noteq> no_reconvergence \<Longrightarrow>
      must_cross program pc = insert (unat r) (must_cross program (unat r))"
proof -
  from a obtain g pdom where g: "build_cfg program = Inr g" "post_dominators g = Some pdom"
    and at: "annotated ! pc = annotate_at g pdom pc (program ! pc)"
    using pc by (auto elim: annotate_Inr)
  let ?d = "immediate_post_dominator pdom (block_of g ! pc)"
  have r: "r = (if ?d \<noteq> exit_node g then of_nat (leaders g ! ?d) else no_reconvergence)"
    using bra at by (simp add: r_def annotate_at_def reconvergence_of_def Let_def)
  have small: "unat (of_nat (leaders g ! d) :: u16) = leaders g ! d \<and>
      (of_nat (leaders g ! d) :: u16) \<noteq> no_reconvergence" if "d < exit_node g" for d
  proof -
    from leader_block(1) [OF g(1) that] len have "leaders g ! d < 65535" by simp
    then have u: "unat (of_nat (leaders g ! d) :: u16) = leaders g ! d" by (simp add: unat_of_nat)
    have "unat no_reconvergence = 65535" by (simp add: no_reconvergence_def)
    with u \<open>leaders g ! d < 65535\<close> show ?thesis by (metis less_irrefl)
  qed
  note T = reconvergence_target [OF g pc bra]
  show "r = no_reconvergence" if "\<not> reaches_exit program pc" using T(1) [OF that] r by simp
  assume reach: "reaches_exit program pc"
  show "must_cross program pc = {}" if "r = no_reconvergence"
    using that T(2,3) [OF reach] small r by (auto split: if_splits)
  show "must_cross program pc = insert (unat r) (must_cross program (unat r))" if "r \<noteq> no_reconvergence"
    using that T(3) [OF reach] small r by (auto split: if_splits)
qed

lemma annotate_same_paths:
  assumes "annotate_reconvergence program = Some (Inr annotated)"
  shows "same_paths program annotated"
proof -
  from assms obtain g pdom where len: "length annotated = length program"
    and at: "\<And>pc. pc < length program \<Longrightarrow> annotated ! pc = annotate_at g pdom pc (program ! pc)"
    by (auto elim: annotate_Inr)
  have "forget_reconvergence (annotate_at g pdom pc i) = forget_reconvergence i" for pc i
    by (simp add: annotate_at_def forget_reconvergence_def)
  with len at show ?thesis by (auto simp: same_paths_def intro: nth_equalityI)
qed

section \<open>The analysis reads nothing but the paths\<close>

lemma same_paths_reads:
  assumes "same_paths p q"
  shows "length p = length q" and "k < length p \<Longrightarrow> out_of_range p k \<longleftrightarrow> out_of_range q k"
    and "k < length p \<Longrightarrow> marks p k j \<longleftrightarrow> marks q k j" and "is_lead p j \<longleftrightarrow> is_lead q j"
proof -
  show len: "length p = length q" using same_paths_nth(1) [OF assms] by simp
  note f = forget_fields [OF same_paths_nth(2) [OF assms]]
  have ends: "is_terminator (p ! k) \<longleftrightarrow> is_terminator (q ! k)" if "k < length p" for k
    using f(1) [OF that] by (simp add: is_terminator_def)
  show "out_of_range p k \<longleftrightarrow> out_of_range q k" if "k < length p"
    using f(1,8) [OF that] len by (auto simp: out_of_range_def)
  show M: "marks p k j \<longleftrightarrow> marks q k j" if "k < length p" for k j
    using f(1,8) [OF that] ends [OF that] len by (auto simp: marks_def)
  show "is_lead p j \<longleftrightarrow> is_lead q j" using M len by (auto simp: is_lead_def)
qed

lemma build_cfg_same_paths:
  assumes same: "same_paths p q" and g: "build_cfg p = Inr g"
  shows "build_cfg q = Inr g"
proof -
  note R = same_paths_reads [OF same]
  note P = build_cfg_shape [OF g]
  have "\<nexists>e. build_cfg q = Inl e"
    using P(8) R(1,2) by (auto simp: build_cfg_error)
  then obtain h where h: "build_cfg q = Inr h" by (cases "build_cfg q") auto
  note Q = build_cfg_shape [OF h]
  have lead: "is_lead p = is_lead q" using R(4) by auto
  have leaders: "leaders g = leaders h" using P(1) Q(1) R(1) lead by simp
  then have exit: "exit_node g = exit_node h" using P(4) Q(4) by simp
  have blocks: "block_of g = block_of h"
    using P(2,3) Q(2,3) R(1) lead by (intro nth_equalityI) simp_all
  have "block_succs p (leaders g) (block_of g) b = block_succs q (leaders h) (block_of h) b"
    if b: "b < exit_node g" for b
  proof -
    from block_end [OF g b] obtain e where e: "e < length p" "block_of g ! e = b"
      "block_last (length p) (leaders g) (block_of g ! e) = e" by metis
    note f = forget_fields [OF same_paths_nth(2) [OF same e(1)]]
    have "block_last (length p) (leaders g) b = e" using e by simp
    with f R(1) leaders blocks show ?thesis by (simp add: block_succs_def Let_def)
  qed
  moreover have "succs g ! b = succs h ! b" if "b = exit_node g" for b
    using that P(6) Q(6) exit by simp
  ultimately have "succs g = succs h"
    using P(5,7) Q(5,7) exit by (intro nth_equalityI) (auto simp: less_Suc_eq)
  with leaders blocks exit have "g = h" by simp
  with h show ?thesis by simp
qed

lemma annotate_same:
  assumes same: "same_paths p q" and a: "annotate_reconvergence p = Some (Inr annotated)"
  shows "annotate_reconvergence q = Some (Inr annotated)"
proof -
  note len = same_paths_reads(1) [OF same]
  from a obtain g where g: "build_cfg p = Inr g" "annotated =
      List.map (\<lambda>pc. annotate_at g (the (post_dominators g)) pc (p ! pc)) [0..<length p]"
    by (auto simp: annotate_cases split: sum.splits)
  have "annotate_at g pdom pc (p ! pc) = annotate_at g pdom pc (q ! pc)" if pc: "pc < length p" for pc pdom
  proof -
    note eq = same_paths_nth(2) [OF same pc]
    note f = forget_fields [OF eq]
    show ?thesis
    proof (cases "opcode (p ! pc) = Bra")
      case True
      let ?v = "make_branch_imm (branch_target (p ! pc)) no_reconvergence"
      have "(p ! pc)\<lparr>imm := ?v\<rparr> = (q ! pc)\<lparr>imm := ?v\<rparr>"
        using eq f(1,8) True by (simp add: forget_reconvergence_def)
      then have "(p ! pc)\<lparr>imm := v\<rparr> = (q ! pc)\<lparr>imm := v\<rparr>" for v
        by (metis Instruction.update_convs(7) Instruction.cases)
      with True f show ?thesis by (simp add: annotate_at_def reconvergence_of_def)
    next
      case False
      with f show ?thesis by (simp add: annotate_at_def)
    qed
  qed
  then have "annotated = List.map (\<lambda>pc. annotate_at g (the (post_dominators g)) pc (q ! pc)) [0..<length q]"
    using g(2) len by simp
  with build_cfg_same_paths [OF same g(1)] show ?thesis by (simp add: annotate_cases)
qed

lemma annotate_idempotent:
  "annotate_reconvergence p = Some (Inr annotated) \<Longrightarrow> annotate_reconvergence annotated = Some (Inr annotated)"
  using annotate_same annotate_same_paths by blast

section \<open>Properties\<close>

text \<open>C5: the reconvergence PC that the analysis writes into a guarded branch is the nearest instruction
  that every path from the branch crosses: the instructions common to all paths to the exit are that
  instruction and those common to the paths from there. The branch carries \<open>0xFFFF\<close> exactly when no
  path leads to the exit or no instruction is common to all.\<close>

theorem reconvergence_is_nearest_common:
  assumes "annotate_reconvergence program = Some (Inr annotated)" and "length program \<le> 65535"
    and "pc < length program" and "opcode (program ! pc) = Bra" "present (guard (program ! pc))"
  shows "let r = reconvergence_pc (annotated ! pc) in
    if reaches_exit program pc then
      must_cross program pc = (if r = no_reconvergence then {} else insert (unat r) (must_cross program (unat r)))
    else r = no_reconvergence"
  using annotated_guarded [OF assms] by (simp add: Let_def)

lemma branch_program_flow:
  "flow (branch_program r) 0 = [1, 1]" "flow (branch_program r) 1 = [2]" "flow (branch_program r) (Suc 0) = [2]"
  by (simp_all add: flow_def branch_program_def exit_instruction_def default_instruction_def no_guard_def
      branch_target_def)

lemma build_cfg_total:
  "(\<And>k. k < length program \<Longrightarrow> \<not> out_of_range program k) \<Longrightarrow> \<exists>g. build_cfg program = Inr g"
  by (cases "build_cfg program") (auto simp: build_cfg_error)

lemma branch_program_crosses:
  "reaches_exit (branch_program r) 0" "must_cross (branch_program r) 0 = {1}"
proof -
  let ?p = "branch_program r"
  have "path_to_exit ?p 2 [2]" using path_to_exit.at_exit [of ?p] by simp
  then have tail: "path_to_exit ?p 1 [1, 2]" by (rule path_to_exit.go [rotated 2]) (simp_all add: branch_program_flow)
  then have path: "path_to_exit ?p 0 [0, 1, 2]" by (rule path_to_exit.go [rotated 2]) (simp_all add: branch_program_flow)
  then show "reaches_exit ?p 0" by (auto simp: reaches_exit_def)
  from path have "must_cross ?p 0 \<subseteq> {1}" by (auto simp: must_cross_def)
  moreover have "1 \<in> set path" if "path_to_exit ?p 0 (0 # path)" for path
  proof -
    from that obtain s where "path_to_exit ?p s path" "s \<in> set (flow ?p 0)"
      by (cases rule: path_to_exit.cases) auto
    with path_starts [of ?p s path] show ?thesis by (auto simp: branch_program_flow neq_Nil_conv)
  qed
  ultimately show "must_cross ?p 0 = {1}" by (auto simp: must_cross_def)
qed

lemma branch_program_annotated: "annotate_reconvergence (branch_program r) = Some (Inr (branch_program 1))"
proof -
  let ?p = "branch_program r"
  have "\<not> out_of_range ?p k" if "k < 2" for k
    using that by (auto simp: out_of_range_def less_2_cases_iff branch_program_def exit_instruction_def
        default_instruction_def branch_target_def)
  then obtain g where "build_cfg ?p = Inr g" using build_cfg_total [of ?p] by auto
  then obtain q where q: "annotate_reconvergence ?p = Some (Inr q)" by (simp add: annotate_cases)
  define r' where "r' = reconvergence_pc (q ! 0)"
  have q_eq: "q = branch_program r'"
  proof (rule nth_equalityI)
    have len: "length q = 2" by (rule annotate_Inr [OF q]) simp
    then show "length q = length (branch_program r')" by simp
    fix k assume "k < length q"
    with len have "k < 2" by simp
    obtain g pdom where "\<And>pc. pc < 2 \<Longrightarrow> q ! pc = annotate_at g pdom pc (?p ! pc)"
      by (rule annotate_Inr [OF q]) simp
    then have q01: "q ! 0 = annotate_at g pdom 0 (?p ! 0)" "q ! 1 = annotate_at g pdom 1 (?p ! 1)" by simp_all
    have t: "branch_target (?p ! 0) = 1" by (simp add: branch_program_def branch_target_def)
    have "q ! 0 = (?p ! 0)\<lparr>imm := make_branch_imm 1 r'\<rparr>"
      unfolding r'_def q01(1) by (simp add: annotate_at_def t)
    moreover have "q ! 1 = ?p ! 1"
      unfolding q01(2) by (simp add: annotate_at_def exit_instruction_def default_instruction_def)
    ultimately show "q ! k = branch_program r' ! k"
      using \<open>k < 2\<close> by (auto simp: less_2_cases_iff branch_program_def)
  qed
  note N = annotated_guarded [OF q, of 0, folded r'_def]
  have "r' \<noteq> no_reconvergence" using N(2) branch_program_crosses [of r] by auto
  with N(3) branch_program_crosses [of r] have "unat r' \<in> {1}" by auto
  then have "r' = 1" by (metis singletonD unat_1 word_unat_eq_iff)
  with q q_eq show ?thesis by simp
qed

theorem reconvergence_is_nearest_common_witness:
  "must_cross (branch_program 0xFFFF) 0 = insert 1 (must_cross (branch_program 0xFFFF) 1)"
proof -
  have "reconvergence_pc (branch_program 1 ! 0) = 1" by (simp add: branch_program_def)
  then show ?thesis
    using reconvergence_is_nearest_common [OF branch_program_annotated [of "0xFFFF"], of 0]
      branch_program_crosses(1) [of "0xFFFF"]
    by (simp add: Let_def no_reconvergence_def)
qed

text \<open>C21: the analysis always returns. It fails exactly when a branch goes outside the program, and then
  names the first such branch; otherwise it changes nothing but the reconvergence halves of branches.\<close>

theorem annotation_outcome:
  "case List.find (out_of_range program) [0..<length program] of
     Some pc \<Rightarrow> annotate_reconvergence program =
       Some (Inl \<lparr>recon_pc = pc, recon_message = ''branch target out of range''\<rparr>)
   | None \<Rightarrow> \<exists>annotated. annotate_reconvergence program = Some (Inr annotated) \<and> same_paths program annotated"
proof (cases "List.find (out_of_range program) [0..<length program]")
  case None
  then have "\<not> out_of_range program k" if "k < length program" for k
    using that by (simp add: find_None_iff)
  then obtain g where "build_cfg program = Inr g" using build_cfg_total by blast
  then obtain annotated where "annotate_reconvergence program = Some (Inr annotated)"
    by (simp add: annotate_cases)
  with annotate_same_paths None show ?thesis by auto
next
  case (Some pc)
  then have "build_cfg program = Inl \<lparr>recon_pc = pc, recon_message = ''branch target out of range''\<rparr>"
    by (auto simp: build_cfg_error find_Some_iff)
  with Some show ?thesis by (simp add: annotate_cases)
qed

end
