(* ===== verification/Assembler_Facts.thy ===== *)
theory Assembler_Facts
  imports Assembler Lexer_Facts Annotation
begin

text \<open>
  What the parser does with a well-formed token stream: it never runs past the end token, every
  line consumes a token, every statement appends one valid instruction, and the program it
  returns is well formed. The locale \<open>token_source\<close> is the contract between the lexer and the
  parser.
\<close>

section \<open>Moving through the tokens\<close>

definition streaming :: "Parser \<Rightarrow> bool" where
  "streaming p \<longleftrightarrow> token_stream (p_tokens p) \<and> p_index p < length (p_tokens p)"

text \<open>The parser has consumed at least \<open>n\<close> tokens and nothing else of it changed.\<close>

definition moved :: "nat \<Rightarrow> Parser \<Rightarrow> Parser \<Rightarrow> bool" where
  "moved n p p' \<longleftrightarrow> p' = p\<lparr>p_index := p_index p'\<rparr> \<and> p_index p + n \<le> p_index p' \<and> streaming p'"

lemma moved_fields:
  assumes "moved n p p'"
  shows "p_program p' = p_program p" "p_labels p' = p_labels p" "p_pending p' = p_pending p"
    "p_tokens p' = p_tokens p" "streaming p'" "p_index p + n \<le> p_index p'"
proof -
  from assms have "p' = p\<lparr>p_index := p_index p'\<rparr>" and r: "p_index p + n \<le> p_index p'" "streaming p'"
    by (simp_all add: moved_def)
  then show "p_program p' = p_program p" "p_labels p' = p_labels p" "p_pending p' = p_pending p"
    "p_tokens p' = p_tokens p"
    by (metis Parser.surjective Parser.update_convs(2) Parser.select_convs)+
  from r show "streaming p'" "p_index p + n \<le> p_index p'" by simp_all
qed

lemma moved_trans:
  assumes "moved m p p'" "moved n p' p''"
  shows "moved (m + n) p p''"
proof -
  have "p'' = p'\<lparr>p_index := p_index p''\<rparr>" "p' = p\<lparr>p_index := p_index p'\<rparr>"
    using assms by (simp_all add: moved_def)
  then have "p'' = p\<lparr>p_index := p_index p''\<rparr>" by (metis Parser.update_convs(2) Parser.surjective)
  with assms show ?thesis by (simp add: moved_def)
qed

lemma moved_weaken: "moved n p p' \<Longrightarrow> m \<le> n \<Longrightarrow> moved m p p'"
  by (simp add: moved_def)

lemma moved_refl: "streaming p \<Longrightarrow> moved 0 p p"
  by (simp add: moved_def)

lemma cur_in_stream: "streaming p \<Longrightarrow> cur p \<in> set (p_tokens p)"
  by (simp add: streaming_def cur_def)

lemma cur_ok: "streaming p \<Longrightarrow> token_ok (cur p)"
  using cur_in_stream [of p] by (auto simp: streaming_def token_stream_def)

lemma not_last:
  assumes "streaming p" "\<not> at p End"
  shows "p_index p + 1 < length (p_tokens p)"
proof -
  from assms(1) obtain ts nl last where s: "p_tokens p = ts @ [nl, last]" "kind last = End"
    by (auto simp: streaming_def token_stream_def)
  have "p_index p \<noteq> length ts + 1"
    using s assms(2) by (auto simp: at_def cur_def nth_append)
  with assms(1) s show ?thesis by (simp add: streaming_def)
qed

lemma next_moved:
  assumes "streaming p" "\<not> at p End"
  shows "moved 1 p (next_tok p)"
proof -
  have "next_tok p = p\<lparr>p_index := p_index p + 1\<rparr>"
    using not_last [OF assms] by (simp add: next_tok_def)
  with not_last [OF assms] assms(1) show ?thesis by (simp add: moved_def streaming_def)
qed

lemma at_moved: "streaming p \<Longrightarrow> at p k \<Longrightarrow> k \<noteq> End \<Longrightarrow> moved 1 p (next_tok p)"
  by (rule next_moved) (auto simp: at_def)

text \<open>A line never ends at the last token but one of the stream unless that is the end of a line.\<close>

lemma expect_moved: "streaming p \<Longrightarrow> k \<noteq> End \<Longrightarrow> expect k what p = Inr p' \<Longrightarrow> moved 1 p p'"
  using at_moved by (auto simp: expect_def split: if_splits)

lemma end_of_line_same: "end_of_line p = Inr p' \<longleftrightarrow> (at p Newline \<or> at p End) \<and> p' = p"
  by (auto simp: end_of_line_def)

lemma integer_literal_moved:
  "streaming p \<Longrightarrow> integer_literal p = Inr (v, p') \<Longrightarrow> moved 1 p p'"
  using at_moved by (auto simp: integer_literal_def Let_def split: if_splits option.splits)

lemma register_index_less: "register_index text prefix count = Some r \<Longrightarrow> r < count"
proof -
  assume "register_index text prefix count = Some r"
  then have "\<exists>v. \<not> unat count \<le> v \<and> r = of_nat v"
    by (auto simp: register_index_def split: if_splits option.splits)
  then obtain v where v: "v < unat count" "r = of_nat v" by (metis not_le)
  moreover have "unat count < 256" using unsigned_less [of count, where ?'a = nat] by simp
  ultimately show "r < count" by (simp add: word_less_nat_alt unat_of_nat)
qed

lemma predicate_name_less: "predicate_name text = Some r \<Longrightarrow> r < 8"
  unfolding predicate_name_def using register_index_less by (metis predicate_register_count_def)

lemma general_register_moved:
  assumes "streaming p" "general_register p = Inr (r, p')"
  shows "moved 1 p p' \<and> r < 64"
proof -
  from assms(2) have id: "at p Identifier" and r: "p' = next_tok p"
    "register_index (token_text (cur p)) (CHR ''r'') general_register_count = Some r"
    by (auto simp: general_register_def split: option.splits if_splits)
  from register_index_less [OF r(2)] at_moved [OF assms(1) id] r(1) show ?thesis
    by (simp add: general_register_count_def)
qed

section \<open>What an operand list produces\<close>

text \<open>An operand step that only moves, and changes the instruction by a function of a value.\<close>

named_theorems operand_simps \<open>the outcome of each operand parser\<close>

lemma comma_out [operand_simps]:
  "streaming p \<Longrightarrow> comma p out = Inr (p', i) \<Longrightarrow> moved 1 p p' \<and> i = out"
  using expect_moved by (auto simp: comma_def)

lemma dst_reg_out [operand_simps]:
  "streaming p \<Longrightarrow> dst_reg p out = Inr (p', i) \<Longrightarrow> moved 1 p p' \<and> (\<exists>r < 64. i = out\<lparr>dst := r\<rparr>)"
  using general_register_moved by (fastforce simp: dst_reg_def)

lemma src0_reg_out [operand_simps]:
  "streaming p \<Longrightarrow> src0_reg p out = Inr (p', i) \<Longrightarrow> moved 1 p p' \<and> (\<exists>r < 64. i = out\<lparr>src0 := r\<rparr>)"
  using general_register_moved by (fastforce simp: src0_reg_def)

lemma src1_reg_out [operand_simps]:
  "streaming p \<Longrightarrow> src1_reg p out = Inr (p', i) \<Longrightarrow> moved 1 p p' \<and> (\<exists>r < 64. i = out\<lparr>src1 := r\<rparr>)"
  using general_register_moved by (fastforce simp: src1_reg_def)

lemma immediate_out [operand_simps]:
  assumes "streaming p" "immediate env p out = Inr (p', i)"
  shows "moved 1 p p' \<and> (\<exists>v. i = out\<lparr>imm_flag := True, imm := v\<rparr>)"
proof -
  define p1 where "p1 = (if at p Minus then next_tok p else p)"
  have p1: "moved 0 p p1"
    using at_moved [OF assms(1), of Minus] moved_refl [OF assms(1)] moved_weaken
    by (auto simp: p1_def)
  have s1: "streaming p1" using moved_fields(5) [OF p1] .
  have "moved 1 p1 p' \<and> (\<exists>v. i = out\<lparr>imm_flag := True, imm := v\<rparr>)"
  proof (cases "at p1 Float")
    case True
    with assms(2) at_moved [OF s1 True] show ?thesis
      by (auto simp: immediate_def Let_def p1_def split: if_splits option.splits)
  next
    case False
    with assms(2) obtain m where m: "integer_literal p1 = Inr (m, p')"
      "\<exists>v. i = out\<lparr>imm_flag := True, imm := v\<rparr>"
      by (auto simp: immediate_def Let_def p1_def split: if_splits)
    with integer_literal_moved [OF s1 m(1)] show ?thesis by auto
  qed
  with moved_trans [OF p1, of 1 p'] show ?thesis by simp
qed

lemma src1_reg_or_imm_out [operand_simps]:
  "streaming p \<Longrightarrow> src1_reg_or_imm env p out = Inr (p', i) \<Longrightarrow>
     moved 1 p p' \<and> ((\<exists>r < 64. i = out\<lparr>src1 := r\<rparr>) \<or> (\<exists>v. i = out\<lparr>imm_flag := True, imm := v\<rparr>))"
  using src1_reg_out [of p out p' i] immediate_out [of p env out p' i]
  by (cases "at p Identifier") (auto simp: src1_reg_or_imm_def)

lemma src0_reg_or_imm_out [operand_simps]:
  "streaming p \<Longrightarrow> src0_reg_or_imm env p out = Inr (p', i) \<Longrightarrow>
     moved 1 p p' \<and> ((\<exists>r < 64. i = out\<lparr>src0 := r\<rparr>) \<or> (\<exists>v. i = out\<lparr>imm_flag := True, imm := v\<rparr>))"
  using src0_reg_out [of p out p' i] immediate_out [of p env out p' i]
  by (cases "at p Identifier") (auto simp: src0_reg_or_imm_def)

lemma dst_pred_out [operand_simps]:
  assumes "streaming p" "dst_pred p out = Inr (p', i)"
  shows "moved 1 p p' \<and> (\<exists>r < 8. i = out\<lparr>dst := r\<rparr>)"
proof -
  from assms(2) have "\<exists>r. at p Identifier \<and> predicate_name (token_text (cur p)) = Some r \<and>
      p' = next_tok p \<and> i = out\<lparr>dst := r\<rparr>"
    by (auto simp: dst_pred_def split: if_splits option.splits)
  then show ?thesis using at_moved [OF assms(1)] predicate_name_less by blast
qed

lemma special_operand_out [operand_simps]:
  assumes "streaming p" "special_operand p out = Inr (p', i)"
  shows "moved 1 p p' \<and> (\<exists>r < 10. i = out\<lparr>src0 := r\<rparr>)"
proof -
  from assms(2) have "at p Special" "p' = next_tok p"
    "i = out\<lparr>src0 := special_number (special_reg (the (special_register_info_name (token_text (cur p)))))\<rparr>"
    by (auto simp: special_operand_def split: if_splits option.splits)
  moreover have "special_number r < 10" for r by (cases r) simp_all
  ultimately show ?thesis using at_moved [OF assms(1), of Special] by blast
qed

lemma address_out [operand_simps]:
  assumes s: "streaming p" and a: "address p out = Inr (p', i)"
  shows "moved 1 p p' \<and> (\<exists>r < 64. \<exists>v. i = out\<lparr>src0 := r, imm_flag := True, imm := v\<rparr>)"
proof -
  from a obtain p1 base p2 v p3 where steps: "expect LBracket (quoted ''['') p = Inr p1"
    "general_register p1 = Inr (base, p2)"
    "(if at p2 Plus \<or> at p2 Minus then
        (case integer_literal (next_tok p2) of Inl e \<Rightarrow> fail e
         | Inr (v, p3) \<Rightarrow> Inr (if at p2 Minus then 0 - v else v, p3))
      else Inr (0, p2)) = Inr (v, p3)"
    "expect RBracket (quoted '']'') p3 = Inr p'" "i = out\<lparr>src0 := base, imm_flag := True, imm := v\<rparr>"
    by (auto simp: address_def Let_def)
  have m1: "moved 1 p p1" using expect_moved [OF s _ steps(1)] by simp
  have m2: "moved 1 p1 p2" "base < 64"
    using general_register_moved [OF moved_fields(5) [OF m1] steps(2)] by auto
  note s2 = moved_fields(5) [OF m2(1)]
  have m3: "moved 0 p2 p3"
  proof (cases "at p2 Plus \<or> at p2 Minus")
    case True
    then have n: "moved 1 p2 (next_tok p2)" using at_moved [OF s2] by auto
    with True steps(3) integer_literal_moved [OF moved_fields(5) [OF n]]
    have "moved 1 (next_tok p2) p3" by auto
    from moved_trans [OF n this] show ?thesis by (rule moved_weaken) simp
  next
    case False
    with steps(3) moved_refl [OF s2] show ?thesis by simp
  qed
  have m4: "moved 1 p3 p'" using expect_moved [OF moved_fields(5) [OF m3] _ steps(4)] by simp
  from moved_trans [OF moved_trans [OF moved_trans [OF m1 m2(1)] m3] m4]
  have "moved 1 p p'" by (rule moved_weaken) simp
  with m2(2) steps(5) show ?thesis by blast
qed

lemma param_ref_out [operand_simps]:
  assumes s: "streaming p" and a: "param_ref p out = Inr (p', i)"
  shows "moved 1 p p' \<and> (\<exists>k < length (param_names (p_program p)). i = out\<lparr>imm_flag := True, imm := of_nat k\<rparr>)"
proof -
  from a obtain p1 k where steps: "expect LBracket (quoted ''['') p = Inr p1" "at p1 Identifier"
    "find (\<lambda>i. param_names (p_program p1) ! i = token_text (cur p1))
       [0..<length (param_names (p_program p1))] = Some k"
    "expect RBracket (quoted '']'') (next_tok p1) = Inr p'" "i = out\<lparr>imm_flag := True, imm := of_nat k\<rparr>"
    unfolding param_ref_def by (simp split: if_splits option.splits) blast
  have m1: "moved 1 p p1" using expect_moved [OF s _ steps(1)] by simp
  have m2: "moved 1 p1 (next_tok p1)" using at_moved [OF moved_fields(5) [OF m1] steps(2)] by simp
  have m3: "moved 1 (next_tok p1) p'" using expect_moved [OF moved_fields(5) [OF m2] _ steps(4)] by simp
  from moved_trans [OF moved_trans [OF m1 m2] m3] have "moved 1 p p'" by (rule moved_weaken) simp
  moreover have "k < length (param_names (p_program p))"
    using find_SomeD [OF steps(3)] moved_fields(1) [OF m1] by simp
  ultimately show ?thesis using steps(5) by blast
qed

text \<open>
  The effect of a step as a relation between the instruction before and after, given the number
  of declared parameters; a sequence composes the effects of its steps.
\<close>

type_synonym effect = "nat \<Rightarrow> Instruction \<Rightarrow> Instruction \<Rightarrow> bool"

definition has_effect :: "operand_step \<Rightarrow> effect \<Rightarrow> bool" where
  "has_effect f R \<longleftrightarrow> (\<forall>p out p' i. streaming p \<longrightarrow> f p out = Inr (p', i) \<longrightarrow>
     moved 1 p p' \<and> R (length (param_names (p_program p))) out i)"

fun composed :: "effect list \<Rightarrow> effect" where
  "composed [] n out i \<longleftrightarrow> i = out"
| "composed (R # Rs) n out i \<longleftrightarrow> (\<exists>m. R n out m \<and> composed Rs n m i)"

definition no_effect :: effect where "no_effect n out i \<longleftrightarrow> i = out"
definition sets_dst :: "u8 \<Rightarrow> effect" where "sets_dst k n out i \<longleftrightarrow> (\<exists>r < k. i = out\<lparr>dst := r\<rparr>)"
definition sets_src0 :: "u8 \<Rightarrow> effect" where "sets_src0 k n out i \<longleftrightarrow> (\<exists>r < k. i = out\<lparr>src0 := r\<rparr>)"
definition sets_src1 :: effect where "sets_src1 n out i \<longleftrightarrow> (\<exists>r < 64. i = out\<lparr>src1 := r\<rparr>)"
definition sets_imm :: effect where "sets_imm n out i \<longleftrightarrow> (\<exists>v. i = out\<lparr>imm_flag := True, imm := v\<rparr>)"
definition sets_param :: effect where
  "sets_param n out i \<longleftrightarrow> (\<exists>k < n. i = out\<lparr>imm_flag := True, imm := of_nat k\<rparr>)"
definition sets_address :: effect where
  "sets_address n out i \<longleftrightarrow> (\<exists>r < 64. \<exists>v. i = out\<lparr>src0 := r, imm_flag := True, imm := v\<rparr>)"

lemmas effect_defs = no_effect_def sets_dst_def sets_src0_def sets_src1_def sets_imm_def
  sets_param_def sets_address_def

lemma has_effects:
  "has_effect comma no_effect" "has_effect dst_reg (sets_dst 64)" "has_effect src0_reg (sets_src0 64)"
  "has_effect src1_reg sets_src1" "has_effect dst_pred (sets_dst 8)"
  "has_effect special_operand (sets_src0 10)" "has_effect address sets_address"
  "has_effect param_ref sets_param"
  "has_effect (src1_reg_or_imm env) (\<lambda>n out i. sets_src1 n out i \<or> sets_imm n out i)"
  "has_effect (src0_reg_or_imm env) (\<lambda>n out i. sets_src0 64 n out i \<or> sets_imm n out i)"
  unfolding has_effect_def effect_defs
  by (intro allI impI, erule (1) operand_simps)+

lemma sequence_effect:
  assumes "list_all2 has_effect fs Rs" "streaming p" "sequence fs p out = Inr (p', i)"
  shows "moved 0 p p' \<and> composed Rs (length (param_names (p_program p))) out i"
  using assms
proof (induction fs Rs arbitrary: p out rule: list_all2_induct)
  case Nil
  then show ?case by (simp add: moved_refl)
next
  case (Cons f fs R Rs)
  from Cons.prems(2) obtain p1 out1 where f: "f p out = Inr (p1, out1)"
    and r: "sequence fs p1 out1 = Inr (p', i)" by auto
  from Cons.hyps(1) Cons.prems(1) f have m: "moved 1 p p1" "R (length (param_names (p_program p))) out out1"
    by (auto simp: has_effect_def)
  from Cons.IH [OF moved_fields(5) [OF m(1)] r] m moved_fields(1) [OF m(1)] moved_trans [OF m(1), of 0 p']
  show ?case by (auto intro: moved_weaken)
qed

text \<open>The instruction a statement starts from.\<close>

definition fresh :: "Guard \<Rightarrow> Opcode \<Rightarrow> Instruction" where
  "fresh g opc = default_instruction\<lparr>guard := g, opcode := opc\<rparr>"

lemma fresh_fields [simp]:
  "opcode (fresh g opc) = opc" "guard (fresh g opc) = g" "dst (fresh g opc) = 0" "src0 (fresh g opc) = 0"
  "src1 (fresh g opc) = 0" "imm (fresh g opc) = 0" "\<not> imm_flag (fresh g opc)"
  by (simp_all add: fresh_def default_instruction_def)

fun shape_effects :: "Shape \<Rightarrow> effect list" where
  "shape_effects Rrr = [sets_dst 64, no_effect, sets_src0 64, no_effect,
     \<lambda>n out i. sets_src1 n out i \<or> sets_imm n out i]"
| "shape_effects Rr = [sets_dst 64, no_effect, \<lambda>n out i. sets_src0 64 n out i \<or> sets_imm n out i]"
| "shape_effects Acc = [sets_dst 64, no_effect, sets_src0 64, no_effect, sets_src1]"
| "shape_effects Prr = [sets_dst 8, no_effect, sets_src0 64, no_effect,
     \<lambda>n out i. sets_src1 n out i \<or> sets_imm n out i]"
| "shape_effects Sreg = [sets_dst 64, no_effect, sets_src0 10]"
| "shape_effects Bra_shape = []"
| "shape_effects None_shape = []"
| "shape_effects Ld = [sets_dst 64, no_effect, sets_address]"
| "shape_effects St = [sets_address, no_effect, sets_src1]"
| "shape_effects Ldp = [sets_dst 64, no_effect, sets_param]"

text \<open>Every operand list that parses gives a valid instruction, so \<open>encode\<close> never refuses one.\<close>

lemma effects_valid:
  assumes "composed (shape_effects sh) n (fresh g opc) i" "sh \<noteq> Bra_shape" "guard_ok g"
    "shape (opcode_info opc) = sh"
  shows "valid_instruction i \<and> opcode i = opc \<and> guard i = g \<and>
    (sh = Ldp \<longrightarrow> (\<exists>k < n. imm i = of_nat k))"
proof -
  have w: "r < 64" if "r < 10 \<or> r < 8" for r :: u8
    using that by (auto simp: word_less_nat_alt)
  show ?thesis
    using assms by (cases sh) (auto simp: effect_defs valid_instruction_def w)
qed

lemma parse_operands_out:
  assumes s: "streaming p" and ok: "guard_ok g" and sh: "shape (opcode_info opc) = sh" "sh \<noteq> Bra_shape"
    and r: "parse_operands env sh p (fresh g opc) = Inr (p', i)"
  shows "moved 0 p p'" and "valid_instruction i" and "opcode i = opc" and "guard i = g"
    and "sh = Ldp \<Longrightarrow> \<exists>k < length (param_names (p_program p)). imm i = of_nat k"
proof -
  have steps: "\<exists>fs'. sequence fs = sequence fs' \<and> list_all2 has_effect fs' Rs"
    if "list_all2 has_effect fs Rs" for fs Rs
    using that by blast
  have "\<exists>fs. parse_operands env sh = sequence fs \<and> list_all2 has_effect fs (shape_effects sh)"
    using sh(2)
    by (cases sh) (simp_all only: parse_operands.simps shape_effects.simps simp_thms,
        (rule steps, simp add: has_effects)+)
  then obtain fs where "parse_operands env sh = sequence fs" "list_all2 has_effect fs (shape_effects sh)"
    by blast
  with sequence_effect [OF this(2) s] r
  have m: "moved 0 p p'" "composed (shape_effects sh) (length (param_names (p_program p))) (fresh g opc) i"
    by auto
  from m(1) effects_valid [OF m(2) sh(2) ok sh(1)]
  show "moved 0 p p'" "valid_instruction i" "opcode i = opc" "guard i = g"
    "sh = Ldp \<Longrightarrow> \<exists>k < length (param_names (p_program p)). imm i = of_nat k" by auto
qed

section \<open>The invariant of the parser between two lines\<close>

text \<open>Names: identifiers, without duplicates, and the two label maps agree.\<close>

definition names_ok :: "Program \<Rightarrow> (string \<rightharpoonup> u16) \<Rightarrow> bool" where
  "names_ok program labels \<longleftrightarrow>
     (entry_name program = [] \<or> is_ident (entry_name program)) \<and>
     (\<forall>x \<in> set (param_names program). is_ident x) \<and> distinct (param_names program) \<and>
     (\<forall>pc name. label_names program pc = Some name \<longrightarrow> is_ident name \<and> labels name = Some pc) \<and>
     (\<forall>name pc. labels name = Some pc \<longrightarrow> label_names program pc \<noteq> None)"

text \<open>Every word decodes, and a parameter ordinal names a declared parameter.\<close>

definition word_ok :: "nat \<Rightarrow> u64 \<Rightarrow> bool" where
  "word_ok n w \<longleftrightarrow> (\<exists>i. decode w = Inr i \<and> (opcode i = LdParam \<longrightarrow> unat (imm i) < n))"

definition is_branch :: "u64 \<Rightarrow> bool" where
  "is_branch w \<longleftrightarrow> (\<exists>i. decode w = Inr i \<and> opcode i = Bra)"

text \<open>The pending branches are the branches.\<close>

definition pending_ok :: "u64 list \<Rightarrow> PendingBranch list \<Rightarrow> bool" where
  "pending_ok words branches \<longleftrightarrow>
     (\<forall>b \<in> set branches. branch_pc b < length words \<and> is_branch (words ! branch_pc b)) \<and>
     (\<forall>k < length words. is_branch (words ! k) \<longrightarrow> (\<exists>b \<in> set branches. branch_pc b = k))"

definition parser_inv :: "Parser \<Rightarrow> bool" where
  "parser_inv p \<longleftrightarrow> streaming p \<and> names_ok (p_program p) (p_labels p) \<and>
     (\<forall>w \<in> set (code_words (p_program p)).
        word_ok (length (param_names (p_program p))) w) \<and>
     pending_ok (code_words (p_program p)) (p_pending p)"

lemma moved_inv: "moved n p p' \<Longrightarrow> parser_inv p \<Longrightarrow> parser_inv p'"
  by (simp add: parser_inv_def moved_fields)

lemma parser_inv_streaming: "parser_inv p \<Longrightarrow> streaming p"
  by (simp add: parser_inv_def)

lemma identifier_text: "streaming p \<Longrightarrow> at p Identifier \<Longrightarrow> is_ident (token_text (cur p))"
  using cur_ok [of p] by (simp add: at_def token_ok_def)

lemma with_program_simps [simp]:
  "streaming (p\<lparr>p_program := program\<rparr>) \<longleftrightarrow> streaming p" "at (p\<lparr>p_program := program\<rparr>) k \<longleftrightarrow> at p k"
  "cur (p\<lparr>p_program := program\<rparr>) = cur p"
  "next_tok (p\<lparr>p_program := program\<rparr>) = (next_tok p)\<lparr>p_program := program\<rparr>"
  by (simp_all add: streaming_def at_def cur_def next_tok_def)

lemma is_ident_nonempty: "is_ident text \<Longrightarrow> text \<noteq> []"
  by (simp add: is_ident_def)

lemma word_ok_Suc: "word_ok n w \<Longrightarrow> word_ok (Suc n) w"
  unfolding word_ok_def using less_SucI by blast

lemma directive_inv:
  assumes inv: "parser_inv p" and d: "at p Directive" and r: "directive p = Inr p'"
  shows "parser_inv p' \<and> p_index p < p_index p' \<and> p_tokens p' = p_tokens p"
proof -
  note s = parser_inv_streaming [OF inv]
  let ?p = "next_tok p"
  have m: "moved 1 p ?p" using at_moved [OF s d] by simp
  have inv1: "parser_inv ?p" by (rule moved_inv [OF m inv])
  note s1 = parser_inv_streaming [OF inv1]
  have up: "p_index p < p_index ?p" using moved_fields(6) [OF m] by simp
  consider (entry) "entry_directive ?p = Inr p'" | (param) "param_directive ?p = Inr p'"
    | (shared) "shared_directive ?p = Inr p'"
    using r by (auto simp: directive_def Let_def split: if_splits)
  then show ?thesis
  proof cases
    case entry
    then have id: "at ?p Identifier" and p': "p' = (next_tok ?p)\<lparr>p_program :=
        (p_program ?p)\<lparr>entry_name := token_text (cur ?p)\<rparr>\<rparr>"
      by (auto simp: entry_directive_def end_of_line_same split: if_splits)
    have m2: "moved 1 ?p (next_tok ?p)" using at_moved [OF s1 id] by simp
    from moved_fields [OF m2] moved_inv [OF m2 inv1] identifier_text [OF s1 id] up moved_fields(4) [OF m]
    show ?thesis by (auto simp: p' parser_inv_def names_ok_def)
  next
    case param
    then have id: "at ?p Identifier" and fresh: "token_text (cur ?p) \<notin> set (param_names (p_program ?p))"
      and p': "p' = (next_tok ?p)\<lparr>p_program := (p_program ?p)\<lparr>param_names :=
        param_names (p_program ?p) @ [token_text (cur ?p)]\<rparr>\<rparr>"
      by (auto simp: param_directive_def end_of_line_same split: if_splits)
    have m2: "moved 1 ?p (next_tok ?p)" using at_moved [OF s1 id] by simp
    from moved_fields [OF m2] moved_inv [OF m2 inv1] identifier_text [OF s1 id] up fresh moved_fields(4) [OF m]
    show ?thesis by (auto simp: p' parser_inv_def names_ok_def intro: word_ok_Suc)
  next
    case shared
    then obtain v p2 where l: "integer_literal ?p = Inr (v, p2)"
      and p': "p' = p2\<lparr>p_program := (p_program p2)\<lparr>shared_bytes := v\<rparr>\<rparr>"
      by (auto simp: shared_directive_def end_of_line_same)
    have m2: "moved 1 ?p p2" using integer_literal_moved [OF s1 l] .
    from moved_fields [OF m2] moved_inv [OF m2 inv1] up moved_fields(4) [OF m]
    show ?thesis by (auto simp: p' parser_inv_def names_ok_def)
  qed
qed

lemma label_part_inv:
  assumes inv: "parser_inv p" and ne: "\<not> at p End" and r: "label_part p = Inr (done_here, p')"
  shows "parser_inv p'" and "p_index p \<le> p_index p'" and "done_here \<Longrightarrow> p_index p < p_index p'"
    and "code_words (p_program p') = code_words (p_program p)" and "p_tokens p' = p_tokens p"
proof -
  note s = parser_inv_streaming [OF inv]
  let ?labelled = "at p Identifier \<and> kind (p_tokens p ! (p_index p + 1)) = Colon"
  have "parser_inv p' \<and> p_index p \<le> p_index p' \<and> (done_here \<longrightarrow> p_index p < p_index p') \<and>
      code_words (p_program p') = code_words (p_program p) \<and> p_tokens p' = p_tokens p"
  proof (cases ?labelled)
    case False
    with r inv show ?thesis by (auto simp: label_part_def)
  next
    case True
    let ?name = "token_text (cur p)" and ?pc = "of_nat (length (code_words (p_program p))) :: u16"
    let ?names = "label_names (p_program p)"
    define p1 where "p1 = p\<lparr>p_labels := (p_labels p)(?name \<mapsto> ?pc), p_program := (p_program p)\<lparr>label_names :=
       (if ?names ?pc = None then ?names(?pc \<mapsto> ?name) else ?names)\<rparr>\<rparr>"
    from r True have new: "p_labels p ?name = None" and p': "p' = next_tok (next_tok p1)"
      by (auto simp: label_part_def Let_def p1_def split: if_splits)
    have id: "is_ident ?name" using identifier_text [OF s] True by simp
    have N: "names_ok (p_program p1) (p_labels p1)"
      using inv new id unfolding parser_inv_def names_ok_def p1_def by (auto split: if_splits)
    have same: "streaming p1" "at p1 Identifier" "p_index p1 = p_index p" "p_tokens p1 = p_tokens p"
      using s True by (simp_all add: p1_def streaming_def at_def cur_def)
    have inv1: "parser_inv p1"
      using inv N same(1) by (simp add: parser_inv_def p1_def)
    have m1: "moved 1 p1 (next_tok p1)" using at_moved [OF same(1,2)] by simp
    have "next_tok p1 = p1\<lparr>p_index := p_index p1 + 1\<rparr>"
      using not_last [OF same(1)] same(2) by (simp add: next_tok_def at_def)
    then have "at (next_tok p1) Colon" using True same by (simp add: at_def cur_def)
    then have m2: "moved 1 (next_tok p1) (next_tok (next_tok p1))"
      using at_moved [OF moved_fields(5) [OF m1]] by simp
    from moved_trans [OF m1 m2] have m: "moved 2 p1 p'" by (simp add: p' numeral_2_eq_2)
    from moved_inv [OF m inv1] moved_fields [OF m] same(3) show ?thesis
      by (simp add: p1_def)
  qed
  then show "parser_inv p'" "p_index p \<le> p_index p'" "done_here \<Longrightarrow> p_index p < p_index p'"
    "code_words (p_program p') = code_words (p_program p)" "p_tokens p' = p_tokens p" by auto
qed

lemma guard_part_out:
  assumes s: "streaming p" and r: "guard_part p default_instruction = Inr (p', i)"
  shows "moved 0 p p' \<and> (\<exists>g. guard_ok g \<and> i = default_instruction\<lparr>guard := g\<rparr>)"
proof (cases "at p Guard_kind")
  case False
  with r have "p' = p" "i = default_instruction" by (auto simp: guard_part_def)
  moreover have "default_instruction = default_instruction\<lparr>guard := no_guard\<rparr>"
    by (simp add: default_instruction_def)
  moreover have "guard_ok no_guard" by (simp add: guard_ok_def no_guard_def)
  ultimately show ?thesis using moved_refl [OF s] by metis
next
  case True
  with r have "\<exists>k. predicate_name (token_text (cur p)) = Some k \<and> p' = next_tok p \<and>
      i = default_instruction\<lparr>guard := \<lparr>present = True, negate = token_negate (cur p), gpred = k\<rparr>\<rparr>"
    by (auto simp: guard_part_def split: option.splits)
  then obtain k where "predicate_name (token_text (cur p)) = Some k" "p' = next_tok p"
      "i = default_instruction\<lparr>guard := \<lparr>present = True, negate = token_negate (cur p), gpred = k\<rparr>\<rparr>"
    by blast
  moreover from this(1) have "guard_ok \<lparr>present = True, negate = token_negate (cur p), gpred = k\<rparr>"
    by (simp add: guard_ok_def predicate_name_less)
  ultimately show ?thesis using at_moved [OF s True] moved_weaken by blast
qed

lemma shape_is_branch: "shape (opcode_info opc) = Bra_shape \<longleftrightarrow> opc = Bra"
  and shape_is_param: "shape (opcode_info opc) = Ldp \<longleftrightarrow> opc = LdParam"
  by (cases opc; simp)+

lemma info_of_mnemonic: "opcode_info_mnemonic m = Some info \<Longrightarrow> info = opcode_info (info_opcode info)"
  using opcode_info_mnemonic_SomeD by metis

lemma valid_branch: "guard_ok g \<Longrightarrow> valid_instruction ((fresh g Bra)\<lparr>imm := v\<rparr>)"
  by (simp add: valid_instruction_def)

lemma decode_encoded: "valid_instruction i \<Longrightarrow> encode i = Inr (encode_word i) \<and> decode (encode_word i) = Inr i"
  by (simp add: encode_eq_Inr_iff encode_imp_decode)

lemma pending_ok_append:
  assumes "pending_ok words branches" "decode w = Inr i" "opcode i \<noteq> Bra"
  shows "pending_ok (words @ [w]) branches"
  using assms by (auto simp: pending_ok_def is_branch_def nth_append less_Suc_eq)

lemma pending_ok_branch:
  assumes "pending_ok words branches" "is_branch w" "branch_pc b = length words"
  shows "pending_ok (words @ [w]) (branches @ [b])"
  using assms by (fastforce simp: pending_ok_def nth_append less_Suc_eq)

text \<open>
  A statement appends one instruction. The result of the operands is valid, so the error of
  \<open>encode\<close> is never reported.
\<close>

lemma mnemonic_part_inv:
  assumes inv: "parser_inv p" and g: "guard_ok g"
    and r: "mnemonic_part env p (default_instruction\<lparr>guard := g\<rparr>) = Inr p'"
  shows "parser_inv p' \<and> p_index p < p_index p' \<and> p_tokens p' = p_tokens p"
proof -
  note s = parser_inv_streaming [OF inv]
  from r obtain info p1 i w where id: "at p Identifier"
    and info: "opcode_info_mnemonic (token_text (cur p)) = Some info"
    and ops: "parse_operands env (shape info) (next_tok p) (fresh g (info_opcode info)) = Inr (p1, i)"
    and e: "encode i = Inr w" and p': "p' = append_word w p1"
    by (auto simp: mnemonic_part_def fresh_def end_of_line_same split: if_splits option.splits)
  let ?opc = "info_opcode info"
  have sh: "shape info = shape (opcode_info ?opc)" using info_of_mnemonic [OF info] by simp
  have m: "moved 1 p (next_tok p)" using at_moved [OF s id] by simp
  note s1 = moved_fields(5) [OF m]
  have inv1: "parser_inv (next_tok p)" by (rule moved_inv [OF m inv])
  have w: "decode w = Inr i" using e by (rule encode_imp_decode)
  show ?thesis
  proof (cases "?opc = Bra")
    case False
    then have "shape (opcode_info ?opc) \<noteq> Bra_shape" by (simp add: shape_is_branch)
    note out = parse_operands_out [OF s1 g refl this ops [unfolded sh]]
    have inv2: "parser_inv p1" by (rule moved_inv [OF out(1) inv1])
    have "word_ok (length (param_names (p_program p1))) w"
    proof -
      have "unat (imm i) < length (param_names (p_program p1))" if "?opc = LdParam"
      proof -
        from out(5) that obtain k where "k < length (param_names (p_program (next_tok p)))" "imm i = of_nat k"
          by (auto simp: shape_is_param)
        then show ?thesis using moved_fields(1) [OF out(1)]
          by (simp add: unat_of_nat order_le_less_trans [OF mod_less_eq_dividend])
      qed
      with w out(3) show ?thesis by (simp add: word_ok_def)
    qed
    with inv2 pending_ok_append [OF _ w] out(3) False moved_fields(4,6) [OF m] moved_fields(4,6) [OF out(1)]
    show ?thesis
      by (auto simp: p' append_word_def parser_inv_def streaming_def names_ok_def)
  next
    case True
    with sh ops have br: "branch_operand (next_tok p) (fresh g Bra) = Inr (p1, i)"
      by (simp add: shape_is_branch)
    let ?p = "next_tok p"
    let ?b = "\<lparr>branch_pc = length (code_words (p_program ?p)), branch_label = token_text (cur ?p),
       branch_line = token_line (cur ?p), branch_column = token_column (cur ?p)\<rparr>"
    define p2 where "p2 = ?p\<lparr>p_pending := p_pending ?p @ [?b]\<rparr>"
    from br have id2: "at ?p Identifier" and p1: "p1 = next_tok p2"
      and i: "i = (fresh g Bra)\<lparr>imm := make_branch_imm 0 no_reconvergence\<rparr>"
      by (auto simp: branch_operand_def p2_def split: if_splits)
    have s2: "streaming p2" "at p2 Identifier"
      using s1 id2 by (simp_all add: p2_def streaming_def at_def cur_def)
    have m2: "moved 1 p2 p1" using at_moved [OF s2] p1 by simp
    have "is_branch w" using w i by (simp add: is_branch_def)
    then have "pending_ok (code_words (p_program ?p) @ [w]) (p_pending ?p @ [?b])"
      using inv1 by (intro pending_ok_branch) (simp_all add: parser_inv_def)
    moreover have "word_ok n w" for n using w i by (simp add: word_ok_def)
    ultimately show ?thesis
      using inv1 moved_fields [OF m2] moved_fields(4,6) [OF m]
      by (auto simp: p' append_word_def parser_inv_def p2_def streaming_def names_ok_def)
  qed
qed

lemma statement_inv:
  assumes inv: "parser_inv p" and ne: "\<not> at p End" and r: "statement env p = Inr p'"
  shows "parser_inv p' \<and> p_index p < p_index p' \<and> p_tokens p' = p_tokens p"
proof -
  from r obtain d p1 where l: "label_part p = Inr (d, p1)"
    and rest: "(if d then Inr p1 else (case guard_part p1 default_instruction of
        Inl e \<Rightarrow> fail e | Inr (p2, i) \<Rightarrow> mnemonic_part env p2 i)) = Inr p'"
    by (auto simp: statement_def)
  note L = label_part_inv [OF inv ne l]
  show ?thesis
  proof (cases d)
    case True
    with rest L show ?thesis by simp
  next
    case False
    with rest obtain p2 i where gp: "guard_part p1 default_instruction = Inr (p2, i)"
      and mn: "mnemonic_part env p2 i = Inr p'" by auto
    from guard_part_out [OF parser_inv_streaming [OF L(1)] gp] obtain g where
      g: "moved 0 p1 p2" "guard_ok g" "i = default_instruction\<lparr>guard := g\<rparr>" by blast
    from mnemonic_part_inv [OF moved_inv [OF g(1) L(1)] g(2) mn [unfolded g(3)]]
      moved_fields(4,6) [OF g(1)] L(2,5) show ?thesis by simp
  qed
qed

section \<open>The loop over the lines\<close>

lemma parse_lines_returns:
  assumes "parser_inv p"
  shows "\<exists>r. parse_lines env p = Some r \<and> (\<forall>p'. r = Inr p' \<longrightarrow> parser_inv p')"
  using assms
proof (induction p rule: measure_induct_rule [where f = "\<lambda>p. length (p_tokens p) - p_index p"])
  case (less p)
  note s = parser_inv_streaming [OF less.prems]
  have again: "\<exists>r. parse_lines env q = Some r \<and> (\<forall>p'. r = Inr p' \<longrightarrow> parser_inv p')"
    if "parser_inv q" "p_index p < p_index q" "p_tokens q = p_tokens p" for q
    using that s by (intro less.IH) (auto simp: streaming_def)
  show ?case
  proof (cases "at p End")
    case True
    with less.prems show ?thesis by (subst parse_lines.simps) simp
  next
    case False
    show ?thesis
    proof (cases "at p Newline")
      case True
      with next_moved [OF s False] have m: "moved 1 p (next_tok p)" by simp
      from again [OF moved_inv [OF m less.prems]] moved_fields(4,6) [OF m] True False
      show ?thesis by (subst parse_lines.simps) simp
    next
      case line: False
      show ?thesis
      proof (cases "if at p Directive then directive p else statement env p")
        case (Inl e)
        with False line show ?thesis by (subst parse_lines.simps) (simp add: fail_def)
      next
        case (Inr q)
        then have "parser_inv q \<and> p_index p < p_index q \<and> p_tokens q = p_tokens p"
          using directive_inv [OF less.prems] statement_inv [OF less.prems False] by (auto split: if_splits)
        with again have "\<exists>r. parse_lines env q = Some r \<and> (\<forall>p'. r = Inr p' \<longrightarrow> parser_inv p')" by blast
        with Inr False line show ?thesis by (subst parse_lines.simps) simp
      qed
    qed
  qed
qed

section \<open>Branch resolution and annotation\<close>

lemma all_values_map:
  "all_values (List.map f xs) = Some ys \<longleftrightarrow>
     length ys = length xs \<and> (\<forall>k < length xs. f (xs ! k) = Inr (ys ! k))"
proof (induction xs arbitrary: ys)
  case Nil
  then show ?case by auto
next
  case (Cons x xs)
  show ?case
  proof (cases ys)
    case Nil
    then show ?thesis by (cases "f x") auto
  next
    case (Cons y ys')
    then show ?thesis
      using Cons.IH [of ys'] by (cases "f x") (auto simp: less_Suc_eq_0_disj)
  qed
qed

lemma all_values_total: "\<forall>x \<in> set xs. \<exists>v. f x = Inr v \<Longrightarrow> \<exists>ys. all_values (List.map f xs) = Some ys"
  by (induction xs) auto

text \<open>A resolved branch goes to a label, and its reconvergence half is still empty.\<close>

definition resolved_branch :: "(string \<rightharpoonup> u16) \<Rightarrow> u64 \<Rightarrow> bool" where
  "resolved_branch labels w \<longleftrightarrow> (\<exists>i name target. decode w = Inr i \<and> opcode i = Bra \<and>
     labels name = Some target \<and> branch_target i = target)"

lemma branch_valid_imm: "valid_instruction i \<Longrightarrow> opcode i = Bra \<Longrightarrow> valid_instruction (i\<lparr>imm := v\<rparr>)"
  by (simp add: valid_instruction_def)

lemma resolve_branches_returns:
  assumes "\<forall>b \<in> set bs. branch_pc b < length words \<and> is_branch (words ! branch_pc b)"
    "\<forall>w \<in> set words. word_ok n w"
  shows "\<exists>r. resolve_branches labels bs words = Some r \<and>
    (\<forall>words'. r = Inr words' \<longrightarrow> length words' = length words \<and> (\<forall>w \<in> set words'. word_ok n w) \<and>
      (\<forall>k < length words. if \<exists>b \<in> set bs. branch_pc b = k then resolved_branch labels (words' ! k)
         else words' ! k = words ! k))"
  using assms
proof (induction bs arbitrary: words)
  case Nil
  then show ?case by simp
next
  case (Cons b bs)
  show ?case
  proof (cases "labels (branch_label b)")
    case None
    then show ?thesis by (simp add: fail_def)
  next
    case (Some target)
    from Cons.prems(1) obtain i where k: "branch_pc b < length words"
      and i: "decode (words ! branch_pc b) = Inr i" "opcode i = Bra"
      by (auto simp: is_branch_def)
    let ?i = "i\<lparr>imm := make_branch_imm target no_reconvergence\<rparr>" and ?k = "branch_pc b"
    let ?words = "words[?k := encode_word ?i]"
    have e: "encode ?i = Inr (encode_word ?i)" "decode (encode_word ?i) = Inr ?i"
      using decode_encoded [OF branch_valid_imm [OF decode_valid [OF i(1)] i(2)]] by auto
    have new: "is_branch (encode_word ?i)" "word_ok n (encode_word ?i)" "resolved_branch labels (encode_word ?i)"
      using e(2) i(2) Some by (auto simp: is_branch_def word_ok_def resolved_branch_def)
    have A: "\<forall>c \<in> set bs. branch_pc c < length ?words \<and> is_branch (?words ! branch_pc c)"
      using Cons.prems(1) new(1) by (auto simp: nth_list_update)
    have B: "\<forall>w \<in> set ?words. word_ok n w"
      using Cons.prems(2) new(2) by (auto dest: set_update_subset_insert [THEN subsetD])
    from Cons.IH [OF A B] obtain r where r: "resolve_branches labels bs ?words = Some r"
      "\<And>words'. r = Inr words' \<Longrightarrow> length words' = length words \<and> (\<forall>w \<in> set words'. word_ok n w) \<and>
        (\<forall>j < length words. if \<exists>c \<in> set bs. branch_pc c = j then resolved_branch labels (words' ! j)
           else words' ! j = ?words ! j)" by auto
    have "if \<exists>c \<in> set (b # bs). branch_pc c = j then resolved_branch labels (words' ! j)
        else words' ! j = words ! j" if "r = Inr words'" "j < length words" for words' j
      using r(2) [OF that(1), THEN conjunct2, THEN conjunct2, rule_format, OF that(2)] that(2) new(3) k
      by (cases "\<exists>c \<in> set bs. branch_pc c = j"; cases "j = branch_pc b") auto
    with r i(1) e(1) Some show ?thesis by simp
  qed
qed

lemma annotate_valid:
  assumes a: "annotate_reconvergence program = Some (Inr annotated)"
    and v: "\<forall>i \<in> set program. valid_instruction i" and k: "k < length program"
  shows "valid_instruction (annotated ! k)" "opcode (annotated ! k) = opcode (program ! k)"
    "opcode (program ! k) = Bra \<Longrightarrow> branch_target (annotated ! k) = branch_target (program ! k)"
    "opcode (program ! k) \<noteq> Bra \<Longrightarrow> annotated ! k = program ! k"
proof -
  from a k obtain g pdom where "annotated ! k = annotate_at g pdom k (program ! k)"
    by (auto elim: annotate_Inr)
  moreover have "valid_instruction (program ! k)" using v k by simp
  ultimately show "valid_instruction (annotated ! k)" "opcode (annotated ! k) = opcode (program ! k)"
    "opcode (program ! k) = Bra \<Longrightarrow> branch_target (annotated ! k) = branch_target (program ! k)"
    "opcode (program ! k) \<noteq> Bra \<Longrightarrow> annotated ! k = program ! k"
    using branch_valid_imm by (auto simp: annotate_at_def)
qed

text \<open>The words of a finished program, decoded.\<close>

definition decoded_ok :: "Program \<Rightarrow> Instruction list \<Rightarrow> bool" where
  "decoded_ok program instrs \<longleftrightarrow>
     all_values (List.map decode (code_words program)) = Some instrs \<and>
     annotate_reconvergence instrs = Some (Inr instrs) \<and>
     (\<forall>i \<in> set instrs. (opcode i = LdParam \<longrightarrow> unat (imm i) < length (param_names program)) \<and>
        (opcode i = Bra \<longrightarrow> label_names program (branch_target i) \<noteq> None))"

text \<open>A well-formed program: what the assembler promises of the programs it returns.\<close>

definition program_wf :: "Program \<Rightarrow> bool" where
  "program_wf program \<longleftrightarrow>
     is_ident (entry_name program) \<and> (\<forall>x \<in> set (param_names program). is_ident x) \<and>
     distinct (param_names program) \<and>
     (\<forall>name \<in> ran (label_names program). is_ident name) \<and>
     inj_on (label_names program) (dom (label_names program)) \<and>
     length (code_words program) \<le> 65535 \<and> (\<exists>instrs. decoded_ok program instrs)"

lemma annotate_words_returns:
  assumes ok: "\<forall>w \<in> set words. word_ok n w"
    and labelled: "\<forall>w \<in> set words. is_branch w \<longrightarrow> resolved_branch labels w"
  shows "\<exists>r. annotate_words words = Some r \<and>
    (\<forall>words'. r = Inr words' \<longrightarrow> length words' = length words \<and>
      (\<exists>instrs. all_values (List.map decode words') = Some instrs \<and>
         annotate_reconvergence instrs = Some (Inr instrs) \<and>
         (\<forall>i \<in> set instrs. (opcode i = LdParam \<longrightarrow> unat (imm i) < n) \<and>
            (opcode i = Bra \<longrightarrow> (\<exists>name. labels name = Some (branch_target i))))))"
proof -
  from ok have "\<forall>w \<in> set words. \<exists>i. decode w = Inr i" by (auto simp: word_ok_def)
  from all_values_total [OF this] obtain instrs where dcd: "all_values (List.map decode words) = Some instrs" ..
  then have len: "length instrs = length words"
    and at: "\<And>k. k < length words \<Longrightarrow> decode (words ! k) = Inr (instrs ! k)"
    by (simp_all add: all_values_map)
  have valid: "\<forall>i \<in> set instrs. valid_instruction i"
    using decode_valid [OF at] len by (auto simp: in_set_conv_nth)
  show ?thesis
  proof (cases "build_cfg instrs")
    case (Inl e)
    then show ?thesis by (simp add: annotate_words_def dcd annotate_cases fail_def)
  next
    case (Inr g)
    then obtain annotated where a: "annotate_reconvergence instrs = Some (Inr annotated)"
      by (simp add: annotate_cases)
    have len2: "length annotated = length instrs" using a by (auto elim: annotate_Inr)
    note A = annotate_valid [OF a valid]
    have e: "encode (annotated ! k) = Inr (encode_word (annotated ! k)) \<and>
        decode (encode_word (annotated ! k)) = Inr (annotated ! k)" if "k < length instrs" for k
      using decode_encoded [OF A(1) [OF that]] .
    then have enc: "all_values (List.map encode annotated) = Some (List.map encode_word annotated)"
      using len2 by (simp add: all_values_map)
    have dec: "all_values (List.map decode (List.map encode_word annotated)) = Some annotated"
      using e len2 by (subst all_values_map) simp
    have "(opcode (annotated ! k) = LdParam \<longrightarrow> unat (imm (annotated ! k)) < n) \<and>
        (opcode (annotated ! k) = Bra \<longrightarrow> (\<exists>name. labels name = Some (branch_target (annotated ! k))))"
      if k: "k < length instrs" for k
    proof -
      have w: "words ! k \<in> set words" "decode (words ! k) = Inr (instrs ! k)" using k len at by auto
      with ok have "opcode (instrs ! k) = LdParam \<longrightarrow> unat (imm (instrs ! k)) < n" by (auto simp: word_ok_def)
      moreover have "\<exists>name. labels name = Some (branch_target (instrs ! k))" if "opcode (instrs ! k) = Bra"
      proof -
        have "is_branch (words ! k)" using w(2) that by (simp add: is_branch_def)
        with labelled w(1) have "resolved_branch labels (words ! k)" by blast
        with w(2) show ?thesis by (auto simp: resolved_branch_def)
      qed
      ultimately show ?thesis using A(2-4) [OF k] by auto
    qed
    then have "\<forall>i \<in> set annotated. (opcode i = LdParam \<longrightarrow> unat (imm i) < n) \<and>
        (opcode i = Bra \<longrightarrow> (\<exists>name. labels name = Some (branch_target i)))"
      using len2 by (auto simp: in_set_conv_nth)
    with dec enc a len len2 annotate_idempotent [OF a] dcd show ?thesis
      by (simp add: annotate_words_def del: map_map List.map.compositionality)
  qed
qed

lemma finish_program_returns:
  assumes inv: "parser_inv p"
  shows "\<exists>r. finish_program p = Some r \<and> (\<forall>program. r = Inr program \<longrightarrow> program_wf program)"
proof -
  let ?program = "p_program p" and ?words = "code_words (p_program p)"
  let ?n = "length (param_names (p_program p))"
  from inv have names: "names_ok ?program (p_labels p)" and ok: "\<forall>w \<in> set ?words. word_ok ?n w"
    and pend: "pending_ok ?words (p_pending p)" by (simp_all add: parser_inv_def)
  show ?thesis
  proof (cases "entry_name ?program = [] \<or> length ?words > unat no_reconvergence")
    case True
    then show ?thesis by (auto simp: finish_program_def fail_def Let_def)
  next
    case False
    have "\<forall>b \<in> set (p_pending p). branch_pc b < length ?words \<and> is_branch (?words ! branch_pc b)"
      using pend by (simp add: pending_ok_def)
    from resolve_branches_returns [OF this ok, of "p_labels p"] obtain r where
      r: "resolve_branches (p_labels p) (p_pending p) ?words = Some r" and
      R: "\<And>words. r = Inr words \<Longrightarrow> length words = length ?words \<and> (\<forall>w \<in> set words. word_ok ?n w) \<and>
        (\<forall>k < length ?words. if \<exists>b \<in> set (p_pending p). branch_pc b = k
           then resolved_branch (p_labels p) (words ! k) else words ! k = ?words ! k)" by blast
    show ?thesis
    proof (cases r)
      case (Inl e)
      with False r show ?thesis by (simp add: finish_program_def fail_def Let_def)
    next
      case (Inr words)
      note W = R [OF Inr]
      have "resolved_branch (p_labels p) (words ! k)" if k: "k < length ?words" "is_branch (words ! k)" for k
      proof (cases "\<exists>b \<in> set (p_pending p). branch_pc b = k")
        case True
        with W k(1) show ?thesis by auto
      next
        case False
        with W k have "is_branch (?words ! k)" by auto
        with pend k(1) False show ?thesis by (auto simp: pending_ok_def)
      qed
      with W have "\<forall>w \<in> set words. is_branch w \<longrightarrow> resolved_branch (p_labels p) w"
        by (auto simp: in_set_conv_nth)
      from annotate_words_returns [OF _ this, of ?n] W obtain r' where
        r': "annotate_words words = Some r'" and
        R': "\<And>words'. r' = Inr words' \<Longrightarrow> length words' = length words \<and>
          (\<exists>instrs. all_values (List.map decode words') = Some instrs \<and>
             annotate_reconvergence instrs = Some (Inr instrs) \<and>
             (\<forall>i \<in> set instrs. (opcode i = LdParam \<longrightarrow> unat (imm i) < ?n) \<and>
                (opcode i = Bra \<longrightarrow> (\<exists>name. p_labels p name = Some (branch_target i)))))" by blast
      have fin: "finish_program p = Some (case r' of Inl e \<Rightarrow> fail e
          | Inr words' \<Rightarrow> Inr (?program\<lparr>code_words := words'\<rparr>))"
        using False r r' Inr by (auto simp: finish_program_def Let_def split: sum.splits)
      have "program_wf (?program\<lparr>code_words := words'\<rparr>)" if "r' = Inr words'" for words'
      proof -
        from R' [OF that] obtain instrs where I: "length words' = length words"
          "all_values (List.map decode words') = Some instrs"
          "annotate_reconvergence instrs = Some (Inr instrs)"
          "\<forall>i \<in> set instrs. (opcode i = LdParam \<longrightarrow> unat (imm i) < ?n) \<and>
             (opcode i = Bra \<longrightarrow> (\<exists>name. p_labels p name = Some (branch_target i)))" by blast
        have "\<forall>i \<in> set instrs. opcode i = Bra \<longrightarrow> label_names ?program (branch_target i) \<noteq> None"
          using I(4) names unfolding names_ok_def by blast
        with I have d: "decoded_ok (?program\<lparr>code_words := words'\<rparr>) instrs"
          by (simp add: decoded_ok_def)
        have "inj_on (label_names ?program) (dom (label_names ?program))"
        proof (rule inj_onI)
          fix pc pc'
          assume pcs: "pc \<in> dom (label_names ?program)" "label_names ?program pc = label_names ?program pc'"
          then obtain name where "label_names ?program pc = Some name" "label_names ?program pc' = Some name"
            by (metis domD)
          then have "p_labels p name = Some pc" "p_labels p name = Some pc'"
            using names unfolding names_ok_def by blast+
          then show "pc = pc'" by simp
        qed
        moreover have "length words' \<le> 65535" using False I(1) W by (simp add: no_reconvergence_def)
        moreover have "\<forall>name \<in> ran (label_names ?program). is_ident name"
          using names by (auto simp: names_ok_def ran_def)
        ultimately show ?thesis using False names d by (auto simp: program_wf_def names_ok_def)
      qed
      with fin show ?thesis by (auto simp: fail_def split: sum.splits)
    qed
  qed
qed

lemma new_parser_inv: "token_stream tokens \<Longrightarrow> parser_inv (new_parser tokens)"
  by (auto simp: parser_inv_def new_parser_def streaming_def token_stream_def names_ok_def
      empty_program_def pending_ok_def)

section \<open>The contract between the lexer and the parser\<close>

text \<open>
  What the parser asks of the source of its tokens. Everything the parser promises, that it
  returns and that its programs are well formed, follows from this one law.
\<close>

locale token_source =
  fixes token_list :: "'s \<Rightarrow> (Token list, 'e) result"
  assumes gives_stream: "token_list s = Inr tokens \<Longrightarrow> token_stream tokens"
begin

lemma parser_returns:
  assumes "token_list s = Inr tokens"
  shows "\<exists>r. run_parser env (new_parser tokens) = Some r \<and> (\<forall>program. r = Inr program \<longrightarrow> program_wf program)"
proof -
  from parse_lines_returns [OF new_parser_inv [OF gives_stream [OF assms]], of env]
  obtain r where r: "parse_lines env (new_parser tokens) = Some r" "\<And>p. r = Inr p \<Longrightarrow> parser_inv p"
    by blast
  show ?thesis
  proof (cases r)
    case (Inl e)
    with r show ?thesis by (simp add: run_parser_def fail_def)
  next
    case (Inr p)
    from finish_program_returns [OF r(2) [OF Inr]] r(1) Inr show ?thesis by (simp add: run_parser_def)
  qed
qed

end

interpretation lexed: token_source lex
  by unfold_locales (rule lex_stream)

lemma assemble_well_formed:
  "\<exists>r. assemble env source = Some r \<and> (\<forall>program. r = Inr program \<longrightarrow> program_wf program)"
proof (cases "lex source")
  case (Inl e)
  then show ?thesis by (simp add: assemble_def fail_def)
next
  case (Inr tokens)
  with lexed.parser_returns [OF Inr, of env] show ?thesis by (simp add: assemble_def)
qed

section \<open>Properties\<close>

text \<open>C9: the assembler returns for every source: neither loop of the parser runs past the tokens, the
  reconvergence analysis returns, and no \<^verbatim>\<open>value()\<close> is taken of a result that holds an error.\<close>

theorem assembly_returns: "\<exists>r. assemble env source = Some r"
  using assemble_well_formed by blast

text \<open>C6: a program the assembler returns is well formed: its names are identifiers, parameters and labels
  are distinct, it has at most 65535 words, every word decodes to a valid instruction, every
  parameter ordinal is declared, every branch goes to a labelled instruction, and the reconvergence
  halves are those of the analysis.\<close>

theorem assembled_program_well_formed:
  "case assemble env source of
     Some (Inr program) \<Rightarrow> program_wf program
   | _ \<Rightarrow> True"
  using assemble_well_formed [of env source] by (auto split: sum.splits)

text \<open>C35: an integer literal is accepted exactly when its value is below 2^32. A literal beyond 64 bits,
  which \<^verbatim>\<open>std::from_chars\<close> refuses, and one between 32 and 64 bits give the same error at the literal.\<close>

theorem integer_literal_fits_32_bits:
  assumes "at p Integer" and "token_ok (cur p)"
  defines "spelt \<equiv> token_text (cur p)"
  defines "v \<equiv> (if take 2 spelt = ''0x'' then number_value 16 (drop 2 spelt) else number_value 10 spelt)"
  shows "integer_literal p =
    (if v < 2 ^ 32 then Inr (of_nat v, next_tok p)
     else fail (parse_error p (''integer does not fit in 32 bits: '' @ quoted spelt)))"
proof -
  let ?hex = "take 2 spelt = ''0x''"
  let ?base = "if ?hex then 16 else 10 :: nat" and ?digits = "if ?hex then drop 2 spelt else spelt"
  have not_hex: "\<not> ?hex" if "is_digits spelt"
    using that by (cases spelt; cases "tl spelt") (auto simp: is_digits_def is_digit_def)
  have "?digits \<noteq> [] \<and> list_all (base_digit ?base) ?digits"
    using assms(1,2) not_hex
    by (cases "is_digits spelt")
      (auto simp: at_def token_ok_def spelt_def base_digit_def is_digits_def is_hex_def cong: list.pred_cong)
  moreover have "v = number_value ?base ?digits" by (simp add: v_def)
  ultimately show ?thesis
    using assms(1) by (simp add: integer_literal_def parse_unsigned_def Let_def spelt_def [symmetric] v_def del: number_value_Nil)
qed

definition literal_parser :: "string \<Rightarrow> Parser" where
  "literal_parser literal_text = new_parser
     [\<lparr>kind = Integer, token_text = literal_text, token_negate = False, token_line = 1, token_column = 1\<rparr>]"

theorem integer_literal_fits_32_bits_witness:
  "integer_literal (literal_parser ''4294967296'') =
    fail (parse_error (literal_parser ''4294967296'') (''integer does not fit in 32 bits: '' @ quoted ''4294967296''))"
proof -
  have "at (literal_parser ''4294967296'') Integer" "token_ok (cur (literal_parser ''4294967296''))"
    by (simp_all add: literal_parser_def new_parser_def at_def cur_def token_ok_def is_digits_def is_digit_def)
  from integer_literal_fits_32_bits [OF this]
  show ?thesis
    by (simp add: literal_parser_def new_parser_def cur_def number_value_def digit_value_def is_digit_def)
qed

end
