(* ===== verification/Disassembler.thy ===== *)
theory Disassembler
  imports Charconv Device
begin

text \<open>
  \<^verbatim>\<open>src/asm/disassembler.cpp\<close>: the text of one instruction and of a whole program. As in
  \<open>Assembler\<close>, \<open>None\<close> stands for the exception that \<^verbatim>\<open>value()\<close> of an error throws.
\<close>

record DisassemblyError =
  disassembly_pc :: nat
  disassembly_message :: string

section \<open>Operands\<close>

definition reg :: "u8 \<Rightarrow> string" where
  "reg index = ''r'' @ decimal (unat index)"

definition pred :: "u8 \<Rightarrow> string" where
  "pred index = ''p'' @ decimal (unat index)"

definition signed_decimal :: "u32 \<Rightarrow> string" where
  "signed_decimal bits =
     (if sint bits < 0 then ''-'' @ decimal (nat (- sint bits)) else decimal (nat (sint bits)))"

definition hex :: "u32 \<Rightarrow> string" where
  "hex bits = ''0x'' @ hex_string (unat bits)"

definition prints_float_immediate :: "Opcode \<Rightarrow> bool" where
  "prints_float_immediate opc \<longleftrightarrow>
     opc \<in> {FAdd, FSub, FMul, FMin, FMax, FNeg, CvtS32F32, SetpEqF32, SetpNeF32, SetpLtF32,
            SetpLeF32, SetpGtF32, SetpGeF32}"

definition is_finite :: "u32 \<Rightarrow> bool" where
  "is_finite bits \<longleftrightarrow> (case as_f32 bits of Fin s m e \<Rightarrow> True | _ \<Rightarrow> False)"

definition immediate_text :: "chars_env \<Rightarrow> Instruction \<Rightarrow> string" where
  "immediate_text env i =
     (if prints_float_immediate (opcode i) then
        if is_finite (imm i) then
          (let text = f32_to_chars env (imm i)
           in if CHR ''.'' \<notin> set text \<and> CHR ''e'' \<notin> set text then text @ ''.0'' else text)
        else hex (imm i)
      else if opcode i = Mov then hex (imm i)
      else signed_decimal (imm i))"

definition address_text :: "Instruction \<Rightarrow> string" where
  "address_text i =
     (if sint (imm i) = 0 then ''['' @ reg (src0 i) @ '']''
      else if sint (imm i) < 0 then ''['' @ reg (src0 i) @ ''-'' @ decimal (unat (0 - imm i)) @ '']''
      else ''['' @ reg (src0 i) @ ''+'' @ decimal (unat (imm i)) @ '']'')"

definition label_for :: "u16 \<Rightarrow> (u16 \<rightharpoonup> string) \<Rightarrow> string" where
  "label_for pc labels =
     (case labels pc of Some name \<Rightarrow> name | None \<Rightarrow> ''L'' @ decimal (unat pc))"

section \<open>One instruction\<close>

definition guard_text :: "Instruction \<Rightarrow> string" where
  "guard_text i =
     (if present (guard i) then (if negate (guard i) then ''@!'' else ''@'') @ pred (gpred (guard i)) @ '' ''
      else [])"

definition operands_text ::
    "chars_env \<Rightarrow> Instruction \<Rightarrow> (u16 \<rightharpoonup> string) \<Rightarrow> string list \<Rightarrow> (string, DisassemblyError) result" where
  "operands_text env i labels names =
     (let last = (if imm_flag i then immediate_text env i else reg (src1 i)) in
      case shape (opcode_info (opcode i)) of
        Rrr \<Rightarrow> Inr ('' '' @ reg (dst i) @ '', '' @ reg (src0 i) @ '', '' @ last)
      | Prr \<Rightarrow> Inr ('' '' @ pred (dst i) @ '', '' @ reg (src0 i) @ '', '' @ last)
      | Rr \<Rightarrow> Inr ('' '' @ reg (dst i) @ '', '' @
                   (if imm_flag i then immediate_text env i else reg (src0 i)))
      | Acc \<Rightarrow> Inr ('' '' @ reg (dst i) @ '', '' @ reg (src0 i) @ '', '' @ reg (src1 i))
      | Sreg \<Rightarrow>
          (case special_register_info (src0 i) of
             None \<Rightarrow> fail \<lparr> disassembly_pc = 0,
                            disassembly_message = ''special register out of range'' \<rparr>
           | Some info \<Rightarrow> Inr ('' '' @ reg (dst i) @ '', '' @ special_name info))
      | Bra_shape \<Rightarrow>
          Inr ('' '' @ label_for (branch_target i) labels @
               (if reconvergence_pc i \<noteq> no_reconvergence
                then ''    // reconverge '' @ label_for (reconvergence_pc i) labels else []))
      | None_shape \<Rightarrow> Inr []
      | Ld \<Rightarrow> Inr ('' '' @ reg (dst i) @ '', '' @ address_text i)
      | St \<Rightarrow> Inr ('' '' @ address_text i @ '', '' @ reg (src1 i))
      | Ldp \<Rightarrow>
          if unat (imm i) \<ge> length names then
            fail \<lparr> disassembly_pc = 0, disassembly_message = ''parameter ordinal out of range'' \<rparr>
          else Inr ('' '' @ reg (dst i) @ '', ['' @ names ! unat (imm i) @ '']''))"

definition format_instruction ::
    "chars_env \<Rightarrow> Instruction \<Rightarrow> (u16 \<rightharpoonup> string) \<Rightarrow> string list \<Rightarrow> (string, DisassemblyError) result" where
  "format_instruction env i labels names =
     (case operands_text env i labels names of
        Inl e \<Rightarrow> fail e
      | Inr text \<Rightarrow> Inr (guard_text i @ mnemonic (opcode_info (opcode i)) @ text))"

section \<open>A program\<close>

text \<open>The first pass names every branch target that has no name yet.\<close>

fun name_targets ::
    "nat \<Rightarrow> u64 list \<Rightarrow> (u16 \<rightharpoonup> string) \<Rightarrow> (u16 \<rightharpoonup> string, DisassemblyError) result" where
  "name_targets pc [] labels = Inr labels"
| "name_targets pc (w # words) labels =
     (case decode w of
        Inl e \<Rightarrow> fail \<lparr> disassembly_pc = pc, disassembly_message = isa_error_to_string e \<rparr>
      | Inr i \<Rightarrow>
          name_targets (pc + 1) words
            (if opcode i = Bra \<and> labels (branch_target i) = None
             then labels(branch_target i \<mapsto> ''L'' @ decimal (unat (branch_target i))) else labels))"

fun print_words ::
    "chars_env \<Rightarrow> (u16 \<rightharpoonup> string) \<Rightarrow> string list \<Rightarrow> nat \<Rightarrow> u64 list \<Rightarrow>
     (string, DisassemblyError) result option" where
  "print_words env labels names pc [] = Some (Inr [])"
| "print_words env labels names pc (w # words) =
     (case decode w of
        Inl _ \<Rightarrow> None
      | Inr i \<Rightarrow>
          (case format_instruction env i labels names of
             Inl e \<Rightarrow> Some (fail \<lparr> disassembly_pc = pc, disassembly_message = disassembly_message e \<rparr>)
           | Inr text \<Rightarrow>
               map_option (\<lambda>r. case r of Inl e \<Rightarrow> fail e
                   | Inr others \<Rightarrow>
                       Inr ((case labels (of_nat pc) of Some name \<Rightarrow> name @ '':\<newline>'' | None \<Rightarrow> []) @
                            ''    '' @ text @ ''\<newline>'' @ others))
                 (print_words env labels names (pc + 1) words)))"

definition header_text :: "Program \<Rightarrow> string" where
  "header_text program =
     ''.entry '' @ entry_name program @ ''\<newline>'' @
     List.concat (List.map (\<lambda>param. ''.param '' @ param @ ''\<newline>'') (param_names program)) @
     ''.shared '' @ decimal (unat (shared_bytes program)) @ ''\<newline>\<newline>''"

definition disassemble :: "chars_env \<Rightarrow> Program \<Rightarrow> (string, DisassemblyError) result option" where
  "disassemble env program =
     (case name_targets 0 (code_words program) (label_names program) of
        Inl e \<Rightarrow> Some (fail e)
      | Inr labels \<Rightarrow>
          map_option (\<lambda>r. case r of Inl e \<Rightarrow> fail e | Inr text \<Rightarrow> Inr (header_text program @ text))
            (print_words env labels (param_names program) 0 (code_words program)))"

end
