(* ===== verification/Operand_Reading.thy ===== *)
theory Operand_Reading
  imports Scanning Assembler_Facts Disassembler
begin

text \<open>
  The operands the disassembler prints, read back by the parser. \<open>reads\<close> relates an operand
  parser, a text and the change it makes to the instruction, over any tokens that the text scans
  to; the rules compose along the commas of an operand list.
\<close>

section \<open>The tokens ahead\<close>

definition ahead :: "Parser \<Rightarrow> view list" where
  "ahead p = List.map view (drop (p_index p) (p_tokens p))"

text \<open>The parser moved to where \<open>us\<close> is ahead, and nothing else of it changed.\<close>

definition moves_to :: "Parser \<Rightarrow> view list \<Rightarrow> Parser \<Rightarrow> bool" where
  "moves_to p us p' \<longleftrightarrow> p' = p\<lparr>p_index := p_index p'\<rparr> \<and> ahead p' = us"

lemma ahead_Cons:
  assumes "ahead p = (k, s, n) # us"
  shows "at p k' \<longleftrightarrow> k = k'" "token_text (cur p) = s" "token_negate (cur p) = n"
    "p_index p < length (p_tokens p)" "drop (p_index p + 1) (p_tokens p) = tl (drop (p_index p) (p_tokens p))"
    "List.map view (tl (drop (p_index p) (p_tokens p))) = us"
proof -
  from assms obtain t ts where d: "drop (p_index p) (p_tokens p) = t # ts" "view t = (k, s, n)" "List.map view ts = us"
    by (auto simp: ahead_def map_eq_Cons_conv)
  then show lt: "p_index p < length (p_tokens p)" by (metis drop_all list.distinct(1) not_less)
  have "cur p = t" using d(1) lt by (simp add: cur_def) (metis hd_drop_conv_nth list.sel(1))
  with d(2) show "at p k' \<longleftrightarrow> k = k'" "token_text (cur p) = s" "token_negate (cur p) = n"
    by (auto simp: at_def view_def)
  from d show "drop (p_index p + 1) (p_tokens p) = tl (drop (p_index p) (p_tokens p))"
    "List.map view (tl (drop (p_index p) (p_tokens p))) = us"
    by (metis Suc_eq_plus1 drop_Suc tl_drop, simp)
qed

lemma ahead_next:
  assumes a: "ahead p = v # us" and ne: "us \<noteq> []"
  shows "moves_to p us (next_tok p)"
proof -
  obtain k s n where v: "v = (k, s, n)" by (cases v) auto
  note A = ahead_Cons [OF a [unfolded v]]
  have "drop (p_index p + 1) (p_tokens p) \<noteq> []" using A(5,6) ne by auto
  then have "p_index p + 1 < length (p_tokens p)" by (simp add: not_le)
  then have "next_tok p = p\<lparr>p_index := p_index p + 1\<rparr>" by (simp add: next_tok_def)
  with A(5,6) show ?thesis by (simp add: moves_to_def ahead_def)
qed

lemma moves_to_fields:
  assumes "moves_to p us p'"
  shows "p_program p' = p_program p" "p_labels p' = p_labels p" "p_pending p' = p_pending p" "ahead p' = us"
proof -
  from assms have "p' = p\<lparr>p_index := p_index p'\<rparr>" and a: "ahead p' = us" by (simp_all add: moves_to_def)
  then show "p_program p' = p_program p" "p_labels p' = p_labels p" "p_pending p' = p_pending p"
    by (metis Parser.surjective Parser.update_convs(2) Parser.select_convs)+
  from a show "ahead p' = us" .
qed

lemma moves_to_trans:
  assumes "moves_to p us q" "moves_to q vs q'"
  shows "moves_to p vs q'"
proof -
  have "q' = q\<lparr>p_index := p_index q'\<rparr>" "q = p\<lparr>p_index := p_index q\<rparr>"
    using assms by (simp_all add: moves_to_def)
  then have "q' = p\<lparr>p_index := p_index q'\<rparr>" by (metis Parser.update_convs(2) Parser.surjective)
  with assms show ?thesis by (simp add: moves_to_def)
qed

lemma expect_ahead:
  "ahead p = (k, s, n) # us \<Longrightarrow> us \<noteq> [] \<Longrightarrow> expect k what p = Inr (next_tok p) \<and> moves_to p us (next_tok p)"
  using ahead_next by (simp add: expect_def ahead_Cons(1))

section \<open>Reading an operand\<close>

text \<open>For instructions with the opcode \<open>opc\<close>, in a program with the given parameter names.\<close>

definition no_colon :: "view list \<Rightarrow> bool" where
  "no_colon vs \<longleftrightarrow> (\<forall>v \<in> set vs. fst v \<noteq> Colon)"

lemma no_colon_simps [simp]:
  "no_colon []" "no_colon (v # vs) \<longleftrightarrow> fst v \<noteq> Colon \<and> no_colon vs"
  "no_colon (vs @ vs') \<longleftrightarrow> no_colon vs \<and> no_colon vs'"
  by (auto simp: no_colon_def)

definition reads :: "string list \<Rightarrow> Opcode \<Rightarrow> operand_step \<Rightarrow> string \<Rightarrow> (Instruction \<Rightarrow> Instruction) \<Rightarrow> bool" where
  "reads names opc f s upd \<longleftrightarrow> (\<forall>r. boundary r \<longrightarrow> (\<exists>vs. scans s vs r \<and> no_colon vs \<and>
     (\<forall>p out us. ahead p = vs @ us \<longrightarrow> us \<noteq> [] \<longrightarrow> param_names (p_program p) = names \<longrightarrow> opcode out = opc \<longrightarrow>
        (\<exists>p'. f p out = Inr (p', upd out) \<and> moves_to p us p'))))"

lemma readsI:
  assumes "\<And>r. boundary r \<Longrightarrow> scans s vs r" "no_colon vs"
    and "\<And>p out us. ahead p = vs @ us \<Longrightarrow> us \<noteq> [] \<Longrightarrow> param_names (p_program p) = names \<Longrightarrow> opcode out = opc \<Longrightarrow>
      \<exists>p'. f p out = Inr (p', upd out) \<and> moves_to p us p'"
  shows "reads names opc f s upd"
  using assms unfolding reads_def by blast

lemma reads_single: "reads names opc f s upd \<Longrightarrow> reads names opc (sequence [f]) s upd"
  unfolding reads_def by simp

lemma boundary_punct [simp]: "boundary (CHR '','' # r)" "boundary (CHR '' '' # r)" "boundary (CHR '']'' # r)"
  "boundary (CHR ''+'' # r)" "boundary (CHR ''-'' # r)" "boundary (CHR ''\<newline>'' # r)" "boundary (CHR '':'' # r)"
  "boundary []"
  by (simp_all add: boundary_def)

lemma scans_comma: "scans '', '' [(Comma, '','', False)] r"
  using scans_append [OF scans_punct [of "CHR '',''" Comma "'' '' @ r"] scans_blank [of "CHR '' ''" r]]
  by (simp add: punct_kind_def)

lemma reads_comma:
  assumes f: "reads names opc f s upd" and keep: "\<And>out. opcode (upd out) = opcode out"
    and fs: "reads names opc (sequence fs) s' upd'"
  shows "reads names opc (sequence (f # comma # fs)) (s @ '', '' @ s') (upd' \<circ> upd)"
  unfolding reads_def
proof (intro allI impI)
  fix r assume r: "boundary r"
  from fs r obtain vs' where vs': "scans s' vs' r" "no_colon vs'"
    "\<And>p out us. ahead p = vs' @ us \<Longrightarrow> us \<noteq> [] \<Longrightarrow> param_names (p_program p) = names \<Longrightarrow> opcode out = opc \<Longrightarrow>
       \<exists>p'. sequence fs p out = Inr (p', upd' out) \<and> moves_to p us p'"
    unfolding reads_def by blast
  have "boundary ('', '' @ s' @ r)" by simp
  with f obtain vs where vs: "scans s vs ('', '' @ s' @ r)" "no_colon vs"
    "\<And>p out us. ahead p = vs @ us \<Longrightarrow> us \<noteq> [] \<Longrightarrow> param_names (p_program p) = names \<Longrightarrow> opcode out = opc \<Longrightarrow>
       \<exists>p'. f p out = Inr (p', upd out) \<and> moves_to p us p'"
    unfolding reads_def by blast
  let ?vs = "vs @ (Comma, '','', False) # vs'"
  have c: "scans ('', '' @ s') ((Comma, '','', False) # vs') r"
    using scans_append [OF scans_comma vs'(1)] by simp
  have "scans (s @ '', '' @ s') ?vs r" "no_colon ?vs"
    using scans_append [OF _ c, of s vs] vs(1,2) vs'(2) by simp_all
  moreover have "\<exists>p'. sequence (f # comma # fs) p out = Inr (p', (upd' \<circ> upd) out) \<and> moves_to p us p'"
    if p: "ahead p = ?vs @ us" "us \<noteq> []" "param_names (p_program p) = names" "opcode out = opc" for p out us
  proof -
    from vs(3) [of p "(Comma, '','', False) # vs' @ us" out] p obtain p1 where
      p1: "f p out = Inr (p1, upd out)" "moves_to p ((Comma, '','', False) # vs' @ us) p1" by auto
    have p2: "expect Comma (quoted '','') p1 = Inr (next_tok p1)" "moves_to p1 (vs' @ us) (next_tok p1)"
      using expect_ahead [OF moves_to_fields(4) [OF p1(2)]] p(2) by simp_all
    from vs'(3) [of "next_tok p1" us "upd out"] p keep moves_to_fields(1) [OF p1(2)] moves_to_fields(1,4) [OF p2(2)]
    obtain p3 where p3: "sequence fs (next_tok p1) (upd out) = Inr (p3, upd' (upd out))"
      "moves_to (next_tok p1) us p3" by auto
    from p1 p2 p3 moves_to_trans [OF moves_to_trans [OF p1(2) p2(2)] p3(2)] show ?thesis
      by (simp add: comma_def)
  qed
  ultimately show "\<exists>vs. scans (s @ '', '' @ s') vs r \<and> no_colon vs \<and> (\<forall>p out us. ahead p = vs @ us \<longrightarrow> us \<noteq> [] \<longrightarrow>
      param_names (p_program p) = names \<longrightarrow> opcode out = opc \<longrightarrow>
      (\<exists>p'. sequence (f # comma # fs) p out = Inr (p', (upd' \<circ> upd) out) \<and> moves_to p us p'))" by blast
qed

section \<open>Registers\<close>

lemma digits_are_ident: "list_all is_digit s \<Longrightarrow> list_all is_ident_char s"
  by (auto simp: list_all_iff is_ident_char_def)

lemma decimal_is_digits: "is_digits (decimal n)"
  using decimal_digits [of n] by (simp add: is_digits_def)

lemma register_name:
  assumes "is_alpha c" "unat r < unat count"
  shows "is_ident (c # decimal (unat r))" "register_index (c # decimal (unat r)) c count = Some r"
proof -
  note D = decimal_digits [of "unat r"]
  show "is_ident (c # decimal (unat r))"
    using assms(1) D digits_are_ident by (simp add: is_ident_def is_ident_start_def is_ident_char_def)
  have small: "unat r < 2 ^ 32"
    using unsigned_less [of r, where ?'a = nat] by simp
  have no_zero: "\<not> (length (decimal (unat r)) > 1 \<and> hd (decimal (unat r)) = CHR ''0'')"
  proof (cases "unat r < 10")
    case True
    then show ?thesis by (simp add: decimal.simps [of "unat r"])
  next
    case False
    with decimal_leading [of "unat r"] show ?thesis by simp
  qed
  have "decimal (unat r) ! 0 = hd (decimal (unat r))" using D by (simp add: hd_conv_nth)
  then show "register_index (c # decimal (unat r)) c count = Some r"
    using assms(2) D no_zero parse_unsigned_decimal [OF small]
    by (auto simp: register_index_def not_le Suc_le_eq)
qed

lemma register_parts:
  assumes "r < 64"
  shows "is_ident (reg r)" "register_index (reg r) (CHR ''r'') general_register_count = Some r"
  using register_name [of "CHR ''r''" r general_register_count] assms
  by (simp_all add: reg_def is_alpha_def general_register_count_def word_less_nat_alt)

lemma predicate_parts:
  assumes "r < 8"
  shows "is_ident (pred r)" "predicate_name (pred r) = Some r"
  using register_name [of "CHR ''p''" r predicate_register_count] assms
  by (simp_all add: pred_def predicate_name_def is_alpha_def predicate_register_count_def word_less_nat_alt)

lemma general_register_ahead:
  assumes "ahead p = (Identifier, reg r, False) # us" "us \<noteq> []" "r < 64"
  shows "general_register p = Inr (r, next_tok p) \<and> moves_to p us (next_tok p)"
  using assms(2,3) ahead_Cons(1,2) [OF assms(1)] ahead_next [OF assms(1,2)] register_parts(2)
  by (simp add: general_register_def)

lemma reads_ident:
  assumes "is_ident s"
    and "\<And>p out us. ahead p = (Identifier, s, False) # us \<Longrightarrow> us \<noteq> [] \<Longrightarrow> param_names (p_program p) = names \<Longrightarrow>
      opcode out = opc \<Longrightarrow> \<exists>p'. f p out = Inr (p', upd out) \<and> moves_to p us p'"
  shows "reads names opc f s upd"
  by (rule readsI [OF scans_ident [OF assms(1)]]) (use assms(2) in simp_all)

lemma reads_registers:
  assumes "r < 64"
  shows "reads names opc dst_reg (reg r) (\<lambda>out. out\<lparr>dst := r\<rparr>)"
    "reads names opc src0_reg (reg r) (\<lambda>out. out\<lparr>src0 := r\<rparr>)"
    "reads names opc src1_reg (reg r) (\<lambda>out. out\<lparr>src1 := r\<rparr>)"
    "reads names opc (src1_reg_or_imm env) (reg r) (\<lambda>out. out\<lparr>src1 := r\<rparr>)"
    "reads names opc (src0_reg_or_imm env) (reg r) (\<lambda>out. out\<lparr>src0 := r\<rparr>)"
  using assms
  by (auto intro!: reads_ident register_parts(1)
      simp: dst_reg_def src0_reg_def src1_reg_def src1_reg_or_imm_def src0_reg_or_imm_def
        ahead_Cons(1) general_register_ahead)

lemma reads_predicate:
  assumes "r < 8"
  shows "reads names opc dst_pred (pred r) (\<lambda>out. out\<lparr>dst := r\<rparr>)"
proof (rule reads_ident [OF predicate_parts(1) [OF assms]])
  fix p out us
  assume a: "ahead p = (Identifier, pred r, False) # us" "us \<noteq> []"
  with ahead_Cons(1,2) [OF a(1)] ahead_next [OF a] predicate_parts(2) [OF assms]
  show "\<exists>p'. dst_pred p out = Inr (p', out\<lparr>dst := r\<rparr>) \<and> moves_to p us p'" by (simp add: dst_pred_def)
qed

end
