(* ===== verification/Literal_Reading.thy ===== *)
theory Literal_Reading
  imports Operand_Reading
begin

text \<open>
  The immediates, addresses, parameters and special registers the disassembler prints, read
  back, and the instruction that a whole operand list gives back.
\<close>

section \<open>Integers and floats\<close>

definition integer_text :: "string \<Rightarrow> nat \<Rightarrow> bool" where
  "integer_text s n \<longleftrightarrow>
     parse_unsigned 64 (if take 2 s = ''0x'' then 16 else 10) (if take 2 s = ''0x'' then drop 2 s else s) = Some n \<and>
     n \<le> 0xFFFFFFFF"

lemma integer_literal_ahead:
  "ahead p = (Integer, s, False) # us \<Longrightarrow> us \<noteq> [] \<Longrightarrow> integer_text s n \<Longrightarrow>
     integer_literal p = Inr (of_nat n, next_tok p) \<and> moves_to p us (next_tok p)"
  using ahead_next by (simp add: integer_literal_def ahead_Cons(1,2) integer_text_def Let_def)

lemma no_prefix: "list_all is_digit s \<Longrightarrow> take 2 s \<noteq> ''0x''"
  by (cases s; cases "tl s"; auto simp: is_digit_def)

lemma integer_text_decimal: "n \<le> 0xFFFFFFFF \<Longrightarrow> integer_text (decimal n) n"
  using decimal_digits [of n] no_prefix [of "decimal n"] by (simp add: integer_text_def)

lemma integer_text_hex: "n \<le> 0xFFFFFFFF \<Longrightarrow> integer_text (''0x'' @ hex_string n) n"
  by (simp add: integer_text_def)

lemma unat_le_32: "unat (w :: u32) \<le> 0xFFFFFFFF"
  using unsigned_less [of w, where ?'a = nat] by simp

text \<open>The value of a literal of the given kind, after its sign.\<close>

definition literal :: "chars_env \<Rightarrow> Opcode \<Rightarrow> bool \<Rightarrow> TokenKind \<Rightarrow> string \<Rightarrow> u32 \<Rightarrow> bool" where
  "literal env opc negative k s v \<longleftrightarrow>
     (k = Integer \<and> (\<exists>n. integer_text s n \<and> (negative \<longrightarrow> n \<le> 0x80000000) \<and>
        v = (if negative then 0 - of_nat n else of_nat n)) \<or>
      k = Float \<and> accepts_float_immediate opc \<and> (\<exists>b. parse_f32 env s = Some b \<and>
        v = (if negative then b XOR 0x80000000 else b)))"

lemma signed_start:
  assumes a: "ahead p = (if negative then [(Minus, ''-'', False)] else []) @ (k, s, False) # us"
    and k: "k = Integer \<or> k = Float"
  shows "at p Minus \<longleftrightarrow> negative" "\<not> at p Identifier"
    "moves_to p ((k, s, False) # us) (if negative then next_tok p else p)"
proof -
  have "at p Minus = negative \<and> \<not> at p Identifier \<and>
      moves_to p ((k, s, False) # us) (if negative then next_tok p else p)"
  proof (cases negative)
    case True
    with a have a': "ahead p = (Minus, ''-'', False) # (k, s, False) # us" by simp
    from True ahead_Cons(1) [OF a'] ahead_next [OF a'] show ?thesis by simp
  next
    case False
    with a have a': "ahead p = (k, s, False) # us" by simp
    from False k ahead_Cons(1) [OF a'] a' show ?thesis by (auto simp: moves_to_def)
  qed
  then show "at p Minus \<longleftrightarrow> negative" "\<not> at p Identifier"
    "moves_to p ((k, s, False) # us) (if negative then next_tok p else p)" by blast+
qed

lemma literal_ahead:
  fixes out :: Instruction
  assumes a: "ahead p = (if negative then [(Minus, ''-'', False)] else []) @ (k, s, False) # us" "us \<noteq> []"
    and l: "literal env (opcode out) negative k s v"
  shows "\<not> at p Identifier \<and> (\<exists>p'. immediate env p out = Inr (p', out\<lparr>imm_flag := True, imm := v\<rparr>) \<and> moves_to p us p')"
proof -
  define p1 where "p1 = (if negative then next_tok p else p)"
  have k: "k = Integer \<or> k = Float" using l by (auto simp: literal_def)
  note S = signed_start [OF a(1) k, folded p1_def]
  note a1 = moves_to_fields(4) [OF S(3)]
  note C = ahead_Cons(1,2) [OF a1]
  have m: "moves_to p us (next_tok p1)" by (rule moves_to_trans [OF S(3) ahead_next [OF a1 a(2)]])
  have "immediate env p out = Inr (next_tok p1, out\<lparr>imm_flag := True, imm := v\<rparr>)"
  proof (cases "k = Float")
    case True
    with l obtain b where "accepts_float_immediate (opcode out)" "parse_f32 env s = Some b"
      "v = (if negative then b XOR 0x80000000 else b)" by (auto simp: literal_def)
    with True C show ?thesis unfolding immediate_def Let_def S(1) p1_def [symmetric] by simp
  next
    case False
    with k l obtain n where n: "k = Integer" "integer_text s n" "negative \<longrightarrow> n \<le> 0x80000000"
      "v = (if negative then 0 - of_nat n else of_nat n)" by (auto simp: literal_def)
    have "n \<le> 0xFFFFFFFF" using n(2) by (simp add: integer_text_def)
    then have "negative \<Longrightarrow> \<not> (of_nat n :: u32) > 0x80000000"
      using n(3) by (simp add: word_less_nat_alt unat_of_nat)
    moreover have "integer_literal p1 = Inr (of_nat n, next_tok p1)"
      using integer_literal_ahead [OF _ a(2) n(2)] a1 n(1) by simp
    ultimately show ?thesis using n(1,4) C unfolding immediate_def Let_def S(1) p1_def [symmetric] by auto
  qed
  with m S(2) show ?thesis by blast
qed

lemma reads_literal:
  assumes s: "\<And>r. boundary r \<Longrightarrow> scans s ((if negative then [(Minus, ''-'', False)] else []) @ [(k, t, False)]) r"
    and l: "literal env opc negative k t v"
    and f: "f \<in> {immediate env, src0_reg_or_imm env, src1_reg_or_imm env}"
  shows "reads names opc f s (\<lambda>out. out\<lparr>imm_flag := True, imm := v\<rparr>)"
proof (rule readsI [OF s])
  show "no_colon ((if negative then [(Minus, ''-'', False)] else []) @ [(k, t, False)])"
    using l by (auto simp: literal_def)
next
  fix p us and out :: Instruction
  assume "ahead p = ((if negative then [(Minus, ''-'', False)] else []) @ [(k, t, False)]) @ us"
    "us \<noteq> []" "opcode out = opc"
  with literal_ahead [of p negative k t us env out v] l f
  show "\<exists>p'. f p out = Inr (p', out\<lparr>imm_flag := True, imm := v\<rparr>) \<and> moves_to p us p'"
    by (auto simp: src0_reg_or_imm_def src1_reg_or_imm_def)
qed

lemma scans_minus: "scans s [v] r \<Longrightarrow> scans (''-'' @ s) [(Minus, ''-'', False), v] r"
  using scans_Cons [OF scans_punct [of "CHR ''-''" Minus "s @ r"], of "[v]"] by (simp add: punct_kind_def)

lemma scans_decimal: "boundary r \<Longrightarrow> scans (decimal n) [(Integer, decimal n, False)] r"
  by (rule scans_digits [OF decimal_is_digits])

section \<open>Immediates\<close>

lemma literal_hex: "literal env opc False Integer (hex v) v"
  using integer_text_hex [OF unat_le_32, of v] by (auto simp: literal_def hex_def)

lemma scans_hex_text: "boundary r \<Longrightarrow> scans (hex v) [(Integer, hex v, False)] r"
  unfolding hex_def using hex_string_digits [of "unat v"] by (intro scans_hex) (simp add: is_hex_def)

lemma signed_magnitude:
  fixes v :: u32
  defines "n \<equiv> nat (if sint v < 0 then - sint v else sint v)"
  shows "n \<le> 0xFFFFFFFF" "sint v < 0 \<longrightarrow> n \<le> 0x80000000" "v = (if sint v < 0 then 0 - of_nat n else of_nat n)"
proof -
  have b: "- 0x80000000 \<le> sint v" "sint v < 0x80000000"
    using sint_greater_eq [of v] sint_less [of v] by simp_all
  then show "n \<le> 0xFFFFFFFF" "sint v < 0 \<longrightarrow> n \<le> 0x80000000" by (simp_all add: n_def nat_le_iff)
  have "(of_int (sint v) :: u32) = v" by simp
  then show "v = (if sint v < 0 then 0 - of_nat n else of_nat n)"
    by (auto simp: n_def of_nat_nat)
qed

lemma signed_decimal_text:
  "signed_decimal v = (if sint v < 0 then ''-'' else []) @ decimal (nat (if sint v < 0 then - sint v else sint v))"
  by (simp add: signed_decimal_def)

text \<open>
  What the round trip asks of \<^verbatim>\<open>std::to_chars\<close> on a float: a sign if the sign bit is set, and
  then the digits of a number that \<^verbatim>\<open>std::from_chars\<close> reads as the magnitude.
\<close>

definition float_text_ok :: "chars_env \<Rightarrow> u32 \<Rightarrow> bool" where
  "float_text_ok env x \<longleftrightarrow> (\<exists>t. f32_to_chars env x = (if bit x 31 then ''-'' else []) @ t \<and>
     (is_digits t \<or> is_float t) \<and> parse_f32 env t = Some (x AND 0x7FFFFFFF))"

lemma bit_sign: "bit (0x80000000 :: u32) n \<longleftrightarrow> n = 31"
proof -
  have e: "(0x80000000 :: u32) = push_bit 31 1" by simp
  show ?thesis unfolding e bit_push_bit_iff by (auto simp: bit_1_iff)
qed

lemma sign_back:
  fixes x :: u32
  shows "x = (if bit x 31 then (x AND 0x7FFFFFFF) XOR 0x80000000 else x AND 0x7FFFFFFF)"
proof -
  have m: "(0x7FFFFFFF :: u32) = mask 31" by (simp add: mask_eq_exp_minus_1)
  show ?thesis
  proof (rule bit_word_eqI)
    fix n assume "n < LENGTH(32)"
    then show "bit x n = bit (if bit x 31 then (x AND 0x7FFFFFFF) XOR 0x80000000 else x AND 0x7FFFFFFF) n"
      unfolding m if_distrib [of "\<lambda>w. bit w n"] bit_xor_iff bit_and_iff bit_mask_iff bit_sign
      by (cases "n = 31") auto
  qed
qed

lemma float_text_marks:
  assumes "is_digits t \<or> is_float t"
  shows "(CHR ''.'' \<in> set t \<or> CHR ''e'' \<in> set t) \<longleftrightarrow> \<not> is_digits t"
    and "is_digits t \<Longrightarrow> is_float (t @ ''.0'')"
proof -
  have marked: "CHR ''.'' \<notin> set t" "CHR ''e'' \<notin> set t" if "is_digits t"
    using that by (auto simp: is_digits_def list_all_iff is_digit_def)
  moreover have "CHR ''.'' \<in> set t \<or> CHR ''e'' \<in> set t" if "is_float t"
  proof -
    from that obtain w f e where t: "t = w @ f @ e" "is_fraction f" "is_exponent e" "f \<noteq> [] \<or> e \<noteq> []"
      by (auto simp: is_float_def)
    then show ?thesis by (cases f) (auto simp: is_fraction_def is_exponent_def)
  qed
  ultimately show "(CHR ''.'' \<in> set t \<or> CHR ''e'' \<in> set t) \<longleftrightarrow> \<not> is_digits t" using assms by blast
  have "is_fraction ''.0''" "is_exponent []"
    by (simp_all add: is_fraction_def is_exponent_def is_digits_def is_digit_def)
  then show "is_float (t @ ''.0'')" if "is_digits t"
    using that unfolding is_float_def by (intro exI [of _ t] exI [of _ "''.0''"] exI [of _ "[]"]) simp
qed

lemma printed_float:
  assumes "float_text_ok env x" "is_finite x" "prints_float_immediate opc"
  defines "s \<equiv> f32_to_chars env x"
  defines "text \<equiv> (if CHR ''.'' \<notin> set s \<and> CHR ''e'' \<notin> set s then s @ ''.0'' else s)"
  obtains t where "text = (if bit x 31 then ''-'' else []) @ t" "is_float t" "literal env opc (bit x 31) Float t x"
proof -
  from assms(1) obtain t where t: "s = (if bit x 31 then ''-'' else []) @ t" "is_digits t \<or> is_float t"
    "parse_f32 env t = Some (x AND 0x7FFFFFFF)" unfolding float_text_ok_def s_def by blast
  note M = float_text_marks [OF t(2)]
  have accepts: "accepts_float_immediate opc"
    using assms(3) by (auto simp: accepts_float_immediate_def prints_float_immediate_def)
  let ?t = "if is_digits t then t @ ''.0'' else t"
  have "parse_f32 env ?t = Some (x AND 0x7FFFFFFF)"
    using t(3) parse_f32_point_zero [of t env] by (simp add: is_digits_def)
  then have "literal env opc (bit x 31) Float ?t x"
    using accepts sign_back [of x] by (auto simp: literal_def)
  moreover have "text = (if bit x 31 then ''-'' else []) @ ?t"
    using t(1) M(1) by (auto simp: text_def)
  moreover have "is_float ?t" using t(2) M(2) by auto
  ultimately show thesis using that by blast
qed

lemma reads_immediate:
  assumes float: "prints_float_immediate (opcode i) \<Longrightarrow> is_finite (imm i) \<Longrightarrow> float_text_ok env (imm i)"
    and f: "f \<in> {immediate env, src0_reg_or_imm env, src1_reg_or_imm env}"
  shows "reads names (opcode i) f (immediate_text env i) (\<lambda>out. out\<lparr>imm_flag := True, imm := imm i\<rparr>)"
proof -
  have h: "reads names (opcode i) f (hex (imm i)) (\<lambda>out. out\<lparr>imm_flag := True, imm := imm i\<rparr>)"
    using reads_literal [OF _ literal_hex f] scans_hex_text by simp
  have cases: "immediate_text env i \<in> {hex (imm i), signed_decimal (imm i)}"
    if "\<not> (prints_float_immediate (opcode i) \<and> is_finite (imm i))"
    using that by (simp add: immediate_text_def)
  consider (finite) "prints_float_immediate (opcode i)" "is_finite (imm i)"
    | (hexadecimal) "immediate_text env i = hex (imm i)"
    | (signed) "immediate_text env i = signed_decimal (imm i)"
    using cases by blast
  then show ?thesis
  proof cases
    case finite
    from printed_float [OF float [OF finite] finite(2,1)] finite obtain t where
      t: "immediate_text env i = (if bit (imm i) 31 then ''-'' else []) @ t" "is_float t"
        "literal env (opcode i) (bit (imm i) 31) Float t (imm i)"
      by (simp add: immediate_text_def Let_def) blast
    show ?thesis unfolding t(1)
      by (rule reads_literal [OF _ t(3) f]) (use scans_float [OF t(2)] scans_minus in auto)
  next
    case hexadecimal
    with h show ?thesis by simp
  next
    case signed
    let ?n = "nat (if sint (imm i) < 0 then - sint (imm i) else sint (imm i))"
    note M = signed_magnitude [of "imm i"]
    have "literal env (opcode i) (sint (imm i) < 0) Integer (decimal ?n) (imm i)"
      unfolding literal_def using integer_text_decimal [OF M(1)] M(2,3) by blast
    from reads_literal [OF _ this f] show ?thesis
      unfolding signed signed_decimal_text using scans_decimal scans_minus by auto
  qed
qed

section \<open>Addresses, parameters and special registers\<close>

text \<open>A text in square brackets.\<close>

lemma open_bracket:
  "ahead p = (LBracket, ''['', False) # v # us \<Longrightarrow>
     expect LBracket (quoted ''['') p = Inr (next_tok p) \<and> moves_to p (v # us) (next_tok p)"
  using expect_ahead [where s = "''[''" and n = False] by simp

lemma scans_brackets:
  assumes "scans s vs (CHR '']'' # r)"
  shows "scans (''['' @ s @ '']'') ((LBracket, ''['', False) # vs @ [(RBracket, '']'', False)]) r"
proof -
  have "scans '']'' [(RBracket, '']'', False)] r" by (rule scans_punct) (simp add: punct_kind_def)
  with assms have "scans (s @ '']'') (vs @ [(RBracket, '']'', False)]) r" by (intro scans_append) simp_all
  from scans_Cons [OF scans_punct this, of "CHR ''[''" LBracket] show ?thesis
    by (simp add: punct_kind_def)
qed

lemma scans_register: "r < 64 \<Longrightarrow> boundary t \<Longrightarrow> scans (reg r) [(Identifier, reg r, False)] t"
  by (rule scans_ident [OF register_parts(1)])

text \<open>The offset of an address: nothing, or a sign and a literal.\<close>

definition offset_views :: "Instruction \<Rightarrow> view list" where
  "offset_views i =
     (if sint (imm i) = 0 then []
      else if sint (imm i) < 0 then
        [(Minus, ''-'', False), (Integer, decimal (unat (0 - imm i)), False)]
      else [(Plus, ''+'', False), (Integer, decimal (unat (imm i)), False)])"

lemma scans_address:
  assumes "src0 i < 64" "boundary t"
  shows "scans (address_text i) ((LBracket, ''['', False) # (Identifier, reg (src0 i), False) #
    offset_views i @ [(RBracket, '']'', False)]) t"
proof -
  let ?t = "CHR '']'' # t"
  have signed: "scans (c # decimal n) [(k, [c], False), (Integer, decimal n, False)] ?t"
    if "punct_kind c = Some k" for c k n
    using scans_Cons [OF scans_punct [OF that] scans_decimal] by simp
  have "scans (reg (src0 i) @ s) ((Identifier, reg (src0 i), False) # vs) ?t"
    if "scans s vs ?t" "boundary (s @ ?t)" for s vs
    using scans_append [OF scans_register [OF assms(1) that(2)] that(1)] by simp
  note parts = this [of "[]" "[]"] this [OF signed [of "CHR ''-''" Minus]] this [OF signed [of "CHR ''+''" Plus]]
  have "\<exists>s. address_text i = ''['' @ s @ '']'' \<and>
      scans s ((Identifier, reg (src0 i), False) # offset_views i) ?t"
    using parts by (auto simp: address_text_def offset_views_def punct_kind_def)
  with scans_brackets show ?thesis by fastforce
qed

lemma reads_address:
  assumes "src0 i < 64"
  shows "reads names opc address (address_text i) (\<lambda>out. out\<lparr>src0 := src0 i, imm_flag := True, imm := imm i\<rparr>)"
proof (rule readsI [OF scans_address [OF assms]])
  show "no_colon ((LBracket, ''['', False) # (Identifier, reg (src0 i), False) #
      offset_views i @ [(RBracket, '']'', False)])"
    by (simp add: offset_views_def)
next
  fix p us and out :: Instruction
  assume a: "ahead p = ((LBracket, ''['', False) # (Identifier, reg (src0 i), False) #
    offset_views i @ [(RBracket, '']'', False)]) @ us" "us \<noteq> []"
  let ?rest = "(RBracket, '']'', False) # us" and ?p1 = "next_tok p"
  have p1: "expect LBracket (quoted ''['') p = Inr ?p1"
    "moves_to p ((Identifier, reg (src0 i), False) # offset_views i @ ?rest) ?p1"
    using open_bracket [of p] a(1) by simp_all
  let ?p2 = "next_tok ?p1"
  have p2: "general_register ?p1 = Inr (src0 i, ?p2)" "moves_to ?p1 (offset_views i @ ?rest) ?p2"
    using general_register_ahead [OF moves_to_fields(4) [OF p1(2)] _ assms] by simp_all
  note a2 = moves_to_fields(4) [OF p2(2)]
  define signed where "signed \<longleftrightarrow> at ?p2 Plus \<or> at ?p2 Minus"
  have "\<exists>p3. (if signed then
        (case integer_literal (next_tok ?p2) of Inl e \<Rightarrow> fail e
         | Inr (v, p3) \<Rightarrow> Inr (if at ?p2 Minus then 0 - v else v, p3))
      else Inr (0, ?p2)) = Inr (imm i, p3) \<and> moves_to ?p2 ?rest p3"
  proof (cases "sint (imm i) = 0")
    case True
    with a2 have "ahead ?p2 = ?rest" by (simp add: offset_views_def)
    moreover from ahead_Cons(1) [OF this] have "\<not> signed" by (simp add: signed_def)
    moreover have "imm i = 0" using True by (simp add: signed_eq_0_iff)
    ultimately show ?thesis by (simp add: moves_to_def)
  next
    case False
    define minus where "minus \<longleftrightarrow> sint (imm i) < 0"
    define n where "n = (if minus then unat (0 - imm i) else unat (imm i))"
    obtain k s where v: "ahead ?p2 = (k, s, False) # (Integer, decimal n, False) # ?rest"
      "k = (if minus then Minus else Plus)"
      using a2 False by (auto simp: offset_views_def minus_def n_def split: if_splits)
    have kinds: "signed" "at ?p2 Minus \<longleftrightarrow> minus"
      using ahead_Cons(1) [OF v(1)] v(2) by (auto simp: signed_def)
    have p3: "moves_to ?p2 ((Integer, decimal n, False) # ?rest) (next_tok ?p2)"
      using ahead_next [OF v(1)] by simp
    have "integer_text (decimal n) n"
      by (rule integer_text_decimal) (simp add: n_def unat_le_32 del: diff_0)
    with integer_literal_ahead [OF moves_to_fields(4) [OF p3]]
    have p4: "integer_literal (next_tok ?p2) = Inr (of_nat n, next_tok (next_tok ?p2))"
      "moves_to (next_tok ?p2) ?rest (next_tok (next_tok ?p2))" by simp_all
    have "(if minus then 0 - of_nat n else of_nat n) = imm i" by (simp add: n_def)
    with p4 kinds moves_to_trans [OF p3 p4(2)] show ?thesis by auto
  qed
  then obtain p3 where p3: "(if at ?p2 Plus \<or> at ?p2 Minus then
        (case integer_literal (next_tok ?p2) of Inl e \<Rightarrow> fail e
         | Inr (v, p3) \<Rightarrow> Inr (if at ?p2 Minus then 0 - v else v, p3))
      else Inr (0, ?p2)) = Inr (imm i, p3)" "moves_to ?p2 ?rest p3" unfolding signed_def by blast
  have p4: "expect RBracket (quoted '']'') p3 = Inr (next_tok p3)" "moves_to p3 us (next_tok p3)"
    using expect_ahead [OF moves_to_fields(4) [OF p3(2)] a(2)] by simp_all
  have "address p out = Inr (next_tok p3, out\<lparr>src0 := src0 i, imm_flag := True, imm := imm i\<rparr>)"
    unfolding address_def p1(1) sum.case p2(1) prod.case Let_def p3(1) p4(1) by simp
  with moves_to_trans [OF p1(2) moves_to_trans [OF p2(2) moves_to_trans [OF p3(2) p4(2)]]]
  show "\<exists>p'. address p out = Inr (p', out\<lparr>src0 := src0 i, imm_flag := True, imm := imm i\<rparr>) \<and> moves_to p us p'"
    by blast
qed

lemma find_index:
  "distinct xs \<Longrightarrow> k < length xs \<Longrightarrow> find (\<lambda>i. xs ! i = xs ! k) [0..<length xs] = Some k"
  by (auto simp: find_Some_iff nth_eq_iff_index_eq intro!: exI [of _ k])

lemma reads_param:
  assumes "is_ident (names ! k)" "distinct names" "k < length names"
  shows "reads names opc param_ref (''['' @ names ! k @ '']'') (\<lambda>out. out\<lparr>imm_flag := True, imm := of_nat k\<rparr>)"
proof (rule readsI [OF scans_brackets [OF scans_ident [OF assms(1)]]])
  fix p us and out :: Instruction
  assume a: "ahead p = ((LBracket, ''['', False) # [(Identifier, names ! k, False)] @ [(RBracket, '']'', False)]) @ us"
    "us \<noteq> []" "param_names (p_program p) = names"
  let ?p1 = "next_tok p" and ?p2 = "next_tok (next_tok p)"
  have p1: "expect LBracket (quoted ''['') p = Inr ?p1"
    "moves_to p ((Identifier, names ! k, False) # (RBracket, '']'', False) # us) ?p1"
    using open_bracket [of p] a(1) by simp_all
  note a1 = moves_to_fields(4) [OF p1(2)]
  have p2: "moves_to ?p1 ((RBracket, '']'', False) # us) ?p2" using ahead_next [OF a1] by simp
  have p3: "expect RBracket (quoted '']'') ?p2 = Inr (next_tok ?p2)" "moves_to ?p2 us (next_tok ?p2)"
    using expect_ahead [OF moves_to_fields(4) [OF p2] a(2)] by simp_all
  have "param_ref p out = Inr (next_tok ?p2, out\<lparr>imm_flag := True, imm := of_nat k\<rparr>)"
    using p1(1) ahead_Cons(1,2) [OF a1] p3(1) find_index [OF assms(2,3)] a(3) moves_to_fields(1) [OF p1(2)]
    by (simp add: param_ref_def)
  with moves_to_trans [OF p1(2) moves_to_trans [OF p2 p3(2)]]
  show "\<exists>p'. param_ref p out = Inr (p', out\<lparr>imm_flag := True, imm := of_nat k\<rparr>) \<and> moves_to p us p'" by blast
qed simp_all

lemma special_names:
  assumes "special_register_info n = Some info"
  shows "\<exists>s. special_name info = CHR ''%'' # s \<and> is_name s"
    and "special_register_info_name (special_name info) = Some info" "special_number (special_reg info) = n"
proof -
  have info: "info \<in> set special_register_table" "special_number (special_reg info) = n"
    using assms find_SomeD by (fastforce simp: special_register_info_def)+
  have "list_all (\<lambda>info. \<exists>s. special_name info = CHR ''%'' # s \<and> is_name s) special_register_table"
    by (simp add: special_register_table_def is_name_def is_ident_char_def is_alpha_def is_digit_def)
  with info(1) show "\<exists>s. special_name info = CHR ''%'' # s \<and> is_name s" by (auto simp: list_all_iff)
  show "special_register_info_name (special_name info) = Some info"
    unfolding special_register_info_name_def by (rule find_distinct_key [OF distinct_special_names info(1)])
  show "special_number (special_reg info) = n" by (rule info(2))
qed

lemma reads_special:
  assumes "special_register_info n = Some info"
  shows "reads names opc special_operand (special_name info) (\<lambda>out. out\<lparr>src0 := n\<rparr>)"
proof -
  note S = special_names [OF assms]
  from S(1) have "scans (special_name info) [(Special, special_name info, False)] r" if "boundary r" for r
    using scans_special that by auto
  then show ?thesis
  proof (rule readsI)
    fix p us and out :: Instruction
    assume "ahead p = [(Special, special_name info, False)] @ us" "us \<noteq> []"
    then have a: "ahead p = (Special, special_name info, False) # us" "us \<noteq> []" by simp_all
    from ahead_Cons(1,2) [OF a(1)] ahead_next [OF a] S(2,3)
    show "\<exists>p'. special_operand p out = Inr (p', out\<lparr>src0 := n\<rparr>) \<and> moves_to p us p'"
      by (simp add: special_operand_def)
  qed simp_all
qed

end
