(* ===== verification/Instruction_Reading.thy ===== *)
theory Instruction_Reading
  imports Literal_Reading
begin

text \<open>
  The text of one instruction, read back: the operand list of every shape, and then the whole
  statement with its guard and mnemonic.
\<close>

section \<open>Operand lists\<close>

lemma reads_blank:
  assumes "reads names opc f s upd"
  shows "reads names opc f ('' '' @ s) upd"
  unfolding reads_def
proof (intro allI impI)
  fix r assume "boundary r"
  with assms obtain vs where vs: "scans s vs r" "no_colon vs"
    "\<forall>p out us. ahead p = vs @ us \<longrightarrow> us \<noteq> [] \<longrightarrow> param_names (p_program p) = names \<longrightarrow> opcode out = opc \<longrightarrow>
        (\<exists>p'. f p out = Inr (p', upd out) \<and> moves_to p us p')"
    unfolding reads_def by blast
  from scans_append [OF scans_blank vs(1), of "CHR '' ''"] vs(2,3)
  show "\<exists>vs. scans ('' '' @ s) vs r \<and> no_colon vs \<and> (\<forall>p out us. ahead p = vs @ us \<longrightarrow> us \<noteq> [] \<longrightarrow>
      param_names (p_program p) = names \<longrightarrow> opcode out = opc \<longrightarrow>
      (\<exists>p'. f p out = Inr (p', upd out) \<and> moves_to p us p'))" by auto
qed

lemma reads_nothing: "reads names opc (sequence []) [] (\<lambda>out. out)"
  by (rule readsI [where vs = "[]"]) (simp_all add: moves_to_def)

definition floats_ok :: "chars_env \<Rightarrow> Instruction \<Rightarrow> bool" where
  "floats_ok env i \<longleftrightarrow> (imm_flag i \<and> prints_float_immediate (opcode i) \<and> is_finite (imm i) \<longrightarrow> float_text_ok env (imm i))"

lemma reads_last:
  assumes "floats_ok env i" "src0 i < 64" "src1 i < 64"
  shows "reads names (opcode i) (src1_reg_or_imm env) (if imm_flag i then immediate_text env i else reg (src1 i))
      (\<lambda>out. if imm_flag i then out\<lparr>imm_flag := True, imm := imm i\<rparr> else out\<lparr>src1 := src1 i\<rparr>)"
    "reads names (opcode i) (src0_reg_or_imm env) (if imm_flag i then immediate_text env i else reg (src0 i))
      (\<lambda>out. if imm_flag i then out\<lparr>imm_flag := True, imm := imm i\<rparr> else out\<lparr>src0 := src0 i\<rparr>)"
  using reads_immediate [of i env] reads_registers assms
  by (cases "imm_flag i"; simp add: floats_ok_def)+

lemma instruction_eqI:
  fixes i j :: Instruction
  assumes "guard i = guard j" "opcode i = opcode j" "dst i = dst j" "src0 i = src0 j" "src1 i = src1 j"
    "imm_flag i = imm_flag j" "imm i = imm j"
  shows "i = j"
  using assms by (cases i; cases j) simp

lemma operands_restored:
  assumes v: "valid_instruction i" and b: "opcode i \<noteq> Bra" and fl: "floats_ok env i"
    and ps: "opcode i = LdParam \<longrightarrow> unat (imm i) < length names"
    and names: "\<forall>x \<in> set names. is_ident x" "distinct names"
  obtains s upd where "operands_text env i labels names = Inr s"
    "reads names (opcode i) (parse_operands env (shape (opcode_info (opcode i)))) s upd"
    "upd (fresh (guard i) (opcode i)) = i"
proof -
  note R = valid_instruction_ranges [OF v]
  have ok: "operands_ok (shape (opcode_info (opcode i))) i" using v by (simp add: valid_instruction_def)
  note L = reads_last [OF fl R(3,4), of names]
  note C = reads_comma [OF reads_registers(1) [OF R(2)]] reads_comma [OF reads_registers(2) [OF R(3)]]
    reads_comma [OF reads_predicate]
  have ldp: "opcode i = LdParam" if "shape (opcode_info (opcode i)) = Ldp"
    using that by (cases "opcode i") simp_all
  have bra: "shape (opcode_info (opcode i)) \<noteq> Bra_shape" using b by (simp add: shape_is_branch)
  let ?restores = "\<lambda>s upd. operands_text env i labels names = Inr s \<and>
    reads names (opcode i) (parse_operands env (shape (opcode_info (opcode i)))) s upd \<and>
    upd (fresh (guard i) (opcode i)) = i"
  have restoresI: "\<exists>s upd. ?restores s upd" if "shape (opcode_info (opcode i)) = sh"
    "reads names (opcode i) (parse_operands env sh) s upd"
    "operands_text env i labels names = Inr s" "upd (fresh (guard i) (opcode i)) = i" for sh s upd
    using that by blast
  have "\<exists>s upd. ?restores s upd"
  proof (cases "shape (opcode_info (opcode i))")
    case Rrr
    show ?thesis
      by (rule restoresI [OF Rrr, unfolded parse_operands.simps, OF reads_blank [OF C(1) [OF _ C(2) [OF _ reads_single [OF L(1)]]]]])
        (use ok Rrr in \<open>auto simp: operands_text_def Let_def intro!: instruction_eqI split: if_splits\<close>)
  next
    case Rr
    show ?thesis
      by (rule restoresI [OF Rr, unfolded parse_operands.simps, OF reads_blank [OF C(1) [OF _ reads_single [OF L(2)]]]])
        (use ok Rr in \<open>auto simp: operands_text_def Let_def intro!: instruction_eqI split: if_splits\<close>)
  next
    case Acc
    show ?thesis
      by (rule restoresI [OF Acc, unfolded parse_operands.simps, OF reads_blank [OF C(1) [OF _ C(2) [OF _ reads_single [OF reads_registers(3) [OF R(4)]]]]]])
        (use ok Acc in \<open>auto simp: operands_text_def Let_def intro!: instruction_eqI split: if_splits\<close>)
  next
    case Prr
    show ?thesis
      by (rule restoresI [OF Prr, unfolded parse_operands.simps, OF reads_blank [OF C(3) [OF _ _ C(2) [OF _ reads_single [OF L(1)]], of "dst i"]]])
        (use ok Prr in \<open>auto simp: operands_text_def Let_def intro!: instruction_eqI split: if_splits\<close>)
  next
    case Sreg
    with ok obtain info where info: "special_register_info (src0 i) = Some info"
      using special_register_info_iff [of "src0 i"] by auto
    show ?thesis
      by (rule restoresI [OF Sreg, unfolded parse_operands.simps, OF reads_blank [OF C(1) [OF _ reads_single [OF reads_special [OF info]]]]])
        (use ok Sreg in \<open>auto simp: operands_text_def Let_def info intro!: instruction_eqI split: if_splits\<close>)
  next
    case Bra_shape
    with bra show ?thesis by simp
  next
    case None_shape
    show ?thesis
      by (rule restoresI [OF None_shape, unfolded parse_operands.simps, OF reads_nothing])
        (use ok None_shape in \<open>auto simp: operands_text_def Let_def intro!: instruction_eqI\<close>)
  next
    case Ld
    show ?thesis
      by (rule restoresI [OF Ld, unfolded parse_operands.simps, OF reads_blank [OF C(1) [OF _ reads_single [OF reads_address [OF R(3)]]]]])
        (use ok Ld in \<open>auto simp: operands_text_def Let_def intro!: instruction_eqI split: if_splits\<close>)
  next
    case St
    show ?thesis
      by (rule restoresI [OF St, unfolded parse_operands.simps, OF reads_blank [OF reads_comma [OF reads_address [OF R(3)] _ reads_single [OF reads_registers(3) [OF R(4)]]]]])
        (use ok St in \<open>auto simp: operands_text_def Let_def intro!: instruction_eqI split: if_splits\<close>)
  next
    case Ldp
    with ps ldp have k: "unat (imm i) < length names" by simp
    with names have ident: "is_ident (names ! unat (imm i))" by simp
    show ?thesis
      by (rule restoresI [OF Ldp, unfolded parse_operands.simps, OF reads_blank [OF C(1) [OF _ reads_single [OF reads_param [OF ident names(2) k]]]]])
        (use ok Ldp k in \<open>auto simp: operands_text_def Let_def intro!: instruction_eqI split: if_splits\<close>)
  qed
  with that show thesis by blast
qed

lemma operands_text_boundary:
  "operands_text env i labels names = Inr s \<Longrightarrow> boundary r \<Longrightarrow> boundary (s @ r)"
  by (cases "shape (opcode_info (opcode i))") (auto simp: operands_text_def Let_def fail_def split: option.splits if_splits)

section \<open>What a line does to the program\<close>

text \<open>The state of the parser without its tokens and the positions of the pending branches.\<close>

type_synonym content = "Program \<times> (string \<rightharpoonup> u16) \<times> (nat \<times> string) list"

definition content :: "Parser \<Rightarrow> content" where
  "content p = (p_program p, p_labels p, List.map (\<lambda>b. (branch_pc b, branch_label b)) (p_pending p))"

lemma moves_to_content: "moves_to p us p' \<Longrightarrow> content p' = content p"
  by (simp add: content_def moves_to_fields)

text \<open>The word a statement appends, before branches are resolved.\<close>

definition first_word :: "Instruction \<Rightarrow> u64" where
  "first_word i = encode_word (if opcode i = Bra then i\<lparr>imm := make_branch_imm 0 no_reconvergence\<rparr> else i)"

fun push_instruction :: "(u16 \<rightharpoonup> string) \<Rightarrow> Instruction \<Rightarrow> content \<Rightarrow> content" where
  "push_instruction labels i (program, names, branches) =
     (program\<lparr>code_words := code_words program @ [first_word i]\<rparr>, names,
      if opcode i = Bra then branches @ [(length (code_words program), label_for (branch_target i) labels)]
      else branches)"

lemma content_append_word:
  "content (append_word w p) =
     (let (program, rest_of) = content p in (program\<lparr>code_words := code_words program @ [w]\<rparr>, rest_of))"
  by (simp add: content_def append_word_def)

lemma ahead_append_word [simp]: "ahead (append_word w p) = ahead p"
  by (simp add: ahead_def append_word_def)

lemma ahead_second:
  assumes "ahead p = v # w # us"
  shows "kind (p_tokens p ! (p_index p + 1)) = fst w"
proof -
  from assms obtain t t' ts where d: "drop (p_index p) (p_tokens p) = t # t' # ts" "view t' = w"
    by (auto simp: ahead_def map_eq_Cons_conv)
  then have "p_tokens p ! (p_index p + 1) = t'"
    by (metis drop_eq_Nil list.distinct(1) nat_le_linear nth_Cons_0 nth_Cons_Suc nth_drop One_nat_def)
  with d(2) show ?thesis by (auto simp: view_def)
qed

lemma end_of_line_ahead: "ahead p = newline_view # us \<Longrightarrow> end_of_line p = Inr p"
  using ahead_Cons(1) [of p Newline "''\<newline>''" False us Newline] by (simp add: end_of_line_def)

lemma mnemonic_ident: "is_ident (mnemonic (opcode_info opc))"
proof -
  have "list_all (\<lambda>info. is_ident (mnemonic info)) opcode_table" by code_simp
  with opcode_info_in_table [of opc] show ?thesis by (auto simp: list_all_iff)
qed

lemma mnemonic_bra: "mnemonic (opcode_info Bra) = ''bra''"
  by code_simp

text \<open>What the mnemonic and its operands do, for an instruction that is no branch.\<close>

lemma plain_statement:
  assumes v: "valid_instruction i" and b: "opcode i \<noteq> Bra"
    and s: "reads names (opcode i) (parse_operands env (shape (opcode_info (opcode i)))) s upd"
      "upd (fresh (guard i) (opcode i)) = i"
  obtains vs where "scans s vs (CHR ''\<newline>'' # r)" "no_colon vs"
    "\<And>p us. ahead p = (Identifier, mnemonic (opcode_info (opcode i)), False) # vs @ newline_view # us \<Longrightarrow>
      param_names (p_program p) = names \<Longrightarrow>
      \<exists>p'. mnemonic_part env p (default_instruction\<lparr>guard := guard i\<rparr>) = Inr p' \<and>
        ahead p' = newline_view # us \<and> content p' = push_instruction labels i (content p)"
proof -
  let ?m = "mnemonic (opcode_info (opcode i))"
  from s(1) obtain vs where vs: "scans s vs (CHR ''\<newline>'' # r)" "no_colon vs"
    "\<And>p out us. ahead p = vs @ us \<Longrightarrow> us \<noteq> [] \<Longrightarrow> param_names (p_program p) = names \<Longrightarrow> opcode out = opcode i \<Longrightarrow>
        \<exists>p'. parse_operands env (shape (opcode_info (opcode i))) p out = Inr (p', upd out) \<and> moves_to p us p'"
    unfolding reads_def by (metis boundary_punct(6))
  have "\<exists>p'. mnemonic_part env p (default_instruction\<lparr>guard := guard i\<rparr>) = Inr p' \<and>
      ahead p' = newline_view # us \<and> content p' = push_instruction labels i (content p)"
    if p: "ahead p = (Identifier, ?m, False) # vs @ newline_view # us" "param_names (p_program p) = names" for p us
  proof -
    let ?p = "next_tok p"
    have n: "moves_to p (vs @ newline_view # us) ?p" using ahead_next [OF p(1)] by simp
    from vs(3) [of ?p "newline_view # us" "fresh (guard i) (opcode i)"] p(2) moves_to_fields(1,4) [OF n] s(2)
    obtain p1 where p1: "parse_operands env (shape (opcode_info (opcode i))) ?p (fresh (guard i) (opcode i)) = Inr (p1, i)"
      "moves_to ?p (newline_view # us) p1" by auto
    note a1 = moves_to_fields(4) [OF p1(2)]
    have "mnemonic_part env p (default_instruction\<lparr>guard := guard i\<rparr>) = Inr (append_word (encode_word i) p1)"
      using p1(1) end_of_line_ahead [OF a1] decode_encoded [OF v] ahead_Cons(1,2) [OF p(1)]
      by (simp add: mnemonic_part_def opcode_info_mnemonic_mnemonic fresh_def)
    moreover have "content (append_word (encode_word i) p1) = push_instruction labels i (content p)"
      using moves_to_content [OF moves_to_trans [OF n p1(2)]] b
      by (cases "content p") (simp add: content_append_word first_word_def)
    ultimately show ?thesis using a1 by auto
  qed
  with vs(1,2) that show thesis by blast
qed

text \<open>The same for a branch, whose target is a name.\<close>

lemma branch_statement:
  assumes v: "valid_instruction i" and b: "opcode i = Bra" and id: "is_ident (label_for (branch_target i) labels)"
    and p: "ahead p = (Identifier, ''bra'', False) # (Identifier, label_for (branch_target i) labels, False) #
      newline_view # us"
  shows "\<exists>p'. mnemonic_part env p (default_instruction\<lparr>guard := guard i\<rparr>) = Inr p' \<and>
        ahead p' = newline_view # us \<and> content p' = push_instruction labels i (content p)"
proof -
  let ?p = "next_tok p" and ?name = "label_for (branch_target i) labels"
  let ?i = "(fresh (guard i) Bra)\<lparr>imm := make_branch_imm 0 no_reconvergence\<rparr>"
  have n: "moves_to p ((Identifier, ?name, False) # newline_view # us) ?p" using ahead_next [OF p] by simp
  note a = moves_to_fields(4) [OF n]
  define q where "q = ?p\<lparr>p_pending := p_pending ?p @ [\<lparr> branch_pc = length (code_words (p_program ?p)),
    branch_label = token_text (cur ?p), branch_line = token_line (cur ?p), branch_column = token_column (cur ?p) \<rparr>]\<rparr>"
  have "ahead q = ahead ?p" by (simp add: q_def ahead_def)
  with a have q: "moves_to q (newline_view # us) (next_tok q)" using ahead_next [of q] by simp
  note aq = moves_to_fields(4) [OF q]
  have bra: "opcode_info_mnemonic ''bra'' = Some (opcode_info Bra)"
    using opcode_info_mnemonic_mnemonic [of Bra] by (simp add: mnemonic_bra)
  have i: "?i = i\<lparr>imm := make_branch_imm 0 no_reconvergence\<rparr>"
    using v b by (intro instruction_eqI) (auto simp: valid_instruction_def)
  have "guard_ok (guard i)" using v by (simp add: valid_instruction_def)
  note e = decode_encoded [OF valid_branch [OF this]]
  have "branch_operand ?p (fresh (guard i) Bra) = Inr (next_tok q, ?i)"
    using ahead_Cons(1) [OF a] by (simp add: branch_operand_def q_def)
  then have "mnemonic_part env p (default_instruction\<lparr>guard := guard i\<rparr>) = Inr (append_word (encode_word ?i) (next_tok q))"
    using end_of_line_ahead [OF aq] e ahead_Cons(1,2) [OF p] bra
    by (simp add: mnemonic_part_def fresh_def)
  moreover have "content (append_word (encode_word ?i) (next_tok q)) = push_instruction labels i (content p)"
  proof -
    have "content (next_tok q) = (p_program p, p_labels p, List.map (\<lambda>b. (branch_pc b, branch_label b)) (p_pending p) @
        [(length (code_words (p_program p)), ?name)])"
      using moves_to_content [OF q] moves_to_fields(1-3) [OF n] ahead_Cons(2) [OF a]
      by (simp add: content_def q_def)
    with b i show ?thesis by (simp add: content_append_word append_word_def first_word_def content_def)
  qed
  ultimately show ?thesis using aq by auto
qed

section \<open>Whole lines\<close>

text \<open>
  A line without its newline takes the content of the parser from \<open>c\<close> to \<open>c'\<close>.
\<close>

definition reads_line :: "chars_env \<Rightarrow> string \<Rightarrow> content \<Rightarrow> content \<Rightarrow> bool" where
  "reads_line env body c c' \<longleftrightarrow> (\<forall>r. \<exists>v vs. scans body (v # vs) (CHR ''\<newline>'' # r) \<and>
     fst v \<notin> {End, Newline} \<and>
     (\<forall>p us. ahead p = v # vs @ newline_view # us \<longrightarrow> us \<noteq> [] \<longrightarrow> content p = c \<longrightarrow>
        (\<exists>p'. (if at p Directive then directive p else statement env p) = Inr p' \<and>
           ahead p' = newline_view # us \<and> content p' = c')))"

lemma scans_blanks: "scans s vs r \<Longrightarrow> scans (replicate n CHR '' '' @ s) vs r"
proof (induction n)
  case (Suc n)
  from scans_append [OF scans_blank Suc.IH [OF Suc.prems], of "CHR '' ''"] show ?case by simp
qed simp

lemma reads_line_blanks: "reads_line env s c c' \<Longrightarrow> reads_line env (''    '' @ s) c c'"
  unfolding reads_line_def
proof (intro allI)
  fix r
  assume "\<forall>r. \<exists>v vs. scans s (v # vs) (CHR ''\<newline>'' # r) \<and> fst v \<notin> {End, Newline} \<and>
     (\<forall>p us. ahead p = v # vs @ newline_view # us \<longrightarrow> us \<noteq> [] \<longrightarrow> content p = c \<longrightarrow>
        (\<exists>p'. (if at p Directive then directive p else statement env p) = Inr p' \<and>
           ahead p' = newline_view # us \<and> content p' = c'))"
  then obtain v vs where "scans s (v # vs) (CHR ''\<newline>'' # r)" and rest: "fst v \<notin> {End, Newline}"
     "(\<forall>p us. ahead p = v # vs @ newline_view # us \<longrightarrow> us \<noteq> [] \<longrightarrow> content p = c \<longrightarrow>
        (\<exists>p'. (if at p Directive then directive p else statement env p) = Inr p' \<and>
           ahead p' = newline_view # us \<and> content p' = c'))" by blast
  then have "scans (''    '' @ s) (v # vs) (CHR ''\<newline>'' # r)"
    using scans_blanks [of s "v # vs" "CHR ''\<newline>'' # r" 4] by (simp add: numeral_eq_Suc)
  with rest show "\<exists>v vs. scans (''    '' @ s) (v # vs) (CHR ''\<newline>'' # r) \<and> fst v \<notin> {End, Newline} \<and>
     (\<forall>p us. ahead p = v # vs @ newline_view # us \<longrightarrow> us \<noteq> [] \<longrightarrow> content p = c \<longrightarrow>
        (\<exists>p'. (if at p Directive then directive p else statement env p) = Inr p' \<and>
           ahead p' = newline_view # us \<and> content p' = c'))" by blast
qed

text \<open>The guard of a statement.\<close>

definition guard_views :: "Guard \<Rightarrow> view list" where
  "guard_views g = (if present g then [(Guard_kind, pred (gpred g), negate g)] else [])"

lemma scans_guard_text:
  assumes "scans s vs r" "gpred (guard i) < 8"
  shows "scans (guard_text i @ s) (guard_views (guard i) @ vs) r"
proof (cases "present (guard i)")
  case True
  have name: "is_name (pred (gpred (guard i)))"
    using predicate_parts(1) [OF assms(2)] by (auto simp: is_ident_def is_name_def)
  have blank: "scans ('' '' @ s) vs r" using scans_append [OF scans_blank assms(1), of "CHR '' ''"] by simp
  have b: "boundary (('' '' @ s) @ r)" by simp
  show ?thesis
    using scans_append [OF scans_guard [OF name b] blank] scans_append [OF scans_negated_guard [OF name b] blank] True
    by (simp add: guard_text_def guard_views_def)
next
  case False
  with assms(1) show ?thesis by (simp add: guard_text_def guard_views_def)
qed

lemma guard_default: "guard_ok g \<Longrightarrow> \<not> present g \<Longrightarrow> default_instruction\<lparr>guard := g\<rparr> = default_instruction"
  by (cases g) (auto simp: guard_ok_def default_instruction_def no_guard_def)

text \<open>A statement without a label starts with its guard.\<close>

lemma statement_ahead:
  assumes ok: "guard_ok (guard i)"
    and p: "ahead p = guard_views (guard i) @ (Identifier, m, False) # w # us" "fst w \<noteq> Colon"
  obtains q where "moves_to p ((Identifier, m, False) # w # us) q"
    "statement env p = mnemonic_part env q (default_instruction\<lparr>guard := guard i\<rparr>)" "\<not> at p Directive"
proof (cases "present (guard i)")
  case True
  with p(1) have a: "ahead p = (Guard_kind, pred (gpred (guard i)), negate (guard i)) # (Identifier, m, False) # w # us"
    by (simp add: guard_views_def)
  note A = ahead_Cons(1-3) [OF a]
  have "predicate_name (pred (gpred (guard i))) = Some (gpred (guard i))"
    using predicate_parts(2) ok by (simp add: guard_ok_def)
  moreover have "guard i = \<lparr>present = True, negate = negate (guard i), gpred = gpred (guard i)\<rparr>"
    using True by simp
  ultimately have "statement env p = mnemonic_part env (next_tok p) (default_instruction\<lparr>guard := guard i\<rparr>)"
    using A by (simp add: statement_def label_part_def guard_part_def)
  with ahead_next [OF a] A(1) that show thesis by simp
next
  case False
  with p(1) have a: "ahead p = (Identifier, m, False) # w # us" by (simp add: guard_views_def)
  note A = ahead_Cons(1-3) [OF a]
  have "statement env p = mnemonic_part env p (default_instruction\<lparr>guard := guard i\<rparr>)"
    using A p(2) ahead_second [OF a] guard_default [OF ok False]
    by (simp add: statement_def label_part_def guard_part_def)
  moreover have "moves_to p ((Identifier, m, False) # w # us) p" using a by (simp add: moves_to_def)
  ultimately show thesis using that A(1) by simp
qed

lemma statement_line:
  assumes v: "valid_instruction i"
    and s: "\<And>r. \<exists>vs. scans s vs (CHR ''\<newline>'' # r) \<and> no_colon vs \<and>
      (\<forall>p us. ahead p = (Identifier, mnemonic (opcode_info (opcode i)), False) # vs @ newline_view # us \<longrightarrow>
         param_names (p_program p) = param_names (fst c) \<longrightarrow>
         (\<exists>p'. mnemonic_part env p (default_instruction\<lparr>guard := guard i\<rparr>) = Inr p' \<and>
            ahead p' = newline_view # us \<and> content p' = push_instruction labels i (content p)))"
    and b: "\<And>r. boundary (s @ CHR ''\<newline>'' # r)"
  shows "reads_line env (guard_text i @ mnemonic (opcode_info (opcode i)) @ s) c (push_instruction labels i c)"
  unfolding reads_line_def
proof
  fix r
  let ?m = "mnemonic (opcode_info (opcode i))"
  from s obtain vs where vs: "scans s vs (CHR ''\<newline>'' # r)" "no_colon vs"
    "\<forall>p us. ahead p = (Identifier, ?m, False) # vs @ newline_view # us \<longrightarrow>
         param_names (p_program p) = param_names (fst c) \<longrightarrow>
         (\<exists>p'. mnemonic_part env p (default_instruction\<lparr>guard := guard i\<rparr>) = Inr p' \<and>
            ahead p' = newline_view # us \<and> content p' = push_instruction labels i (content p))" by blast
  have ok: "guard_ok (guard i)" using v by (simp add: valid_instruction_def)
  let ?vs = "guard_views (guard i) @ (Identifier, ?m, False) # vs"
  from scans_append [OF scans_ident [OF mnemonic_ident b] vs(1)]
  have "scans (?m @ s) ((Identifier, ?m, False) # vs) (CHR ''\<newline>'' # r)" by simp
  from scans_guard_text [OF this, of i] ok
  have sc: "scans (guard_text i @ ?m @ s) ?vs (CHR ''\<newline>'' # r)" by (simp add: guard_ok_def)
  obtain v ws where vws: "?vs = v # ws" "fst v \<notin> {End, Newline}"
    by (cases "present (guard i)") (auto simp: guard_views_def)
  have "\<exists>p'. (if at p Directive then directive p else statement env p) = Inr p' \<and>
      ahead p' = newline_view # us \<and> content p' = push_instruction labels i c"
    if p: "ahead p = v # ws @ newline_view # us" "content p = c" for p us
  proof -
    obtain w us' where w: "vs @ newline_view # us = w # us'" "fst w \<noteq> Colon"
      using vs(2) by (cases vs) auto
    have "v # ws @ newline_view # us = ?vs @ newline_view # us" by (simp only: vws(1) append_Cons)
    with p(1) w(1) have "ahead p = guard_views (guard i) @ (Identifier, ?m, False) # w # us'" by simp
    from statement_ahead [OF ok this w(2)] obtain q where q: "moves_to p ((Identifier, ?m, False) # w # us') q"
      "statement env p = mnemonic_part env q (default_instruction\<lparr>guard := guard i\<rparr>)" "\<not> at p Directive" by blast
    have "content q = c" using moves_to_content [OF q(1)] p(2) by simp
    moreover from this have "param_names (p_program q) = param_names (fst c)" by (auto simp: content_def)
    moreover have "ahead q = (Identifier, ?m, False) # vs @ newline_view # us"
      using moves_to_fields(4) [OF q(1)] w(1) by simp
    ultimately show ?thesis using vs(3) q(2,3) by auto
  qed
  with sc vws show "\<exists>v vs. scans (guard_text i @ ?m @ s) (v # vs) (CHR ''\<newline>'' # r) \<and> fst v \<notin> {End, Newline} \<and>
      (\<forall>p us. ahead p = v # vs @ newline_view # us \<longrightarrow> us \<noteq> [] \<longrightarrow> content p = c \<longrightarrow>
        (\<exists>p'. (if at p Directive then directive p else statement env p) = Inr p' \<and>
           ahead p' = newline_view # us \<and> content p' = push_instruction labels i c))" by metis
qed

text \<open>The line that \<open>format_instruction\<close> prints.\<close>

lemma instruction_line:
  assumes v: "valid_instruction i" and fl: "floats_ok env i"
    and ps: "opcode i = LdParam \<longrightarrow> unat (imm i) < length (param_names (fst c))"
    and names: "\<forall>x \<in> set (param_names (fst c)). is_ident x" "distinct (param_names (fst c))"
    and labels: "\<forall>x \<in> ran labels. is_ident x"
  obtains body where "format_instruction env i labels (param_names (fst c)) = Inr body"
    "reads_line env (''    '' @ body) c (push_instruction labels i c)"
proof -
  let ?names = "param_names (fst c)"
  have label_ident: "is_ident (label_for pc labels)" for pc
  proof (cases "labels pc")
    case None
    have "is_ident (''L'' @ decimal (unat pc))"
      using decimal_digits [of "unat pc"] digits_are_ident
      by (simp add: is_ident_def is_ident_start_def is_ident_char_def is_alpha_def)
    with None show ?thesis by (simp add: label_for_def)
  next
    case (Some name)
    with labels have "is_ident name" by (auto simp: ran_def)
    with Some show ?thesis by (simp add: label_for_def)
  qed
  have "\<exists>s. operands_text env i labels ?names = Inr s \<and>
      reads_line env (guard_text i @ mnemonic (opcode_info (opcode i)) @ s) c (push_instruction labels i c)"
  proof (cases "opcode i = Bra")
    case False
    from operands_restored [OF v False fl ps names, of labels] obtain s upd where s:
      "operands_text env i labels ?names = Inr s"
      "reads ?names (opcode i) (parse_operands env (shape (opcode_info (opcode i)))) s upd"
      "upd (fresh (guard i) (opcode i)) = i" by blast
    have "reads_line env (guard_text i @ mnemonic (opcode_info (opcode i)) @ s) c (push_instruction labels i c)"
    proof (rule statement_line [OF v])
      show "boundary (s @ CHR ''\<newline>'' # r)" for r
        using operands_text_boundary [OF s(1)] by simp
    qed (use plain_statement [OF v False s(2,3)] in metis)
    with s(1) show ?thesis by blast
  next
    case True
    let ?target = "label_for (branch_target i) labels"
    define comment where "comment = (if reconvergence_pc i \<noteq> no_reconvergence
      then ''    // reconverge '' @ label_for (reconvergence_pc i) labels else [])"
    have printed: "operands_text env i labels ?names = Inr ('' '' @ ?target @ comment)"
      using True by (simp add: operands_text_def Let_def comment_def)
    have quiet: "CHR ''\<newline>'' \<notin> set ('' reconverge '' @ label_for (reconvergence_pc i) labels)"
      using label_ident [of "reconvergence_pc i"] ident_code(2) [of "CHR ''\<newline>''"]
      by (auto simp: is_ident_def list_all_iff)
    have "scans ('' '' @ ?target @ comment) [(Identifier, ?target, False)] (CHR ''\<newline>'' # r)" for r
    proof -
      have "scans comment [] (CHR ''\<newline>'' # r)"
        using scans_blanks [OF scans_comment [OF quiet, of "CHR ''\<newline>'' # r"], of 4]
        by (simp add: comment_def numeral_eq_Suc)
      moreover have "boundary (comment @ CHR ''\<newline>'' # r)" by (simp add: comment_def)
      ultimately have "scans (?target @ comment) [(Identifier, ?target, False)] (CHR ''\<newline>'' # r)"
        using scans_append [OF scans_ident [OF label_ident]] by fastforce
      from scans_append [OF scans_blank this, of "CHR '' ''"] show ?thesis by simp
    qed
    moreover have "no_colon [(Identifier, ?target, False)]" by simp
    ultimately have "reads_line env (guard_text i @ mnemonic (opcode_info (opcode i)) @ '' '' @ ?target @ comment) c
        (push_instruction labels i c)"
      using branch_statement [OF v True label_ident] True
      by (intro statement_line [OF v]) (auto simp: mnemonic_bra intro!: exI [of _ "[(Identifier, ?target, False)]"])
    with printed show ?thesis by blast
  qed
  then obtain s where "format_instruction env i labels ?names = Inr (guard_text i @ mnemonic (opcode_info (opcode i)) @ s)"
    "reads_line env (guard_text i @ mnemonic (opcode_info (opcode i)) @ s) c (push_instruction labels i c)"
    by (auto simp: format_instruction_def)
  with reads_line_blanks that show thesis by blast
qed

end
