(* ===== verification/Round_Trip.thy ===== *)
theory Round_Trip
  imports Instruction_Reading
begin

text \<open>
  The text of a whole program, read back: the lines compose to the content the parser ends
  with, branch resolution turns the pending branches into branches to their targets, and the
  reconvergence analysis restores the other half of each. Assembling the text of a well-formed
  program gives back the program.
\<close>

section \<open>Texts of several lines\<close>

definition reads_text :: "chars_env \<Rightarrow> string \<Rightarrow> content \<Rightarrow> content \<Rightarrow> bool" where
  "reads_text env s c c' \<longleftrightarrow> (\<forall>r. \<exists>vs. scans s vs r \<and>
     (\<forall>p us. ahead p = vs @ us \<longrightarrow> us \<noteq> [] \<longrightarrow> content p = c \<longrightarrow>
        (\<exists>p'. parse_lines env p = parse_lines env p' \<and> ahead p' = us \<and> content p' = c')))"

lemma reads_text_Nil: "reads_text env [] c c"
  unfolding reads_text_def by (intro allI exI [of _ "[]"]) auto

lemma reads_text_append:
  assumes "reads_text env s c c'" "reads_text env s' c' c''"
  shows "reads_text env (s @ s') c c''"
  unfolding reads_text_def
proof
  fix r
  from assms(2) obtain vs' where vs': "scans s' vs' r"
    "\<And>p us. ahead p = vs' @ us \<Longrightarrow> us \<noteq> [] \<Longrightarrow> content p = c' \<Longrightarrow>
        \<exists>p'. parse_lines env p = parse_lines env p' \<and> ahead p' = us \<and> content p' = c''"
    unfolding reads_text_def by meson
  from assms(1) obtain vs where vs: "scans s vs (s' @ r)"
    "\<And>p us. ahead p = vs @ us \<Longrightarrow> us \<noteq> [] \<Longrightarrow> content p = c \<Longrightarrow>
        \<exists>p'. parse_lines env p = parse_lines env p' \<and> ahead p' = us \<and> content p' = c'"
    unfolding reads_text_def by meson
  have "\<exists>p'. parse_lines env p = parse_lines env p' \<and> ahead p' = us \<and> content p' = c''"
    if p: "ahead p = (vs @ vs') @ us" "us \<noteq> []" "content p = c" for p us
  proof -
    from vs(2) [of p "vs' @ us"] p obtain p1 where
      "parse_lines env p = parse_lines env p1" "ahead p1 = vs' @ us" "content p1 = c'" by auto
    with vs'(2) [of p1 us] p(2) show ?thesis by auto
  qed
  with scans_append [OF vs(1) vs'(1)] show "\<exists>vs. scans (s @ s') vs r \<and>
     (\<forall>p us. ahead p = vs @ us \<longrightarrow> us \<noteq> [] \<longrightarrow> content p = c \<longrightarrow>
        (\<exists>p'. parse_lines env p = parse_lines env p' \<and> ahead p' = us \<and> content p' = c''))" by blast
qed

lemma parse_newline:
  assumes "ahead p = newline_view # us" "us \<noteq> []"
  shows "parse_lines env p = parse_lines env (next_tok p)" "ahead (next_tok p) = us"
    "content (next_tok p) = content p"
proof -
  note m = ahead_next [OF assms]
  have "at p Newline" "\<not> at p End" using ahead_Cons(1) [OF assms(1)] by auto
  then show "parse_lines env p = parse_lines env (next_tok p)" by (subst parse_lines.simps) simp
  show "ahead (next_tok p) = us" "content (next_tok p) = content p"
    using moves_to_fields(4) [OF m] moves_to_content [OF m] by auto
qed

lemma reads_text_newline: "reads_text env ''\<newline>'' c c"
  unfolding reads_text_def
proof
  fix r
  have "\<exists>p'. parse_lines env p = parse_lines env p' \<and> ahead p' = us \<and> content p' = c"
    if "ahead p = [newline_view] @ us" "us \<noteq> []" "content p = c" for p us
    using parse_newline(1) [of p us env] parse_newline(2,3) [of p us] that by auto
  with scans_newline show "\<exists>vs. scans ''\<newline>'' vs r \<and>
     (\<forall>p us. ahead p = vs @ us \<longrightarrow> us \<noteq> [] \<longrightarrow> content p = c \<longrightarrow>
        (\<exists>p'. parse_lines env p = parse_lines env p' \<and> ahead p' = us \<and> content p' = c))" by blast
qed

lemma reads_text_line:
  assumes "reads_line env s c c'"
  shows "reads_text env (s @ ''\<newline>'') c c'"
  unfolding reads_text_def
proof
  fix r
  from assms obtain v vs where vs: "scans s (v # vs) (CHR ''\<newline>'' # r)" "fst v \<notin> {End, Newline}"
    "\<And>p us. ahead p = v # vs @ newline_view # us \<Longrightarrow> us \<noteq> [] \<Longrightarrow> content p = c \<Longrightarrow>
        \<exists>p'. (if at p Directive then directive p else statement env p) = Inr p' \<and>
           ahead p' = newline_view # us \<and> content p' = c'"
    unfolding reads_line_def by meson
  have "scans (s @ ''\<newline>'') ((v # vs) @ [newline_view]) r"
    by (rule scans_append [OF _ scans_newline]) (use vs(1) in simp)
  moreover have "\<exists>p'. parse_lines env p = parse_lines env p' \<and> ahead p' = us \<and> content p' = c'"
    if p: "ahead p = ((v # vs) @ [newline_view]) @ us" "us \<noteq> []" "content p = c" for p us
  proof -
    obtain k t n where v: "v = (k, t, n)" by (cases v) auto
    from p(1) v have a: "ahead p = (k, t, n) # vs @ newline_view # us" by simp
    from vs(3) [of p us] p obtain p1 where p1:
      "(if at p Directive then directive p else statement env p) = Inr p1"
      "ahead p1 = newline_view # us" "content p1 = c'" by auto
    have "\<not> at p End" "\<not> at p Newline" using ahead_Cons(1) [OF a] vs(2) v by auto
    then have "parse_lines env p = parse_lines env p1" by (subst parse_lines.simps) (simp add: p1(1))
    with parse_newline [OF p1(2) p(2)] p1(3) show ?thesis by auto
  qed
  ultimately show "\<exists>vs. scans (s @ ''\<newline>'') vs r \<and>
     (\<forall>p us. ahead p = vs @ us \<longrightarrow> us \<noteq> [] \<longrightarrow> content p = c \<longrightarrow>
        (\<exists>p'. parse_lines env p = parse_lines env p' \<and> ahead p' = us \<and> content p' = c'))" by blast
qed

section \<open>Directives and labels\<close>

lemma ahead_with_program [simp]: "ahead (p\<lparr>p_program := program\<rparr>) = ahead p"
  "ahead (p\<lparr>p_labels := names\<rparr>) = ahead p"
  by (simp_all add: ahead_def)

text \<open>A directive with one operand.\<close>

lemma directive_line:
  assumes name: "is_name d" and operand: "\<And>r. scans s [(k, s, False)] (CHR ''\<newline>'' # r)"
    and run: "\<And>p. token_text (cur p) = ''.'' @ d \<Longrightarrow> directive p = f (next_tok p)"
    and step: "\<And>p us. ahead p = (k, s, False) # newline_view # us \<Longrightarrow> content p = c \<Longrightarrow>
      \<exists>p'. f p = Inr p' \<and> ahead p' = newline_view # us \<and> content p' = c'"
  shows "reads_line env (''.'' @ d @ '' '' @ s) c c'"
  unfolding reads_line_def
proof
  fix r
  let ?v = "(Directive, ''.'' @ d, False)"
  have "scans ('' '' @ s) [(k, s, False)] (CHR ''\<newline>'' # r)"
    using scans_append [OF scans_blank operand, of "CHR '' ''"] by simp
  from scans_append [OF _ this, of "''.'' @ d" "[?v]"] scans_directive [OF name]
  have "scans (''.'' @ d @ '' '' @ s) (?v # [(k, s, False)]) (CHR ''\<newline>'' # r)" by simp
  moreover have "\<exists>p'. (if at p Directive then directive p else statement env p) = Inr p' \<and>
      ahead p' = newline_view # us \<and> content p' = c'"
    if p: "ahead p = ?v # [(k, s, False)] @ newline_view # us" "us \<noteq> []" "content p = c" for p us
  proof -
    have m: "moves_to p ((k, s, False) # newline_view # us) (next_tok p)"
      using ahead_next [OF p(1)] by simp
    have "directive p = f (next_tok p)" "at p Directive" using run ahead_Cons(1,2) [OF p(1)] by auto
    with step [OF moves_to_fields(4) [OF m]] moves_to_content [OF m] p(3) show ?thesis by auto
  qed
  ultimately show "\<exists>v vs. scans (''.'' @ d @ '' '' @ s) (v # vs) (CHR ''\<newline>'' # r) \<and> fst v \<notin> {End, Newline} \<and>
     (\<forall>p us. ahead p = v # vs @ newline_view # us \<longrightarrow> us \<noteq> [] \<longrightarrow> content p = c \<longrightarrow>
        (\<exists>p'. (if at p Directive then directive p else statement env p) = Inr p' \<and>
           ahead p' = newline_view # us \<and> content p' = c'))"
    by (intro exI [of _ ?v] exI [of _ "[(k, s, False)]"]) simp
qed

lemma scans_name: "is_ident s \<Longrightarrow> scans s [(Identifier, s, False)] (CHR ''\<newline>'' # r)"
  by (rule scans_ident) simp_all

text \<open>After a directive has stored its operand.\<close>

lemma stored:
  assumes "ahead p = v # newline_view # us"
  shows "end_of_line (next_tok (p\<lparr>p_program := program\<rparr>)) = Inr (next_tok (p\<lparr>p_program := program\<rparr>))"
    "ahead (next_tok (p\<lparr>p_program := program\<rparr>)) = newline_view # us"
    "content (next_tok (p\<lparr>p_program := program\<rparr>)) = (program, snd (content p))"
proof -
  have m: "moves_to p (newline_view # us) (next_tok p)" using ahead_next [OF assms] by simp
  note a = moves_to_fields(4) [OF m]
  then show "ahead (next_tok (p\<lparr>p_program := program\<rparr>)) = newline_view # us" by simp
  from end_of_line_ahead [OF this]
  show "end_of_line (next_tok (p\<lparr>p_program := program\<rparr>)) = Inr (next_tok (p\<lparr>p_program := program\<rparr>))" .
  show "content (next_tok (p\<lparr>p_program := program\<rparr>)) = (program, snd (content p))"
    using moves_to_content [OF m] by (simp add: content_def)
qed

lemma entry_line:
  assumes "is_ident name" "entry_name program = []" "code_words program = []"
  shows "reads_line env (''.entry '' @ name) (program, c) (program\<lparr>entry_name := name\<rparr>, c)"
proof -
  have "reads_line env (''.'' @ ''entry'' @ '' '' @ name) (program, c) (program\<lparr>entry_name := name\<rparr>, c)"
  proof (rule directive_line [where f = entry_directive, OF _ scans_name [OF assms(1)]])
    fix p us assume a: "ahead p = (Identifier, name, False) # newline_view # us" "content p = (program, c)"
    note S = stored [OF a(1)]
    have "p_program p = program" using a(2) by (simp add: content_def)
    with assms(2,3) S a(2) ahead_Cons(1,2) [OF a(1)]
    show "\<exists>p'. entry_directive p = Inr p' \<and> ahead p' = newline_view # us \<and> content p' = (program\<lparr>entry_name := name\<rparr>, c)"
      by (simp add: entry_directive_def del: with_program_simps)
  qed (simp_all add: is_name_def is_ident_char_def is_alpha_def directive_def)
  then show ?thesis by simp
qed

lemma param_line:
  assumes "is_ident name" "name \<notin> set (param_names program)"
  shows "reads_line env (''.param '' @ name) (program, c)
    (program\<lparr>param_names := param_names program @ [name]\<rparr>, c)"
proof -
  have "reads_line env (''.'' @ ''param'' @ '' '' @ name) (program, c)
      (program\<lparr>param_names := param_names program @ [name]\<rparr>, c)"
  proof (rule directive_line [where f = param_directive, OF _ scans_name [OF assms(1)]])
    fix p us assume a: "ahead p = (Identifier, name, False) # newline_view # us" "content p = (program, c)"
    note S = stored [OF a(1)]
    have "p_program p = program" using a(2) by (simp add: content_def)
    with assms(2) S a(2) ahead_Cons(1,2) [OF a(1)]
    show "\<exists>p'. param_directive p = Inr p' \<and> ahead p' = newline_view # us \<and> content p' = (program\<lparr>param_names := param_names program @ [name]\<rparr>, c)"
      by (simp add: param_directive_def del: with_program_simps)
  qed (simp_all add: is_name_def is_ident_char_def is_alpha_def directive_def)
  then show ?thesis by simp
qed

lemma shared_line:
  "reads_line env (''.shared '' @ decimal (unat n)) (program, c) (program\<lparr>shared_bytes := n\<rparr>, c)"
proof -
  have "reads_line env (''.'' @ ''shared'' @ '' '' @ decimal (unat n)) (program, c) (program\<lparr>shared_bytes := n\<rparr>, c)"
  proof (rule directive_line [where f = shared_directive, OF _ scans_decimal])
    fix p us assume a: "ahead p = (Integer, decimal (unat n), False) # newline_view # us" "content p = (program, c)"
    have i: "integer_literal p = Inr (n, next_tok p)"
      using integer_literal_ahead [OF a(1) _ integer_text_decimal [OF unat_le_32]] by simp
    have m: "moves_to p (newline_view # us) (next_tok p)" using ahead_next [OF a(1)] by simp
    note am = moves_to_fields(4) [OF m]
    let ?q = "(next_tok p)\<lparr>p_program := (p_program (next_tok p))\<lparr>shared_bytes := n\<rparr>\<rparr>"
    have "end_of_line ?q = Inr ?q" using am by (intro end_of_line_ahead) simp
    moreover have "content ?q = (program\<lparr>shared_bytes := n\<rparr>, c)"
      using moves_to_content [OF m] a(2) by (simp add: content_def)
    ultimately show "\<exists>p'. shared_directive p = Inr p' \<and> ahead p' = newline_view # us \<and> content p' = (program\<lparr>shared_bytes := n\<rparr>, c)"
      using am by (simp add: shared_directive_def i)
  qed (simp_all add: is_name_def is_ident_char_def is_alpha_def directive_def)
  then show ?thesis by simp
qed

text \<open>A label on its own line; the program keeps the first name of each PC.\<close>

lemma label_line:
  fixes program :: Program
  assumes id: "is_ident name" and fresh_name: "names name = None"
  defines "pc \<equiv> of_nat (length (code_words program))"
  assumes first: "label_names program pc = None"
  shows "reads_line env (name @ '':'') (program, names, branches)
    (program\<lparr>label_names := (label_names program)(pc \<mapsto> name)\<rparr>, names(name \<mapsto> pc), branches)"
  unfolding reads_line_def
proof
  fix r
  let ?v = "(Identifier, name, False)" and ?colon = "(Colon, '':'', False)"
  have "scans '':'' [?colon] (CHR ''\<newline>'' # r)" by (rule scans_punct) (simp add: punct_kind_def)
  from scans_append [OF scans_ident [OF id] this]
  have sc: "scans (name @ '':'') (?v # [?colon]) (CHR ''\<newline>'' # r)" by simp
  have "\<exists>p'. (if at p Directive then directive p else statement env p) = Inr p' \<and>
      ahead p' = newline_view # us \<and> content p' =
        (program\<lparr>label_names := (label_names program)(pc \<mapsto> name)\<rparr>, names(name \<mapsto> pc), branches)"
    if p: "ahead p = ?v # [?colon] @ newline_view # us" "us \<noteq> []" "content p = (program, names, branches)" for p us
  proof -
    let ?p1 = "p\<lparr>p_labels := (p_labels p)(name \<mapsto> pc), p_program := (p_program p)\<lparr>label_names :=
      (label_names (p_program p))(pc \<mapsto> name)\<rparr>\<rparr>"
    from p(1) have a: "ahead p = ?v # ?colon # newline_view # us" by simp
    note A = ahead_Cons(1,2) [OF a] ahead_second [OF a]
    have c: "p_program p = program" "p_labels p = names" using p(3) by (simp_all add: content_def)
    have a1: "ahead ?p1 = ?v # ?colon # newline_view # us" using a by simp
    have m1: "moves_to ?p1 (?colon # newline_view # us) (next_tok ?p1)" using ahead_next [OF a1] by simp
    note a2 = moves_to_fields(4) [OF m1]
    have m2: "moves_to (next_tok ?p1) (newline_view # us) (next_tok (next_tok ?p1))" using ahead_next [OF a2] by simp
    note a3 = moves_to_fields(4) [OF m2]
    have "label_part p = Inr (True, next_tok (next_tok ?p1))"
      using A c fresh_name first ahead_Cons(1) [OF a3] by (simp add: label_part_def pc_def Let_def)
    then have "statement env p = Inr (next_tok (next_tok ?p1))" by (simp add: statement_def)
    moreover have "content (next_tok (next_tok ?p1)) =
        (program\<lparr>label_names := (label_names program)(pc \<mapsto> name)\<rparr>, names(name \<mapsto> pc), branches)"
      using moves_to_content [OF m1] moves_to_content [OF m2] c p(3) by (simp add: content_def)
    ultimately show ?thesis using a3 A(1) by simp
  qed
  with sc show "\<exists>v vs. scans (name @ '':'') (v # vs) (CHR ''\<newline>'' # r) \<and> fst v \<notin> {End, Newline} \<and>
      (\<forall>p us. ahead p = v # vs @ newline_view # us \<longrightarrow> us \<noteq> [] \<longrightarrow> content p = (program, names, branches) \<longrightarrow>
        (\<exists>p'. (if at p Directive then directive p else statement env p) = Inr p' \<and>
           ahead p' = newline_view # us \<and> content p' =
             (program\<lparr>label_names := (label_names program)(pc \<mapsto> name)\<rparr>, names(name \<mapsto> pc), branches)))"
    by (intro exI [of _ ?v] exI [of _ "[?colon]"]) simp
qed

section \<open>The header and the code\<close>

lemma params_text:
  assumes "\<forall>x \<in> set xs. is_ident x" "distinct (param_names program @ xs)"
  shows "reads_text env (List.concat (List.map (\<lambda>param. ''.param '' @ param @ ''\<newline>'') xs)) (program, c)
    (program\<lparr>param_names := param_names program @ xs\<rparr>, c)"
  using assms
proof (induction xs arbitrary: program)
  case Nil
  then show ?case by (simp add: reads_text_Nil)
next
  case (Cons x xs)
  let ?program = "program\<lparr>param_names := param_names program @ [x]\<rparr>"
  have "reads_text env ((''.param '' @ x) @ ''\<newline>'') (program, c) (?program, c)"
    using Cons.prems by (intro reads_text_line param_line) auto
  moreover have "reads_text env (List.concat (List.map (\<lambda>param. ''.param '' @ param @ ''\<newline>'') xs)) (?program, c)
      (?program\<lparr>param_names := param_names ?program @ xs\<rparr>, c)"
    using Cons.prems by (intro Cons.IH) auto
  ultimately show ?case using reads_text_append by fastforce
qed

lemma header_reads:
  assumes "is_ident (entry_name program)" "\<forall>x \<in> set (param_names program). is_ident x" "distinct (param_names program)"
  shows "reads_text env (header_text program) (empty_program, c)
    (program\<lparr>code_words := [], label_names := Map.empty\<rparr>, c)"
proof -
  let ?p1 = "empty_program\<lparr>entry_name := entry_name program\<rparr>"
  let ?p2 = "?p1\<lparr>param_names := param_names program\<rparr>"
  have 1: "reads_text env ((''.entry '' @ entry_name program) @ ''\<newline>'') (empty_program, c) (?p1, c)"
    using assms(1) by (intro reads_text_line entry_line) (simp_all add: empty_program_def)
  have 2: "reads_text env (List.concat (List.map (\<lambda>param. ''.param '' @ param @ ''\<newline>'') (param_names program)))
      (?p1, c) (?p2, c)"
    using params_text [of "param_names program" ?p1 env c] assms(2,3) by (simp add: empty_program_def)
  have 3: "reads_text env ((''.shared '' @ decimal (unat (shared_bytes program))) @ ''\<newline>'') (?p2, c)
      (?p2\<lparr>shared_bytes := shared_bytes program\<rparr>, c)"
    by (rule reads_text_line [OF shared_line])
  have "?p2\<lparr>shared_bytes := shared_bytes program\<rparr> = program\<lparr>code_words := [], label_names := Map.empty\<rparr>"
    by (simp add: empty_program_def)
  with reads_text_append [OF reads_text_append [OF reads_text_append [OF 1 2] 3] reads_text_newline]
  show ?thesis by (simp add: header_text_def)
qed

text \<open>The content after the first \<open>k\<close> instructions have been read.\<close>

definition content_at :: "Program \<Rightarrow> Instruction list \<Rightarrow> nat \<Rightarrow> content \<Rightarrow> bool" where
  "content_at program instrs k c \<longleftrightarrow> (\<exists>names. c =
     (program\<lparr>code_words := List.map first_word (take k instrs),
              label_names := label_names program |` {pc. unat pc < k}\<rparr>, names,
      [(j, label_for (branch_target (instrs ! j)) (label_names program)). j \<leftarrow> [0..<k], opcode (instrs ! j) = Bra]) \<and>
     (\<forall>name pc. names name = Some pc \<longleftrightarrow> label_names program pc = Some name \<and> unat pc < k))"

lemma restrict_Suc:
  fixes m :: "u16 \<rightharpoonup> 'a"
  assumes "k < 65536"
  shows "m |` {pc. unat pc < Suc k} = (case m (of_nat k) of None \<Rightarrow> m |` {pc. unat pc < k}
    | Some v \<Rightarrow> (m |` {pc. unat pc < k})(of_nat k \<mapsto> v))"
proof -
  have k: "unat (of_nat k :: u16) = k" using assms by (simp add: unat_of_nat)
  have "unat pc = k \<longleftrightarrow> pc = of_nat k" for pc :: u16 using k by (metis of_nat_unat ucast_id)
  then show ?thesis using k
    by (auto simp: fun_eq_iff restrict_map_def less_Suc_eq split: option.splits)
qed

text \<open>Reading the label of a PC, where it has one, leaves the content ready for its instruction.\<close>

lemma label_reads:
  assumes c: "content_at program instrs k c" and k: "k < length instrs" "k < 65536"
    and inj: "inj_on (label_names program) (dom (label_names program))"
    and labels: "\<forall>x \<in> ran (label_names program). is_ident x"
  obtains c1 where "reads_text env (case label_names program (of_nat k) of Some name \<Rightarrow> name @ '':\<newline>'' | None \<Rightarrow> []) c c1"
    "param_names (fst c1) = param_names program"
    "content_at program instrs (Suc k) (push_instruction (label_names program) (instrs ! k) c1)"
proof -
  let ?i = "instrs ! k" and ?pc = "of_nat k :: u16" and ?labels = "label_names program"
  let ?label = "case ?labels ?pc of Some name \<Rightarrow> name @ '':\<newline>'' | None \<Rightarrow> []"
  define branches where "branches =
    [(j, label_for (branch_target (instrs ! j)) ?labels). j \<leftarrow> [0..<k], opcode (instrs ! j) = Bra]"
  let ?words = "List.map first_word (take k instrs)"
  from c obtain nm where c_eq: "c = (program\<lparr>code_words := ?words, label_names := ?labels |` {pc. unat pc < k}\<rparr>, nm, branches)"
    and nm: "\<And>name pc. nm name = Some pc \<longleftrightarrow> ?labels pc = Some name \<and> unat pc < k"
    unfolding content_at_def branches_def by blast
  have len: "length ?words = k" using k(1) by simp
  have u: "unat ?pc = k" using k(2) by (simp add: unat_of_nat)
  have eq_pc: "pc = ?pc" if "unat pc = k" for pc using that u by (metis of_nat_unat ucast_id)
  define c1 where "c1 = (program\<lparr>code_words := ?words, label_names := ?labels |` {pc. unat pc < Suc k}\<rparr>,
    (case ?labels ?pc of Some name \<Rightarrow> nm(name \<mapsto> ?pc) | None \<Rightarrow> nm), branches)"
  have new: "nm name = None" if name: "?labels ?pc = Some name" for name
  proof (rule ccontr)
    assume "nm name \<noteq> None"
    then obtain pc where "?labels pc = Some name" "unat pc < k" using nm by auto
    with name inj u show False by (metis domI inj_onD less_irrefl)
  qed
  have nm1: "(case ?labels ?pc of Some name \<Rightarrow> nm(name \<mapsto> ?pc) | None \<Rightarrow> nm) name = Some pc \<longleftrightarrow>
      ?labels pc = Some name \<and> unat pc < Suc k" for name pc
  proof -
    have lt: "unat pc < Suc k \<longleftrightarrow> unat pc < k \<or> pc = ?pc" by (metis eq_pc u less_Suc_eq)
    show ?thesis
    proof (cases "?labels ?pc")
      case None
      with nm [of name pc] lt show ?thesis by auto
    next
      case (Some m)
      with nm [of name pc] nm [of m pc] new [OF Some] lt show ?thesis by (cases "name = m") auto
    qed
  qed
  have 1: "reads_text env ?label c c1"
  proof (cases "?labels ?pc")
    case None
    then show ?thesis
      using restrict_Suc [OF k(2), of ?labels] by (simp add: c_eq c1_def reads_text_Nil)
  next
    case (Some name)
    have "is_ident name" using labels Some by (auto simp: ran_def)
    let ?program = "program\<lparr>code_words := ?words, label_names := ?labels |` {pc. unat pc < k}\<rparr>"
    have "label_names ?program (of_nat (length (code_words ?program))) = None"
      using len u by (simp add: restrict_map_def)
    from reads_text_line [OF label_line [of name nm ?program env branches, OF \<open>is_ident name\<close> new [OF Some] this]]
    show ?thesis
      using restrict_Suc [OF k(2), of ?labels] Some u k(1) by (simp add: c_eq c1_def min_absorb2)
  qed
  moreover have "param_names (fst c1) = param_names program" by (simp add: c1_def)
  moreover have "content_at program instrs (Suc k) (push_instruction ?labels ?i c1)"
    unfolding content_at_def c1_def using nm1 k(1) len
    by (intro exI [of _ "case ?labels ?pc of Some name \<Rightarrow> nm(name \<mapsto> ?pc) | None \<Rightarrow> nm"])
      (simp add: branches_def take_Suc_conv_app_nth)
  ultimately show thesis by (rule that)
qed

lemma one_instruction:
  assumes c: "content_at program instrs k c" and k: "k < length instrs" "k < 65536"
    and inj: "inj_on (label_names program) (dom (label_names program))"
    and names: "\<forall>x \<in> set (param_names program). is_ident x" "distinct (param_names program)"
    and labels: "\<forall>x \<in> ran (label_names program). is_ident x"
    and i: "valid_instruction (instrs ! k)" "floats_ok env (instrs ! k)"
      "opcode (instrs ! k) = LdParam \<longrightarrow> unat (imm (instrs ! k)) < length (param_names program)"
  obtains body c1 c' where "format_instruction env (instrs ! k) (label_names program) (param_names program) = Inr body"
    "reads_text env (case label_names program (of_nat k) of Some name \<Rightarrow> name @ '':\<newline>'' | None \<Rightarrow> []) c c1"
    "reads_line env (''    '' @ body) c1 c'" "content_at program instrs (Suc k) c'"
proof -
  obtain c1 where 1: "reads_text env (case label_names program (of_nat k) of Some name \<Rightarrow> name @ '':\<newline>'' | None \<Rightarrow> []) c c1"
    and pn: "param_names (fst c1) = param_names program"
    and at: "content_at program instrs (Suc k) (push_instruction (label_names program) (instrs ! k) c1)"
    by (rule label_reads [OF c k inj labels])
  from instruction_line [OF i(1,2), of c1 "label_names program"] i(3) names labels obtain body where
    "format_instruction env (instrs ! k) (label_names program) (param_names program) = Inr body"
    "reads_line env (''    '' @ body) c1 (push_instruction (label_names program) (instrs ! k) c1)" by (auto simp: pn)
  with 1 at that show thesis by blast
qed

lemma code_reads:
  assumes "content_at program instrs k c" "k \<le> length instrs" "length instrs \<le> 65535"
    and "inj_on (label_names program) (dom (label_names program))"
    and "\<forall>x \<in> set (param_names program). is_ident x" "distinct (param_names program)"
    and "\<forall>x \<in> ran (label_names program). is_ident x"
    and "\<forall>i \<in> set instrs. floats_ok env i \<and>
      (opcode i = LdParam \<longrightarrow> unat (imm i) < length (param_names program))"
    and "length words = length instrs" "\<forall>k < length instrs. decode (words ! k) = Inr (instrs ! k)"
  shows "\<exists>body c'. print_words env (label_names program) (param_names program) k (drop k words) = Some (Inr body) \<and>
    reads_text env body c c' \<and> content_at program instrs (length instrs) c'"
  using assms(1,2)
proof (induction "length instrs - k" arbitrary: k c)
  case 0
  then have "k = length instrs" by simp
  with assms(9) have "drop k words = []" by simp
  with \<open>k = length instrs\<close> 0(2) reads_text_Nil [of env c] show ?case
    by (intro exI [of _ "[]"] exI [of _ c]) simp
next
  case (Suc n)
  then have k: "k < length instrs" by simp
  have i: "decode (words ! k) = Inr (instrs ! k)" "instrs ! k \<in> set instrs" using assms(10) k by auto
  have "k < 65536" using k assms(3) by simp
  from one_instruction [OF Suc.prems(1) k this assms(4-7) decode_valid [OF i(1)], of env] assms(8) i(2)
  obtain body c0 c1 where b: "format_instruction env (instrs ! k) (label_names program) (param_names program) = Inr body"
    "reads_text env (case label_names program (of_nat k) of Some name \<Rightarrow> name @ '':\<newline>'' | None \<Rightarrow> []) c c0"
    "reads_line env (''    '' @ body) c0 c1" and at: "content_at program instrs (Suc k) c1" by blast
  from reads_text_append [OF b(2) reads_text_line [OF b(3)]] b(1) at
  have 1: "format_instruction env (instrs ! k) (label_names program) (param_names program) = Inr body"
    "reads_text env ((case label_names program (of_nat k) of Some name \<Rightarrow> name @ '':\<newline>'' | None \<Rightarrow> []) @
      ''    '' @ body @ ''\<newline>'') c c1" "content_at program instrs (Suc k) c1" by simp_all
  have "n = length instrs - Suc k" "Suc k \<le> length instrs" using Suc.hyps(2) k by auto
  from Suc.hyps(1) [OF this(1) 1(3) this(2)] obtain others c' where
    2: "print_words env (label_names program) (param_names program) (Suc k) (drop (Suc k) words) = Some (Inr others)"
      "reads_text env others c1 c'" "content_at program instrs (length instrs) c'" by blast
  have "drop k words = words ! k # drop (Suc k) words" using k assms(9) by (simp add: Cons_nth_drop_Suc)
  with i(1) 1(1) 2(1) have "print_words env (label_names program) (param_names program) k (drop k words) =
      Some (Inr ((case label_names program (of_nat k) of Some name \<Rightarrow> name @ '':\<newline>'' | None \<Rightarrow> []) @
        ''    '' @ body @ ''\<newline>'' @ others))" by simp
  moreover have "reads_text env ((case label_names program (of_nat k) of Some name \<Rightarrow> name @ '':\<newline>'' | None \<Rightarrow> []) @
        ''    '' @ body @ ''\<newline>'' @ others) c c'" using reads_text_append [OF 1(2) 2(2)] by simp
  ultimately show ?case using 2(3) by blast
qed

section \<open>Resolution and annotation restore the program\<close>

lemma first_word_decodes:
  assumes "valid_instruction i"
  shows "decode (first_word i) = Inr (if opcode i = Bra then i\<lparr>imm := make_branch_imm 0 no_reconvergence\<rparr> else i)"
  using assms decode_encoded branch_valid_imm by (auto simp: first_word_def)

lemma resolve_restores:
  assumes "\<forall>b \<in> set bs. branch_pc b < length instrs \<and> opcode (instrs ! branch_pc b) = Bra \<and>
      names (branch_label b) = Some (branch_target (instrs ! branch_pc b))"
    and valid: "\<forall>i \<in> set instrs. valid_instruction i"
    and len: "length words = length instrs"
    and "\<forall>k < length instrs. words ! k \<in> {first_word (instrs ! k), encode_word (forget_reconvergence (instrs ! k))}"
  shows "\<exists>words'. resolve_branches names bs words = Some (Inr words') \<and> length words' = length instrs \<and>
    (\<forall>k < length instrs. words' ! k = (if \<exists>b \<in> set bs. branch_pc b = k
       then encode_word (forget_reconvergence (instrs ! k)) else words ! k))"
  using assms(1,3,4)
proof (induction bs arbitrary: words)
  case Nil
  then show ?case by simp
next
  case (Cons b bs)
  let ?k = "branch_pc b"
  let ?i = "instrs ! ?k"
  have k: "?k < length instrs" "opcode ?i = Bra" "names (branch_label b) = Some (branch_target ?i)"
    using Cons.prems(1) by auto
  have v: "valid_instruction ?i" using valid k(1) by simp
  have f: "forget_reconvergence ?i = ?i\<lparr>imm := make_branch_imm (branch_target ?i) no_reconvergence\<rparr>"
    using k(2) by (simp add: forget_reconvergence_def)
  note e = decode_encoded [OF branch_valid_imm [OF v k(2)]]
  have "decode (words ! ?k) \<in> {Inr (?i\<lparr>imm := make_branch_imm 0 no_reconvergence\<rparr>), Inr (forget_reconvergence ?i)}"
    using Cons.prems(3) k(1) first_word_decodes [OF v] k(2) e f by auto
  then obtain v' where d: "decode (words ! ?k) = Inr (?i\<lparr>imm := v'\<rparr>)" using f by auto
  let ?words = "words[?k := encode_word (forget_reconvergence ?i)]"
  have "\<exists>words'. resolve_branches names bs ?words = Some (Inr words') \<and> length words' = length instrs \<and>
    (\<forall>k < length instrs. words' ! k = (if \<exists>b \<in> set bs. branch_pc b = k
       then encode_word (forget_reconvergence (instrs ! k)) else ?words ! k))"
    using Cons.prems by (intro Cons.IH) (auto simp: nth_list_update)
  then obtain words' where w: "resolve_branches names bs ?words = Some (Inr words')" "length words' = length instrs"
    "\<And>j. j < length instrs \<Longrightarrow> words' ! j = (if \<exists>b \<in> set bs. branch_pc b = j
       then encode_word (forget_reconvergence (instrs ! j)) else ?words ! j)" by blast
  have "resolve_branches names (b # bs) words = Some (Inr words')"
    using w(1) d k(3) e f by simp
  moreover have "words' ! j = (if \<exists>c \<in> set (b # bs). branch_pc c = j
       then encode_word (forget_reconvergence (instrs ! j)) else words ! j)" if "j < length instrs" for j
    using w(3) [OF that] that Cons.prems(2) by (cases "?k = j") (auto simp: nth_list_update)
  ultimately show ?case using w(2) by blast
qed

lemma annotate_restores:
  assumes a: "annotate_reconvergence instrs = Some (Inr annotated)"
    and valid: "\<forall>i \<in> set instrs. valid_instruction i"
    and w: "length words = length instrs" "\<forall>k < length instrs. words ! k = encode_word (forget_reconvergence (instrs ! k))"
  shows "annotate_words words = Some (Inr (List.map encode_word annotated))"
proof -
  have v: "valid_instruction (forget_reconvergence i)" if "i \<in> set instrs" for i
    using that valid branch_valid_imm by (auto simp: forget_reconvergence_def)
  have d: "all_values (List.map decode words) = Some (List.map forget_reconvergence instrs)"
    unfolding all_values_map using w decode_encoded [OF v] by simp
  have "same_paths instrs (List.map forget_reconvergence instrs)"
    by (simp add: same_paths_def forget_reconvergence_def)
  note annotated = annotate_same [OF this a]
  have "length annotated = length instrs" using a by (auto elim: annotate_Inr)
  then have "all_values (List.map encode annotated) = Some (List.map encode_word annotated)"
    unfolding all_values_map using annotate_valid(1) [OF a valid] decode_encoded by simp
  with d annotated show ?thesis by (simp add: annotate_words_def)
qed

section \<open>The round trip\<close>

lemma name_targets_known:
  assumes "\<forall>k < length words. \<exists>i. decode (words ! k) = Inr i \<and> (opcode i = Bra \<longrightarrow> labels (branch_target i) \<noteq> None)"
  shows "name_targets pc words labels = Inr labels"
  using assms
proof (induction words arbitrary: pc)
  case (Cons w ws)
  from Cons.prems have "\<exists>i. decode w = Inr i \<and> (opcode i = Bra \<longrightarrow> labels (branch_target i) \<noteq> None)" by auto
  then obtain i where i: "decode w = Inr i" "opcode i = Bra \<longrightarrow> labels (branch_target i) \<noteq> None" by blast
  have "name_targets (pc + 1) ws labels = Inr labels" using Cons.prems by (intro Cons.IH) auto
  with i show ?case by auto
qed simp

lemma name_targets_names:
  assumes "name_targets pc words labels = Inr labels'"
  shows "labels \<subseteq>\<^sub>m labels' \<and> (\<forall>k < length words. \<forall>i. decode (words ! k) = Inr i \<longrightarrow> opcode i = Bra \<longrightarrow>
    labels' (branch_target i) \<noteq> None)"
  using assms
proof (induction words arbitrary: pc labels)
  case (Cons w ws)
  then obtain i where i: "decode w = Inr i" by (auto simp: fail_def split: sum.splits)
  define labels1 where "labels1 = (if opcode i = Bra \<and> labels (branch_target i) = None
    then labels(branch_target i \<mapsto> ''L'' @ decimal (unat (branch_target i))) else labels)"
  have "name_targets (pc + 1) ws labels1 = Inr labels'" using Cons.prems i by (simp add: labels1_def)
  note IH = Cons.IH [OF this]
  have "labels \<subseteq>\<^sub>m labels1" by (auto simp: labels1_def map_le_def)
  moreover have "labels' (branch_target i) \<noteq> None" if "opcode i = Bra"
  proof -
    have "labels1 (branch_target i) \<noteq> None" using that by (simp add: labels1_def)
    with IH show ?thesis unfolding map_le_def by (metis domIff)
  qed
  ultimately show ?case using IH i by (auto simp: less_Suc_eq_0_disj intro: map_le_trans)
qed (simp add: map_le_def)

text \<open>
  A program the disassembler prints without a clash of names: \<open>labels\<close> are its names after the
  first pass, and \<open>instrs\<close> its instructions.
\<close>

definition printable :: "Program \<Rightarrow> (u16 \<rightharpoonup> string) \<Rightarrow> Instruction list \<Rightarrow> bool" where
  "printable program labels instrs \<longleftrightarrow>
     is_ident (entry_name program) \<and> (\<forall>x \<in> set (param_names program). is_ident x) \<and>
     distinct (param_names program) \<and> length (code_words program) \<le> 65535 \<and>
     all_values (List.map decode (code_words program)) = Some instrs \<and>
     (\<forall>i \<in> set instrs. opcode i = LdParam \<longrightarrow> unat (imm i) < length (param_names program)) \<and>
     name_targets 0 (code_words program) (label_names program) = Inr labels \<and>
     (\<forall>name \<in> ran labels. is_ident name) \<and> inj_on labels (dom labels)"

lemma printable_wf:
  assumes "program_wf program"
  obtains instrs where "printable program (label_names program) instrs"
    "annotate_reconvergence instrs = Some (Inr instrs)"
proof -
  from assms obtain instrs where d: "all_values (List.map decode (code_words program)) = Some instrs"
    and a: "annotate_reconvergence instrs = Some (Inr instrs)"
    and I: "\<forall>i \<in> set instrs. (opcode i = LdParam \<longrightarrow> unat (imm i) < length (param_names program)) \<and>
        (opcode i = Bra \<longrightarrow> label_names program (branch_target i) \<noteq> None)"
    by (auto simp: program_wf_def decoded_ok_def)
  from d I have "name_targets 0 (code_words program) (label_names program) = Inr (label_names program)"
    by (intro name_targets_known) (auto simp: all_values_map)
  with assms d I have "printable program (label_names program) instrs"
    by (simp add: printable_def program_wf_def)
  with a that show thesis by blast
qed

text \<open>The names of the lines that are printed.\<close>

definition printed_names :: "nat \<Rightarrow> (u16 \<rightharpoonup> string) \<Rightarrow> u16 \<rightharpoonup> string" where
  "printed_names n labels = labels |` {pc. unat pc < n}"

lemma content_new_parser: "content (new_parser tokens) = (empty_program, Map.empty, [])"
  by (simp add: content_def new_parser_def)

lemma run_parser_reads:
  assumes "reads_text env text (empty_program, Map.empty, []) c"
  obtains tokens p where "lex text = Inr tokens" "parse_lines env (new_parser tokens) = Some (Inr p)" "content p = c"
proof -
  from assms obtain vs where vs: "scans text vs []"
    "\<And>p us. ahead p = vs @ us \<Longrightarrow> us \<noteq> [] \<Longrightarrow> content p = (empty_program, Map.empty, []) \<Longrightarrow>
        \<exists>p'. parse_lines env p = parse_lines env p' \<and> ahead p' = us \<and> content p' = c"
    unfolding reads_text_def by meson
  from lex_scans [OF vs(1)] obtain tokens us where t: "lex text = Inr tokens" "List.map view tokens = vs @ us"
    "us = [end_view] \<or> us = [newline_view, end_view]" by auto
  have "ahead (new_parser tokens) = vs @ us" using t(2) by (simp add: ahead_def new_parser_def)
  from vs(2) [OF this _ content_new_parser] t(3) obtain p where
    p: "parse_lines env (new_parser tokens) = parse_lines env p" "ahead p = us" "content p = c" by auto
  have finished: "parse_lines env q = Some (Inr q)" if "ahead q = [end_view]" for q
    using ahead_Cons(1) [OF that] by (subst parse_lines.simps) simp
  show thesis
  proof (cases "us = [end_view]")
    case True
    with p finished that t(1) show thesis by simp
  next
    case False
    with t(3) p(2) have "ahead p = newline_view # [end_view]" by simp
    note n = parse_newline [OF this]
    with p finished [of "next_tok p"] that t(1) show thesis by simp
  qed
qed

lemma printable_parts:
  assumes "printable program (label_names program) instrs"
  shows "length (code_words program) = length instrs"
    "\<forall>k < length instrs. decode (code_words program ! k) = Inr (instrs ! k)"
    "\<forall>i \<in> set instrs. valid_instruction i" "length instrs \<le> 65535"
    "k < length instrs \<Longrightarrow> opcode (instrs ! k) = Bra \<Longrightarrow> label_names program (branch_target (instrs ! k)) \<noteq> None"
proof -
  have d: "all_values (List.map decode (code_words program)) = Some instrs"
    and n: "name_targets 0 (code_words program) (label_names program) = Inr (label_names program)"
    using assms by (simp_all add: printable_def)
  from d show len: "length (code_words program) = length instrs"
    and dec: "\<forall>k < length instrs. decode (code_words program ! k) = Inr (instrs ! k)"
    unfolding all_values_map by auto
  from dec show "\<forall>i \<in> set instrs. valid_instruction i" using decode_valid by (metis in_set_conv_nth)
  show "length instrs \<le> 65535" using assms len by (simp add: printable_def)
  show "label_names program (branch_target (instrs ! k)) \<noteq> None"
    if "k < length instrs" "opcode (instrs ! k) = Bra"
    using name_targets_names [OF n] dec len that by auto
qed

text \<open>What the parser makes of the content that the whole text leaves.\<close>

lemma finish_restores:
  assumes pr: "printable program (label_names program) instrs"
    and a: "annotate_reconvergence instrs = Some (Inr annotated)"
    and c: "content_at program instrs (length instrs) (content p)"
  shows "finish_program p = Some (Inr (program\<lparr>code_words := List.map encode_word annotated,
      label_names := printed_names (length (code_words program)) (label_names program)\<rparr>))"
proof -
  let ?labels = "label_names program"
  note parts = printable_parts [OF pr]
  define branches where "branches =
    [(j, label_for (branch_target (instrs ! j)) ?labels). j \<leftarrow> [0..<length instrs], opcode (instrs ! j) = Bra]"
  from c have P: "p_program p = program\<lparr>code_words := List.map first_word instrs,
      label_names := printed_names (length instrs) ?labels\<rparr>"
    "List.map (\<lambda>b. (branch_pc b, branch_label b)) (p_pending p) = branches"
    "\<And>name pc. p_labels p name = Some pc \<longleftrightarrow> ?labels pc = Some name \<and> unat pc < length instrs"
    unfolding content_at_def branches_def by (auto simp: content_def printed_names_def)
  obtain g where g: "build_cfg instrs = Inr g" using a by (auto elim: annotate_Inr)
  have target: "p_labels p (label_for (branch_target (instrs ! k)) ?labels) = Some (branch_target (instrs ! k))"
    if "k < length instrs" "opcode (instrs ! k) = Bra" for k
  proof -
    have "\<not> out_of_range instrs k" using build_cfg_shape(8) [OF g that(1)] .
    with that have "unat (branch_target (instrs ! k)) < length instrs" by (simp add: out_of_range_def)
    with parts(5) [OF that] show ?thesis using P(3) by (auto simp: label_for_def)
  qed
  have pending: "(\<exists>b \<in> set (p_pending p). branch_pc b = k \<and> branch_label b = name) \<longleftrightarrow>
      k < length instrs \<and> opcode (instrs ! k) = Bra \<and> name = label_for (branch_target (instrs ! k)) ?labels" for k name
  proof -
    have "(\<exists>b \<in> set (p_pending p). branch_pc b = k \<and> branch_label b = name) \<longleftrightarrow> (k, name) \<in> set branches"
      unfolding P(2) [symmetric] by auto
    then show ?thesis by (auto simp: branches_def)
  qed
  have B: "\<forall>b \<in> set (p_pending p). branch_pc b < length instrs \<and> opcode (instrs ! branch_pc b) = Bra \<and>
      p_labels p (branch_label b) = Some (branch_target (instrs ! branch_pc b))"
    using pending target by metis
  from resolve_restores [OF B parts(3), of "List.map first_word instrs"] obtain words' where
    w: "resolve_branches (p_labels p) (p_pending p) (List.map first_word instrs) = Some (Inr words')"
    "length words' = length instrs" "\<And>k. k < length instrs \<Longrightarrow> words' ! k =
       (if \<exists>b \<in> set (p_pending p). branch_pc b = k then encode_word (forget_reconvergence (instrs ! k))
        else first_word (instrs ! k))" by auto
  have "words' ! k = encode_word (forget_reconvergence (instrs ! k))" if k: "k < length instrs" for k
  proof (cases "opcode (instrs ! k) = Bra")
    case True
    with pending k have "\<exists>b \<in> set (p_pending p). branch_pc b = k" by blast
    with w(3) [OF k] show ?thesis by simp
  qed (use w(3) [OF k] in \<open>auto simp: first_word_def forget_reconvergence_def\<close>)
  with annotate_restores [OF a parts(3) w(2)] w(1) P(1) pr parts(1,4) show ?thesis
    by (auto simp: finish_program_def Let_def no_reconvergence_def is_ident_def printable_def)
qed

lemma printed_program_reassembles:
  assumes pr: "printable program (label_names program) instrs"
    and a: "annotate_reconvergence instrs = Some (Inr annotated)"
    and floats: "\<forall>i \<in> set instrs. floats_ok env i"
  shows "\<exists>text. disassemble env program = Some (Inr text) \<and>
    assemble env text = Some (Inr (program\<lparr>code_words := List.map encode_word annotated,
      label_names := printed_names (length (code_words program)) (label_names program)\<rparr>))"
proof -
  let ?words = "code_words program" and ?labels = "label_names program"
  note parts = printable_parts [OF pr]
  have names: "\<forall>x \<in> set (param_names program). is_ident x" "distinct (param_names program)"
    "\<forall>x \<in> ran ?labels. is_ident x" "inj_on ?labels (dom ?labels)" "is_ident (entry_name program)"
    "name_targets 0 ?words ?labels = Inr ?labels"
    using pr by (simp_all add: printable_def)
  have fl: "\<forall>i \<in> set instrs. floats_ok env i \<and> (opcode i = LdParam \<longrightarrow> unat (imm i) < length (param_names program))"
    using floats pr by (simp add: printable_def)
  have "content_at program instrs 0 (program\<lparr>code_words := [], label_names := Map.empty\<rparr>, Map.empty, [])"
    by (simp add: content_at_def)
  from code_reads [OF this _ parts(4) names(4,1,2,3) fl parts(1,2)] obtain body c where
    body: "print_words env ?labels (param_names program) 0 ?words = Some (Inr body)"
    "reads_text env body (program\<lparr>code_words := [], label_names := Map.empty\<rparr>, Map.empty, []) c"
    "content_at program instrs (length instrs) c" by auto
  from body(1) names(6) have printed: "disassemble env program = Some (Inr (header_text program @ body))"
    by (simp add: disassemble_def)
  from run_parser_reads [OF reads_text_append [OF header_reads [OF names(5,1,2)] body(2)]]
  obtain tokens p where p: "lex (header_text program @ body) = Inr tokens"
    "parse_lines env (new_parser tokens) = Some (Inr p)" "content p = c" by blast
  from finish_restores [OF pr a, of p] body(3) p printed show ?thesis
    by (auto simp: assemble_def run_parser_def)
qed

text \<open>
  The second pass sees the names of the first, so a program whose branch targets have no names is
  printed as if the synthesised names were its own.
\<close>

lemma disassembly_reassembles:
  assumes p: "printable program labels instrs"
    and a: "annotate_reconvergence instrs = Some (Inr annotated)"
    and floats: "\<forall>i \<in> set instrs. floats_ok env i"
  shows "\<exists>text. disassemble env program = Some (Inr text) \<and>
    assemble env text = Some (Inr (program\<lparr>code_words := List.map encode_word annotated,
      label_names := printed_names (length (code_words program)) labels\<rparr>))"
proof -
  let ?program = "program\<lparr>label_names := labels\<rparr>"
  have n: "name_targets 0 (code_words program) (label_names program) = Inr labels"
    and d: "all_values (List.map decode (code_words program)) = Some instrs"
    using p by (simp_all add: printable_def)
  have again: "name_targets 0 (code_words program) labels = Inr labels"
    using name_targets_names [OF n] d by (intro name_targets_known) (auto simp: all_values_map)
  with p have "printable ?program (label_names ?program) instrs" by (simp add: printable_def)
  from printed_program_reassembles [OF this a floats]
  obtain s where t: "disassemble env ?program = Some (Inr s)"
    "assemble env s = Some (Inr (?program\<lparr>code_words := List.map encode_word annotated,
      label_names := printed_names (length (code_words program)) labels\<rparr>))" by auto
  have "disassemble env program = disassemble env ?program"
    using n again by (simp add: disassemble_def header_text_def)
  with t show ?thesis by auto
qed

lemma encode_decoded:
  assumes "all_values (List.map decode words) = Some instrs"
  shows "List.map encode_word instrs = words"
proof -
  from assms have d: "length instrs = length words" "\<And>k. k < length words \<Longrightarrow> decode (words ! k) = Inr (instrs ! k)"
    by (auto simp: all_values_map)
  have "encode_word (instrs ! k) = words ! k" if "k < length words" for k
    using decode_imp_encode [OF d(2) [OF that]] by (simp add: encode_eq_Inr_iff)
  with d(1) show ?thesis by (intro nth_equalityI) simp_all
qed

section \<open>Properties\<close>

text \<open>C4: the text of a well-formed program assembles to the program: same entry, parameters, shared size and
  words, and the same label names except those that name no instruction (a label at the end of the
  source is not printed). Of the platform it is only asked that \<^verbatim>\<open>std::to_chars\<close> prints each
  finite float operand as a sign and digits that \<^verbatim>\<open>std::from_chars\<close> reads as the same number.\<close>

theorem disassembly_round_trip:
  assumes "program_wf program"
    and "\<forall>w \<in> set (code_words program). \<forall>i. decode w = Inr i \<longrightarrow> floats_ok env i"
  shows "\<exists>listing. disassemble env program = Some (Inr listing) \<and>
    assemble env listing = Some (Inr (program\<lparr>label_names :=
      printed_names (length (code_words program)) (label_names program)\<rparr>))"
proof -
  from printable_wf [OF assms(1)] obtain instrs where p: "printable program (label_names program) instrs"
    "annotate_reconvergence instrs = Some (Inr instrs)" by blast
  from printable_parts(1,2) [OF p(1)] assms(2) have "\<forall>i \<in> set instrs. floats_ok env i"
    by (metis in_set_conv_nth)
  moreover have "List.map encode_word instrs = code_words program"
    using p(1) encode_decoded by (simp add: printable_def)
  ultimately show ?thesis using disassembly_reassembles [OF p] by simp
qed

definition example_chars_env :: chars_env where
  "example_chars_env = \<lparr>underflows = (\<lambda>m. False), f32_to_chars = (\<lambda>x. if bit x 31 then ''-1'' else ''1'')\<rparr>"

definition add_one :: Instruction where
  "add_one = default_instruction\<lparr>opcode := FAdd, dst := 1, src0 := 2, imm_flag := True, imm := 0x3F800000\<rparr>"

definition add_one_program :: Program where
  "add_one_program = \<lparr>entry_name = ''add_one'', param_names = [], shared_bytes = 0,
     code_words = [encode_word add_one, encode_word exit_instruction], label_names = [1 \<mapsto> ''done'']\<rparr>"

lemma example_words:
  "decode (encode_word add_one) = Inr add_one" "decode (encode_word exit_instruction) = Inr exit_instruction"
  by (rule decode_encoded [THEN conjunct2],
      simp add: valid_instruction_def add_one_def exit_instruction_def default_instruction_def no_guard_def guard_ok_def)+

lemma annotate_straight:
  assumes "\<And>k. k < length p \<Longrightarrow> opcode (p ! k) \<noteq> Bra"
  shows "annotate_reconvergence p = Some (Inr p)"
proof -
  obtain g where "build_cfg p = Inr g"
    using build_cfg_total [of p] assms by (auto simp: out_of_range_def)
  moreover have "List.map (\<lambda>pc. annotate_at g pdom pc (p ! pc)) [0..<length p] = p" for g pdom
    using assms by (intro nth_equalityI) (simp_all add: annotate_at_def)
  ultimately show ?thesis by (simp add: annotate_cases)
qed

lemma add_one_program_wf: "program_wf add_one_program"
proof -
  have "annotate_reconvergence [add_one, exit_instruction] = Some (Inr [add_one, exit_instruction])"
    by (rule annotate_straight)
      (auto simp: less_Suc_eq add_one_def exit_instruction_def default_instruction_def)
  then have "decoded_ok add_one_program [add_one, exit_instruction]"
    by (simp add: decoded_ok_def add_one_program_def example_words)
      (simp add: add_one_def exit_instruction_def default_instruction_def)
  then show ?thesis
    by (auto simp: program_wf_def add_one_program_def is_ident_def is_ident_start_def is_ident_char_def
        is_alpha_def ran_def)
qed

lemma one_text_ok: "float_text_ok example_chars_env 0x3F800000"
proof -
  have one: "bit_length (Suc 0) = 1" by (simp add: bit_length.simps [of "Suc 0"])
  have "parse_f32 example_chars_env ''1'' = Some 0x3F800000"
    by (simp add: parse_f32_def scan_decimal_def scan_exponent_def is_digit_def number_value_def digit_value_def
        decimal_magnitude_def round_magnitude_def quantum_def significand_def one signed_bits_def Let_def)
  moreover have "\<not> bit (0x3F800000 :: u32) 31" by simp
  ultimately show ?thesis
    by (simp add: float_text_ok_def example_chars_env_def is_digits_def is_digit_def)
qed

theorem disassembly_round_trip_witness:
  "\<exists>listing. disassemble example_chars_env add_one_program = Some (Inr listing) \<and>
    assemble example_chars_env listing = Some (Inr (add_one_program\<lparr>label_names :=
      printed_names (length (code_words add_one_program)) (label_names add_one_program)\<rparr>))"
proof -
  have "floats_ok example_chars_env add_one" "floats_ok example_chars_env exit_instruction"
    using one_text_ok by (simp_all add: floats_ok_def add_one_def exit_instruction_def default_instruction_def)
  then have "\<forall>w \<in> set (code_words add_one_program). \<forall>i. decode w = Inr i \<longrightarrow> floats_ok example_chars_env i"
    by (simp add: add_one_program_def example_words)
  from disassembly_round_trip [OF add_one_program_wf this] show ?thesis .
qed

text \<open>C23: a program built from raw words reassembles to the words with the reconvergence points of the
  analysis, whatever its own were, and with names made up for branch targets that had none. So the
  text of a program whose reconvergence points are not those of the analysis does not reassemble to
  the same words.\<close>

theorem raw_program_reassembly:
  assumes "printable program labels instrs"
    and "annotate_reconvergence instrs = Some (Inr annotated)"
    and "\<forall>i \<in> set instrs. floats_ok env i"
  shows "\<exists>listing. disassemble env program = Some (Inr listing) \<and>
    assemble env listing = Some (Inr (program\<lparr>code_words := List.map encode_word annotated,
      label_names := printed_names (length (code_words program)) labels\<rparr>))"
  using disassembly_reassembles [OF assms] .

definition raw_branch_program :: Program where
  "raw_branch_program = \<lparr>entry_name = ''k'', param_names = [], shared_bytes = 0,
     code_words = List.map encode_word (branch_program 0xFFFF), label_names = Map.empty\<rparr>"

theorem raw_program_reassembly_witness:
  "\<exists>listing program. disassemble example_chars_env raw_branch_program = Some (Inr listing) \<and>
    assemble example_chars_env listing = Some (Inr program) \<and>
    code_words program \<noteq> code_words raw_branch_program"
proof -
  let ?p = "branch_program 0xFFFF"
  have v: "valid_instruction i" if "i \<in> set (branch_program r)" for i r
    using that by (auto simp: branch_program_def valid_instruction_def exit_instruction_def
        default_instruction_def no_guard_def guard_ok_def)
  then have d: "decode (encode_word (branch_program r ! k)) = Inr (branch_program r ! k)" if "k < 2" for r k
    using that decode_encoded [OF v, of "branch_program r ! k" r] by simp
  have all: "all_values (List.map decode (List.map encode_word ?p)) = Some ?p"
    using d by (simp add: all_values_map del: map_map List.map.compositionality)
  have "name_targets 0 (List.map encode_word ?p) Map.empty = Inr [1 \<mapsto> ''L1'']"
    using d [of 0 "0xFFFF"] d [of 1 "0xFFFF"]
    by (simp add: branch_program_def exit_instruction_def default_instruction_def branch_target_def decimal.simps)
  with all have pr: "printable raw_branch_program [1 \<mapsto> ''L1''] ?p"
    by (auto simp: printable_def raw_branch_program_def is_ident_def is_ident_start_def is_ident_char_def
        is_alpha_def is_digit_def ran_def) (auto simp: branch_program_def exit_instruction_def default_instruction_def)
  have fl: "\<forall>i \<in> set ?p. floats_ok example_chars_env i"
    by (simp add: branch_program_def floats_ok_def exit_instruction_def default_instruction_def)
  let ?q = "raw_branch_program\<lparr>code_words := List.map encode_word (branch_program 1),
    label_names := printed_names (length (code_words raw_branch_program)) [1 \<mapsto> ''L1'']\<rparr>"
  from raw_program_reassembly [OF pr branch_program_annotated fl] obtain listing where
    P: "disassemble example_chars_env raw_branch_program = Some (Inr listing)"
    "assemble example_chars_env listing = Some (Inr ?q)" by (elim exE conjE)
  have "encode_word (branch_program 1 ! 0) \<noteq> encode_word (?p ! 0)"
  proof
    assume "encode_word (branch_program 1 ! 0) = encode_word (?p ! 0)"
    moreover have "decode (encode_word (branch_program r ! 0)) = Inr (branch_program r ! 0)" for r
      by (rule d) simp
    ultimately have "branch_program 1 ! 0 = ?p ! 0" by (metis Inr_inject)
    then have "reconvergence_pc (branch_program 1 ! 0) = reconvergence_pc (?p ! 0)" by simp
    then show False by (simp add: branch_program_def)
  qed
  then have "code_words ?q \<noteq> code_words raw_branch_program"
    by (simp add: raw_branch_program_def branch_program_def)
  with P show ?thesis by (intro exI conjI)
qed

text \<open>
  A label after the last instruction is accepted, but a branch to it is refused by the analysis,
  whose error has no position: it is reported at line 0, column 0.
\<close>

definition to_the_end :: Instruction where
  "to_the_end = (fresh no_guard Bra)\<lparr>imm := make_branch_imm 1 no_reconvergence\<rparr>"

lemma to_the_end_valid: "valid_instruction to_the_end" "opcode to_the_end = Bra" "branch_target to_the_end = 1"
  by (simp_all add: to_the_end_def valid_branch guard_ok_def no_guard_def branch_target_def)

lemma to_the_end_refused:
  "annotate_words [encode_word to_the_end] =
     Some (Inl \<lparr>error_line = 0, error_column = 0, error_message = ''branch target out of range''\<rparr>)"
proof -
  have "out_of_range [to_the_end] 0" using to_the_end_valid by (simp add: out_of_range_def)
  then have "build_cfg [to_the_end] = Inl \<lparr>recon_pc = 0, recon_message = ''branch target out of range''\<rparr>"
    by (auto simp: build_cfg_error)
  with decode_encoded [OF to_the_end_valid(1)] show ?thesis
    by (simp add: annotate_words_def annotate_cases fail_def)
qed

lemma end_label_content:
  "reads_text env ''.entry k\<newline>    bra e\<newline>e:\<newline>'' (empty_program, Map.empty, [])
     (\<lparr>entry_name = ''k'', param_names = [], shared_bytes = 0, code_words = [first_word to_the_end],
       label_names = [1 \<mapsto> ''e'']\<rparr>, [''e'' \<mapsto> 1], [(0, ''e'')])"
proof -
  have id: "is_ident [c]" if "is_alpha c" for c
    using that by (simp add: is_ident_def is_ident_start_def is_ident_char_def)
  let ?p1 = "empty_program\<lparr>entry_name := ''k''\<rparr>" and ?labels = "[1 \<mapsto> ''e''] :: u16 \<rightharpoonup> string"
  have 1: "reads_text env (''.entry k'' @ ''\<newline>'') (empty_program, Map.empty, []) (?p1, Map.empty, [])"
    using entry_line [of "''k''" empty_program env "(Map.empty, [])"]
    by (intro reads_text_line) (simp add: id is_alpha_def empty_program_def)
  have "format_instruction env to_the_end ?labels [] = Inr ''bra e''"
    using to_the_end_valid
    by (simp add: format_instruction_def operands_text_def Let_def mnemonic_bra guard_text_def label_for_def)
      (simp add: to_the_end_def no_guard_def)
  then have f: "format_instruction env to_the_end ?labels (param_names (fst (?p1, Map.empty, []))) = Inr ''bra e''"
    by (simp add: empty_program_def)
  have fl: "floats_ok env to_the_end" by (simp add: floats_ok_def to_the_end_def)
  have names: "\<forall>x \<in> ran ?labels. is_ident x" by (simp add: id is_alpha_def)
  have "reads_line env (''    '' @ ''bra e'') (?p1, Map.empty, []) (push_instruction ?labels to_the_end (?p1, Map.empty, []))"
  proof (rule instruction_line [OF to_the_end_valid(1) fl _ _ _ names, of "(?p1, Map.empty, [])"])
    fix body
    assume "format_instruction env to_the_end ?labels (param_names (fst (?p1, Map.empty, []))) = Inr body"
      "reads_line env (''    '' @ body) (?p1, Map.empty, []) (push_instruction ?labels to_the_end (?p1, Map.empty, []))"
    with f show ?thesis by simp
  qed (simp_all add: to_the_end_valid empty_program_def)
  from reads_text_line [OF this] have 2: "reads_text env ''    bra e\<newline>'' (?p1, Map.empty, [])
      (?p1\<lparr>code_words := [first_word to_the_end]\<rparr>, Map.empty, [(0, ''e'')])"
    using to_the_end_valid(2,3) by (simp add: empty_program_def label_for_def)
  have 3: "reads_text env (''e'' @ '':'' @ ''\<newline>'') (?p1\<lparr>code_words := [first_word to_the_end]\<rparr>, Map.empty, [(0, ''e'')])
      (?p1\<lparr>code_words := [first_word to_the_end], label_names := [1 \<mapsto> ''e'']\<rparr>, [''e'' \<mapsto> 1], [(0, ''e'')])"
    using reads_text_line [OF label_line [of "''e''" Map.empty "?p1\<lparr>code_words := [first_word to_the_end]\<rparr>" env "[(0, ''e'')]"]]
    by (simp add: id is_alpha_def empty_program_def)
  from reads_text_append [OF reads_text_append [OF 1 2] 3] show ?thesis by (simp add: empty_program_def)
qed

theorem end_label_error_has_no_position:
  "assemble env ''.entry k\<newline>    bra e\<newline>e:\<newline>'' =
     Some (Inl \<lparr>error_line = 0, error_column = 0, error_message = ''branch target out of range''\<rparr>)"
proof -
  from end_label_content [of env] obtain tokens p where p: "lex ''.entry k\<newline>    bra e\<newline>e:\<newline>'' = Inr tokens"
    "parse_lines env (new_parser tokens) = Some (Inr p)"
    and c: "content p = (\<lparr>entry_name = ''k'', param_names = [], shared_bytes = 0, code_words = [first_word to_the_end],
       label_names = [1 \<mapsto> ''e'']\<rparr>, [''e'' \<mapsto> 1], [(0, ''e'')])"
    by (blast elim: run_parser_reads)
  from c obtain b where b: "p_pending p = [b]" "branch_pc b = 0" "branch_label b = ''e''"
    by (auto simp: content_def)
  have "(to_the_end\<lparr>imm := make_branch_imm 1 no_reconvergence\<rparr>) = to_the_end" by (simp add: to_the_end_def)
  with first_word_decodes [OF to_the_end_valid(1)] decode_encoded [OF to_the_end_valid(1)] to_the_end_valid(2)
  have "resolve_branches [''e'' \<mapsto> 1] [b] [first_word to_the_end] = Some (Inr [encode_word to_the_end])"
    by (simp add: b)
  with c to_the_end_refused p b show ?thesis
    by (simp add: assemble_def run_parser_def finish_program_def content_def Let_def no_reconvergence_def fail_def)
qed

end
