(* ===== verification/Source_Layout.thy ===== *)
theory Source_Layout
  imports Round_Trip
begin

text \<open>
  Sources laid out by hand. A line of the listing the disassembler prints may be replaced by any line
  with the same tokens, blanks and a comment aside, and lines of blanks or a comment may be added; the
  source then assembles to the same program. \<open>line_views\<close> computes the tokens of a line, so
  that a source can be compared with a listing by evaluation.
\<close>

section \<open>The tokens of a line\<close>

text \<open>The token that a character and the name characters after it make.\<close>

definition word_view :: "char \<Rightarrow> string \<Rightarrow> view option" where
  "word_view c word =
     (if c = CHR ''.'' \<and> word \<noteq> [] then Some (Directive, c # word, False)
      else if c = CHR ''%'' \<and> word \<noteq> [] then Some (Special, c # word, False)
      else if c = CHR ''@'' \<and> word \<noteq> [] then Some (Guard_kind, word, False)
      else if is_ident_start c then Some (Identifier, c # word, False)
      else if is_digits (c # word) then Some (Integer, c # word, False)
      else None)"

function line_views :: "string \<Rightarrow> view list option" where
  "line_views [] = Some []"
| "line_views (c # cs) =
     (if c \<in> {CHR '' '', CHR 0x09, CHR 0x0D} then line_views cs
      else if c = CHR ''/'' then (if cs \<noteq> [] \<and> hd cs = CHR ''/'' then Some [] else None)
      else case punct_kind c of
        Some k \<Rightarrow> map_option ((#) (k, [c], False)) (line_views cs)
      | None \<Rightarrow>
          (case word_view c (takeWhile is_ident_char cs) of
             None \<Rightarrow> None
           | Some v \<Rightarrow> map_option ((#) v) (line_views (dropWhile is_ident_char cs))))"
  by pat_completeness auto
termination
  by (relation "measure length") (auto simp: less_Suc_eq_le length_dropWhile_le)

declare line_views.simps(2) [simp del]

lemma word_view_scans:
  assumes "word_view c word = Some v" "list_all is_ident_char word" "boundary r"
  shows "scans (c # word) [v] r"
  using assms scans_directive [of word r] scans_special [of word r] scans_guard [of word r]
    scans_ident [of "c # word" r] scans_digits [of "c # word" r]
  by (auto simp: word_view_def is_name_def is_ident_def dest: is_ident_startD split: if_splits)

lemma line_views_scans:
  assumes "line_views s = Some vs" "CHR ''\<newline>'' \<notin> set s" "r = CHR ''\<newline>'' # r'"
  shows "scans s vs r"
  using assms(1,2)
proof (induction s arbitrary: vs rule: line_views.induct)
  case (2 c cs)
  let ?word = "takeWhile is_ident_char cs" and ?others = "dropWhile is_ident_char cs"
  have quiet: "CHR ''\<newline>'' \<notin> set cs" "CHR ''\<newline>'' \<notin> set ?others"
    using "2.prems"(2) set_dropWhileD [of "CHR ''\<newline>''" is_ident_char cs] by auto
  consider (blank) "c \<in> {CHR '' '', CHR 0x09, CHR 0x0D}" | (comment) "c = CHR ''/''"
    | (punct) k where "c \<notin> {CHR '' '', CHR 0x09, CHR 0x0D}" "c \<noteq> CHR ''/''" "punct_kind c = Some k"
    | (word) "c \<notin> {CHR '' '', CHR 0x09, CHR 0x0D}" "c \<noteq> CHR ''/''" "punct_kind c = None"
    by (cases "punct_kind c") auto
  then show ?case
  proof cases
    case blank
    then have "line_views cs = Some vs" using "2.prems"(1) by (simp add: line_views.simps(2))
    with "2.IH"(1) [OF blank] quiet(1) scans_Cons [OF scans_blank [OF blank]] show ?thesis by fastforce
  next
    case comment
    with "2.prems"(1) obtain cs' where "cs = CHR ''/'' # cs'" "vs = []"
      by (cases cs) (auto simp: line_views.simps(2) split: if_splits)
    with comment scans_comment [of cs' r] quiet assms(3) show ?thesis by simp
  next
    case punct
    with "2.prems"(1) obtain ws where "line_views cs = Some ws" "vs = (k, [c], False) # ws"
      by (auto simp: line_views.simps(2))
    with "2.IH"(3) [OF punct] quiet(1) scans_Cons [OF scans_punct [OF punct(3)]] show ?thesis by fastforce
  next
    case word
    with "2.prems"(1) obtain v ws where v: "word_view c ?word = Some v" "line_views ?others = Some ws" "vs = v # ws"
      by (auto simp: line_views.simps(2) split: option.splits)
    have "boundary (?others @ r)"
      using hd_dropWhile [of is_ident_char cs] assms(3) by (auto simp: boundary_def hd_append)
    moreover have "list_all is_ident_char ?word" by (auto simp: list_all_iff dest: set_takeWhileD)
    ultimately have "scans (c # ?word) [v] (?others @ r)" using word_view_scans [OF v(1)] by simp
    from scans_append [OF this "2.IH"(2) [OF word v(1,2) quiet(2)]] v(3) show ?thesis by simp
  qed
qed simp

text \<open>The tokens before a line end are determined.\<close>

lemma scans_same:
  assumes "scans s vs ''\<newline>''" "scans s vs' ''\<newline>''"
  shows "vs = vs'"
proof -
  let ?lx = "new_lexer (s @ ''\<newline>'')"
  have r: "rest ?lx = s @ ''\<newline>''" by (simp add: new_lexer_def)
  from assms(1) r obtain lx ts where 1: "rest lx = ''\<newline>''" "List.map view ts = vs" "lex_loop ?lx [] = lex_loop lx ts"
    unfolding scans_def by (metis append_Nil)
  from assms(2) r obtain lx' ts' where 2: "rest lx' = ''\<newline>''" "List.map view ts' = vs'" "lex_loop ?lx [] = lex_loop lx' ts'"
    unfolding scans_def by (metis append_Nil)
  have "lex_loop l us = Inr (us @ [make_token l Newline ''\<newline>''], new_line l)" if "rest l = ''\<newline>''" for l us
    using that by (simp add: lex_loop_newline lex_loop.simps [of "new_line l"])
  with 1 2 show ?thesis by fastforce
qed

section \<open>Lines laid out anew\<close>

text \<open>A line with the tokens of another: blanks and a comment aside, the same text.\<close>

definition relaid :: "string \<Rightarrow> string \<Rightarrow> bool" where
  "relaid s s' \<longleftrightarrow> CHR ''\<newline>'' \<notin> set s \<and> CHR ''\<newline>'' \<notin> set s' \<and>
     (case line_views s of Some vs \<Rightarrow> line_views s' = Some vs | None \<Rightarrow> False)"

text \<open>Only the tokens of a line matter.\<close>

lemma reads_line_tokens:
  assumes "reads_line env s c c'" "scans s vs ''\<newline>''" "\<And>r. scans s' vs (CHR ''\<newline>'' # r)"
  shows "reads_line env s' c c'"
proof -
  from assms(1) obtain v ws where w: "scans s (v # ws) ''\<newline>''" "fst v \<notin> {End, Newline}"
    "\<forall>p us. ahead p = v # ws @ newline_view # us \<longrightarrow> us \<noteq> [] \<longrightarrow> content p = c \<longrightarrow>
        (\<exists>p'. (if at p Directive then directive p else statement env p) = Inr p' \<and>
           ahead p' = newline_view # us \<and> content p' = c')"
    unfolding reads_line_def by blast
  from scans_same [OF w(1) assms(2)] assms(3) have "scans s' (v # ws) (CHR ''\<newline>'' # r)" for r by simp
  with w(2,3) show ?thesis unfolding reads_line_def by blast
qed

lemma reads_line_relaid:
  assumes "reads_line env s c c'" "relaid s s'"
  shows "reads_line env s' c c'"
proof -
  from assms(2) obtain vs where s: "line_views s = Some vs" "CHR ''\<newline>'' \<notin> set s"
    and s': "line_views s' = Some vs" "CHR ''\<newline>'' \<notin> set s'" by (auto simp: relaid_def split: option.splits)
  from reads_line_tokens [OF assms(1) line_views_scans [OF s] line_views_scans [OF s']] show ?thesis by simp
qed

text \<open>A line of blanks or a comment.\<close>

lemma reads_text_empty_line:
  assumes "line_views s = Some []" "CHR ''\<newline>'' \<notin> set s"
  shows "reads_text env (s @ ''\<newline>'') c c"
  unfolding reads_text_def
proof
  fix r
  from reads_text_newline obtain vs where vs: "scans ''\<newline>'' vs r"
    "\<forall>p us. ahead p = vs @ us \<longrightarrow> us \<noteq> [] \<longrightarrow> content p = c \<longrightarrow>
       (\<exists>p'. parse_lines env p = parse_lines env p' \<and> ahead p' = us \<and> content p' = c)"
    unfolding reads_text_def by metis
  have "scans s [] (''\<newline>'' @ r)" using line_views_scans [OF assms] by simp
  from scans_append [OF this vs(1)] vs(2)
  show "\<exists>vs. scans (s @ ''\<newline>'') vs r \<and>
     (\<forall>p us. ahead p = vs @ us \<longrightarrow> us \<noteq> [] \<longrightarrow> content p = c \<longrightarrow>
        (\<exists>p'. parse_lines env p = parse_lines env p' \<and> ahead p' = us \<and> content p' = c))" by auto
qed

section \<open>Programs laid out anew\<close>

text \<open>The label of a PC, on its own line.\<close>

abbreviation label_text :: "(u16 \<rightharpoonup> string) \<Rightarrow> nat \<Rightarrow> string" where
  "label_text labels k \<equiv> (case labels (of_nat k) of Some name \<Rightarrow> name @ '':\<newline>'' | None \<Rightarrow> [])"

text \<open>Instruction lines from PC \<open>k\<close> on, each after the label of its PC.\<close>

fun code_source :: "(u16 \<rightharpoonup> string) \<Rightarrow> nat \<Rightarrow> string list \<Rightarrow> string" where
  "code_source labels k [] = []"
| "code_source labels k (l # ls) = label_text labels k @ l @ ''\<newline>'' @ code_source labels (k + 1) ls"

definition prints_as :: "chars_env \<Rightarrow> (u16 \<rightharpoonup> string) \<Rightarrow> string list \<Rightarrow> Instruction \<Rightarrow> string \<Rightarrow> bool" where
  "prints_as env labels names i l \<longleftrightarrow>
     (case format_instruction env i labels names of Inr body \<Rightarrow> relaid (''    '' @ body) l | Inl _ \<Rightarrow> False)"

text \<open>A line that reads as an instruction: every line that prints as it, up to layout, does.\<close>

definition reads_as :: "chars_env \<Rightarrow> (u16 \<rightharpoonup> string) \<Rightarrow> string list \<Rightarrow> Instruction \<Rightarrow> string \<Rightarrow> bool" where
  "reads_as env labels names i l \<longleftrightarrow>
     (\<forall>c. param_names (fst c) = names \<longrightarrow> reads_line env l c (push_instruction labels i c))"

lemma prints_as_reads:
  assumes "prints_as env labels names i l"
    and "valid_instruction i" "floats_ok env i" "opcode i = LdParam \<longrightarrow> unat (imm i) < length names"
    and "\<forall>x \<in> set names. is_ident x" "distinct names" "\<forall>x \<in> ran labels. is_ident x"
  shows "reads_as env labels names i l"
  unfolding reads_as_def
proof (intro allI impI)
  fix c :: content assume c: "param_names (fst c) = names"
  from instruction_line [OF assms(2,3), of c labels] assms(4-7) c obtain body where
    body: "format_instruction env i labels names = Inr body" "reads_line env (''    '' @ body) c (push_instruction labels i c)"
    by auto
  with assms(1) have "relaid (''    '' @ body) l" by (simp add: prints_as_def)
  with body(2) show "reads_line env l c (push_instruction labels i c)" by (rule reads_line_relaid)
qed

lemma code_source_reads:
  assumes "content_at program instrs k c" "k \<le> length instrs" "length instrs \<le> 65535"
    and "inj_on (label_names program) (dom (label_names program))"
    and "\<forall>x \<in> ran (label_names program). is_ident x"
    and "list_all2 (reads_as env (label_names program) (param_names program)) (drop k instrs) ls"
  shows "\<exists>c'. reads_text env (code_source (label_names program) k ls) c c' \<and> content_at program instrs (length instrs) c'"
  using assms(1,2,6)
proof (induction ls arbitrary: k c)
  case Nil
  then have "k = length instrs" by simp
  with Nil reads_text_Nil [of env c] show ?case by (intro exI [of _ c]) simp
next
  case (Cons l ls)
  then have k: "k < length instrs" by (cases "k < length instrs") auto
  then have d: "drop k instrs = instrs ! k # drop (k + 1) instrs" and "k < 65536"
    using assms(3) by (simp_all add: Cons_nth_drop_Suc)
  obtain c1 where b: "reads_text env (label_text (label_names program) k) c c1" "param_names (fst c1) = param_names program"
    "content_at program instrs (Suc k) (push_instruction (label_names program) (instrs ! k) c1)"
    by (rule label_reads [OF Cons.prems(1) k \<open>k < 65536\<close> assms(4,5)])
  from Cons.prems(3) d have l: "reads_as env (label_names program) (param_names program) (instrs ! k) l"
    and ls: "list_all2 (reads_as env (label_names program) (param_names program)) (drop (k + 1) instrs) ls" by simp_all
  from l b(2) have line: "reads_line env l c1 (push_instruction (label_names program) (instrs ! k) c1)"
    unfolding reads_as_def by blast
  from Cons.IH [of "k + 1" "push_instruction (label_names program) (instrs ! k) c1"] b(3) ls k
  obtain c' where c': "reads_text env (code_source (label_names program) (k + 1) ls) (push_instruction (label_names program) (instrs ! k) c1) c'"
    "content_at program instrs (length instrs) c'" by auto
  from reads_text_append [OF b(1) reads_text_append [OF reads_text_line [OF line] c'(1)]] c'(2)
  show ?case by (intro exI [of _ c']) simp
qed

text \<open>
  A source whose header leaves the declarations of a program, and whose lines read as its
  instructions, assembles to the program with the reconvergence points of the analysis.
\<close>

lemma source_program_assembles:
  assumes pr: "printable program (label_names program) instrs"
    and a: "annotate_reconvergence instrs = Some (Inr annotated)"
    and header: "reads_text env header (empty_program, Map.empty, [])
      (program\<lparr>code_words := [], label_names := Map.empty\<rparr>, Map.empty, [])"
    and ls: "list_all2 (reads_as env (label_names program) (param_names program)) instrs ls"
  shows "assemble env (header @ code_source (label_names program) 0 ls) =
    Some (Inr (program\<lparr>code_words := List.map encode_word annotated,
      label_names := printed_names (length (code_words program)) (label_names program)\<rparr>))"
proof -
  let ?c = "(program\<lparr>code_words := [], label_names := Map.empty\<rparr>, Map.empty, [])"
  note parts = printable_parts [OF pr]
  have "content_at program instrs 0 ?c" by (simp add: content_at_def)
  moreover have "inj_on (label_names program) (dom (label_names program))" "\<forall>x \<in> ran (label_names program). is_ident x"
    using pr by (simp_all add: printable_def)
  ultimately obtain c where c: "reads_text env (code_source (label_names program) 0 ls) ?c c"
    "content_at program instrs (length instrs) c"
    using code_source_reads [of program instrs 0 ?c env ls] parts(4) ls by auto
  from run_parser_reads [OF reads_text_append [OF header c(1)]] obtain tokens p where
    p: "lex (header @ code_source (label_names program) 0 ls) = Inr tokens"
    "parse_lines env (new_parser tokens) = Some (Inr p)" "content p = c" .
  from finish_restores [OF pr a, of p] c(2) p show ?thesis by (simp add: assemble_def run_parser_def)
qed

lemma printed_line_reads:
  assumes pr: "printable program (label_names program) instrs" and i: "i \<in> set instrs" "floats_ok env i"
    and l: "prints_as env (label_names program) (param_names program) i l"
  shows "reads_as env (label_names program) (param_names program) i l"
  using pr i(1) printable_parts(3) [OF pr] by (intro prints_as_reads [OF l _ i(2)]) (auto simp: printable_def)

text \<open>The same for lines that print as the instructions.\<close>

lemma relaid_program_assembles:
  assumes pr: "printable program (label_names program) instrs"
    and a: "annotate_reconvergence instrs = Some (Inr annotated)"
    and floats: "\<forall>i \<in> set instrs. floats_ok env i"
    and header: "reads_text env header (empty_program, Map.empty, [])
      (program\<lparr>code_words := [], label_names := Map.empty\<rparr>, Map.empty, [])"
    and ls: "list_all2 (prints_as env (label_names program) (param_names program)) instrs ls"
  shows "assemble env (header @ code_source (label_names program) 0 ls) =
    Some (Inr (program\<lparr>code_words := List.map encode_word annotated,
      label_names := printed_names (length (code_words program)) (label_names program)\<rparr>))"
  using ls floats printed_line_reads [OF pr]
  by (intro source_program_assembles [OF pr a header]) (simp add: list_all2_conv_all_nth)

section \<open>Sources as lists of lines\<close>

definition text_of :: "string list \<Rightarrow> string" where
  "text_of ls = List.concat (List.map (\<lambda>l. l @ ''\<newline>'') ls)"

lemma text_of_simps [simp]: "text_of [] = []" "text_of (l # ls) = l @ ''\<newline>'' @ text_of ls"
  by (simp_all add: text_of_def)

definition text_views :: "view list list \<Rightarrow> view list" where
  "text_views vss = List.concat (List.map (\<lambda>vs. vs @ [newline_view]) vss)"

lemma text_views_simps [simp]: "text_views [] = []" "text_views (vs # vss) = vs @ newline_view # text_views vss"
  by (simp_all add: text_views_def)

lemma scans_text_of:
  assumes "list_all2 (\<lambda>l vs. line_views l = Some vs \<and> CHR ''\<newline>'' \<notin> set l) ls vss"
  shows "scans (text_of ls) (text_views vss) []"
  using assms
proof (induction rule: list_all2_induct)
  case (Cons l ls vs vss)
  then have l: "scans l vs ((''\<newline>'' @ text_of ls) @ [])" using line_views_scans [of l vs _ "text_of ls"] by simp
  have "scans (''\<newline>'' @ text_of ls) ([newline_view] @ text_views vss) []"
    by (rule scans_append [OF _ Cons.IH]) (simp only: append_Nil2 scans_newline)
  from scans_append [OF l this] show ?case by simp
qed simp

text \<open>The tokens of a text that ends with its last line.\<close>

lemma lex_text_of:
  assumes "list_all2 (\<lambda>l vs. line_views l = Some vs \<and> CHR ''\<newline>'' \<notin> set l) ls vss" "ls \<noteq> []"
  shows "\<exists>tokens. lex (text_of ls) = Inr tokens \<and> List.map view tokens = text_views vss @ [end_view]"
proof -
  from scans_text_of [OF assms(1)] obtain lx ts where lx: "rest lx = []" "List.map view ts = text_views vss"
    "lex_loop (new_lexer (text_of ls)) [] = lex_loop lx ts"
    unfolding scans_def by (metis append_Nil append_Nil2 new_lexer_def Lexer.select_convs(1))
  have "vss \<noteq> []" using assms by auto
  then have "text_views vss \<noteq> []" "last (text_views vss) = newline_view"
    by (induction vss rule: rev_induct) (simp_all add: text_views_def)
  then have "ts \<noteq> []" using lx(2) by auto
  with last_map [OF this, of view] lx(2) \<open>last (text_views vss) = newline_view\<close>
  have "ts \<noteq> []" "kind (last ts) = Newline" by (simp_all add: view_def)
  with lx show ?thesis
    by (auto simp: lex_def run_lexer_def lex_loop.simps [of lx] Let_def view_def)
qed

end
