(* ===== verification/Layout_Free.thy ===== *)
theory Layout_Free
  imports Source_Layout
begin

text \<open>
  What the layout of a source can change: the positions of errors, and nothing else. Two parsers
  are alike when they have read the same and the same tokens are ahead of them, positions and empty
  lines aside. Every function of the parser takes alike parsers to alike results.
\<close>

section \<open>Empty lines\<close>

abbreviation skip_newlines :: "view list \<Rightarrow> view list" where
  "skip_newlines \<equiv> dropWhile (\<lambda>v. fst v = Newline)"

function squeeze :: "view list \<Rightarrow> view list" where
  "squeeze [] = []"
| "squeeze (v # vs) = v # squeeze (if fst v = Newline then skip_newlines vs else vs)"
  by pat_completeness auto
termination
  by (relation "measure length") (auto simp: less_Suc_eq_le length_dropWhile_le)

lemma squeeze_Nil [simp]: "squeeze vs = [] \<longleftrightarrow> vs = []"
  by (cases vs) simp_all

lemma hd_squeeze [simp]: "hd (squeeze vs) = hd vs"
  by (cases vs) simp_all

lemma squeeze_tl:
  assumes "squeeze vs = squeeze vs'" "vs \<noteq> []" "fst (hd vs) \<noteq> Newline"
  shows "squeeze (tl vs) = squeeze (tl vs')"
  using assms by (cases vs; cases vs'; simp split: if_splits)

lemma squeeze_skip:
  assumes "squeeze vs = squeeze vs'"
  shows "squeeze (skip_newlines vs) = squeeze (skip_newlines vs')"
  using assms by (cases vs; cases vs'; auto split: if_splits)

section \<open>Alike parsers\<close>

definition alike :: "Parser \<Rightarrow> Parser \<Rightarrow> bool" where
  "alike p p' \<longleftrightarrow> streaming p \<and> streaming p' \<and> content p = content p' \<and> squeeze (ahead p) = squeeze (ahead p')"

lemma ahead_cur:
  assumes "streaming p"
  shows "ahead p \<noteq> []" "hd (ahead p) = view (cur p)"
  using assms by (auto simp: ahead_def streaming_def cur_def hd_map hd_drop_conv_nth)

lemma ahead_next_tok:
  assumes "streaming p" "\<not> at p End"
  shows "streaming (next_tok p)" "ahead (next_tok p) = tl (ahead p)" "ahead (next_tok p) \<noteq> []" "content (next_tok p) = content p"
proof -
  have n: "next_tok p = p\<lparr>p_index := p_index p + 1\<rparr>" "p_index p + 1 < length (p_tokens p)"
    using not_last [OF assms] by (simp_all add: next_tok_def)
  then show "streaming (next_tok p)" "ahead (next_tok p) \<noteq> []" "content (next_tok p) = content p"
    using assms(1) by (auto simp: streaming_def ahead_def content_def)
  have "drop (Suc (p_index p)) (p_tokens p) = tl (drop (p_index p) (p_tokens p))" by (simp add: drop_Suc tl_drop)
  with n show "ahead (next_tok p) = tl (ahead p)" by (simp add: ahead_def map_tl)
qed

lemma alike_cur:
  assumes "alike p p'"
  shows "at p' k \<longleftrightarrow> at p k" "token_text (cur p') = token_text (cur p)" "token_negate (cur p') = token_negate (cur p)"
    "p_program p' = p_program p" "p_labels p' = p_labels p" "content p' = content p"
proof -
  have "hd (squeeze (ahead p)) = hd (squeeze (ahead p'))" using assms by (simp add: alike_def)
  then have "view (cur p) = view (cur p')" using assms ahead_cur(2) by (simp add: alike_def)
  then show "at p' k \<longleftrightarrow> at p k" "token_text (cur p') = token_text (cur p)" "token_negate (cur p') = token_negate (cur p)"
    by (auto simp: view_def at_def)
  show "p_program p' = p_program p" "p_labels p' = p_labels p" "content p' = content p"
    using assms by (auto simp: alike_def content_def)
qed

lemma alike_next:
  assumes "alike p p'" "\<not> at p Newline" "\<not> at p End"
  shows "alike (next_tok p) (next_tok p')"
proof -
  have s: "streaming p" "streaming p'" "squeeze (ahead p) = squeeze (ahead p')" using assms(1) by (simp_all add: alike_def)
  have "\<not> at p' End" using assms(3) alike_cur(1) [OF assms(1)] by simp
  note n = ahead_next_tok [OF s(1) assms(3)] ahead_next_tok [OF s(2) this]
  have "fst (hd (ahead p)) \<noteq> Newline"
    using assms(2) ahead_cur(2) [OF s(1)] by (simp add: at_def view_def)
  from squeeze_tl [OF s(3) ahead_cur(1) [OF s(1)] this] n alike_cur(6) [OF assms(1)]
  show ?thesis by (simp add: alike_def)
qed

lemma alike_at_next: "alike p p' \<Longrightarrow> at p k \<Longrightarrow> k \<noteq> Newline \<Longrightarrow> k \<noteq> End \<Longrightarrow> alike (next_tok p) (next_tok p')"
  by (rule alike_next) (auto simp: at_def)

text \<open>The token after the current one, where the code looks ahead.\<close>

lemma alike_second:
  assumes "alike p p'" "at p Identifier"
  shows "kind (p_tokens p' ! (p_index p' + 1)) = kind (p_tokens p ! (p_index p + 1))"
proof -
  have a: "alike (next_tok p) (next_tok p')" by (rule alike_at_next [OF assms]) simp_all
  have "kind (p_tokens q ! (p_index q + 1)) = kind (cur (next_tok q))" if "streaming q" "at q Identifier" for q
    using not_last [OF that(1)] that(2) by (simp add: next_tok_def cur_def at_def)
  moreover have "kind (cur (next_tok p')) = kind (cur (next_tok p))"
    using alike_cur(1) [OF a] by (metis at_def)
  ultimately show ?thesis using assms alike_cur(1) [OF assms(1)] by (simp add: alike_def)
qed

section \<open>Alike results\<close>

definition same_result :: "('a \<Rightarrow> 'b \<Rightarrow> bool) \<Rightarrow> ('a, AssemblyError) result \<Rightarrow> ('b, AssemblyError) result \<Rightarrow> bool" where
  "same_result R = rel_sum (\<lambda>e e'. error_message e = error_message e') R"

lemma same_result_simps [simp]:
  "same_result R (Inr x) (Inr y) \<longleftrightarrow> R x y" "same_result R (fail e) (fail e') \<longleftrightarrow> error_message e = error_message e'"
  "same_result R (Inl e) (Inl e') \<longleftrightarrow> error_message e = error_message e'"
  by (simp_all add: same_result_def fail_def)

lemma same_result_bind:
  assumes "same_result Q r r'" "\<And>x x'. Q x x' \<Longrightarrow> same_result R (f x) (f' x')"
  shows "same_result R (case r of Inl e \<Rightarrow> fail e | Inr x \<Rightarrow> f x) (case r' of Inl e \<Rightarrow> fail e | Inr x \<Rightarrow> f' x)"
  using assms by (cases r; cases r'; simp add: same_result_def fail_def)

lemma same_result_bind_pair:
  assumes "same_result (rel_prod Q Q') r r'" "\<And>x y x' y'. Q x x' \<Longrightarrow> Q' y y' \<Longrightarrow> same_result R (f x y) (f' x' y')"
  shows "same_result R (case r of Inl e \<Rightarrow> fail e | Inr (x, y) \<Rightarrow> f x y) (case r' of Inl e \<Rightarrow> fail e | Inr (x, y) \<Rightarrow> f' x y)"
  using assms by (intro same_result_bind [OF assms(1)]) auto

lemma same_error [simp]: "error_message (parse_error p m) = m"
  by (simp add: parse_error_def)

lemma expect_alike:
  assumes "alike p p'" "k \<noteq> Newline" "k \<noteq> End"
  shows "same_result alike (expect k what p) (expect k what p')"
  using alike_at_next [OF assms(1) _ assms(2,3)] alike_cur [OF assms(1)] by (simp add: expect_def)

lemma end_of_line_alike: "alike p p' \<Longrightarrow> same_result alike (end_of_line p) (end_of_line p')"
  using alike_cur [of p p'] by (simp add: end_of_line_def)

lemma integer_literal_alike:
  "alike p p' \<Longrightarrow> same_result (rel_prod (=) alike) (integer_literal p) (integer_literal p')"
  using alike_cur [of p p'] alike_at_next [of p p' Integer]
  by (auto simp: integer_literal_def Let_def split: option.split)

lemma general_register_alike:
  "alike p p' \<Longrightarrow> same_result (rel_prod (=) alike) (general_register p) (general_register p')"
  using alike_cur [of p p'] alike_at_next [of p p' Identifier]
  by (auto simp: general_register_def split: option.split)

definition step_alike :: "operand_step \<Rightarrow> bool" where
  "step_alike f \<longleftrightarrow> (\<forall>p p' out. alike p p' \<longrightarrow> same_result (rel_prod alike (=)) (f p out) (f p' out))"

lemma step_alikeI: "(\<And>p p' out. alike p p' \<Longrightarrow> same_result (rel_prod alike (=)) (f p out) (f p' out)) \<Longrightarrow> step_alike f"
  by (simp add: step_alike_def)

lemma step_alikeD: "step_alike f \<Longrightarrow> alike p p' \<Longrightarrow> same_result (rel_prod alike (=)) (f p out) (f p' out)"
  by (simp add: step_alike_def)

lemma register_steps_alike: "step_alike dst_reg" "step_alike src0_reg" "step_alike src1_reg"
  by (rule step_alikeI; simp add: dst_reg_def src0_reg_def src1_reg_def;
      rule same_result_bind_pair [OF general_register_alike]; simp)+

lemma comma_alike: "step_alike comma"
  by (rule step_alikeI) (auto simp: comma_def intro!: same_result_bind [OF expect_alike])

text \<open>An immediate after its sign.\<close>

definition magnitude_part :: "chars_env \<Rightarrow> bool \<Rightarrow> operand_step" where
  "magnitude_part env negative p out =
     (if at p Float then
        if \<not> accepts_float_immediate (opcode out) then
          fail (parse_error p ''float immediate is not valid for this instruction'')
        else
          (case parse_f32 env (token_text (cur p)) of
             None \<Rightarrow> fail (parse_error p (''invalid float literal '' @ quoted (token_text (cur p))))
           | Some bits \<Rightarrow>
               Inr (next_tok p, out\<lparr>imm_flag := True, imm := (if negative then bits XOR 0x80000000 else bits)\<rparr>))
      else if \<not> at p Integer then fail (parse_error p ''expected a register or an immediate'')
      else
        (case integer_literal p of
           Inl e \<Rightarrow> fail e
         | Inr (magnitude, p2) \<Rightarrow>
             if negative \<and> magnitude > 0x80000000 then fail (parse_error p2 ''immediate does not fit in 32 bits'')
             else Inr (p2, out\<lparr>imm_flag := True, imm := (if negative then 0 - magnitude else magnitude)\<rparr>)))"

lemma immediate_parts:
  "immediate env p out = magnitude_part env (at p Minus) (if at p Minus then next_tok p else p) out"
  by (simp only: immediate_def magnitude_part_def Let_def)

lemma magnitude_part_alike: "step_alike (magnitude_part env negative)"
proof (rule step_alikeI)
  fix p p' out assume a: "alike p p'"
  note C = alike_cur [OF a]
  consider "at p Float" | "\<not> at p Float" "\<not> at p Integer" | "\<not> at p Float" "at p Integer" by blast
  then show "same_result (rel_prod alike (=)) (magnitude_part env negative p out) (magnitude_part env negative p' out)"
  proof cases
    case 1
    with alike_at_next [OF a 1] show ?thesis by (simp add: magnitude_part_def C split: option.split)
  next
    case 2
    then show ?thesis by (simp add: magnitude_part_def C)
  next
    case 3
    then show ?thesis
      by (simp add: magnitude_part_def C) (rule same_result_bind_pair [OF integer_literal_alike [OF a]], simp)
  qed
qed

lemma immediate_alike: "step_alike (immediate env)"
  using alike_at_next [of _ _ Minus]
  by (auto intro!: step_alikeI step_alikeD [OF magnitude_part_alike] simp: immediate_parts alike_cur(1))

lemma immediate_steps_alike: "step_alike (src1_reg_or_imm env)" "step_alike (src0_reg_or_imm env)"
  using step_alikeD [OF register_steps_alike(2)] step_alikeD [OF register_steps_alike(3)] step_alikeD [OF immediate_alike]
  by (auto intro!: step_alikeI simp: src1_reg_or_imm_def src0_reg_or_imm_def alike_cur(1))

lemma named_operands_alike: "step_alike dst_pred" "step_alike special_operand"
  by (rule step_alikeI; simp add: dst_pred_def special_operand_def alike_cur(1-5) alike_at_next split: option.split)+

lemma branch_operand_alike: "step_alike branch_operand"
proof (rule step_alikeI)
  fix p p' out assume a: "alike p p'"
  note C = alike_cur [OF a]
  define add where "add p = p\<lparr>p_pending := p_pending p @ [\<lparr> branch_pc = length (code_words (p_program p)),
    branch_label = token_text (cur p), branch_line = token_line (cur p), branch_column = token_column (cur p) \<rparr>]\<rparr>" for p
  have add: "ahead (add p) = ahead p" "streaming (add p) = streaming p" "cur (add p) = cur p" for p
    by (simp_all add: add_def ahead_def streaming_def cur_def)
  have "content (add p) = content (add p')" using C(2,4,6) by (simp add: content_def add_def)
  with a add have "alike (add p) (add p')" by (simp add: alike_def)
  from alike_at_next [OF this, of Identifier] add(3)
  show "same_result (rel_prod alike (=)) (branch_operand p out) (branch_operand p' out)"
    unfolding branch_operand_def add_def [symmetric] by (simp add: C(1)) (simp add: at_def)
qed

lemma address_alike: "step_alike address"
proof (rule step_alikeI)
  fix p p' out assume a: "alike p p'"
  have offset: "same_result (rel_prod (=) alike)
      (if at q Plus \<or> at q Minus then (case integer_literal (next_tok q) of Inl e \<Rightarrow> fail e
        | Inr (v, p3) \<Rightarrow> Inr (if at q Minus then 0 - v else v, p3)) else Inr (0, q))
      (if at q' Plus \<or> at q' Minus then (case integer_literal (next_tok q') of Inl e \<Rightarrow> fail e
        | Inr (v, p3) \<Rightarrow> Inr (if at q' Minus then 0 - v else v, p3)) else Inr (0, q'))" if q: "alike q q'" for q q'
  proof (cases "at q Plus \<or> at q Minus")
    case True
    then have n: "alike (next_tok q) (next_tok q')" using alike_at_next [OF q] by auto
    from True show ?thesis
      by (simp add: alike_cur(1) [OF q])
        (rule same_result_bind_pair [OF integer_literal_alike [OF n]], simp add: alike_cur(1) [OF q])
  qed (simp add: q alike_cur(1) [OF q])
  show "same_result (rel_prod alike (=)) (address p out) (address p' out)"
    unfolding address_def Let_def
    by (rule same_result_bind [OF expect_alike [OF a]], simp, simp)
      (rule same_result_bind_pair [OF general_register_alike], assumption,
       rule same_result_bind_pair [OF offset], assumption,
       rule same_result_bind [OF expect_alike], simp_all)
qed

lemma param_ref_alike: "step_alike param_ref"
proof (rule step_alikeI)
  fix p p' out assume a: "alike p p'"
  show "same_result (rel_prod alike (=)) (param_ref p out) (param_ref p' out)"
    unfolding param_ref_def
  proof (rule same_result_bind [OF expect_alike [OF a]])
    fix q q' assume q: "alike q q'"
    note C = alike_cur [OF q]
    have "same_result (rel_prod alike (=))
        (case expect RBracket (quoted '']'') (next_tok q) of Inl e \<Rightarrow> fail e | Inr p2 \<Rightarrow> Inr (p2, out\<lparr>imm_flag := True, imm := of_nat i\<rparr>))
        (case expect RBracket (quoted '']'') (next_tok q') of Inl e \<Rightarrow> fail e | Inr p2 \<Rightarrow> Inr (p2, out\<lparr>imm_flag := True, imm := of_nat i\<rparr>))"
      if "at q Identifier" for i
      using alike_at_next [OF q that] by (intro same_result_bind [OF expect_alike]) auto
    then show "same_result (rel_prod alike (=))
        (if \<not> at q Identifier then fail (parse_error q ''expected a parameter name'')
         else case find (\<lambda>i. param_names (p_program q) ! i = token_text (cur q)) [0..<length (param_names (p_program q))] of
           Some i \<Rightarrow> (case expect RBracket (quoted '']'') (next_tok q) of Inl e \<Rightarrow> fail e
             | Inr p2 \<Rightarrow> Inr (p2, out\<lparr>imm_flag := True, imm := of_nat i\<rparr>))
         | None \<Rightarrow> fail (parse_error q (''undeclared parameter '' @ quoted (token_text (cur q)))))
        (if \<not> at q' Identifier then fail (parse_error q' ''expected a parameter name'')
         else case find (\<lambda>i. param_names (p_program q') ! i = token_text (cur q')) [0..<length (param_names (p_program q'))] of
           Some i \<Rightarrow> (case expect RBracket (quoted '']'') (next_tok q') of Inl e \<Rightarrow> fail e
             | Inr p2 \<Rightarrow> Inr (p2, out\<lparr>imm_flag := True, imm := of_nat i\<rparr>))
         | None \<Rightarrow> fail (parse_error q' (''undeclared parameter '' @ quoted (token_text (cur q')))))"
      by (simp add: C split: option.split)
  qed simp_all
qed

lemma sequence_alike:
  assumes "\<forall>f \<in> set fs. step_alike f"
  shows "step_alike (sequence fs)"
  using assms
proof (induction fs)
  case (Cons f fs)
  then show ?case
    by (auto intro!: step_alikeI same_result_bind_pair [OF step_alikeD [of f]] step_alikeD [of "sequence fs"])
qed (simp add: step_alike_def)

lemmas steps_alike = register_steps_alike comma_alike immediate_steps_alike named_operands_alike branch_operand_alike
  address_alike param_ref_alike

lemma parse_operands_alike: "step_alike (parse_operands env sh)"
  by (cases sh; simp only: parse_operands.simps; intro sequence_alike ballI steps_alike; auto intro: steps_alike)

section \<open>Directives and statements\<close>

text \<open>A change of the program and the labels that depends on neither the tokens nor their positions.\<close>

lemma alike_update:
  assumes "alike p p'"
  shows "alike (p\<lparr>p_program := g\<rparr>) (p'\<lparr>p_program := g\<rparr>)" "alike (p\<lparr>p_labels := m, p_program := g\<rparr>) (p'\<lparr>p_labels := m, p_program := g\<rparr>)"
  using assms by (auto simp: alike_def streaming_def content_def ahead_def)

lemma at_labels [simp]: "at (p\<lparr>p_labels := m\<rparr>) k \<longleftrightarrow> at p k"
  by (simp add: at_def cur_def)

lemma entry_directive_alike: "alike p p' \<Longrightarrow> same_result alike (entry_directive p) (entry_directive p')"
  by (auto simp: entry_directive_def alike_cur(1-5) intro!: end_of_line_alike alike_at_next alike_update)

lemma param_directive_alike: "alike p p' \<Longrightarrow> same_result alike (param_directive p) (param_directive p')"
  by (auto simp: param_directive_def alike_cur(1-5) intro!: end_of_line_alike alike_at_next alike_update)

lemma shared_directive_alike: "alike p p' \<Longrightarrow> same_result alike (shared_directive p) (shared_directive p')"
  unfolding shared_directive_def
  by (rule same_result_bind_pair [OF integer_literal_alike]) (auto simp: alike_cur(4) intro!: end_of_line_alike alike_update)

lemma directive_alike:
  assumes "alike p p'" "at p Directive"
  shows "same_result alike (directive p) (directive p')"
proof -
  have n: "alike (next_tok p) (next_tok p')" by (rule alike_at_next [OF assms]) simp_all
  from entry_directive_alike [OF n] param_directive_alike [OF n] shared_directive_alike [OF n]
  show ?thesis by (simp add: directive_def Let_def alike_cur(2) [OF assms(1)])
qed

lemma label_part_alike:
  assumes a: "alike p p'"
  shows "same_result (rel_prod (=) alike) (label_part p) (label_part p')"
proof (cases "at p Identifier \<and> kind (p_tokens p ! (p_index p + 1)) = Colon")
  case False
  then have F': "\<not> (at p' Identifier \<and> kind (p_tokens p' ! (p_index p' + 1)) = Colon)"
    using alike_second [OF a] alike_cur(1) [OF a] by auto
  from a show ?thesis unfolding label_part_def if_not_P [OF False] if_not_P [OF F'] by simp
next
  case True
  then have id: "at p Identifier" and colon: "kind (p_tokens p ! (p_index p + 1)) = Colon" by simp_all
  have True': "at p' Identifier \<and> kind (p_tokens p' ! (p_index p' + 1)) = Colon"
    using True alike_second [OF a id] alike_cur(1) [OF a] by auto
  note C = alike_cur [OF a]
  have twice: "alike (next_tok (next_tok (p\<lparr>p_labels := m, p_program := g\<rparr>))) (next_tok (next_tok (p'\<lparr>p_labels := m, p_program := g\<rparr>)))" for m g
  proof -
    let ?q = "p\<lparr>p_labels := m, p_program := g\<rparr>" and ?q' = "p'\<lparr>p_labels := m, p_program := g\<rparr>"
    have q: "alike ?q ?q'" "at ?q Identifier" using alike_update(2) [OF a] id by simp_all
    then have "streaming ?q" "\<not> at ?q End" by (simp_all only: alike_def at_def) simp
    from not_last [OF this] have "at (next_tok ?q) Colon" using colon by (simp add: next_tok_def at_def cur_def)
    from alike_at_next [OF alike_at_next [OF q] this] show ?thesis by simp
  qed
  show ?thesis
    unfolding label_part_def if_P [OF True] if_P [OF True'] unfolding Let_def C
    using twice alike_cur(1) [OF twice] by (simp del: with_program_simps)
qed

lemma guard_part_alike:
  "alike p p' \<Longrightarrow> same_result (rel_prod alike (=)) (guard_part p out) (guard_part p' out)"
  using alike_at_next [of p p' Guard_kind] by (auto simp: guard_part_def alike_cur(1-3) split: option.split)

lemma append_word_alike: "alike p p' \<Longrightarrow> alike (append_word w p) (append_word w p')"
  using alike_update(1) [of p p'] by (simp add: append_word_def alike_cur(4))

lemma mnemonic_part_alike:
  assumes a: "alike p p'"
  shows "same_result alike (mnemonic_part env p out) (mnemonic_part env p' out)"
proof (cases "\<exists>info. at p Identifier \<and> opcode_info_mnemonic (token_text (cur p)) = Some info")
  case False
  with alike_cur(1,2) [OF a] show ?thesis by (auto simp: mnemonic_part_def split: option.split)
next
  case True
  then obtain info where info: "at p Identifier" "opcode_info_mnemonic (token_text (cur p)) = Some info" by blast
  have n: "alike (next_tok p) (next_tok p')" by (rule alike_at_next [OF a info(1)]) simp_all
  have tail: "same_result alike
      (case end_of_line q of Inl e \<Rightarrow> fail e | Inr q2 \<Rightarrow>
        (case encode i of Inl e \<Rightarrow> fail (parse_error q2 (isa_error_to_string e)) | Inr w \<Rightarrow> Inr (append_word w q2)))
      (case end_of_line q' of Inl e \<Rightarrow> fail e | Inr q2 \<Rightarrow>
        (case encode i of Inl e \<Rightarrow> fail (parse_error q2 (isa_error_to_string e)) | Inr w \<Rightarrow> Inr (append_word w q2)))"
    if "alike q q'" for q q' i
    by (rule same_result_bind [OF end_of_line_alike [OF that]]) (auto simp: append_word_alike split: sum.split)
  have "same_result alike
      (case parse_operands env (shape info) (next_tok p) (out\<lparr>opcode := info_opcode info\<rparr>) of Inl e \<Rightarrow> fail e
       | Inr (q, i) \<Rightarrow> (case end_of_line q of Inl e \<Rightarrow> fail e | Inr q2 \<Rightarrow>
          (case encode i of Inl e \<Rightarrow> fail (parse_error q2 (isa_error_to_string e)) | Inr w \<Rightarrow> Inr (append_word w q2))))
      (case parse_operands env (shape info) (next_tok p') (out\<lparr>opcode := info_opcode info\<rparr>) of Inl e \<Rightarrow> fail e
       | Inr (q, i) \<Rightarrow> (case end_of_line q of Inl e \<Rightarrow> fail e | Inr q2 \<Rightarrow>
          (case encode i of Inl e \<Rightarrow> fail (parse_error q2 (isa_error_to_string e)) | Inr w \<Rightarrow> Inr (append_word w q2))))"
    by (rule same_result_bind_pair [OF step_alikeD [OF parse_operands_alike n]]) (auto intro: tail)
  with info alike_cur(1,2) [OF a] show ?thesis by (simp add: mnemonic_part_def)
qed

lemma statement_alike:
  assumes "alike p p'"
  shows "same_result alike (statement env p) (statement env p')"
  unfolding statement_def
proof (rule same_result_bind_pair [OF label_part_alike [OF assms]])
  fix d d' :: bool and q q' assume "d = d'" and q: "alike q q'"
  then show "same_result alike
      (if d then Inr q else case guard_part q default_instruction of Inl e \<Rightarrow> fail e | Inr (p2, i) \<Rightarrow> mnemonic_part env p2 i)
      (if d' then Inr q' else case guard_part q' default_instruction of Inl e \<Rightarrow> fail e | Inr (p2, i) \<Rightarrow> mnemonic_part env p2 i)"
    by (auto intro!: same_result_bind_pair [OF guard_part_alike [OF q]] mnemonic_part_alike)
qed

section \<open>Whole sources\<close>

lemma skip_lines:
  assumes "streaming p"
  shows "\<exists>q. parse_lines env p = parse_lines env q \<and> moved 0 p q \<and> ahead q = skip_newlines (ahead p)"
  using assms
proof (induction p rule: measure_induct_rule [where f = "\<lambda>p. length (p_tokens p) - p_index p"])
  case (less p)
  note h = ahead_cur [OF less.prems]
  show ?case
  proof (cases "at p Newline")
    case False
    with h have "skip_newlines (ahead p) = ahead p" by (cases "ahead p") (auto simp: at_def view_def)
    with moved_refl [OF less.prems] show ?thesis by metis
  next
    case True
    then have e: "\<not> at p End" by (auto simp: at_def)
    have m: "moved 1 p (next_tok p)" by (rule next_moved [OF less.prems e])
    have "length (p_tokens (next_tok p)) - p_index (next_tok p) < length (p_tokens p) - p_index p"
      using moved_fields(4,6) [OF m] less.prems unfolding streaming_def by auto
    from less.IH [OF this moved_fields(5) [OF m]] obtain q where
      q: "parse_lines env (next_tok p) = parse_lines env q" "moved 0 (next_tok p) q" "ahead q = skip_newlines (ahead (next_tok p))" by blast
    have "parse_lines env p = parse_lines env q"
      using True e q(1) by (subst parse_lines.simps) simp
    moreover have "moved 0 p q" using moved_weaken [OF moved_trans [OF m q(2)], of 0] by simp
    moreover have "skip_newlines (ahead p) = skip_newlines (ahead (next_tok p))"
      using ahead_next_tok(2) [OF less.prems e] h True by (cases "ahead p") (auto simp: at_def view_def)
    ultimately show ?thesis using q(3) by metis
  qed
qed

lemma moved_content: "moved n p q \<Longrightarrow> content q = content p"
  by (simp add: content_def moved_fields)

lemma parse_lines_alike:
  assumes "parser_inv p" "parser_inv p'" "content p = content p'"
    and "squeeze (skip_newlines (ahead p)) = squeeze (skip_newlines (ahead p'))"
  shows "\<exists>r r'. parse_lines env p = Some r \<and> parse_lines env p' = Some r' \<and>
    same_result (\<lambda>q q'. content q = content q') r r'"
  using assms
proof (induction p arbitrary: p' rule: measure_induct_rule [where f = "\<lambda>p. length (p_tokens p) - p_index p"])
  case (less p)
  note s = parser_inv_streaming [OF less.prems(1)] parser_inv_streaming [OF less.prems(2)]
  from skip_lines [OF s(1), of env] obtain q where
    q: "parse_lines env p = parse_lines env q" "moved 0 p q" "ahead q = skip_newlines (ahead p)" by blast
  from skip_lines [OF s(2), of env] obtain q' where
    q': "parse_lines env p' = parse_lines env q'" "moved 0 p' q'" "ahead q' = skip_newlines (ahead p')" by blast
  have a: "alike q q'"
    using moved_fields(5) [OF q(2)] moved_fields(5) [OF q'(2)] q(2,3) q'(2,3) less.prems(3,4) by (simp add: alike_def moved_content)
  have inv: "parser_inv q" "parser_inv q'" using moved_inv q(2) q'(2) less.prems(1,2) by blast+
  note C = alike_cur(1) [OF a]
  have nl: "\<not> at q Newline"
    using ahead_cur [OF moved_fields(5) [OF q(2)]] hd_dropWhile [of "\<lambda>v. fst v = Newline" "ahead p"] q(3)
    by (simp add: at_def view_def)
  show ?case
  proof (cases "at q End")
    case True
    then have "parse_lines env q = Some (Inr q)" "parse_lines env q' = Some (Inr q')"
      using C by (subst parse_lines.simps; simp)+
    with q(1) q'(1) alike_cur(6) [OF a] show ?thesis by simp
  next
    case e: False
    let ?line = "\<lambda>q. if at q Directive then directive q else statement env q"
    have line: "same_result alike (?line q) (?line q')"
      using directive_alike [OF a] statement_alike [OF a] C by simp
    have unfolded: "parse_lines env q = (case ?line q of Inl x \<Rightarrow> Some (fail x) | Inr r \<Rightarrow> parse_lines env r)"
      "parse_lines env q' = (case ?line q' of Inl x \<Rightarrow> Some (fail x) | Inr r \<Rightarrow> parse_lines env r)"
      using e nl C by (subst parse_lines.simps; simp)+
    show ?thesis
    proof (cases "?line q")
      case (Inl x)
      with line obtain x' where "?line q' = Inl x'" "error_message x = error_message x'"
        by (cases "?line q'") (auto simp: same_result_def)
      with Inl unfolded q(1) q'(1) show ?thesis by simp
    next
      case (Inr r)
      with line obtain r' where r': "?line q' = Inr r'" "alike r r'" by (cases "?line q'") (auto simp: same_result_def)
      have e': "\<not> at q' End" using e C by simp
      have same: "parse_lines env p = parse_lines env r" "parse_lines env p' = parse_lines env r'"
        using q(1) q'(1) unfolded unfolding Inr r'(1) by simp_all
      have r: "parser_inv r \<and> p_index q < p_index r \<and> p_tokens r = p_tokens q"
        using directive_inv [OF inv(1)] statement_inv [OF inv(1) e] Inr by (auto split: if_splits)
      have inv': "parser_inv r'"
        using directive_inv [OF inv(2)] statement_inv [OF inv(2) e'] r'(1) by (auto split: if_splits)
      have "content r = content r'" and ahead: "squeeze (ahead r) = squeeze (ahead r')"
        using r'(2) unfolding alike_def by blast+
      note r' = inv' this(1) squeeze_skip [OF ahead]
      have "p_index r < length (p_tokens p)" "p_tokens r = p_tokens p" "p_index p < p_index r"
        using r moved_fields(4,6) [OF q(2)] parser_inv_streaming [of r] unfolding streaming_def by auto
      then have "length (p_tokens r) - p_index r < length (p_tokens p) - p_index p" by simp
      from less.IH [OF this _ r'] r show ?thesis unfolding same by blast
    qed
  qed
qed

lemma resolve_branches_alike:
  assumes "List.map (\<lambda>b. (branch_pc b, branch_label b)) bs = List.map (\<lambda>b. (branch_pc b, branch_label b)) bs'"
  shows "rel_option (same_result (=)) (resolve_branches names bs words) (resolve_branches names bs' words)"
  using assms
proof (induction bs arbitrary: bs' words)
  case (Cons b bs)
  then obtain b' cs where "bs' = b' # cs" by (cases bs') auto
  with Cons show ?case by (auto split: option.split sum.split)
qed simp

lemma finish_program_alike:
  assumes "content p = content p'"
  shows "rel_option (same_result (=)) (finish_program p) (finish_program p')"
proof -
  have C: "p_program p' = p_program p" "p_labels p' = p_labels p" using assms by (simp_all add: content_def)
  have "rel_option (same_result (=)) (resolve_branches (p_labels p) (p_pending p) (code_words (p_program p)))
      (resolve_branches (p_labels p) (p_pending p') (code_words (p_program p)))"
    using assms by (intro resolve_branches_alike) (simp add: content_def)
  then show ?thesis
    unfolding finish_program_def Let_def C
    by (cases "resolve_branches (p_labels p) (p_pending p) (code_words (p_program p))";
        cases "resolve_branches (p_labels p) (p_pending p') (code_words (p_program p))")
      (auto simp: same_result_def fail_def split: sum.split option.split)
qed

text \<open>The tokens of a source without positions and empty lines.\<close>

definition token_lines :: "Token list \<Rightarrow> view list" where
  "token_lines tokens = squeeze (skip_newlines (List.map view tokens))"

section \<open>Properties\<close>

text \<open>C22: the layout of a source does not matter. Two sources with the same tokens, wherever their blanks, comments,
  empty lines and columns are, assemble to the same program or are refused with the same message; only the
  position in the error may differ.\<close>

theorem layout_is_free:
  assumes "lex s = Inr tokens" and "lex s' = Inr tokens'" and "token_lines tokens = token_lines tokens'"
  shows "(\<exists>program. assemble env s = Some (Inr program) \<and> assemble env s' = Some (Inr program)) \<or>
    (\<exists>e e'. assemble env s = Some (Inl e) \<and> assemble env s' = Some (Inl e') \<and> error_message e = error_message e')"
proof -
  have "ahead (new_parser ts) = List.map view ts" "content (new_parser ts) = (empty_program, Map.empty, [])" for ts
    by (simp_all add: ahead_def content_def new_parser_def)
  then obtain r r' where r: "parse_lines env (new_parser tokens) = Some r" "parse_lines env (new_parser tokens') = Some r'"
    "same_result (\<lambda>q q'. content q = content q') r r'"
    using parse_lines_alike [OF new_parser_inv [OF lex_stream [OF assms(1)]] new_parser_inv [OF lex_stream [OF assms(2)]], of env]
      assms(3) by (auto simp: token_lines_def)
  have "rel_option (same_result (=)) (assemble env s) (assemble env s')"
    using r finish_program_alike assms(1,2)
    by (cases r; cases r') (auto simp: assemble_def run_parser_def same_result_def fail_def)
  moreover obtain a a' where "assemble env s = Some a" "assemble env s' = Some a'"
    using assemble_well_formed [of env s] assemble_well_formed [of env s'] by blast
  ultimately show ?thesis by (cases a; cases a') (auto simp: same_result_def)
qed

definition plain_source :: "string list" where
  "plain_source = [''.entry k'', ''exit'']"

definition airy_source :: "string list" where
  "airy_source = [''// a kernel'', [], ''  .entry k  // its name'', [], [], ''  // leave'', ''    exit'']"

lemma plain_source_assembles: "\<exists>program. assemble env (text_of plain_source) = Some (Inr program)"
proof -
  let ?p = "\<lparr>entry_name = ''k'', param_names = [], shared_bytes = 0, code_words = [encode_word exit_instruction],
    label_names = Map.empty\<rparr>"
  have k: "is_ident ''k''" by code_simp
  have "reads_text env ((''.entry '' @ ''k'') @ ''\<newline>'') (empty_program, Map.empty, [])
      (empty_program\<lparr>entry_name := ''k''\<rparr>, Map.empty, [])"
    by (intro reads_text_line entry_line k) (simp_all add: empty_program_def)
  then have header: "reads_text env ''.entry k\<newline>'' (empty_program, Map.empty, [])
      (?p\<lparr>code_words := [], label_names := Map.empty\<rparr>, Map.empty, [])"
    by (simp add: empty_program_def)
  have "opcode exit_instruction = Exit" by (simp add: exit_instruction_def default_instruction_def)
  then have pr: "printable ?p (label_names ?p) [exit_instruction]" and fl: "\<forall>i \<in> set [exit_instruction]. floats_ok env i"
    and a: "annotate_reconvergence [exit_instruction] = Some (Inr [exit_instruction])"
    using k example_words(2) annotate_straight [of "[exit_instruction]"]
    by (simp_all add: printable_def floats_ok_def exit_instruction_def default_instruction_def)
  have "prints_as env Map.empty [] exit_instruction ''exit''" by code_simp
  then have "list_all2 (prints_as env (label_names ?p) (param_names ?p)) [exit_instruction] [''exit'']" by simp
  from relaid_program_assembles [OF pr a fl header this] show ?thesis by (simp add: plain_source_def)
qed

theorem layout_is_free_witness:
  "\<exists>program. assemble example_chars_env (text_of plain_source) = Some (Inr program) \<and>
    assemble example_chars_env (text_of airy_source) = Some (Inr program)"
proof -
  let ?plain = "List.map (\<lambda>l. the (line_views l)) plain_source" and ?airy = "List.map (\<lambda>l. the (line_views l)) airy_source"
  have "list_all (\<lambda>l. line_views l \<noteq> None \<and> CHR ''\<newline>'' \<notin> set l) (plain_source @ airy_source)" by code_simp
  then have "list_all2 (\<lambda>l vs. line_views l = Some vs \<and> CHR ''\<newline>'' \<notin> set l) plain_source ?plain"
    "list_all2 (\<lambda>l vs. line_views l = Some vs \<and> CHR ''\<newline>'' \<notin> set l) airy_source ?airy"
    by (auto simp: list_all2_conv_all_nth list_all_iff all_set_conv_all_nth)
  from lex_text_of [OF this(1)] lex_text_of [OF this(2)] obtain tokens tokens' where
    t: "lex (text_of plain_source) = Inr tokens" "lex (text_of airy_source) = Inr tokens'"
    and v: "List.map view tokens = text_views ?plain @ [end_view]" "List.map view tokens' = text_views ?airy @ [end_view]"
    by (auto simp: plain_source_def airy_source_def)
  have "squeeze (skip_newlines (text_views ?plain @ [end_view])) = squeeze (skip_newlines (text_views ?airy @ [end_view]))"
    by code_simp
  with v have same: "token_lines tokens = token_lines tokens'" by (simp add: token_lines_def)
  from layout_is_free [OF t same, of example_chars_env] plain_source_assembles [of example_chars_env] show ?thesis by auto
qed

end
