(* ===== verification/Scheduler_Facts.thy ===== *)
theory Scheduler_Facts
  imports Device
begin

text \<open>
  The scheduler of a block: what a pass does to the warps it visits and to those it skips, the
  invariants of the loop, and the accounting of the counters
  (\<^verbatim>\<open>docs/counters.md\<close>).
\<close>

section \<open>What a pass does to the warps\<close>

definition runnable :: "Warp \<Rightarrow> bool" where
  "runnable w \<longleftrightarrow> \<not> finished w \<and> \<not> parked w"

definition visited :: "fp_env \<Rightarrow> Instruction list \<Rightarrow> Warp \<Rightarrow> Warp \<Rightarrow> bool" where
  "visited env program w w' \<longleftrightarrow>
    (if runnable w then \<exists>m oc m'. step env block_port program w m = (Inr oc, w', m') else w' = w)"

lemma issue_pass_Inr:
  assumes "issue_pass env program any warps m st = (Inr r, s)"
  shows "list_all2 (visited env program) warps (sched_warps s) \<and>
    r = (any \<or> (\<exists>w \<in> set warps. runnable w))"
  using assms
proof (induction warps arbitrary: any m st s)
  case Nil
  then show ?case by auto
next
  case (Cons w warps)
  show ?case
  proof (cases "runnable w")
    case False
    then have skip: "finished w \<or> parked w" by (auto simp: runnable_def)
    with Cons.prems obtain s1 where run: "issue_pass env program any warps m st = (Inr r, s1)"
      and s: "s = s1\<lparr>sched_warps := w # sched_warps s1\<rparr>"
      by (auto simp: Let_def split: prod.splits)
    from Cons.IH [OF run] False show ?thesis by (auto simp: visited_def s)
  next
    case True
    then have go: "\<not> (finished w \<or> parked w)" by (auto simp: runnable_def)
    with Cons.prems obtain oc w1 m1 s1 where st: "step env block_port program w m = (Inr oc, w1, m1)"
      and run: "issue_pass env program True warps m1 (if oc \<noteq> Finished then count_issue w1 st else st) = (Inr r, s1)"
      and s: "s = s1\<lparr>sched_warps := w1 # sched_warps s1\<rparr>"
      by (auto simp: Let_def fail_def split: prod.splits sum.splits if_splits)
    from Cons.IH [OF run] True st show ?thesis by (auto simp: visited_def s)
  qed
qed

lemma issue_pass_warps:
  assumes "issue_pass env program any warps m st = (r, s)"
    and "\<And>w m r w' m'. w \<in> set warps \<Longrightarrow> P w \<Longrightarrow> step env block_port program w m = (r, w', m') \<Longrightarrow> P w'"
    and "\<forall>w \<in> set warps. P w"
  shows "\<forall>w \<in> set (sched_warps s). P w"
  using assms
proof (induction warps arbitrary: any m st s r)
  case Nil
  then show ?case by auto
next
  case (Cons w warps)
  note step = Cons.prems(2)
  have IH: "issue_pass env program any' warps m' st' = (r', s') \<Longrightarrow> \<forall>w \<in> set (sched_warps s'). P w"
    for any' m' st' r' s'
    using Cons.IH [of any' m' st' r' s'] Cons.prems(2,3) by (metis list.set_intros(2))
  have "P w" using Cons.prems(3) by simp
  show ?case
    using Cons.prems(1,3) step [of w m]
    by (auto simp: Let_def split: if_splits prod.splits sum.splits dest!: IH)
qed

text \<open>The totals are changed by \<open>count_issue\<close> only.\<close>

lemma issue_pass_stats:
  assumes "issue_pass env program any warps m st = (r, s)"
    and "\<And>w st. P st \<Longrightarrow> P (count_issue w st)" and "P st"
  shows "P (sched_stats s)"
  using assms(1,3)
proof (induction warps arbitrary: any m st s r)
  case Nil
  then show ?case by auto
next
  case (Cons w warps)
  then show ?case
    by (auto simp: Let_def split: if_splits prod.splits sum.splits dest!: Cons.IH intro: assms(2))
qed

section \<open>The loop\<close>

lemma scheduler_loop_invariant:
  assumes "scheduler_loop env program s = Some (r, s')" and "P s"
    and "\<And>s s1. P s \<Longrightarrow> scheduler_round env program s = (Inr False, s1) \<Longrightarrow> P s1"
    and "\<And>s s1. P s \<Longrightarrow> scheduler_round env program s = (Inr True, s1) \<Longrightarrow> Q (Inr ()) s1"
    and "\<And>s s1 e. P s \<Longrightarrow> scheduler_round env program s = (Inl e, s1) \<Longrightarrow> Q (Inl e) s1"
  shows "Q r s'"
proof -
  have "env' = env \<longrightarrow> program' = program \<longrightarrow> P s \<longrightarrow> Q (fst y) (snd y)"
    if "scheduler_loop env' program' s = Some y" for env' program' s y
    using that
  proof (rule scheduler_loop.raw_induct [rotated])
    fix loop :: "fp_env \<Rightarrow> Instruction list \<Rightarrow> Scheduler \<Rightarrow> ((unit, Fault) result \<times> Scheduler) option"
      and e p s y
    assume IH: "\<And>e p s y. loop e p s = Some y \<Longrightarrow> e = env \<longrightarrow> p = program \<longrightarrow> P s \<longrightarrow> Q (fst y) (snd y)"
      and run: "(case scheduler_round e p s of
          (Inl f, s1) \<Rightarrow> Some (fail f, s1)
        | (Inr is_done, s1) \<Rightarrow> if is_done then Some (Inr (), s1) else loop e p s1) = Some y"
    obtain r s1 where round: "scheduler_round env program s = (r, s1)" by fastforce
    show "e = env \<longrightarrow> p = program \<longrightarrow> P s \<longrightarrow> Q (fst y) (snd y)"
    proof (intro impI)
      assume e: "e = env" "p = program" and P: "P s"
      show "Q (fst y) (snd y)"
      proof (cases r)
        case (Inl f)
        with run round e assms(5) [OF P] show ?thesis by (auto simp: fail_def)
      next
        case (Inr is_done)
        with run round e assms(3,4) [OF P] IH show ?thesis
          by (cases is_done) auto
      qed
    qed
  qed
  with assms(1,2) show ?thesis by fastforce
qed

lemma list_all2_ex: "list_all2 R xs ys \<Longrightarrow> y \<in> set ys \<Longrightarrow> \<exists>x \<in> set xs. R x y"
  by (induction rule: list_all2_induct) auto

text \<open>The assertion that a warp is always runnable when the loop continues: the error exit of
  the loop is never taken.\<close>

lemma unparked_warp_was_runnable:
  assumes "issue_pass env program False warps m st = (Inr any_runnable, s)"
    and "any_unfinished (sched_warps s)" "\<not> all_parked (sched_warps s)"
  shows "any_runnable"
proof -
  note pass = issue_pass_Inr [OF assms(1)]
  from assms(3) obtain w' where w': "w' \<in> set (sched_warps s)" "runnable w'"
    by (auto simp: all_parked_def runnable_def)
  from list_all2_ex [OF conjunct1 [OF pass] w'(1)]
  obtain w where w: "w \<in> set warps" "visited env program w w'" by blast
  with w'(2) have "runnable w" by (auto simp: visited_def split: if_splits)
  with pass w(1) show ?thesis by auto
qed

lemma scheduler_round_cases:
  assumes "scheduler_round env program s = (r, s')"
  obtains (fault) e where "issue_pass env program False (sched_warps s) (sched_memory s) (sched_stats s) = (Inl e, s')"
      "r = Inl e"
    | (finish) any where "issue_pass env program False (sched_warps s) (sched_memory s) (sched_stats s) = (Inr any, s')"
      "\<not> any_unfinished (sched_warps s')" "r = Inr True"
    | (release) any s1 where "issue_pass env program False (sched_warps s) (sched_memory s) (sched_stats s) = (Inr any, s1)"
      "any_unfinished (sched_warps s1)" "all_parked (sched_warps s1)" "r = Inr False"
      "s' = s1\<lparr>sched_warps := List.map (\<lambda>warp. warp\<lparr>parked := False\<rparr>) (sched_warps s1),
         sched_stats := (sched_stats s1)\<lparr>barriers_completed := barriers_completed (sched_stats s1) + 1\<rparr>\<rparr>"
    | (continue) "issue_pass env program False (sched_warps s) (sched_memory s) (sched_stats s) = (Inr True, s')"
      "any_unfinished (sched_warps s')" "\<not> all_parked (sched_warps s')" "r = Inr False"
proof -
  obtain q s1 where pass: "issue_pass env program False (sched_warps s) (sched_memory s) (sched_stats s) = (q, s1)"
    by fastforce
  show thesis
  proof (cases q)
    case (Inl e)
    with assms pass show thesis by (intro fault) (auto simp: scheduler_round_def fail_def)
  next
    case (Inr any)
    note eq = assms [unfolded scheduler_round_def pass Inr]
    consider "\<not> any_unfinished (sched_warps s1)"
      | "any_unfinished (sched_warps s1)" "all_parked (sched_warps s1)"
      | "any_unfinished (sched_warps s1)" "\<not> all_parked (sched_warps s1)" by blast
    then show thesis
    proof cases
      case 1
      with eq pass Inr show thesis by (intro finish [of any]) simp_all
    next
      case 2
      with eq pass Inr show thesis by (intro release [of any s1]) simp_all
    next
      case 3
      with unparked_warp_was_runnable [OF pass [unfolded Inr]] have "any" by blast
      with 3 eq pass Inr show thesis by (intro continue) simp_all
    qed
  qed
qed

section \<open>Counters\<close>

definition balanced :: "LaunchStats \<Rightarrow> bool" where
  "balanced st \<longleftrightarrow>
    instructions_issued st = alu_instructions st + memory_instructions st +
      control_instructions st + barrier_instructions st"

definition histogram_total :: "u64 list \<Rightarrow> u64" where
  "histogram_total h = sum_list h"

definition histogram_lanes :: "u64 list \<Rightarrow> u64" where
  "histogram_lanes h = (\<Sum>k < length h. of_nat k * h ! k)"

definition histogram_ok :: "LaunchStats \<Rightarrow> bool" where
  "histogram_ok st \<longleftrightarrow>
    length (active_lane_histogram st) = 33 \<and>
    histogram_total (active_lane_histogram st) = instructions_issued st \<and>
    histogram_lanes (active_lane_histogram st) = active_lane_sum st"

lemma histogram_total_update:
  "k < length h \<Longrightarrow> histogram_total (h[k := h ! k + 1]) = histogram_total h + 1"
  by (induction h arbitrary: k) (auto simp: histogram_total_def nth_Cons split: nat.split)

lemma histogram_lanes_update:
  assumes "k < length h"
  shows "histogram_lanes (h[k := h ! k + 1]) = histogram_lanes h + of_nat k"
proof -
  have "(\<Sum>j < length h. of_nat j * (h[k := h ! k + 1]) ! j) =
      (\<Sum>j < length h. of_nat j * h ! j + (if j = k then of_nat k else 0 :: u64))"
    by (rule sum.cong) (simp_all add: nth_list_update algebra_simps)
  then show ?thesis
    using assms by (simp add: histogram_lanes_def sum.distrib)
qed

lemma count_class_frame:
  "instructions_issued (count_class opc st) = instructions_issued st"
  "active_lane_sum (count_class opc st) = active_lane_sum st"
  "active_lane_histogram (count_class opc st) = active_lane_histogram st"
  by (simp_all add: count_class_def)

lemma count_issue_balanced: "balanced st \<Longrightarrow> balanced (count_issue w st)"
  by (simp add: balanced_def count_issue_def Let_def count_class_def)

lemma count_issue_histogram: "histogram_ok st \<Longrightarrow> histogram_ok (count_issue w st)"
  using lane_count_le [of "last_exec w"]
  by (simp add: histogram_ok_def count_issue_def Let_def count_class_frame
      histogram_total_update histogram_lanes_update)

section \<open>Invariants of a round and of a block\<close>

lemma scheduler_round_warps:
  assumes "scheduler_round env program s = (r, s')"
    and "\<And>w m r w' m'. P w \<Longrightarrow> step env block_port program w m = (r, w', m') \<Longrightarrow> P w'"
    and "\<And>w. P w \<Longrightarrow> P (w\<lparr>parked := False\<rparr>)"
    and "\<forall>w \<in> set (sched_warps s). P w"
  shows "\<forall>w \<in> set (sched_warps s'). P w"
proof -
  have pass: "\<forall>w \<in> set (sched_warps s1). P w"
    if "issue_pass env program False (sched_warps s) (sched_memory s) (sched_stats s) = (q, s1)" for q s1
    using that by (rule issue_pass_warps) (use assms(2,4) in auto)
  from assms(1) show ?thesis
  proof (cases rule: scheduler_round_cases)
    case (release any s1)
    with pass [OF release(1)] assms(3) show ?thesis by auto
  qed (auto dest: pass)
qed

lemma scheduler_round_stats:
  assumes "scheduler_round env program s = (r, s')"
    and "\<And>w st. P st \<Longrightarrow> P (count_issue w st)"
    and "\<And>st. P st \<Longrightarrow> P (st\<lparr>barriers_completed := barriers_completed st + 1\<rparr>)"
    and "P (sched_stats s)"
  shows "P (sched_stats s')"
proof -
  have pass: "P (sched_stats s1)"
    if "issue_pass env program False (sched_warps s) (sched_memory s) (sched_stats s) = (q, s1)" for q s1
    using that assms(2,4) by (rule issue_pass_stats)
  from assms(1) show ?thesis
  proof (cases rule: scheduler_round_cases)
    case (release any s1)
    with pass [OF release(1)] assms(3) show ?thesis by auto
  qed (auto dest: pass)
qed

lemma scheduler_loop_stats:
  assumes "scheduler_loop env program s = Some (r, s')"
    and "\<And>w st. P st \<Longrightarrow> P (count_issue w st)"
    and "\<And>st. P st \<Longrightarrow> P (st\<lparr>barriers_completed := barriers_completed st + 1\<rparr>)"
    and "P (sched_stats s)"
  shows "P (sched_stats s')"
  by (rule scheduler_loop_invariant [OF assms(1), where P = "\<lambda>s. P (sched_stats s)"
        and Q = "\<lambda>_ s. P (sched_stats s)"])
     (use assms(2-4) in \<open>auto dest: scheduler_round_stats [where P = P]\<close>)

lemma scheduler_loop_warps:
  assumes "scheduler_loop env program s = Some (r, s')"
    and "\<And>w m r w' m'. P w \<Longrightarrow> step env block_port program w m = (r, w', m') \<Longrightarrow> P w'"
    and "\<And>w. P w \<Longrightarrow> P (w\<lparr>parked := False\<rparr>)"
    and "\<forall>w \<in> set (sched_warps s). P w"
  shows "\<forall>w \<in> set (sched_warps s'). P w"
  by (rule scheduler_loop_invariant [OF assms(1), where P = "\<lambda>s. \<forall>w \<in> set (sched_warps s). P w"
        and Q = "\<lambda>_ s. \<forall>w \<in> set (sched_warps s). P w"])
     (use assms(2-4) scheduler_round_warps [where P = P] in blast)+

text \<open>A block that completes has retired every lane of every warp.\<close>

lemma scheduler_loop_finished:
  assumes "scheduler_loop env program s = Some (Inr u, s')"
  shows "\<forall>w \<in> set (sched_warps s'). finished w"
proof -
  have "isl (Inr u :: (unit, Fault) result) \<or> (\<forall>w \<in> set (sched_warps s'). finished w)"
    by (rule scheduler_loop_invariant [OF assms, where P = "\<lambda>_. True"
          and Q = "\<lambda>r s. isl r \<or> (\<forall>w \<in> set (sched_warps s). finished w)"])
       (auto elim!: scheduler_round_cases simp: any_unfinished_def)
  then show ?thesis by simp
qed

lemma add_events_stats:
  assumes "\<And>st d r. P st \<Longrightarrow> P (st\<lparr>divergent_branches := d, reconvergence_events := r\<rparr>)"
  shows "P st \<Longrightarrow> P (add_events warps st)"
  unfolding add_events_def by (induction warps arbitrary: st) (auto intro: assms)

lemma run_block_stats:
  assumes "run_block env program m ctx lanes st = Some (r, m', st')"
    and "\<And>w st. P st \<Longrightarrow> P (count_issue w st)"
    and "\<And>st. P st \<Longrightarrow> P (st\<lparr>barriers_completed := barriers_completed st + 1\<rparr>)"
    and "\<And>st d r. P st \<Longrightarrow> P (st\<lparr>divergent_branches := d, reconvergence_events := r\<rparr>)"
    and "P (st\<lparr>warps_launched := warps_launched st + warp_count lanes\<rparr>)"
  shows "P st'"
proof -
  obtain q s where loop: "scheduler_loop env program
      \<lparr>sched_warps = create_warps ctx lanes, sched_memory = m,
       sched_stats = st\<lparr>warps_launched := warps_launched st + warp_count lanes\<rparr>\<rparr> = Some (q, s)"
    using assms(1) by (auto simp: run_block_def Let_def split: option.splits)
  have "P (sched_stats s)"
    by (rule scheduler_loop_stats [OF loop, where P = P]) (simp_all add: assms)
  with assms(1) loop add_events_stats [of P, OF assms(4)] show ?thesis
    by (auto simp: run_block_def Let_def split: sum.splits)
qed

lemma run_blocks_stats:
  assumes "run_blocks env program sh grid blk ps bs g st = Some (Inr st', g')"
    and "\<And>w st. P st \<Longrightarrow> P (count_issue w st)"
    and "\<And>st. P st \<Longrightarrow> P (st\<lparr>barriers_completed := barriers_completed st + 1\<rparr>)"
    and "\<And>st d r. P st \<Longrightarrow> P (st\<lparr>divergent_branches := d, reconvergence_events := r\<rparr>)"
    and "\<And>st n. P st \<Longrightarrow> P (st\<lparr>warps_launched := n\<rparr>)"
    and "\<And>st b l m. P st \<Longrightarrow> P (st\<lparr>blocks_executed := b, lanes_launched := l, memory_stats := m\<rparr>)"
    and "P st"
  shows "P st'"
  using assms(1,7)
proof (induction bs arbitrary: g st)
  case Nil
  then show ?case by simp
next
  case (Cons b bs)
  obtain m st1 where block: "run_block env program (block_memory g sh ps)
      \<lparr>ntid = blk, nctaid = grid, ctaid = b, warp_id = 0\<rparr> (dim_count blk) st = Some (Inr (), m, st1)"
    using Cons.prems(1) by (auto simp: fail_def split: option.splits prod.splits sum.splits)
  have "P st1"
    by (rule run_block_stats [OF block, where P = P]) (use Cons.prems(2) assms(2-5) in auto)
  with Cons.prems(1) Cons.IH assms(6) show ?thesis by (simp add: block)
qed

text \<open>The three totals that count blocks, warps and lanes of a launch.\<close>

lemma run_blocks_launched:
  assumes "run_blocks env program sh grid blk ps bs g st = Some (Inr st', g')"
  shows "blocks_executed st' = blocks_executed st + of_nat (length bs)"
    and "warps_launched st' = warps_launched st + of_nat (length bs) * warp_count (dim_count blk)"
    and "lanes_launched st' = lanes_launched st + of_nat (length bs) * dim_count blk"
proof -
  have "blocks_executed st' = blocks_executed st + of_nat (length bs) \<and>
      warps_launched st' = warps_launched st + of_nat (length bs) * warp_count (dim_count blk) \<and>
      lanes_launched st' = lanes_launched st + of_nat (length bs) * dim_count blk"
    using assms
  proof (induction bs arbitrary: g st)
    case Nil
    then show ?case by simp
  next
    case (Cons b bs)
    obtain m st1 where block: "run_block env program (block_memory g sh ps)
        \<lparr>ntid = blk, nctaid = grid, ctaid = b, warp_id = 0\<rparr> (dim_count blk) st = Some (Inr (), m, st1)"
      using Cons.prems(1) by (auto simp: fail_def split: option.splits prod.splits sum.splits)
    have "blocks_executed st1 = blocks_executed st \<and> lanes_launched st1 = lanes_launched st \<and>
        warps_launched st1 = warps_launched st + warp_count (dim_count blk)"
      by (rule run_block_stats [OF block]) (simp_all add: count_issue_def count_class_def Let_def)
    with Cons.IH Cons.prems(1) show ?case by (simp add: block algebra_simps)
  qed
  then show "blocks_executed st' = blocks_executed st + of_nat (length bs)"
    and "warps_launched st' = warps_launched st + of_nat (length bs) * warp_count (dim_count blk)"
    and "lanes_launched st' = lanes_launched st + of_nat (length bs) * dim_count blk" by simp_all
qed

section \<open>The blocks of a launch, one after the other\<close>

text \<open>A block that succeeds is a scheduler loop on its warps that leaves every lane retired.\<close>

lemma run_block_loop:
  assumes "run_block env program m ctx lanes st = Some (Inr (), m', st')"
  shows "\<exists>st0 s. scheduler_loop env program
      \<lparr>sched_warps = create_warps ctx lanes, sched_memory = m, sched_stats = st0\<rparr> = Some (Inr (), s) \<and>
    sched_memory s = m' \<and> (\<forall>w \<in> set (sched_warps s). live w = 0)"
proof -
  from assms obtain st0 s where loop: "scheduler_loop env program
      \<lparr>sched_warps = create_warps ctx lanes, sched_memory = m, sched_stats = st0\<rparr> = Some (Inr (), s)"
    and "sched_memory s = m'"
    by (auto simp: run_block_def Let_def fail_def split: option.splits prod.splits sum.splits)
  with scheduler_loop_finished [OF loop] show ?thesis by (auto simp: finished_def)
qed

text \<open>The memories between the blocks.\<close>

lemma run_blocks_chain:
  assumes "run_blocks env program sh grid blk ps bs g st = Some (Inr st', g')"
  shows "\<exists>gs. length gs = length bs + 1 \<and> gs ! 0 = g \<and> gs ! length bs = g' \<and>
    (\<forall>k < length bs. \<exists>st0 s. scheduler_loop env program
        \<lparr>sched_warps = create_warps \<lparr>ntid = blk, nctaid = grid, ctaid = bs ! k, warp_id = 0\<rparr> (dim_count blk),
         sched_memory = block_memory (gs ! k) sh ps, sched_stats = st0\<rparr> = Some (Inr (), s) \<and>
      global (sched_memory s) = gs ! (k + 1) \<and> (\<forall>w \<in> set (sched_warps s). live w = 0))"
  using assms
proof (induction bs arbitrary: g st)
  case Nil
  then show ?case by (intro exI [of _ "[g]"]) simp
next
  case (Cons b bs)
  from Cons.prems obtain m st1 st2 where block: "run_block env program (block_memory g sh ps)
      \<lparr>ntid = blk, nctaid = grid, ctaid = b, warp_id = 0\<rparr> (dim_count blk) st = Some (Inr (), m, st1)"
    and others: "run_blocks env program sh grid blk ps bs (global m) st2 = Some (Inr st', g')"
    by (auto simp: fail_def split: option.splits prod.splits sum.splits)
  note first = run_block_loop [OF block]
  from Cons.IH [OF others] obtain gs where gs: "length gs = length bs + 1" "gs ! 0 = global m" "gs ! length bs = g'"
    and chain: "\<forall>k < length bs. \<exists>st0 s. scheduler_loop env program
        \<lparr>sched_warps = create_warps \<lparr>ntid = blk, nctaid = grid, ctaid = bs ! k, warp_id = 0\<rparr> (dim_count blk),
         sched_memory = block_memory (gs ! k) sh ps, sched_stats = st0\<rparr> = Some (Inr (), s) \<and>
      global (sched_memory s) = gs ! (k + 1) \<and> (\<forall>w \<in> set (sched_warps s). live w = 0)" by blast
  have "\<exists>st0 s. scheduler_loop env program
        \<lparr>sched_warps = create_warps \<lparr>ntid = blk, nctaid = grid, ctaid = (b # bs) ! k, warp_id = 0\<rparr> (dim_count blk),
         sched_memory = block_memory ((g # gs) ! k) sh ps, sched_stats = st0\<rparr> = Some (Inr (), s) \<and>
      global (sched_memory s) = (g # gs) ! (k + 1) \<and> (\<forall>w \<in> set (sched_warps s). live w = 0)"
    if "k < length (b # bs)" for k
  proof (cases k)
    case 0
    with first gs(2) show ?thesis by auto
  next
    case (Suc j)
    with that chain show ?thesis by simp
  qed
  with gs show ?case by (intro exI [of _ "g # gs"]) simp
qed

text \<open>The blocks are visited row by row.\<close>

lemma block_indices_length: "length (block_indices grid) = unat (dim_y grid) * unat (dim_x grid)"
  by (simp add: block_indices_def length_concat comp_def sum_list_triv)

lemma block_indices_nth:
  assumes "y < unat (dim_y grid)" "x < unat (dim_x grid)"
  shows "y * unat (dim_x grid) + x < length (block_indices grid)"
    "block_indices grid ! (y * unat (dim_x grid) + x) = \<lparr>dim_x = of_nat x, dim_y = of_nat y\<rparr>"
proof -
  have "Suc y * unat (dim_x grid) \<le> unat (dim_y grid) * unat (dim_x grid)" using assms(1) by (intro mult_le_mono1) simp
  with assms(2) show l: "y * unat (dim_x grid) + x < length (block_indices grid)" by (simp add: block_indices_length)
  have p: "block_indices grid = List.map (\<lambda>(y, x). \<lparr>dim_x = of_nat x, dim_y = of_nat y\<rparr>)
      (List.product [0..<unat (dim_y grid)] [0..<unat (dim_x grid)])"
    by (simp add: block_indices_def product_concat_map map_concat comp_def)
  from l show "block_indices grid ! (y * unat (dim_x grid) + x) = \<lparr>dim_x = of_nat x, dim_y = of_nat y\<rparr>"
    using assms by (simp add: p product_nth)
qed

lemma block_indices_count: "of_nat (length (block_indices grid)) = dim_count grid"
  by (simp add: block_indices_length dim_count_def mult.commute)

section \<open>Properties\<close>

lemma exit_warp_runs:
  fixes wid lanes ctx
  assumes "lanes \<noteq> 0"
  defines "w \<equiv> new_warp wid lanes ctx"
  defines "w1 \<equiv> (retire lanes w)\<lparr>last_exec := lanes, last_opcode := Exit, wpc := 1\<rparr>"
  shows "scheduler_loop env [exit_instruction] \<lparr>sched_warps = [w], sched_memory = m, sched_stats = st\<rparr> =
    Some (Inr (), \<lparr>sched_warps = [w1], sched_memory = m, sched_stats = count_issue w1 st\<rparr>)"
proof -
  have "\<not> finished w \<and> \<not> parked w" using assms by (simp add: w_def new_warp_def finished_def)
  moreover have "step env block_port [exit_instruction] w m = (Inr Issued, w1, m)"
    using exit_step [of lanes "[exit_instruction]" env block_port wid ctx m] assms(1)
    by (simp add: w_def w1_def)
  moreover have "finished w1" by (simp add: w1_def w_def finished_def retire_def new_warp_def)
  ultimately show ?thesis
    by (subst scheduler_loop.simps) (simp add: scheduler_round_def any_unfinished_def)
qed

definition exit_program :: Program where
  "exit_program = \<lparr>entry_name = ''k'', param_names = [], shared_bytes = 0,
     code_words = [encode_word exit_instruction], label_names = Map.empty\<rparr>"

lemma exit_program_decodes: "decode_program 0 (code_words exit_program) = Inr [exit_instruction]"
  using encode_imp_decode [OF exit_word] by (simp add: exit_program_def exit_instruction_def)

lemma exit_launch_row:
  assumes "n = 1 \<or> n = 2"
  shows "\<exists>st. launch env exit_program \<lparr>dim_x = n, dim_y = 1\<rparr> \<lparr>dim_x = 1, dim_y = 1\<rparr> [] [] = Some (Inr st, [])"
proof -
  define ctx where "ctx x = \<lparr>ntid = \<lparr>dim_x = 1, dim_y = 1\<rparr>, nctaid = \<lparr>dim_x = n, dim_y = 1\<rparr>,
    ctaid = \<lparr>dim_x = x, dim_y = 0\<rparr>, warp_id = 0\<rparr>" for x
  have wc: "warp_count 1 = 1" by (simp add: warp_count_def warp_size_def)
  have "live_lanes 1 0 = 1" by (simp add: live_lanes_def warp_size_def lane_bit_def)
  then have "create_warps (ctx x) 1 = [new_warp 0 1 (ctx x)]" for x
    by (simp add: create_warps_def wc ctx_def)
  then have block: "\<exists>st'. run_block env [exit_instruction] m (ctx x) 1 st = Some (Inr (), m, st')" for m st x
    using exit_warp_runs [of 1 env 0 "ctx x" m] by (simp add: run_block_def)
  have "\<exists>st'. run_blocks env [exit_instruction] 0 \<lparr>dim_x = n, dim_y = 1\<rparr> \<lparr>dim_x = 1, dim_y = 1\<rparr> []
      (List.map (\<lambda>x. \<lparr>dim_x = x, dim_y = 0\<rparr>) xs) [] st = Some (Inr st', [])" for xs st
  proof (induction xs arbitrary: st)
    case (Cons x xs)
    from block [of "block_memory [] 0 []" x st] obtain st' where
      "run_block env [exit_instruction] (block_memory [] 0 []) (ctx x) 1 st = Some (Inr (), block_memory [] 0 [], st')" by blast
    with Cons.IH show ?case by (simp add: ctx_def dim_count_def block_memory_def)
  qed simp
  from this [of "List.map of_nat [0..<unat n]" no_launch_stats] assms exit_program_decodes show ?thesis
    by (auto simp: launch_def block_indices_def dim_count_def exit_program_def comp_def)
qed

lemma exit_launch:
  "\<exists>st. launch env exit_program \<lparr>dim_x = 1, dim_y = 1\<rparr> \<lparr>dim_x = 1, dim_y = 1\<rparr> [] [] = Some (Inr st, [])"
  by (rule exit_launch_row) simp

text \<open>C16: a parked warp executes nothing until the barrier completes: a round either leaves it as it is,
  or releases all warps at once, and then the pass of that round left every unfinished warp
  parked.\<close>

theorem barrier_releases_together:
  assumes "scheduler_round env program s = (Inr False, s')"
    and "i < length (sched_warps s)" and "parked (sched_warps s ! i)"
  shows "sched_warps s' ! i = sched_warps s ! i \<or>
    (sched_warps s' ! i = (sched_warps s ! i)\<lparr>parked := False\<rparr> \<and>
     (\<forall>w \<in> set (sched_warps s'). \<not> parked w) \<and>
     (\<exists>any s1. issue_pass env program False (sched_warps s) (sched_memory s) (sched_stats s) = (Inr any, s1) \<and>
       (\<forall>w \<in> set (sched_warps s1). live w \<noteq> 0 \<longrightarrow> parked w)))"
proof -
  have keep: "sched_warps s1 ! i = sched_warps s ! i \<and> i < length (sched_warps s1)"
    if "issue_pass env program False (sched_warps s) (sched_memory s) (sched_stats s) = (Inr any, s1)" for any s1
    using conjunct1 [OF issue_pass_Inr [OF that]] assms(2,3)
    by (auto simp: list_all2_conv_all_nth visited_def runnable_def split: if_splits)
  from assms(1) show ?thesis
  proof (cases rule: scheduler_round_cases)
    case (release any s1)
    with keep [OF release(1)] show ?thesis by (auto simp: all_parked_def finished_def)
  next
    case continue
    with keep [OF continue(1)] show ?thesis by blast
  qed auto
qed

theorem barrier_releases_together_witness:
  "let w = (new_warp 0 full_mask example_context)\<lparr>parked := True\<rparr>;
       s' = snd (scheduler_round example_fp_env [] \<lparr>sched_warps = [w], sched_memory = block_memory [] 0 [],
              sched_stats = no_launch_stats\<rparr>)
   in sched_warps s' ! 0 = w \<or> sched_warps s' ! 0 = w\<lparr>parked := False\<rparr>"
proof -
  define w where "w = (new_warp 0 full_mask example_context)\<lparr>parked := True\<rparr>"
  define s where "s = \<lparr>sched_warps = [w], sched_memory = block_memory [] 0 [], sched_stats = no_launch_stats\<rparr>"
  obtain s' where round: "scheduler_round example_fp_env [] s = (Inr False, s')"
    by (simp add: scheduler_round_def s_def w_def any_unfinished_def all_parked_def new_warp_def finished_def
        full_mask_def)
  from barrier_releases_together [OF round, of 0] show ?thesis
    unfolding Let_def w_def [symmetric] s_def [symmetric] round snd_conv
    by (auto simp: s_def w_def)
qed

text \<open>When the scheduler of a block returns without a fault, every lane of every warp of the block has
  retired.\<close>

theorem completed_block_retired_all_lanes:
  "scheduler_loop env program s = Some (Inr u, s') \<Longrightarrow> \<forall>w \<in> set (sched_warps s'). live w = 0"
  using scheduler_loop_finished by (fastforce simp: finished_def)

theorem completed_block_retired_all_lanes_witness:
  "\<exists>s'. scheduler_loop example_fp_env [exit_instruction]
      \<lparr>sched_warps = [new_warp 0 full_mask example_context], sched_memory = block_memory [] 0 [],
       sched_stats = no_launch_stats\<rparr> = Some (Inr (), s') \<and> (\<forall>w \<in> set (sched_warps s'). live w = 0)"
proof -
  have "full_mask \<noteq> 0" by (simp add: full_mask_def)
  from exit_warp_runs [OF this, of example_fp_env 0 example_context "block_memory [] 0 []" no_launch_stats]
  show ?thesis using completed_block_retired_all_lanes by blast
qed

text \<open>C15: the counters of a launch that succeeds are consistent: the four instruction classes add up to the
  issued instructions, so does the histogram of executing lanes, and its weighted sum is the sum of
  executing lanes (\<^verbatim>\<open>docs/counters.md\<close>; all on 64-bit words).\<close>

theorem launch_counters_consistent:
  assumes "launch env program grid blk ps g = Some (Inr st, g')"
  shows "instructions_issued st = alu_instructions st + memory_instructions st +
      control_instructions st + barrier_instructions st \<and>
    length (active_lane_histogram st) = 33 \<and>
    sum_list (active_lane_histogram st) = instructions_issued st \<and>
    (\<Sum>k < 33. of_nat k * active_lane_histogram st ! k) = active_lane_sum st"
proof -
  from assms obtain decoded where
    run: "run_blocks env decoded (shared_bytes program) grid blk ps (block_indices grid) g no_launch_stats =
      Some (Inr st, g')"
    by (auto simp: launch_def fail_def split: sum.splits if_splits)
  have "balanced st"
    by (rule run_blocks_stats [OF run, where P = balanced])
       (simp_all add: count_issue_balanced, simp_all add: balanced_def no_launch_stats_def)
  moreover have "histogram_ok no_launch_stats"
    by (simp add: histogram_ok_def no_launch_stats_def histogram_total_def histogram_lanes_def warp_size_def sum_list_replicate)
  then have "histogram_ok st"
    by (intro run_blocks_stats [OF run, where P = histogram_ok])
       (simp_all add: count_issue_histogram, simp_all add: histogram_ok_def)
  ultimately show ?thesis
    by (auto simp: balanced_def histogram_ok_def histogram_total_def histogram_lanes_def)
qed

theorem launch_counters_consistent_witness:
  "\<exists>st. launch example_fp_env exit_program \<lparr>dim_x = 1, dim_y = 1\<rparr> \<lparr>dim_x = 1, dim_y = 1\<rparr> [] [] = Some (Inr st, []) \<and>
    sum_list (active_lane_histogram st) = instructions_issued st"
  using exit_launch [of example_fp_env] launch_counters_consistent by blast

text \<open>C28: a launch that succeeds ran every block of the grid, the blocks of a row before the next row: block
  \<open>(x, y)\<close> is run on the global memory the block before it left, the first on the memory of the launch, and the memory
  after the last is the result; the warps made for it with its own index run until every one of their
  lanes has retired. The statistics report the blocks and the warps and lanes of one block times the
  blocks (on 32-bit words).\<close>

theorem launch_ran_whole_grid:
  assumes "launch env program grid blk ps g = Some (Inr st, g')"
  shows "\<exists>decoded gs. decode_program 0 (code_words program) = Inr decoded \<and>
    length gs = unat (dim_y grid) * unat (dim_x grid) + 1 \<and> gs ! 0 = g \<and> gs ! (unat (dim_y grid) * unat (dim_x grid)) = g' \<and>
    (\<forall>y < unat (dim_y grid). \<forall>x < unat (dim_x grid). \<exists>st0 s. scheduler_loop env decoded
        \<lparr>sched_warps = create_warps \<lparr>ntid = blk, nctaid = grid, ctaid = \<lparr>dim_x = of_nat x, dim_y = of_nat y\<rparr>, warp_id = 0\<rparr>
           (dim_count blk),
         sched_memory = block_memory (gs ! (y * unat (dim_x grid) + x)) (shared_bytes program) ps,
         sched_stats = st0\<rparr> = Some (Inr (), s) \<and>
      global (sched_memory s) = gs ! (y * unat (dim_x grid) + x + 1) \<and> (\<forall>w \<in> set (sched_warps s). live w = 0)) \<and>
    blocks_executed st = dim_x grid * dim_y grid \<and>
    warps_launched st = dim_x grid * dim_y grid * warp_count (dim_x blk * dim_y blk) \<and>
    lanes_launched st = dim_x grid * dim_y grid * (dim_x blk * dim_y blk)"
proof -
  from assms obtain decoded where d: "decode_program 0 (code_words program) = Inr decoded"
    and run: "run_blocks env decoded (shared_bytes program) grid blk ps (block_indices grid) g no_launch_stats =
      Some (Inr st, g')"
    by (auto simp: launch_def fail_def split: sum.splits if_splits)
  from run_blocks_chain [OF run, unfolded block_indices_length] obtain gs where
    gs: "length gs = unat (dim_y grid) * unat (dim_x grid) + 1" "gs ! 0 = g" "gs ! (unat (dim_y grid) * unat (dim_x grid)) = g'"
    and chain: "\<forall>k < unat (dim_y grid) * unat (dim_x grid). \<exists>st0 s. scheduler_loop env decoded
        \<lparr>sched_warps = create_warps \<lparr>ntid = blk, nctaid = grid, ctaid = block_indices grid ! k, warp_id = 0\<rparr> (dim_count blk),
         sched_memory = block_memory (gs ! k) (shared_bytes program) ps, sched_stats = st0\<rparr> = Some (Inr (), s) \<and>
      global (sched_memory s) = gs ! (k + 1) \<and> (\<forall>w \<in> set (sched_warps s). live w = 0)" by blast
  note nth = block_indices_nth [of _ grid, unfolded block_indices_length]
  from d gs chain nth run_blocks_launched [OF run] show ?thesis
    by (intro exI [of _ decoded] exI [of _ gs])
      (auto simp: block_indices_count no_launch_stats_def dim_count_def [of grid] dim_count_def [of blk, symmetric]
        simp flip: nth(2))
qed

text \<open>The kernel that only exits, on a grid of two blocks: the second block is \<open>(1, 0)\<close>.\<close>

theorem launch_ran_whole_grid_witness:
  "\<exists>st gs st0 s. launch example_fp_env exit_program \<lparr>dim_x = 2, dim_y = 1\<rparr> \<lparr>dim_x = 1, dim_y = 1\<rparr> [] [] = Some (Inr st, []) \<and>
    scheduler_loop example_fp_env [exit_instruction]
      \<lparr>sched_warps = create_warps \<lparr>ntid = \<lparr>dim_x = 1, dim_y = 1\<rparr>, nctaid = \<lparr>dim_x = 2, dim_y = 1\<rparr>,
         ctaid = \<lparr>dim_x = 1, dim_y = 0\<rparr>, warp_id = 0\<rparr> 1,
       sched_memory = block_memory (gs ! 1) 0 [], sched_stats = st0\<rparr> = Some (Inr (), s) \<and>
    gs ! 0 = [] \<and> gs ! 2 = [] \<and> blocks_executed st = 2 \<and> warps_launched st = 2"
proof -
  obtain st where run: "launch example_fp_env exit_program \<lparr>dim_x = 2, dim_y = 1\<rparr> \<lparr>dim_x = 1, dim_y = 1\<rparr> [] [] = Some (Inr st, [])"
    using exit_launch_row [of 2 example_fp_env] by auto
  note result = launch_ran_whole_grid [OF run, unfolded Dim2.select_convs]
  obtain decoded gs where d: "decode_program 0 (code_words exit_program) = Inr decoded"
    and gs: "gs ! 0 = []" "gs ! (unat (1 :: u32) * unat (2 :: u32)) = []"
    and chain: "\<forall>y < unat (1 :: u32). \<forall>x < unat (2 :: u32). \<exists>st0 s. scheduler_loop example_fp_env decoded
        \<lparr>sched_warps = create_warps \<lparr>ntid = \<lparr>dim_x = 1, dim_y = 1\<rparr>, nctaid = \<lparr>dim_x = 2, dim_y = 1\<rparr>,
           ctaid = \<lparr>dim_x = of_nat x, dim_y = of_nat y\<rparr>, warp_id = 0\<rparr> (dim_count \<lparr>dim_x = 1, dim_y = 1\<rparr>),
         sched_memory = block_memory (gs ! (y * unat (2 :: u32) + x)) (shared_bytes exit_program) [],
         sched_stats = st0\<rparr> = Some (Inr (), s) \<and>
      global (sched_memory s) = gs ! (y * unat (2 :: u32) + x + 1) \<and> (\<forall>w \<in> set (sched_warps s). live w = 0)"
    and st: "blocks_executed st = 2 * 1" "warps_launched st = 2 * 1 * warp_count (1 * 1)"
    using result by (elim exE conjE) (rule that)
  from d have "decoded = [exit_instruction]" by (simp add: exit_program_decodes)
  with chain [rule_format, of 0 1] obtain st0 s where
    "scheduler_loop example_fp_env [exit_instruction]
      \<lparr>sched_warps = create_warps \<lparr>ntid = \<lparr>dim_x = 1, dim_y = 1\<rparr>, nctaid = \<lparr>dim_x = 2, dim_y = 1\<rparr>,
         ctaid = \<lparr>dim_x = 1, dim_y = 0\<rparr>, warp_id = 0\<rparr> 1,
       sched_memory = block_memory (gs ! 1) 0 [], sched_stats = st0\<rparr> = Some (Inr (), s)"
    by (auto simp: exit_program_def dim_count_def)
  with run gs st show ?thesis by (auto simp: warp_count_def warp_size_def)
qed

end
