(* ===== verification/Launch_Facts.thy ===== *)
theory Launch_Facts
  imports Scheduler_Facts
begin

text \<open>
  Whole launches: which faults a launch can report, and termination of the scheduler for
  programs whose branches all go forward, whatever the memory accesses, the barriers and the
  divergence of the warps are.
\<close>

section \<open>The faults of a launch\<close>

definition access_messages :: "string set" where
  "access_messages =
    {''misaligned 32-bit access'', ''access out of bounds'', ''parameter ordinal out of range''}"

lemma check_message: "check a lane bytes = Inl e \<Longrightarrow> access_message e \<in> access_messages"
  by (auto simp: check_def access_messages_def fail_def split: if_splits)

lemma block_load_message:
  "fst (block_load space a lane m) = Inl e \<Longrightarrow> access_message e \<in> access_messages"
  by (cases space) (auto simp: load32_def fail_def access_messages_def split: if_splits sum.splits
      dest: check_message [unfolded access_messages_def])

lemma block_store_message:
  "fst (block_store space a v lane m) = Inl e \<Longrightarrow> space \<noteq> Param \<Longrightarrow> access_message e \<in> access_messages"
  by (cases space) (auto simp: fst_block_store simp del: block_store.simps dest: check_message)

lemma access_lanes_message:
  assumes "access_lanes block_port i exec addresses lanes w m = (Inl f, w', m')"
  shows "fault_message f \<in> access_messages"
  using assms
proof (induction lanes arbitrary: w m)
  case Nil
  then show ?case by simp
next
  case (Cons lane lanes)
  have store: "block_store (memory_space (opcode i)) a v lane m = (Inl e, m1) \<Longrightarrow>
      is_store_opcode (opcode i) \<Longrightarrow> access_message e \<in> access_messages" for a v e m1
    using block_store_message store_space by (metis fst_conv)
  have load: "block_load (memory_space (opcode i)) a lane m = (Inl e, m1) \<Longrightarrow>
      access_message e \<in> access_messages" for a e m1
    using block_load_message by (metis fst_conv)
  show ?case
    using Cons.prems
    by (auto simp: block_port_def make_fault_def fail_def split: if_splits prod.splits sum.splits
        dest: store load intro: Cons.IH [unfolded block_port_def])
qed

lemma step_message:
  assumes "step env block_port program w m = (Inl f, w', m')"
  shows "fault_message f \<in> insert ''bar.sync executed in divergent code'' access_messages"
proof -
  have "fault_message f \<in> insert ''bar.sync executed in divergent code'' access_messages"
    if "issue env block_port i v m = (Inl f, w', m')" for i v
    using that
    by (auto simp: issue_def Let_def fail_def memory_access_def make_fault_def
        split: if_splits prod.splits sum.splits dest: access_lanes_message)
  then show ?thesis using assms by (auto simp: step_def split: prod.splits if_splits)
qed

lemma issue_pass_message:
  assumes "issue_pass env program any warps m st = (Inl f, s)"
  shows "fault_message f \<in> insert ''bar.sync executed in divergent code'' access_messages"
  using assms
proof (induction warps arbitrary: any m st s)
  case Nil
  then show ?case by simp
next
  case (Cons w warps)
  show ?case
  proof (cases "finished w \<or> parked w")
    case True
    with Cons show ?thesis by (auto simp: Let_def split: prod.splits)
  next
    case False
    obtain r w1 m1 where st: "step env block_port program w m = (r, w1, m1)" by (cases rule: prod_cases3)
    show ?thesis
    proof (cases r)
      case (Inl e)
      with False st Cons.prems have "f = e" by (auto simp: fail_def)
      with step_message [OF st [unfolded Inl]] show ?thesis by simp
    next
      case (Inr oc)
      with False st Cons show ?thesis by (auto simp: Let_def split: prod.splits)
    qed
  qed
qed

lemma scheduler_loop_message:
  assumes "scheduler_loop env program s = Some (Inl f, s')"
  shows "fault_message f \<in> insert ''bar.sync executed in divergent code'' access_messages"
proof -
  let ?Q = "\<lambda>r :: (unit, Fault) result. \<forall>f. r = Inl f \<longrightarrow>
    fault_message f \<in> insert ''bar.sync executed in divergent code'' access_messages"
  have "?Q (Inl f)"
    by (rule scheduler_loop_invariant [OF assms, where P = "\<lambda>_. True" and Q = "\<lambda>r _. ?Q r"])
       (auto elim!: scheduler_round_cases dest: issue_pass_message)
  then show ?thesis by blast
qed

lemma run_blocks_message:
  assumes "run_blocks env program sh grid blk ps bs g st = Some (Inl f, g')"
  shows "fault_message f \<in> insert ''bar.sync executed in divergent code'' access_messages"
  using assms
proof (induction bs arbitrary: g st)
  case Nil
  then show ?case by simp
next
  case (Cons b bs)
  define br where "br = run_block env program (block_memory g sh ps)
      \<lparr>ntid = blk, nctaid = grid, ctaid = b, warp_id = 0\<rparr> (dim_count blk) st"
  show ?case
  proof (cases "\<exists>e m st1. br = Some (Inl e, m, st1)")
    case True
    then obtain e m st1 where br: "br = Some (Inl e, m, st1)" by blast
    with Cons.prems have "f = e" by (simp add: br_def fail_def)
    with br scheduler_loop_message show ?thesis
      unfolding br_def run_block_def Let_def by (auto simp: fail_def split: option.splits prod.splits sum.splits)
  next
    case False
    with Cons show ?thesis by (auto simp flip: br_def split: option.splits prod.splits sum.splits)
  qed
qed

section \<open>Forward programs terminate\<close>

definition forward_only :: "Instruction list \<Rightarrow> bool" where
  "forward_only program \<longleftrightarrow>
    (\<forall>k < length program. opcode (program ! k) = Bra \<longrightarrow> k < unat (branch_target (program ! k)))"

definition lane_weight :: "nat \<Rightarrow> LaneState \<Rightarrow> nat" where
  "lane_weight n L = (case lane_pc L of None \<Rightarrow> 0 | Some pc \<Rightarrow> n - unat pc)"

definition warp_weight :: "nat \<Rightarrow> Warp \<Rightarrow> nat" where
  "warp_weight n w = (\<Sum>l < 32. lane_weight n (lane_of n w l)) + (if live w = 0 then 0 else 1)"

lemma warp_weight_parked [simp]: "warp_weight n (w\<lparr>parked := b\<rparr>) = warp_weight n w"
  by (simp add: warp_weight_def lane_of_def)

lemma lane_step_weight:
  assumes "forward_only program" "length program \<le> 65535"
    and "lane_pc L = Some pc" "unat pc < length program"
  shows "lane_weight (length program) (lane_step env ld program ctx l L) < lane_weight (length program) L"
proof -
  define i where "i = program ! unat pc"
  have "unat (pc + 1) = unat pc + 1"
    using assms by (subst unat_add_lem [THEN iffD1]) simp_all
  moreover have "opcode i = Bra \<Longrightarrow> unat pc < unat (branch_target i)"
    using assms by (simp add: forward_only_def i_def)
  ultimately have gt: "lane_next i b pc = Some pc' \<Longrightarrow> unat pc < unat pc'" for b pc'
    by (auto simp: lane_next_def split: if_splits)
  have "lane_weight (length program)
      \<lparr>lane_pc = in_program (length program) (lane_next i b pc), lane_cells = c\<rparr> < length program - unat pc" for b c
    using assms(4) by (cases "lane_next i b pc") (auto simp: lane_weight_def dest: gt intro: diff_less_mono2)
  with assms(3) show ?thesis by (simp add: lane_step_def i_def [symmetric] Let_def lane_weight_def)
qed

lemma step_weight:
  assumes f: "forward_only program" "length program \<le> 65535"
    and inv: "warp_inv w" and run: "step env block_port program w m = (Inr oc, w', m')"
    and live: "live w \<noteq> 0"
  shows "warp_weight (length program) w' < warp_weight (length program) w"
proof (cases "oc = Finished")
  case True
  with run have fin: "step env block_port program w m = (Inr Finished, w', m')" by simp
  have "(\<Sum>l < 32. lane_weight (length program) (lane_of (length program) w' l)) =
      (\<Sum>l < 32. lane_weight (length program) (lane_of (length program) w l))"
    using block.step_Finished(3) [OF inv fin] by simp
  with block.step_Finished(2) [OF inv fin] live show ?thesis by (simp add: warp_weight_def)
next
  case False
  define n where "n = length program"
  define ws where "ws = snd (settle n w)"
  have more: "fst (settle n w)"
    using run False by (auto simp: step_def n_def split: prod.splits if_splits)
  note settled = settle_True [OF more]
  have lane: "lane_of n w' l = (if has_lane (active ws) l
      then lane_step env (loader block_port m) program (lane_ctx w) l (lane_of n w l)
      else lane_of n w l)" if "l < 32" for l
    using block.step_lanes [OF inv run False that] by (simp add: n_def ws_def)
  have at_pc: "lane_pc (lane_of n w l) = Some (wpc ws)" if "l < 32" "has_lane (active ws) l" for l
    using that settled_lane_pc [OF inv more] by (simp add: ws_def)
  have less: "lane_weight n (lane_of n w' l) < lane_weight n (lane_of n w l)"
    if "l < 32" "has_lane (active ws) l" for l
    using lane [OF that(1)] that lane_step_weight [OF f at_pc [OF that, unfolded n_def]] settled
    by (simp add: n_def ws_def)
  obtain l0 where l0: "l0 < 32" "has_lane (active ws) l0"
  proof -
    have "active ws \<noteq> 0" using settled by (simp add: ws_def)
    then obtain l where "l \<in> lanes_of (active ws)" using lanes_of_empty_iff by blast
    then show thesis using that [of l] by (simp add: lanes_of_def warp_size_def)
  qed
  have "(\<Sum>l < 32. lane_weight n (lane_of n w' l)) < (\<Sum>l < 32. lane_weight n (lane_of n w l))"
  proof (rule sum_strict_mono_ex1)
    show "\<forall>l \<in> {..<32}. lane_weight n (lane_of n w' l) \<le> lane_weight n (lane_of n w l)"
      using less lane by (metis lessThan_iff less_imp_le order_refl)
    show "\<exists>l \<in> {..<32}. lane_weight n (lane_of n w' l) < lane_weight n (lane_of n w l)"
      using less [OF l0] l0(1) by blast
  qed simp
  with live show ?thesis by (simp add: warp_weight_def n_def)
qed

definition block_weight :: "nat \<Rightarrow> Warp list \<Rightarrow> nat" where
  "block_weight n warps = sum_list (List.map (warp_weight n) warps)"

lemma block_weight_visited:
  assumes f: "forward_only program" "length program \<le> 65535"
    and "list_all2 (visited env program) ws ws'" "\<forall>w \<in> set ws. warp_inv w"
  shows "block_weight (length program) ws' \<le> block_weight (length program) ws \<and>
    ((\<exists>w \<in> set ws. runnable w) \<longrightarrow> block_weight (length program) ws' < block_weight (length program) ws)"
  using assms(3,4)
proof (induction rule: list_all2_induct)
  case Nil
  then show ?case by simp
next
  case (Cons w ws w' ws')
  have w: "if runnable w then warp_weight (length program) w' < warp_weight (length program) w else w' = w"
    using Cons.hyps(1) Cons.prems step_weight [OF f]
    by (auto simp: visited_def runnable_def finished_def split: if_splits)
  with Cons.IH Cons.prems show ?case
    by (auto simp: block_weight_def split: if_splits)
qed

definition scheduler_ok :: "Scheduler \<Rightarrow> bool" where
  "scheduler_ok s \<longleftrightarrow>
    (\<forall>w \<in> set (sched_warps s). warp_inv w) \<and>
    ((\<exists>w \<in> set (sched_warps s). runnable w) \<or> (\<forall>w \<in> set (sched_warps s). finished w))"

lemma scheduler_round_ok:
  assumes ok: "scheduler_ok s" and round: "scheduler_round env program s = (Inr False, s')"
  shows "scheduler_ok s'" "\<exists>w \<in> set (sched_warps s). runnable w"
proof -
  have inv: "\<forall>w \<in> set (sched_warps s'). warp_inv w"
    by (rule scheduler_round_warps [OF round]) (use ok in \<open>auto simp: scheduler_ok_def intro: block.step_inv'\<close>)
  have active: "\<exists>w \<in> set (sched_warps s). runnable w"
    if pass: "issue_pass env program False (sched_warps s) (sched_memory s) (sched_stats s) = (Inr any, s1)"
      and "any_unfinished (sched_warps s1)" for any s1
  proof (rule ccontr)
    assume none: "\<not> (\<exists>w \<in> set (sched_warps s). runnable w)"
    with ok have fin: "\<forall>w \<in> set (sched_warps s). finished w" by (auto simp: scheduler_ok_def)
    from that(2) obtain w' where w': "w' \<in> set (sched_warps s1)" "\<not> finished w'"
      by (auto simp: any_unfinished_def)
    from list_all2_ex [OF conjunct1 [OF issue_pass_Inr [OF pass]] w'(1)] obtain w where
      w: "w \<in> set (sched_warps s)" "visited env program w w'" by blast
    with fin none have "w' = w" by (auto simp: visited_def)
    with fin w(1) w'(2) show False by blast
  qed
  have "scheduler_ok s' \<and> (\<exists>w \<in> set (sched_warps s). runnable w)"
    using round
  proof (cases rule: scheduler_round_cases)
    case (release any s1)
    then have "\<exists>w \<in> set (sched_warps s'). runnable w"
      by (auto simp: any_unfinished_def runnable_def finished_def)
    with active [OF release(1,2)] inv show ?thesis by (simp add: scheduler_ok_def)
  next
    case continue
    then have "\<exists>w \<in> set (sched_warps s'). runnable w" by (auto simp: all_parked_def runnable_def)
    with active [OF continue(1,2)] inv show ?thesis by (simp add: scheduler_ok_def)
  qed auto
  then show "scheduler_ok s'" "\<exists>w \<in> set (sched_warps s). runnable w" by simp_all
qed

lemma scheduler_round_weight:
  assumes f: "forward_only program" "length program \<le> 65535"
    and ok: "scheduler_ok s" and round: "scheduler_round env program s = (Inr False, s')"
  shows "scheduler_ok s' \<and>
    block_weight (length program) (sched_warps s') < block_weight (length program) (sched_warps s)"
proof -
  have inv: "\<forall>w \<in> set (sched_warps s). warp_inv w" using ok by (simp add: scheduler_ok_def)
  note ok' = scheduler_round_ok [OF ok round]
  have weight: "block_weight (length program) (sched_warps s1) < block_weight (length program) (sched_warps s)"
    if "issue_pass env program False (sched_warps s) (sched_memory s) (sched_stats s) = (Inr any, s1)" for any s1
    using block_weight_visited [OF f conjunct1 [OF issue_pass_Inr [OF that]] inv] ok'(2) by blast
  from round show ?thesis
  proof (cases rule: scheduler_round_cases)
    case (release any s1)
    then have "block_weight (length program) (sched_warps s') = block_weight (length program) (sched_warps s1)"
      by (simp add: block_weight_def comp_def)
    with weight [OF release(1)] ok'(1) show ?thesis by simp
  next
    case continue
    with weight [OF continue(1)] ok'(1) show ?thesis by simp
  qed auto
qed

lemma scheduler_loop_terminates:
  assumes f: "forward_only program" "length program \<le> 65535" and "scheduler_ok s"
  shows "scheduler_loop env program s \<noteq> None"
  using assms(3)
proof (induction "block_weight (length program) (sched_warps s)" arbitrary: s rule: less_induct)
  case less
  obtain r s1 where round: "scheduler_round env program s = (r, s1)" by fastforce
  show ?case
  proof (cases r)
    case (Inl e)
    with round show ?thesis by (subst scheduler_loop.simps) simp
  next
    case (Inr is_done)
    show ?thesis
    proof (cases is_done)
      case True
      with round Inr show ?thesis by (subst scheduler_loop.simps) simp
    next
      case False
      with round Inr have "scheduler_round env program s = (Inr False, s1)" by simp
      from scheduler_round_weight [OF f less.prems this] less.hyps
      have "scheduler_loop env program s1 \<noteq> None" by blast
      with round Inr False show ?thesis by (subst scheduler_loop.simps) simp
    qed
  qed
qed

lemma create_warps_ok:
  "scheduler_ok \<lparr>sched_warps = create_warps ctx lanes, sched_memory = m, sched_stats = st\<rparr>"
proof -
  have "\<exists>wid lns c. w = new_warp wid lns c" if "w \<in> set (create_warps ctx lanes)" for w
    using that by (auto simp: create_warps_def Let_def)
  moreover have "\<not> parked (new_warp wid lns c)" for wid lns c by (simp add: new_warp_def)
  ultimately have "\<forall>w \<in> set (create_warps ctx lanes). warp_inv w \<and> \<not> parked w"
    using new_warp_inv by metis
  then show ?thesis by (auto simp: scheduler_ok_def runnable_def)
qed

lemma run_blocks_terminates:
  assumes "forward_only program" "length program \<le> 65535"
  shows "run_blocks env program sh grid blk ps bs g st \<noteq> None"
proof (induction bs arbitrary: g st)
  case (Cons b bs)
  have "run_block env program m ctx lanes st \<noteq> None" for m ctx lanes
    using scheduler_loop_terminates [OF assms create_warps_ok]
    by (auto simp: run_block_def Let_def split: option.split sum.split prod.split)
  with Cons show ?case by (auto split: option.splits sum.splits prod.splits)
qed simp

lemma decode_program_length: "decode_program pc words = Inr decoded \<Longrightarrow> length decoded = length words"
  by (induction words arbitrary: pc decoded) (auto split: sum.splits)

lemma decode_program_nth:
  "decode_program pc words = Inr decoded \<Longrightarrow> k < length words \<Longrightarrow> decode (words ! k) = Inr (decoded ! k)"
  by (induction words arbitrary: pc decoded k) (auto split: sum.splits simp: nth_Cons' less_Suc_eq_0_disj)

lemma forward_launch:
  assumes "decode_program 0 (code_words p) = Inr decoded" "forward_only decoded" "length (code_words p) \<le> 65535"
  shows "\<exists>r g'. launch env p grid blk ps g = Some (r, g')"
  using run_blocks_terminates [OF assms(2)] decode_program_length [OF assms(1)] assms(1,3)
  by (auto simp: launch_def)

section \<open>Properties\<close>

text \<open>C17: the faults of a launch are the documented ones. The messages are those of a word that does not
  decode, an empty geometry, a barrier in divergent code, and the three refused accesses; a store to
  parameter space and the scheduler's own \<open>no progress\<close> fault never occur.\<close>

theorem launch_fault_messages:
  assumes "launch env program grid blk ps g = Some (Inl f, g')"
  shows "(\<exists>e. fault_message f = ''invalid instruction word: '' @ isa_error_to_string e) \<or>
    fault_message f \<in> {''empty grid or block'', ''bar.sync executed in divergent code'',
      ''misaligned 32-bit access'', ''access out of bounds'', ''parameter ordinal out of range''}"
proof (cases "decode_program 0 (code_words program)")
  case (Inl e)
  have "decode_program pc words = Inl f \<Longrightarrow> \<exists>e. fault_message f = ''invalid instruction word: '' @ isa_error_to_string e"
    for pc words f
    by (induction words arbitrary: pc) (auto simp: fail_def split: sum.splits)
  with assms Inl show ?thesis by (auto simp: launch_def fail_def)
next
  case (Inr decoded)
  show ?thesis
  proof (cases "dim_count blk = 0 \<or> dim_count grid = 0")
    case True
    with assms Inr show ?thesis by (auto simp: launch_def fail_def)
  next
    case False
    with assms Inr have "run_blocks env decoded (shared_bytes program) grid blk ps (block_indices grid) g
        no_launch_stats = Some (Inl f, g')" by (auto simp: launch_def)
    from run_blocks_message [OF this] show ?thesis by (auto simp: access_messages_def)
  qed
qed

theorem launch_fault_messages_witness:
  "\<exists>f. launch example_fp_env exit_program \<lparr>dim_x = 0, dim_y = 1\<rparr> \<lparr>dim_x = 1, dim_y = 1\<rparr> [] [] = Some (Inl f, []) \<and>
    fault_message f \<noteq> ''scheduler made no progress''"
proof -
  obtain f where run: "launch example_fp_env exit_program \<lparr>dim_x = 0, dim_y = 1\<rparr> \<lparr>dim_x = 1, dim_y = 1\<rparr> [] [] = Some (Inl f, [])"
    using exit_program_decodes by (simp add: launch_def dim_count_def fail_def)
  from launch_fault_messages [OF run] have "fault_message f \<noteq> ''scheduler made no progress''" by auto
  with run show ?thesis by blast
qed

text \<open>C13: the launch of a program whose branches all go forward terminates, for every geometry, every
  memory content and every use of barriers and memory: the scheduler never runs forever and never
  waits for a warp that cannot arrive.\<close>

theorem forward_launch_terminates:
  assumes "\<And>decoded. decode_program 0 (code_words program) = Inr decoded \<Longrightarrow> forward_only decoded"
    and "length (code_words program) \<le> 65535"
  shows "\<exists>r g'. launch env program grid blk ps g = Some (r, g')"
proof (cases "decode_program 0 (code_words program)")
  case (Inl f)
  then show ?thesis by (simp add: launch_def)
next
  case (Inr decoded)
  from forward_launch [OF Inr assms(1) [OF Inr] assms(2)] show ?thesis .
qed

theorem forward_launch_terminates_witness:
  "\<exists>r g'. launch example_fp_env exit_program \<lparr>dim_x = 7, dim_y = 3\<rparr> \<lparr>dim_x = 100, dim_y = 2\<rparr> [] [] = Some (r, g')"
proof (rule forward_launch_terminates)
  show "forward_only decoded" if "decode_program 0 (code_words exit_program) = Inr decoded" for decoded
  proof -
    have "decoded = [exit_instruction]" using that exit_program_decodes by simp
    then show ?thesis by (simp add: forward_only_def exit_instruction_def default_instruction_def)
  qed
  show "length (code_words exit_program) \<le> 65535" by (simp add: exit_program_def)
qed

text \<open>A decoding failure stops the launch before any block runs, names the first bad word by its index,
  and leaves the global memory as it was.\<close>

theorem decode_fault_names_word:
  assumes "k < length (code_words program)" and "decode (code_words program ! k) = Inl e"
    and "\<forall>j < k. has_value (decode (code_words program ! j))"
  shows "launch env program grid blk ps g =
    Some (Inl (default_fault\<lparr>fault_message := ''invalid instruction word: '' @ isa_error_to_string e,
      fault_pc := of_nat k\<rparr>), g)"
proof -
  have "decode_program pc words = Inl (default_fault\<lparr>fault_message := ''invalid instruction word: '' @
      isa_error_to_string e, fault_pc := of_nat (pc + k)\<rparr>)"
    if "k < length words" "decode (words ! k) = Inl e" "\<forall>j < k. has_value (decode (words ! j))" for pc words k
    using that
  proof (induction words arbitrary: pc k)
    case Nil
    then show ?case by simp
  next
    case (Cons word words)
    show ?case
    proof (cases k)
      case 0
      with Cons.prems show ?thesis by (simp add: fail_def)
    next
      case (Suc j)
      then have "has_value (decode word)" using Cons.prems(3) by fastforce
      then obtain i where i: "decode word = Inr i" by (cases "decode word") auto
      have "\<forall>n < j. has_value (decode (words ! n))" using Cons.prems(3) Suc by fastforce
      with Cons.IH [of j "Suc pc"] Cons.prems(1,2) Suc i show ?thesis by (simp add: fail_def)
    qed
  qed
  from this [OF assms, of 0] show ?thesis by (simp add: launch_def fail_def)
qed

lemma zero_word_invalid: "decode 0 = Inl InvalidOpcode"
proof -
  have "opcode_number opc \<noteq> 0" for opc by (cases opc) simp_all
  then have "opcode_info_number 0 = None" by (metis opcode_info_number_SomeD not_Some_eq)
  then show ?thesis by (simp add: decode_def Let_def fail_def)
qed

theorem decode_fault_names_word_witness:
  "\<exists>f. launch example_fp_env (exit_program\<lparr>code_words := [encode_word exit_instruction, 0]\<rparr>)
      \<lparr>dim_x = 1, dim_y = 1\<rparr> \<lparr>dim_x = 1, dim_y = 1\<rparr> [] [1, 2] = Some (Inl f, [1, 2]) \<and> fault_pc f = 1"
proof -
  have "decode (encode_word exit_instruction) = Inr exit_instruction"
    using encode_imp_decode [OF exit_word] by (simp add: exit_instruction_def)
  then show ?thesis
    using decode_fault_names_word [of 1 "exit_program\<lparr>code_words := [encode_word exit_instruction, 0]\<rparr>"
        InvalidOpcode example_fp_env "\<lparr>dim_x = 1, dim_y = 1\<rparr>" "\<lparr>dim_x = 1, dim_y = 1\<rparr>" "[]" "[1, 2]"]
      zero_word_invalid by simp
qed

text \<open>C40: the product of the grid dimensions wraps on 32 bits, so a grid of 65536 by 65536 blocks is refused
  as empty.\<close>

theorem large_grid_refused_as_empty:
  assumes "decode_program 0 (code_words program) = Inr decoded"
  shows "launch env program \<lparr>dim_x = 65536, dim_y = 65536\<rparr> blk ps g =
    Some (Inl (default_fault\<lparr>fault_message := ''empty grid or block''\<rparr>), g)"
proof -
  have "dim_count \<lparr>dim_x = 65536, dim_y = 65536\<rparr> = 0" by (simp add: dim_count_def)
  with assms show ?thesis by (simp add: launch_def fail_def)
qed

theorem large_grid_refused_as_empty_witness:
  "launch example_fp_env exit_program \<lparr>dim_x = 65536, dim_y = 65536\<rparr> \<lparr>dim_x = 1, dim_y = 1\<rparr> [] [] =
    Some (Inl (default_fault\<lparr>fault_message := ''empty grid or block''\<rparr>), [])"
  by (rule large_grid_refused_as_empty [OF exit_program_decodes])

text \<open>\<^verbatim>\<open>bar.sync\<close> parks the warp whatever its guard says: a barrier whose guard is
  false on every lane still waits.\<close>

theorem barrier_ignores_guard:
  assumes "opcode i = BarSync" and "active w = live w"
  shows "fst (issue env port i w m) = Inr Barrier \<and> parked (fst (snd (issue env port i w m)))"
  using assms by (simp add: issue_def Let_def)

theorem barrier_ignores_guard_witness:
  "let i = default_instruction\<lparr>opcode := BarSync, guard := \<lparr>present = True, negate = False, gpred = 0\<rparr>\<rparr>;
       w = new_warp 0 full_mask example_context
   in exec_mask i w = 0 \<and> fst (issue example_fp_env block_port i w (block_memory [] 0 [])) = Inr Barrier"
proof -
  let ?i = "default_instruction\<lparr>opcode := BarSync, guard := \<lparr>present = True, negate = False, gpred = 0\<rparr>\<rparr>"
  let ?w = "new_warp 0 full_mask example_context"
  have "guard_mask ?i ?w = 0"
    by (rule mask_eqI) (simp add: guard_mask_lane new_warp_def empty_register_file_def read_pred_def)
  then have "exec_mask ?i ?w = 0" by (simp add: exec_mask_def)
  moreover have "fst (issue example_fp_env block_port ?i ?w (block_memory [] 0 [])) = Inr Barrier"
    using barrier_ignores_guard [of ?i ?w example_fp_env block_port "block_memory [] 0 []"]
    by (simp add: new_warp_def)
  ultimately show ?thesis by (simp add: Let_def)
qed

end
