(* ===== verification/Timing.thy ===== *)
theory Timing
  imports Scheduler_Facts
begin

text \<open>
  \<^verbatim>\<open>include/warpsim/instr/timing.hpp\<close> and \<^verbatim>\<open>src/instr/timing.cpp\<close>: the
  ordinal cost model composed from the counters of a launch. All arithmetic is on 64-bit words.
\<close>

record CostModel =
  issue_slot :: u64
  global_segment :: u64
  shared_wavefront :: u64

definition default_cost_model :: CostModel where
  "default_cost_model = \<lparr>issue_slot = 1, global_segment = 8, shared_wavefront = 1\<rparr>"

record CostBreakdown =
  cost_issue :: u64
  cost_global :: u64
  cost_shared :: u64
  cost_total :: u64

definition estimate :: "LaunchStats \<Rightarrow> CostModel \<Rightarrow> CostBreakdown" where
  "estimate st model =
    (let ci = instructions_issued st * issue_slot model;
         cg = global_segments (memory_stats st) * global_segment model;
         cs = shared_wavefronts (memory_stats st) * shared_wavefront model
     in \<lparr>cost_issue = ci, cost_global = cg, cost_shared = cs, cost_total = ci + cg + cs\<rparr>)"

text \<open>Below the range of the counters the words are the numbers they stand for.\<close>

lemma unat_word_sum3:
  fixes a b c :: u64
  assumes "unat a + unat b + unat c < 2 ^ 64"
  shows "unat (a + b + c) = unat a + unat b + unat c"
  using assms by (simp add: unat_word_ariths)

lemma unat_word_mult:
  fixes a b :: u64
  assumes "unat a * unat b < 2 ^ 64"
  shows "unat (a * b) = unat a * unat b"
  using assms by (simp add: unat_word_ariths)

lemma default_estimate_total:
  assumes "unat (instructions_issued st) + 8 * unat (global_segments (memory_stats st)) +
      unat (shared_wavefronts (memory_stats st)) < 2 ^ 64"
  shows "unat (cost_total (estimate st default_cost_model)) =
    unat (instructions_issued st) + 8 * unat (global_segments (memory_stats st)) +
      unat (shared_wavefronts (memory_stats st))"
proof -
  have seg: "unat (global_segments (memory_stats st) * 8) = unat (global_segments (memory_stats st)) * 8"
    using assms by (subst unat_word_mult) simp_all
  have "unat (instructions_issued st + global_segments (memory_stats st) * 8 +
      shared_wavefronts (memory_stats st)) = unat (instructions_issued st) +
      unat (global_segments (memory_stats st) * 8) + unat (shared_wavefronts (memory_stats st))"
    using assms by (intro unat_word_sum3) (simp add: seg)
  then show ?thesis by (simp add: estimate_def default_cost_model_def Let_def seg)
qed

section \<open>Properties\<close>

text \<open>Between two launches that issue the same number of instructions and shared passes, the cost
  model ranks the one with fewer global segments lower, and the difference of their totals is eight
  times the difference of the segments. This holds while the totals stay below 2^64.\<close>

theorem ranking_follows_segments:
  assumes "instructions_issued a = instructions_issued b"
    and "shared_wavefronts (memory_stats a) = shared_wavefronts (memory_stats b)"
    and "unat (instructions_issued a) + 8 * unat (global_segments (memory_stats a)) +
      unat (shared_wavefronts (memory_stats a)) < 2 ^ 64"
    and "global_segments (memory_stats b) \<le> global_segments (memory_stats a)"
  shows "unat (cost_total (estimate a default_cost_model)) =
    unat (cost_total (estimate b default_cost_model)) +
      8 * (unat (global_segments (memory_stats a)) - unat (global_segments (memory_stats b)))"
proof -
  have le: "unat (global_segments (memory_stats b)) \<le> unat (global_segments (memory_stats a))"
    using assms(4) by (simp add: word_le_nat_alt)
  with assms(1-3) have "unat (instructions_issued b) + 8 * unat (global_segments (memory_stats b)) +
      unat (shared_wavefronts (memory_stats b)) < 2 ^ 64" by simp
  from default_estimate_total [OF assms(3)] default_estimate_total [OF this] assms(1,2) le
  show ?thesis by simp
qed

theorem ranking_follows_segments_witness:
  "unat (cost_total (estimate (no_launch_stats\<lparr>memory_stats := no_memory_stats\<lparr>global_segments := 32\<rparr>\<rparr>)
      default_cost_model)) =
   unat (cost_total (estimate (no_launch_stats\<lparr>memory_stats := no_memory_stats\<lparr>global_segments := 1\<rparr>\<rparr>)
      default_cost_model)) + 8 * 31"
  by (subst ranking_follows_segments [where b = "no_launch_stats\<lparr>memory_stats := no_memory_stats\<lparr>global_segments := 1\<rparr>\<rparr>"])
     (simp_all add: no_launch_stats_def no_memory_stats_def)

end
