(* ===== verification/Bindings.thy ===== *)
theory Bindings
  imports Assembler_Facts Disassembler Launch_Facts Timing
begin

text \<open>
  \<^verbatim>\<open>python/bindings/module.cpp\<close>: what the Python module adds to the library. The wrappers
  turn error values into exceptions, the statistics of a launch into a dictionary, and copy NumPy
  arrays in and out of the global memory after a bounds check on 64-bit sizes.

  pybind11 and NumPy are not modelled. An array is the number of its elements, the size of one,
  and its bytes in C order; whether NumPy can allocate an array is the parameter of \<open>py_read\<close>.
  Exceptions are the constructors of one type, with what the translator makes of them.
\<close>

section \<open>Exceptions\<close>

datatype PyError =
    SimFault string Fault
  | AssemblyErrorPy string AssemblyError
  | RuntimeError string
  | OutOfRange string
  | NumpyError

definition sim_fault :: "Fault \<Rightarrow> PyError" where
  "sim_fault f = SimFault (describe f) f"

definition assembly_error_py :: "AssemblyError \<Rightarrow> PyError" where
  "assembly_error_py e =
     AssemblyErrorPy (decimal (unat (error_line e)) @ '':'' @ decimal (unat (error_column e)) @ '': '' @
       error_message e) e"

text \<open>What the registered translator makes of a C++ exception: the Python class, its argument and the
  attributes it sets. The other exceptions are left to the translators of pybind11.\<close>

datatype PyAttr = Text string | Number nat

fun translate :: "PyError \<Rightarrow> (string \<times> string \<times> (string \<times> PyAttr) list) option" where
  "translate (SimFault what f) =
     Some (''SimFault'', what,
       [(''message'', Text (fault_message f)), (''block'', Number (unat (fault_block f))),
        (''warp'', Number (unat (fault_warp f))), (''lane'', Number (unat (fault_lane f))),
        (''pc'', Number (unat (fault_pc f))), (''address'', Number (unat (fault_address f)))])"
| "translate (AssemblyErrorPy what e) =
     Some (''AssemblyError'', what,
       [(''line'', Number (unat (error_line e))), (''column'', Number (unat (error_column e))),
        (''message'', Text (error_message e))])"
| "translate (RuntimeError what) = None"
| "translate (OutOfRange what) = None"
| "translate NumpyError = None"

definition to_dim :: "u32 \<times> u32 \<Rightarrow> Dim2" where
  "to_dim xy = \<lparr>dim_x = fst xy, dim_y = snd xy\<rparr>"

section \<open>The statistics of a launch\<close>

datatype PyValue = PyInt nat | PyList "nat list" | PyDict "(string \<times> nat) list"

definition stats_to_dict :: "LaunchStats \<Rightarrow> (string \<times> PyValue) list" where
  "stats_to_dict s =
     (let cost = estimate s default_cost_model; m = memory_stats s in
      [(''instructions_issued'', PyInt (unat (instructions_issued s))),
       (''alu_instructions'', PyInt (unat (alu_instructions s))),
       (''memory_instructions'', PyInt (unat (memory_instructions s))),
       (''control_instructions'', PyInt (unat (control_instructions s))),
       (''barrier_instructions'', PyInt (unat (barrier_instructions s))),
       (''reconvergence_events'', PyInt (unat (reconvergence_events s))),
       (''active_lane_sum'', PyInt (unat (active_lane_sum s))),
       (''lanes_launched'', PyInt (unat (lanes_launched s))),
       (''active_lane_histogram'', PyList (List.map unat (active_lane_histogram s))),
       (''cost'', PyDict
          [(''issue'', unat (cost_issue cost)), (''global'', unat (cost_global cost)),
           (''shared'', unat (cost_shared cost)), (''total'', unat (cost_total cost))]),
       (''divergent_branches'', PyInt (unat (divergent_branches s))),
       (''barriers_completed'', PyInt (unat (barriers_completed s))),
       (''blocks_executed'', PyInt (unat (blocks_executed s))),
       (''warps_launched'', PyInt (unat (warps_launched s))),
       (''global_loads'', PyInt (unat (global_loads m))),
       (''global_stores'', PyInt (unat (global_stores m))),
       (''global_lane_accesses'', PyInt (unat (global_lane_accesses m))),
       (''global_segments'', PyInt (unat (global_segments m))),
       (''shared_accesses'', PyInt (unat (shared_accesses m))),
       (''shared_lane_accesses'', PyInt (unat (shared_lane_accesses m))),
       (''shared_wavefronts'', PyInt (unat (shared_wavefronts m))),
       (''shared_conflicted_accesses'', PyInt (unat (shared_conflicted_accesses m)))])"

definition cost_weights :: "(string \<times> nat) list" where
  "cost_weights =
     [(''issue_slot'', unat (issue_slot default_cost_model)),
      (''global_segment'', unat (global_segment default_cost_model)),
      (''shared_wavefront'', unat (shared_wavefront default_cost_model))]"

section \<open>Programs\<close>

definition py_program :: "string \<Rightarrow> string list \<Rightarrow> u32 \<Rightarrow> u64 list \<Rightarrow> Program" where
  "py_program entry param_list shared_size words =
     \<lparr>entry_name = entry, param_names = param_list, shared_bytes = shared_size, code_words = words,
      label_names = Map.empty\<rparr>"

text \<open>The read-only attributes of a program, and its length.\<close>

datatype ProgramAttr = Entry string | Params "string list" | SharedBytes nat | Words "nat list" | Labels "u16 \<rightharpoonup> string"

definition program_attributes :: "Program \<Rightarrow> (string \<times> ProgramAttr) list" where
  "program_attributes p =
     [(''entry'', Entry (entry_name p)), (''params'', Params (param_names p)),
      (''shared_bytes'', SharedBytes (unat (shared_bytes p))), (''words'', Words (List.map unat (code_words p))),
      (''labels'', Labels (label_names p))]"

definition program_len :: "Program \<Rightarrow> nat" where
  "program_len p = length (code_words p)"

definition py_disassemble :: "chars_env \<Rightarrow> Program \<Rightarrow> (string, PyError) result option" where
  "py_disassemble env program =
     map_option (\<lambda>r. case r of Inl e \<Rightarrow> fail (RuntimeError (disassembly_message e)) | Inr s \<Rightarrow> Inr s)
       (disassemble env program)"

definition py_assemble :: "chars_env \<Rightarrow> string \<Rightarrow> (Program, PyError) result option" where
  "py_assemble env source =
     map_option (\<lambda>r. case r of Inl e \<Rightarrow> fail (assembly_error_py e) | Inr program \<Rightarrow> Inr program)
       (assemble env source)"

section \<open>The device\<close>

record NumpyArray =
  array_size :: nat
  array_itemsize :: nat
  array_bytes :: "u8 list"

definition array_ok :: "NumpyArray \<Rightarrow> bool" where
  "array_ok a \<longleftrightarrow> length (array_bytes a) = array_size a * array_itemsize a \<and> length (array_bytes a) < 2 ^ 63"

text \<open>The test of both copies, in \<^verbatim>\<open>std::size_t\<close>.\<close>

definition past_the_end :: "u32 \<Rightarrow> nat \<Rightarrow> ByteMemory \<Rightarrow> bool" where
  "past_the_end offset nbytes g \<longleftrightarrow> (unat offset + nbytes) mod 2 ^ 64 > length g"

definition py_write :: "ByteMemory \<Rightarrow> u32 \<Rightarrow> NumpyArray \<Rightarrow> (ByteMemory, PyError) result" where
  "py_write g offset a =
     (let nbytes = (array_size a * array_itemsize a) mod 2 ^ 64; at = unat offset in
      if past_the_end offset nbytes g then fail (OutOfRange ''write past the end of global memory'')
      else Inr (take at g @ take nbytes (array_bytes a) @ drop (at + nbytes) g))"

definition py_read ::
    "(nat \<Rightarrow> nat \<Rightarrow> bool) \<Rightarrow> ByteMemory \<Rightarrow> u32 \<Rightarrow> nat \<Rightarrow> nat \<Rightarrow> (NumpyArray, PyError) result" where
  "py_read allocates g offset count itemsize =
     (let nbytes = (count * itemsize) mod 2 ^ 64 in
      if past_the_end offset nbytes g then fail (OutOfRange ''read past the end of global memory'')
      else if \<not> allocates count itemsize then fail NumpyError
      else Inr \<lparr>array_size = count, array_itemsize = itemsize,
                array_bytes = take nbytes (drop (unat offset) g)\<rparr>)"

definition py_launch ::
    "fp_env \<Rightarrow> Program \<Rightarrow> u32 \<times> u32 \<Rightarrow> u32 \<times> u32 \<Rightarrow> u32 list \<Rightarrow> ByteMemory \<Rightarrow>
     (((string \<times> PyValue) list, PyError) result \<times> ByteMemory) option" where
  "py_launch env program grid block ps g =
     map_option (\<lambda>(r, g'). (case r of Inl f \<Rightarrow> fail (sim_fault f) | Inr stats \<Rightarrow> Inr (stats_to_dict stats), g'))
       (launch env program (to_dim grid) (to_dim block) ps g)"

text \<open>The object Python holds owns the memory, and its methods are called one after the other. A call that
  raises keeps the object as the call left it.\<close>

record Device =
  device_global :: ByteMemory

definition new_device :: "nat \<Rightarrow> Device" where
  "new_device n = \<lparr>device_global = byte_memory n\<rparr>"

datatype DeviceCall =
    GlobalBytes
  | DeviceWrite u32 NumpyArray
  | DeviceRead u32 nat nat
  | DeviceLaunch Program "u32 \<times> u32" "u32 \<times> u32" "u32 list"

datatype DeviceReply =
    Nothing
  | Size nat
  | Array NumpyArray
  | Stats "(string \<times> PyValue) list"
  | Raised PyError

fun device_call ::
    "fp_env \<Rightarrow> (nat \<Rightarrow> nat \<Rightarrow> bool) \<Rightarrow> DeviceCall \<Rightarrow> Device \<Rightarrow> (DeviceReply \<times> Device) option" where
  "device_call env allocates GlobalBytes d = Some (Size (length (device_global d)), d)"
| "device_call env allocates (DeviceWrite offset a) d =
     Some (case py_write (device_global d) offset a of
             Inl e \<Rightarrow> (Raised e, d)
           | Inr g \<Rightarrow> (Nothing, d\<lparr>device_global := g\<rparr>))"
| "device_call env allocates (DeviceRead offset count itemsize) d =
     Some (case py_read allocates (device_global d) offset count itemsize of
             Inl e \<Rightarrow> (Raised e, d)
           | Inr a \<Rightarrow> (Array a, d))"
| "device_call env allocates (DeviceLaunch program grid block ps) d =
     map_option (\<lambda>(r, g). (case r of Inl e \<Rightarrow> Raised e | Inr stats \<Rightarrow> Stats stats, d\<lparr>device_global := g\<rparr>))
       (py_launch env program grid block ps (device_global d))"

fun device_calls ::
    "fp_env \<Rightarrow> (nat \<Rightarrow> nat \<Rightarrow> bool) \<Rightarrow> DeviceCall list \<Rightarrow> Device \<Rightarrow> (DeviceReply list \<times> Device) option" where
  "device_calls env allocates [] d = Some ([], d)"
| "device_calls env allocates (c # cs) d =
     (case device_call env allocates c d of
        None \<Rightarrow> None
      | Some (reply, d') \<Rightarrow>
          map_option (\<lambda>(replies, d''). (reply # replies, d'')) (device_calls env allocates cs d'))"

section \<open>Exceptions carry their values\<close>

lemma translate_sim_fault: "translate (sim_fault f) = translate (sim_fault f') \<Longrightarrow> f = f'"
  by (cases f; cases f') (simp add: sim_fault_def word_unat_eq_iff)

section \<open>Copies\<close>

lemma past_the_end_small: "nbytes < 2 ^ 63 \<Longrightarrow> past_the_end offset nbytes g \<longleftrightarrow> length g < unat offset + nbytes"
proof -
  assume "nbytes < 2 ^ 63"
  moreover have "unat offset < 2 ^ 32" using unsigned_less [of offset, where ?'a = nat] by simp
  ultimately show ?thesis by (simp add: past_the_end_def)
qed

lemma py_write_value:
  assumes "array_ok a"
  shows "py_write g offset a =
    (if length g < unat offset + length (array_bytes a) then fail (OutOfRange ''write past the end of global memory'')
     else Inr (take (unat offset) g @ array_bytes a @ drop (unat offset + length (array_bytes a)) g))"
  using assms past_the_end_small [of "length (array_bytes a)" offset g]
  by (simp add: py_write_def array_ok_def Let_def)

lemma py_read_value:
  assumes "count * itemsize < 2 ^ 63"
  shows "py_read allocates g offset count itemsize =
    (if length g < unat offset + count * itemsize then fail (OutOfRange ''read past the end of global memory'')
     else if \<not> allocates count itemsize then fail NumpyError
     else Inr \<lparr>array_size = count, array_itemsize = itemsize,
            array_bytes = take (count * itemsize) (drop (unat offset) g)\<rparr>)"
  using assms past_the_end_small [of "count * itemsize" offset g] by (simp add: py_read_def Let_def)

lemma written:
  assumes "array_ok a" "py_write g offset a = Inr g'"
  shows "unat offset + length (array_bytes a) \<le> length g"
    "g' = take (unat offset) g @ array_bytes a @ drop (unat offset + length (array_bytes a)) g"
  using assms by (auto simp: py_write_value fail_def split: if_splits)

text \<open>The words of an array of 32-bit elements.\<close>

lemma length_words: "length (List.concat (List.map bytes_of_word ws)) = 4 * length ws"
  by (induction ws) simp_all

lemma word_in_words:
  "k < length ws \<Longrightarrow>
     take 4 (drop (4 * k) (List.concat (List.map bytes_of_word ws) @ tail)) = bytes_of_word (ws ! k)"
proof (induction ws arbitrary: k)
  case (Cons w ws)
  have "take 4 (bytes_of_word w @ xs) = bytes_of_word w" "drop (4 * Suc n) (bytes_of_word w @ xs) = drop (4 * n) xs" for n xs
    by simp_all
  with Cons.IH [of "k - 1"] Cons.prems show ?case
    by (cases k) (simp_all only: list.map concat.simps append_assoc nth_Cons_0 nth_Cons_Suc mult_0_right drop_0
        diff_Suc_1 length_Cons Suc_less_eq)
qed simp

section \<open>Assembled programs\<close>

lemma decode_program_all:
  "all_values (List.map decode words) = Some instrs \<Longrightarrow> decode_program pc words = Inr instrs"
  by (induction words arbitrary: pc instrs) (auto split: sum.splits)

lemma well_formed_decodes: "program_wf program \<Longrightarrow> \<exists>decoded. decode_program 0 (code_words program) = Inr decoded"
  using decode_program_all by (auto simp: program_wf_def decoded_ok_def)

section \<open>Properties\<close>

text \<open>C34: an array copied into global memory is read back as it was, from the offset it was written at, and
  no other byte of the memory changes.\<close>

theorem array_round_trip:
  assumes "array_ok a" and "py_write g offset a = Inr g'" and "allocates (array_size a) (array_itemsize a)"
  shows "py_read allocates g' offset (array_size a) (array_itemsize a) = Inr a \<and> length g' = length g \<and>
    take (unat offset) g' = take (unat offset) g \<and>
    drop (unat offset + length (array_bytes a)) g' = drop (unat offset + length (array_bytes a)) g"
proof -
  have len: "length (array_bytes a) = array_size a * array_itemsize a" "array_size a * array_itemsize a < 2 ^ 63"
    using assms(1) by (simp_all add: array_ok_def)
  from written [OF assms(1,2)] have fits: "unat offset + length (array_bytes a) \<le> length g"
    and g': "g' = take (unat offset) g @ array_bytes a @ drop (unat offset + length (array_bytes a)) g" by simp_all
  then have "length g' = length g" by simp
  moreover have "take (unat offset) g' = take (unat offset) g"
    "take (length (array_bytes a)) (drop (unat offset) g') = array_bytes a"
    "drop (unat offset + length (array_bytes a)) g' = drop (unat offset + length (array_bytes a)) g"
    using fits g' by simp_all
  ultimately show ?thesis
    using py_read_value [OF len(2), of allocates g' offset] fits assms(3) len(1) by simp
qed

theorem array_round_trip_witness:
  "py_read (\<lambda>count itemsize. count * itemsize < 2 ^ 63) [0, 0, 1, 2, 3, 4, 0, 0] 2 2 2 =
     Inr \<lparr>array_size = 2, array_itemsize = 2, array_bytes = [1, 2, 3, 4]\<rparr>"
  using array_round_trip [of "\<lparr>array_size = 2, array_itemsize = 2, array_bytes = [1, 2, 3, 4]\<rparr>"
      "[0, 0, 0, 0, 0, 0, 0, 0]" 2 "[0, 0, 1, 2, 3, 4, 0, 0]" "\<lambda>count itemsize. count * itemsize < 2 ^ 63"]
  by (simp add: array_ok_def py_write_def past_the_end_def Let_def)

text \<open>A lane that loads from the place of the \<open>k\<close>-th element of a 32-bit array copied to an aligned offset
  gets that element: the byte order of the copies is that of the loads.\<close>

theorem written_words_load:
  assumes "array_ok a" and "array_bytes a = List.concat (List.map bytes_of_word ws)"
    and "py_write g offset a = Inr g'" and "length g \<le> 2 ^ 32" and "unat offset mod 4 = 0" and "k < length ws"
  shows "load32 (offset + of_nat (4 * k)) lane g' = Inr (ws ! k)"
proof -
  have len: "length (array_bytes a) = 4 * length ws" unfolding assms(2) by (rule length_words)
  from written [OF assms(1,3)] have fits: "unat offset + 4 * length ws \<le> length g"
    and g': "g' = take (unat offset) g @ array_bytes a @ drop (unat offset + 4 * length ws) g" by (simp_all add: len)
  have at: "unat (offset + of_nat (4 * k)) = unat offset + 4 * k"
    using fits assms(4,6) by (simp add: unat_word_ariths unat_of_nat)
  have "length g' = length g" using fits g' len by simp
  then have "check (offset + of_nat (4 * k)) lane g' = Inr ()"
    unfolding check_eq_Inr accessible_def at using fits assms(5,6) by simp
  moreover have "take 4 (drop (unat offset + 4 * k) g') = bytes_of_word (ws ! k)"
  proof -
    have "drop (unat offset + 4 * k) g' = drop (4 * k) (array_bytes a @ drop (unat offset + 4 * length ws) g)"
      using fits g' by simp
    then show ?thesis unfolding assms(2) by (simp only: word_in_words [OF assms(6)])
  qed
  ultimately show ?thesis unfolding load32_def at by simp
qed

theorem written_words_load_witness:
  "load32 8 0 [0, 0, 0, 0, 1, 0, 0, 0, 0, 1, 0, 0] = Inr 256"
proof -
  let ?a = "\<lparr>array_size = 2, array_itemsize = 4, array_bytes = [1, 0, 0, 0, 0, 1, 0, 0]\<rparr>"
  have "array_ok ?a" "array_bytes ?a = List.concat (List.map bytes_of_word [1, 256])"
    by (simp_all add: array_ok_def bytes_of_word_def)
  moreover have "py_write [0, 0, 0, 0, 0, 0, 0, 0, 0, 0, 0, 0] 4 ?a = Inr [0, 0, 0, 0, 1, 0, 0, 0, 0, 1, 0, 0]"
    by (simp add: py_write_def past_the_end_def Let_def)
  ultimately show ?thesis using written_words_load [of ?a "[1, 256]" "[0, 0, 0, 0, 0, 0, 0, 0, 0, 0, 0, 0]" 4 _ 1 0] by simp
qed

text \<open>C20: what can go wrong when an assembled kernel is launched from Python. Whatever the source, the geometry, the
  parameters and the memory, an exception is a simulation fault with one of five messages; in
  particular the words of the assembler always decode.\<close>

theorem assembled_kernel_faults:
  "case py_assemble cenv source of
     Some (Inr program) \<Rightarrow>
       (case py_launch env program grid block ps g of
          Some (Inl e, g') \<Rightarrow> \<exists>f. e = sim_fault f \<and> fault_message f \<in>
            {''empty grid or block'', ''bar.sync executed in divergent code'',
             ''misaligned 32-bit access'', ''access out of bounds'', ''parameter ordinal out of range''}
        | _ \<Rightarrow> True)
   | _ \<Rightarrow> True"
proof -
  have "\<exists>f. e = sim_fault f \<and> fault_message f \<in>
      {''empty grid or block'', ''bar.sync executed in divergent code'',
       ''misaligned 32-bit access'', ''access out of bounds'', ''parameter ordinal out of range''}"
    if a: "py_assemble cenv source = Some (Inr program)" and l: "py_launch env program grid block ps g = Some (Inl e, g')"
    for program e g'
  proof -
    from a have "assemble cenv source = Some (Inr program)"
      by (auto simp: py_assemble_def fail_def split: sum.splits)
    with assemble_well_formed [of cenv source] have "program_wf program" by auto
    then obtain decoded where d: "decode_program 0 (code_words program) = Inr decoded"
      using well_formed_decodes by blast
    from l obtain f where f: "launch env program (to_dim grid) (to_dim block) ps g = Some (Inl f, g')" "e = sim_fault f"
    proof -
      from l obtain r where r: "launch env program (to_dim grid) (to_dim block) ps g = Some (r, g')"
        "(case r of Inl f \<Rightarrow> fail (sim_fault f) | Inr stats \<Rightarrow> Inr (stats_to_dict stats)) = Inl e"
        unfolding py_launch_def by (simp only: map_option_eq_Some) (auto split: prod.splits)
      with that show thesis by (cases r) (simp_all add: fail_def)
    qed
    show ?thesis
    proof (cases "dim_count (to_dim block) = 0 \<or> dim_count (to_dim grid) = 0")
      case True
      with f d show ?thesis by (auto simp: launch_def fail_def)
    next
      case False
      with f(1) d have "run_blocks env decoded (shared_bytes program) (to_dim grid) (to_dim block) ps
          (block_indices (to_dim grid)) g no_launch_stats = Some (Inl f, g')" by (auto simp: launch_def)
      from run_blocks_message [OF this] f(2) show ?thesis by (auto simp: access_messages_def)
    qed
  qed
  then show ?thesis by (auto split: option.splits sum.splits)
qed

end
