(* ===== verification/Grid_Machine.thy ===== *)
theory Grid_Machine
  imports Launch_Facts
begin

text \<open>
  The abstract specification of a launch: the grid as independent scalar threads over one shared
  memory, in the sense of sections 1 and 8 of \<^verbatim>\<open>docs/wisa-spec.md\<close>. A thread has a
  program counter and its own cells; one thread steps at a time, on the memory as it is then; a thread
  that passed a barrier waits until every thread of its block has. There are no warps, no divergence
  stack and no scheduler. The lemmas show that one scheduling step of a warp is a run of its threads,
  lane by lane.
\<close>

section \<open>Threads\<close>

type_synonym Thread = "LaneContext \<times> nat"

abbreviation context_of :: "Thread \<Rightarrow> LaneContext" where "context_of t \<equiv> fst t"
abbreviation lane_number :: "Thread \<Rightarrow> nat" where "lane_number t \<equiv> snd t"
abbreviation block_of :: "Thread \<Rightarrow> Dim2" where "block_of t \<equiv> ctaid (context_of t)"

record GridMemory =
  grid_global :: ByteMemory
  grid_shared :: "Dim2 \<Rightarrow> ByteMemory"

record GridState =
  thread_state :: "Thread \<Rightarrow> LaneState"
  barriers_passed :: "Thread \<Rightarrow> nat"
  steps_taken :: "Thread \<Rightarrow> nat"
  grid_memory :: GridMemory

text \<open>The memory as the threads of one block see it.\<close>

definition block_view :: "u32 list \<Rightarrow> LaneContext \<Rightarrow> GridMemory \<Rightarrow> BlockMemory" where
  "block_view ps ctx M =
    \<lparr>global = grid_global M, shared = grid_shared M (ctaid ctx), params = ps, analyzer = no_memory_stats\<rparr>"

definition with_block :: "LaneContext \<Rightarrow> BlockMemory \<Rightarrow> GridMemory \<Rightarrow> GridMemory" where
  "with_block ctx m M =
    M\<lparr>grid_global := global m, grid_shared := (grid_shared M)(ctaid ctx := shared m)\<rparr>"

text \<open>One access of one thread: the memory it leaves, or the fault.\<close>

definition thread_access ::
    "u32 list \<Rightarrow> Thread \<Rightarrow> Instruction \<Rightarrow> Cells \<Rightarrow> GridMemory \<Rightarrow> (GridMemory, AccessFault) result" where
  "thread_access ps t i cells M =
    (let m = block_view ps (context_of t) M; a = lane_address i cells in
     if is_store_opcode (opcode i) then
       (case block_store (memory_space (opcode i)) a (fst cells (src1 i)) (lane_number t) m of
          (Inl e, _) \<Rightarrow> fail e
        | (Inr _, m') \<Rightarrow> Inr (with_block (context_of t) m' M))
     else
       (case block_load (memory_space (opcode i)) a (lane_number t) m of
          (Inl e, _) \<Rightarrow> fail e
        | (Inr _, _) \<Rightarrow> Inr M))"

definition thread_step ::
    "fp_env \<Rightarrow> Instruction list \<Rightarrow> u32 list \<Rightarrow> Thread \<Rightarrow> LaneState \<Rightarrow> GridMemory \<Rightarrow>
     (LaneState \<times> GridMemory, AccessFault) result" where
  "thread_step env program ps t L M =
    (case lane_pc L of
       None \<Rightarrow> Inr (L, M)
     | Some pc \<Rightarrow>
         let i = program ! unat pc;
             L' = lane_step env (loader block_port (block_view ps (context_of t) M)) program
                    (context_of t) (lane_number t) L
         in if is_memory_opcode (opcode i) \<and> lane_guard i (lane_cells L)
            then (case thread_access ps t i (lane_cells L) M of
                    Inl e \<Rightarrow> fail e
                  | Inr M' \<Rightarrow> Inr (L', M'))
            else Inr (L', M))"

section \<open>The grid\<close>

definition unretired :: "GridState \<Rightarrow> Thread \<Rightarrow> bool" where
  "unretired G t \<longleftrightarrow> lane_pc (thread_state G t) \<noteq> None"

definition stands_at_barrier :: "Instruction list \<Rightarrow> GridState \<Rightarrow> Thread \<Rightarrow> bool" where
  "stands_at_barrier program G t =
    (case lane_pc (thread_state G t) of
       None \<Rightarrow> False
     | Some pc \<Rightarrow> opcode (program ! unat pc) = BarSync)"

definition may_step :: "Thread set \<Rightarrow> GridState \<Rightarrow> Thread \<Rightarrow> bool" where
  "may_step T G t \<longleftrightarrow> unretired G t \<and>
    (\<forall>t' \<in> T. block_of t' = block_of t \<longrightarrow> unretired G t' \<longrightarrow> barriers_passed G t \<le> barriers_passed G t')"

definition advance_thread ::
    "Instruction list \<Rightarrow> Thread \<Rightarrow> LaneState \<Rightarrow> GridMemory \<Rightarrow> GridState \<Rightarrow> GridState" where
  "advance_thread program t L M G =
    \<lparr>thread_state = (thread_state G)(t := L),
     barriers_passed = (barriers_passed G)
       (t := barriers_passed G t + (if stands_at_barrier program G t then 1 else 0)),
     steps_taken = (steps_taken G)(t := Suc (steps_taken G t)),
     grid_memory = M\<rparr>"

inductive grid_run ::
    "fp_env \<Rightarrow> Instruction list \<Rightarrow> u32 list \<Rightarrow> Thread set \<Rightarrow> GridState \<Rightarrow> GridState \<Rightarrow> bool"
  for env program ps T G
where
  start: "grid_run env program ps T G G"
| step: "grid_run env program ps T G G1 \<Longrightarrow> t \<in> T \<Longrightarrow> may_step T G1 t \<Longrightarrow>
    thread_step env program ps t (thread_state G1 t) (grid_memory G1) = Inr (L, M) \<Longrightarrow>
    grid_run env program ps T G (advance_thread program t L M G1)"

lemma grid_run_trans:
  "grid_run env program ps T G1 G2 \<Longrightarrow> grid_run env program ps T G G1 \<Longrightarrow> grid_run env program ps T G G2"
  by (induction rule: grid_run.induct) (auto intro: grid_run.step)

lemma grid_run_steps: "grid_run env program ps T G G' \<Longrightarrow> steps_taken G t \<le> steps_taken G' t"
  by (induction rule: grid_run.induct) (auto simp: advance_thread_def intro: le_SucI)

text \<open>The threads of a launch: the live lanes of the warps of every block.\<close>

definition warp_context :: "Dim2 \<Rightarrow> Dim2 \<Rightarrow> Dim2 \<Rightarrow> nat \<Rightarrow> LaneContext" where
  "warp_context grid blk b k = \<lparr>ntid = blk, nctaid = grid, ctaid = b, warp_id = of_nat k\<rparr>"

definition threads :: "Dim2 \<Rightarrow> Dim2 \<Rightarrow> Thread set" where
  "threads grid blk =
    {(warp_context grid blk b k, l) | b k l. b \<in> set (block_indices grid) \<and>
       k < unat (warp_count (dim_count blk)) \<and> l < warp_size \<and>
       has_lane (live_lanes (dim_count blk) (of_nat k)) l}"

definition start_lane :: "Instruction list \<Rightarrow> LaneState" where
  "start_lane program =
    \<lparr>lane_pc = in_program (length program) (Some 0), lane_cells = (\<lambda>_. 0, \<lambda>_. False)\<rparr>"

definition retired_lane :: LaneState where
  "retired_lane = \<lparr>lane_pc = None, lane_cells = (\<lambda>_. 0, \<lambda>_. False)\<rparr>"

definition grid_start :: "Instruction list \<Rightarrow> Thread set \<Rightarrow> u32 \<Rightarrow> ByteMemory \<Rightarrow> GridState" where
  "grid_start program T sh g =
    \<lparr>thread_state = (\<lambda>t. if t \<in> T then start_lane program else retired_lane),
     barriers_passed = (\<lambda>_. 0), steps_taken = (\<lambda>_. 0),
     grid_memory = \<lparr>grid_global = g, grid_shared = (\<lambda>_. byte_memory (unat sh))\<rparr>\<rparr>"

text \<open>What a launch reports when a thread cannot go on.\<close>

definition thread_fault :: "Thread \<Rightarrow> u16 \<Rightarrow> string \<Rightarrow> nat \<Rightarrow> u32 \<Rightarrow> Fault" where
  "thread_fault t pc message lane address =
    \<lparr>fault_message = message,
     fault_block = dim_y (block_of t) * dim_x (nctaid (context_of t)) + dim_x (block_of t),
     fault_warp = warp_id (context_of t),
     fault_lane = of_nat lane,
     fault_pc = pc,
     fault_address = address\<rparr>"

definition stuck :: "fp_env \<Rightarrow> Instruction list \<Rightarrow> u32 list \<Rightarrow> Thread set \<Rightarrow> GridState \<Rightarrow> Fault \<Rightarrow> bool" where
  "stuck env program ps T G f \<longleftrightarrow> (\<exists>t \<in> T. may_step T G t \<and> (\<exists>pc. lane_pc (thread_state G t) = Some pc \<and>
     ((\<exists>e. thread_step env program ps t (thread_state G t) (grid_memory G) = Inl e \<and>
        f = thread_fault t pc (access_message e) (lane_number t) (lane_address (program ! unat pc) (lane_cells (thread_state G t)))) \<or>
      (stands_at_barrier program G t \<and>
        f = thread_fault t pc ''bar.sync executed in divergent code'' 0 0))))"

section \<open>The memory of the block and the memory of the grid\<close>

definition memory_matches :: "u32 list \<Rightarrow> LaneContext \<Rightarrow> BlockMemory \<Rightarrow> GridMemory \<Rightarrow> bool" where
  "memory_matches ps ctx m M \<longleftrightarrow>
    global m = grid_global M \<and> shared m = grid_shared M (ctaid ctx) \<and> params m = ps"

lemma matches_load:
  "memory_matches ps ctx m M \<Longrightarrow> fst (block_load space a l (block_view ps ctx M)) = fst (block_load space a l m)"
  by (cases space) (simp_all add: memory_matches_def block_view_def)

lemma matches_loader:
  "memory_matches ps ctx m M \<Longrightarrow> loader block_port (block_view ps ctx M) = loader block_port m"
  by (simp add: loader_def block_port_def matches_load fun_eq_iff)

lemma matches_store:
  assumes "memory_matches ps ctx m M" "block_store space a v l m = (r, m')"
  shows "\<exists>m''. block_store space a v l (block_view ps ctx M) = (r, m'') \<and>
    memory_matches ps ctx m' (with_block ctx m'' M)"
  using assms by (cases space) (auto simp: memory_matches_def block_view_def with_block_def split: sum.splits)

lemma with_block_view: "memory_matches ps ctx m M \<Longrightarrow> with_block ctx (block_view ps ctx M) M = M"
  by (simp add: memory_matches_def with_block_def block_view_def)

lemma matches_hook [simp]:
  "memory_matches ps ctx (port_on_warp_access block_port space s addresses exec m) M = memory_matches ps ctx m M"
  by (simp add: memory_matches_def block_port_def on_warp_access_def)

section \<open>Runs that touch one warp\<close>

definition untouched :: "Thread set \<Rightarrow> Dim2 \<Rightarrow> GridState \<Rightarrow> GridState \<Rightarrow> bool" where
  "untouched S b G G' \<longleftrightarrow>
    (\<forall>t. t \<notin> S \<longrightarrow> thread_state G' t = thread_state G t \<and> barriers_passed G' t = barriers_passed G t) \<and>
    (\<forall>b'. b' \<noteq> b \<longrightarrow> grid_shared (grid_memory G') b' = grid_shared (grid_memory G) b')"

definition barrier_floor :: "Thread set \<Rightarrow> Dim2 \<Rightarrow> nat \<Rightarrow> GridState \<Rightarrow> bool" where
  "barrier_floor T b k G \<longleftrightarrow>
    (\<forall>t \<in> T. block_of t = b \<longrightarrow> unretired G t \<longrightarrow> k \<le> barriers_passed G t)"

lemma untouched_refl [simp]: "untouched S b G G"
  by (simp add: untouched_def)

lemma untouched_trans: "untouched S b G G1 \<Longrightarrow> untouched S b G1 G2 \<Longrightarrow> untouched S b G G2"
  by (simp add: untouched_def)

lemma untouched_mono: "untouched S b G G' \<Longrightarrow> S \<subseteq> S' \<Longrightarrow> untouched S' b G G'"
  by (auto simp: untouched_def)

lemma may_step_floor:
  "barrier_floor T (block_of t) k G \<Longrightarrow> barriers_passed G t = k \<Longrightarrow> unretired G t \<Longrightarrow> may_step T G t"
  by (simp add: may_step_def barrier_floor_def)

lemma floor_advance:
  "barrier_floor T b k G \<Longrightarrow> unretired G t \<Longrightarrow> barrier_floor T b k (advance_thread program t L M G)"
  by (auto simp: barrier_floor_def advance_thread_def unretired_def le_Suc_eq)

lemma advance_thread_simps [simp]:
  "thread_state (advance_thread program t L M G) = (thread_state G)(t := L)"
  "grid_memory (advance_thread program t L M G) = M"
  "\<not> stands_at_barrier program G t \<Longrightarrow> barriers_passed (advance_thread program t L M G) = barriers_passed G"
  by (auto simp: advance_thread_def)

lemma untouched_advance:
  "t \<in> S \<Longrightarrow> \<forall>b'. b' \<noteq> b \<longrightarrow> grid_shared M b' = grid_shared (grid_memory G) b' \<Longrightarrow>
    untouched S b G (advance_thread program t L M G)"
  by (auto simp: untouched_def advance_thread_def)

section \<open>A memory instruction of a warp\<close>

text \<open>The state of the threads of a warp that stand at one instruction, before their step.\<close>

definition standing ::
    "Thread set \<Rightarrow> GridState \<Rightarrow> LaneContext \<Rightarrow> nat \<Rightarrow> u16 \<Rightarrow> RegisterFile \<Rightarrow> nat \<Rightarrow> bool" where
  "standing T G ctx k pc rf l \<longleftrightarrow> (ctx, l) \<in> T \<and> barriers_passed G (ctx, l) = k \<and>
    thread_state G (ctx, l) = \<lparr>lane_pc = Some pc, lane_cells = lane_view rf l\<rparr>"

lemma standing_advance:
  "standing T G ctx k pc rf l \<Longrightarrow> l' \<noteq> l \<Longrightarrow> lane_view rf' l = lane_view rf l \<Longrightarrow>
    standing T (advance_thread program (ctx, l') L M G) ctx k pc rf' l"
  by (simp add: standing_def advance_thread_def)

lemma standing_may_step:
  "standing T G ctx k pc rf l \<Longrightarrow> barrier_floor T (ctaid ctx) k G \<Longrightarrow> may_step T G (ctx, l) \<and> unretired G (ctx, l)"
  using may_step_floor [of T "(ctx, l)" k G] by (simp add: standing_def unretired_def)

lemma memory_thread_step:
  assumes "is_memory_opcode (opcode i)" "program ! unat pc = i"
  shows "thread_step env program ps (ctx, l) \<lparr>lane_pc = Some pc, lane_cells = cells\<rparr> M =
    (if lane_guard i cells
     then (case thread_access ps (ctx, l) i cells M of
             Inl e \<Rightarrow> fail e
           | Inr M' \<Rightarrow> Inr (\<lparr>lane_pc = in_program (length program) (Some (pc + 1)),
               lane_cells = lane_effect env (loader block_port (block_view ps ctx M)) ctx l i cells\<rparr>, M'))
     else Inr (\<lparr>lane_pc = in_program (length program) (Some (pc + 1)), lane_cells = cells\<rparr>, M))"
proof -
  have "opcode i \<noteq> Bra" "opcode i \<noteq> Exit" using assms(1) by auto
  with assms show ?thesis
    by (cases "thread_access ps (ctx, l) i cells M")
       (simp_all add: thread_step_def lane_step_def Let_def lane_next_def)
qed

lemma make_fault_registers [simp]:
  "make_fault (w\<lparr>registers := rf\<rparr>) = make_fault w"
  by (simp add: make_fault_def fun_eq_iff)

lemma access_lanes_other:
  assumes "access_lanes port i exec addresses lns w m = (r, w', m')" "l \<notin> set lns"
  shows "lane_view (registers w') l = lane_view (registers w) l"
  using assms
proof (induction lns arbitrary: w m)
  case (Cons lane lns)
  have w1: "l \<notin> set (lane # lns) \<Longrightarrow>
      lane_view (registers (w\<lparr>registers := write_reg lane q v (registers w)\<rparr>)) l = lane_view (registers w) l" for q v
    by simp
  show ?case
    using Cons.prems w1 by (auto split: if_splits prod.splits sum.splits dest!: Cons.IH)
qed simp

text \<open>What the threads of the lanes have done when the loop of the access ends: every issued lane has
  taken its step, or one of them stands there and is refused.\<close>

definition access_outcome ::
    "fp_env \<Rightarrow> Instruction list \<Rightarrow> u32 list \<Rightarrow> Thread set \<Rightarrow> LaneContext \<Rightarrow> nat \<Rightarrow> u16 \<Rightarrow>
     LaneMask \<Rightarrow> Warp \<Rightarrow> nat list \<Rightarrow> (unit, Fault) result \<Rightarrow> Warp \<Rightarrow> GridState \<Rightarrow> bool" where
  "access_outcome env program ps T ctx k pc issued w lns r w' G =
    (case r of
       Inr _ \<Rightarrow> \<forall>l \<in> set lns. has_lane issued l \<longrightarrow> thread_state G (ctx, l) =
         \<lparr>lane_pc = in_program (length program) (Some (pc + 1)), lane_cells = lane_view (registers w') l\<rparr>
     | Inl f \<Rightarrow> \<exists>l \<in> set lns. \<exists>e rf. standing T G ctx k pc rf l \<and>
         thread_step env program ps (ctx, l) (thread_state G (ctx, l)) (grid_memory G) = Inl e \<and>
         f = make_fault w (access_message e) l (lane_address (program ! unat pc) (lane_view rf l)))"

lemma access_outcome_Cons:
  assumes "access_outcome env program ps T ctx k pc issued v lns r w' G" "v = w\<lparr>registers := rf\<rparr>"
    and "has_lane issued l \<Longrightarrow> thread_state G (ctx, l) =
      \<lparr>lane_pc = in_program (length program) (Some (pc + 1)), lane_cells = lane_view (registers w') l\<rparr>"
  shows "access_outcome env program ps T ctx k pc issued w (l # lns) r w' G"
  using assms by (auto simp: access_outcome_def split: sum.splits)

definition lanes_in :: "LaneContext \<Rightarrow> LaneMask \<Rightarrow> nat list \<Rightarrow> Thread set" where
  "lanes_in ctx issued lns = {(ctx, l) | l. l \<in> set lns \<and> has_lane issued l}"

lemma lanes_in_Cons: "lanes_in ctx issued lns \<subseteq> lanes_in ctx issued (l # lns)"
  by (auto simp: lanes_in_def)

text \<open>One iteration of the loop over the lanes, for a lane that was issued: the step of its thread is
  refused and the loop ends, or the thread takes its step and the loop goes on.\<close>

lemma access_one:
  fixes env :: fp_env
  assumes mem: "is_memory_opcode (opcode i)" and i: "program ! unat pc = i"
    and run: "access_lanes block_port i exec addresses (l # lns) w m = (r, w', m')"
    and ex: "has_lane exec l \<longleftrightarrow> lane_guard i (lane_view (registers w) l)"
    and ad: "has_lane exec l \<longrightarrow> addresses l = lane_address i (lane_view (registers w) l)"
    and mm: "memory_matches ps ctx m M"
  obtains (refused) e where "thread_step env program ps (ctx, l) \<lparr>lane_pc = Some pc, lane_cells = lane_view (registers w) l\<rparr> M = Inl e" "m' = m"
      "r = Inl (make_fault w (access_message e) l (lane_address i (lane_view (registers w) l)))"
    | (taken) rf M1 m1 where
      "thread_step env program ps (ctx, l) \<lparr>lane_pc = Some pc, lane_cells = lane_view (registers w) l\<rparr> M =
        Inr (\<lparr>lane_pc = in_program (length program) (Some (pc + 1)), lane_cells = lane_view rf l\<rparr>, M1)"
      "access_lanes block_port i exec addresses lns (w\<lparr>registers := rf\<rparr>) m1 = (r, w', m')"
      "\<And>l'. l' \<noteq> l \<Longrightarrow> lane_view rf l' = lane_view (registers w) l'"
      "memory_matches ps ctx m1 M1" "\<forall>b'. b' \<noteq> ctaid ctx \<longrightarrow> grid_shared M1 b' = grid_shared M b'"
proof -
  define ts where "ts = thread_step env program ps (ctx, l) \<lparr>lane_pc = Some pc, lane_cells = lane_view (registers w) l\<rparr> M"
  let ?a = "addresses l" and ?sp = "memory_space (opcode i)" and ?v = "read_reg (registers w) l (src1 i)"
  note ts = memory_thread_step [OF mem i, of env ps ctx l "lane_view (registers w) l" M, folded ts_def]
  show thesis
  proof (cases "has_lane exec l")
    case False
    then show thesis
      using run ex mm by (intro taken [of "registers w" M m]) (simp_all add: ts flip: ts_def)
  next
    case True
    then have g: "lane_guard i (lane_view (registers w) l)" and a: "lane_address i (lane_view (registers w) l) = ?a"
      using ex ad by simp_all
    have next_lane: "(case q of Inl e \<Rightarrow> r = Inl (make_fault w (access_message e) l ?a) \<and> m' = m
        | Inr w1 \<Rightarrow> access_lanes block_port i exec addresses lns w1 mx = (r, w', m'))"
      if "access_lanes block_port i exec addresses (l # lns) w m =
        (case q of Inl e \<Rightarrow> (fail (make_fault w (access_message e) l ?a), w, mx)
         | Inr w1 \<Rightarrow> access_lanes block_port i exec addresses lns w1 mx)"
        "\<And>e. q = Inl e \<Longrightarrow> mx = m" for q :: "AccessFault + Warp" and mx
      using that run by (cases q) (auto simp: fail_def)
    show thesis
    proof (cases "is_store_opcode (opcode i)")
      case store: True
      obtain q m1 where st: "block_store ?sp ?a ?v l m = (q, m1)" by fastforce
      from matches_store [OF mm st] obtain m2 where
        m2: "block_store ?sp ?a ?v l (block_view ps ctx M) = (q, m2)"
          "memory_matches ps ctx m1 (with_block ctx m2 M)" by blast
      have eff: "lane_effect env ld ctx l i cells = cells" for ld cells
        using mem store by (simp add: lane_effect_def)
      have acc: "thread_access ps (ctx, l) i (lane_view (registers w) l) M =
          (case q of Inl e \<Rightarrow> fail e | Inr _ \<Rightarrow> Inr (with_block ctx m2 M))"
        using store m2(1) a by (simp add: thread_access_def Let_def lane_view_def split: sum.splits)
      have unchanged: "q = Inl e \<Longrightarrow> m1 = m" for e
        using block.store_fault [of ?sp ?a ?v l m e] st by (simp add: block_port_def)
      then have go_on: "(case q of Inl e \<Rightarrow> r = Inl (make_fault w (access_message e) l ?a) \<and> m' = m
        | Inr u \<Rightarrow> access_lanes block_port i exec addresses lns w m1 = (r, w', m'))"
        using next_lane [where q = "map_sum id (\<lambda>_. w) q" and mx = m1] True store st
        by (cases q) (simp_all add: block_port_def)
      show thesis
      proof (cases q)
        case (Inl e)
        then have "ts = Inl e" by (simp add: ts g acc fail_def)
        with Inl go_on a show thesis by (intro refused) (simp_all add: ts_def)
      next
        case (Inr u)
        then have "ts = Inr (\<lparr>lane_pc = in_program (length program) (Some (pc + 1)),
            lane_cells = lane_view (registers w) l\<rparr>, with_block ctx m2 M)"
          by (simp add: ts g acc eff)
        with Inr m2(2) go_on show thesis
          by (intro taken [of "registers w" "with_block ctx m2 M" m1]) (simp_all add: ts_def with_block_def)
      qed
    next
      case load: False
      obtain q where ld: "block_load ?sp ?a l m = (q, m)"
        using block_load_frame [of ?sp ?a l m] by (metis prod.collapse)
      have ld': "block_load ?sp ?a l (block_view ps ctx M) = (q, block_view ps ctx M)"
        using matches_load [OF mm, of ?sp ?a l] ld block_load_frame [of ?sp ?a l "block_view ps ctx M"]
        by (metis fst_conv prod.collapse)
      have acc: "thread_access ps (ctx, l) i (lane_view (registers w) l) M =
          (case q of Inl e \<Rightarrow> fail e | Inr _ \<Rightarrow> Inr M)"
        using load ld' a by (simp add: thread_access_def Let_def split: sum.splits)
      have eff: "lane_effect env (loader block_port (block_view ps ctx M)) ctx l i (lane_view (registers w) l) =
          lane_view (write_reg l (dst i) v (registers w)) l" if "q = Inr v" for v
        using mem load a ld' that
        by (simp add: lane_effect_def loader_def block_port_def lane_load_def) (simp add: lane_view_def)
      have go_on: "(case q of Inl e \<Rightarrow> r = Inl (make_fault w (access_message e) l ?a) \<and> m' = m
        | Inr v \<Rightarrow> access_lanes block_port i exec addresses lns
            (w\<lparr>registers := write_reg l (dst i) v (registers w)\<rparr>) m = (r, w', m'))"
        using next_lane [where q = "map_sum id (\<lambda>v. w\<lparr>registers := write_reg l (dst i) v (registers w)\<rparr>) q" and mx = m] True load ld
        by (cases q) (simp_all add: block_port_def)
      show thesis
      proof (cases q)
        case (Inl e)
        then have "ts = Inl e" by (simp add: ts g acc fail_def)
        with Inl go_on a show thesis by (intro refused) (simp_all add: ts_def)
      next
        case (Inr v)
        then have "ts = Inr (\<lparr>lane_pc = in_program (length program) (Some (pc + 1)),
            lane_cells = lane_view (write_reg l (dst i) v (registers w)) l\<rparr>, M)"
          using eff by (simp add: ts g acc)
        with Inr mm go_on show thesis
          by (intro taken [of "write_reg l (dst i) v (registers w)" M m]) (simp_all add: ts_def)
      qed
    qed
  qed
qed

lemma access_threads:
  assumes mem: "is_memory_opcode (opcode i)" and i: "program ! unat pc = i"
    and run: "access_lanes block_port i exec addresses lns w m = (r, w', m')"
    and dist: "distinct lns"
    and at: "\<forall>l \<in> set lns. has_lane issued l \<longrightarrow> standing T G ctx k pc (registers w) l"
    and ex: "\<forall>l \<in> set lns. has_lane exec l \<longleftrightarrow> has_lane issued l \<and> lane_guard i (lane_view (registers w) l)"
    and ad: "\<forall>l \<in> set lns. has_lane exec l \<longrightarrow> addresses l = lane_address i (lane_view (registers w) l)"
    and flo: "barrier_floor T (ctaid ctx) k G" and mm: "memory_matches ps ctx m (grid_memory G)"
  shows "\<exists>G'. grid_run env program ps T G G' \<and> memory_matches ps ctx m' (grid_memory G') \<and>
    untouched (lanes_in ctx issued lns) (ctaid ctx) G G' \<and>
    barriers_passed G' = barriers_passed G \<and> barrier_floor T (ctaid ctx) k G' \<and>
    access_outcome env program ps T ctx k pc issued w lns r w' G' \<and>
    (has_value r \<longrightarrow> (\<forall>l \<in> set lns. has_lane issued l \<longrightarrow> steps_taken G (ctx, l) < steps_taken G' (ctx, l)))"
    (is "\<exists>G'. ?P lns w G G'")
  using run dist at ex ad flo mm
proof (induction lns arbitrary: w m G)
  case Nil
  then show ?case by (intro exI [of _ G]) (auto intro: grid_run.start simp: access_outcome_def)
next
  case (Cons l lns)
  note prems = Cons.prems
  have l: "l \<notin> set lns" "distinct lns" using prems(2) by simp_all
  show ?case
  proof (cases "has_lane issued l")
    case False
    then have "\<not> has_lane exec l" using prems(4) by simp
    with prems have run1: "access_lanes block_port i exec addresses lns w m = (r, w', m')" by simp
    have "\<exists>G'. ?P lns w G G'"
      by (rule Cons.IH [OF run1 l(2) _ _ _ prems(6,7)]) (use prems(3-5) in auto)
    then obtain G' where G': "?P lns w G G'" by blast
    have "access_outcome env program ps T ctx k pc issued w (l # lns) r w' G'"
      by (rule access_outcome_Cons [where v = w and rf = "registers w"]) (use G' False in simp_all)
    with G' untouched_mono [OF _ lanes_in_Cons] False show ?thesis by (intro exI [of _ G']) auto
  next
    case True
    then have st: "standing T G ctx k pc (registers w) l" using prems(3) by simp
    then have lt: "(ctx, l) \<in> T" and L: "thread_state G (ctx, l) = \<lparr>lane_pc = Some pc, lane_cells = lane_view (registers w) l\<rparr>"
      by (simp_all add: standing_def)
    have may: "may_step T G (ctx, l)" "unretired G (ctx, l)"
      using standing_may_step [OF st prems(6)] by simp_all
    have nb: "\<not> stands_at_barrier program G (ctx, l)"
      using mem i L by (auto simp: stands_at_barrier_def)
    have ex: "has_lane exec l \<longleftrightarrow> lane_guard i (lane_view (registers w) l)"
      and ad: "has_lane exec l \<longrightarrow> addresses l = lane_address i (lane_view (registers w) l)"
      using prems(4,5) True by simp_all
    from mem i prems(1) ex ad prems(7) show ?thesis
    proof (cases rule: access_one [where env = env])
      case (refused e)
      with st i L have "access_outcome env program ps T ctx k pc issued w (l # lns) r w' G"
        by (auto simp: access_outcome_def)
      with refused(2,3) prems(6,7) show ?thesis
        by (intro exI [of _ G] conjI grid_run.start) (simp_all add: refused(3))
    next
      case (taken rf M1 m1)
      define w1 where "w1 = w\<lparr>registers := rf\<rparr>"
      define L1 where "L1 = \<lparr>lane_pc = in_program (length program) (Some (pc + 1)), lane_cells = lane_view rf l\<rparr>"
      define G1 where "G1 = advance_thread program (ctx, l) L1 M1 G"
      have b1: "barriers_passed G1 = barriers_passed G" "grid_memory G1 = M1" "registers w1 = rf"
        using nb by (simp_all add: G1_def w1_def)
      have same: "lane_view rf l' = lane_view (registers w) l'" if "l' \<in> set lns" for l'
        by (rule taken(3)) (use that l(1) in auto)
      have at1: "\<forall>l' \<in> set lns. has_lane issued l' \<longrightarrow> standing T G1 ctx k pc (registers w1) l'"
      proof (intro ballI impI)
        fix l' assume "l' \<in> set lns" "has_lane issued l'"
        then show "standing T G1 ctx k pc (registers w1) l'"
          unfolding G1_def b1(3) using prems(3) same l(1) by (intro standing_advance [of T G ctx k pc "registers w"]) auto
      qed
      have ex1: "\<forall>l' \<in> set lns. has_lane exec l' \<longleftrightarrow> has_lane issued l' \<and> lane_guard i (lane_view (registers w1) l')"
        "\<forall>l' \<in> set lns. has_lane exec l' \<longrightarrow> addresses l' = lane_address i (lane_view (registers w1) l')"
        using prems(4,5) same by (simp_all add: b1)
      have fl1: "barrier_floor T (ctaid ctx) k G1" unfolding G1_def by (rule floor_advance [OF prems(6) may(2)])
      have "\<exists>G'. ?P lns w1 G1 G'"
        by (rule Cons.IH [OF taken(2) [folded w1_def] l(2) at1 ex1 fl1]) (simp add: b1 taken(4))
      then obtain G' where G': "?P lns w1 G1 G'" by blast
      have r1: "grid_run env program ps T G G1"
        unfolding G1_def using taken(1) L by (intro grid_run.step [OF grid_run.start lt may(1)]) (simp add: L1_def)
      have u1: "untouched (lanes_in ctx issued (l # lns)) (ctaid ctx) G G1"
        unfolding G1_def by (rule untouched_advance) (use True taken(5) in \<open>auto simp: lanes_in_def\<close>)
      have "thread_state G' (ctx, l) = L1"
        using G' l(1) by (auto simp: untouched_def lanes_in_def G1_def)
      moreover have "lane_view (registers w') l = lane_view rf l"
        using access_lanes_other [OF taken(2) l(1)] by simp
      ultimately have "access_outcome env program ps T ctx k pc issued w (l # lns) r w' G'"
        using G' by (intro access_outcome_Cons [OF _ w1_def]) (simp_all add: L1_def)
      moreover have "untouched (lanes_in ctx issued (l # lns)) (ctaid ctx) G G'"
        using G' untouched_trans [OF u1 untouched_mono [OF _ lanes_in_Cons]] by blast
      moreover have "\<forall>l' \<in> set (l # lns). has_lane issued l' \<longrightarrow> steps_taken G (ctx, l') < steps_taken G' (ctx, l')"
        if "has_value r"
      proof -
        have "steps_taken G1 (ctx, l) = Suc (steps_taken G (ctx, l))"
          "l' \<in> set lns \<Longrightarrow> steps_taken G1 (ctx, l') = steps_taken G (ctx, l')" for l'
          using l(1) by (auto simp: G1_def advance_thread_def)
        with G' that grid_run_steps [of env program ps T G1 G' "(ctx, l)"] show ?thesis by auto
      qed
      ultimately show ?thesis using G' grid_run_trans [OF _ r1] b1(1) by (intro exI [of _ G']) simp
    qed
  qed
qed

section \<open>Every other instruction of a warp\<close>

lemma sweep_threads:
  assumes i: "program ! unat pc = i" "\<not> is_memory_opcode (opcode i)"
    and "distinct lns" and "\<forall>l \<in> set lns. has_lane issued l \<longrightarrow> standing T G ctx k pc rf l"
    and "barrier_floor T (ctaid ctx) k G" and "grid_memory G = M"
  shows "\<exists>G'. grid_run env program ps T G G' \<and> grid_memory G' = M \<and>
    untouched (lanes_in ctx issued lns) (ctaid ctx) G G' \<and> barrier_floor T (ctaid ctx) k G' \<and>
    (\<forall>l \<in> set lns. has_lane issued l \<longrightarrow>
      thread_state G' (ctx, l) = lane_step env (loader block_port (block_view ps ctx M)) program ctx l
        \<lparr>lane_pc = Some pc, lane_cells = lane_view rf l\<rparr> \<and>
      barriers_passed G' (ctx, l) = (if opcode i = BarSync then Suc k else k) \<and>
      steps_taken G (ctx, l) < steps_taken G' (ctx, l))"
    (is "\<exists>G'. ?P lns G G'")
  using assms(3-)
proof (induction lns arbitrary: G)
  case Nil
  then show ?case by (intro exI [of _ G]) (auto intro: grid_run.start)
next
  case (Cons l lns)
  have l: "l \<notin> set lns" "distinct lns" using Cons.prems(1) by simp_all
  show ?case
  proof (cases "has_lane issued l")
    case False
    have "\<exists>G'. ?P lns G G'" by (rule Cons.IH [OF l(2)]) (use Cons.prems in auto)
    then obtain G' where "?P lns G G'" by blast
    with False untouched_mono [OF _ lanes_in_Cons] show ?thesis by (intro exI [of _ G']) auto
  next
    case True
    then have st: "standing T G ctx k pc rf l" using Cons.prems(2) by simp
    then have lt: "(ctx, l) \<in> T" and L: "thread_state G (ctx, l) = \<lparr>lane_pc = Some pc, lane_cells = lane_view rf l\<rparr>"
      and b: "barriers_passed G (ctx, l) = k" by (simp_all add: standing_def)
    note may = standing_may_step [OF st Cons.prems(3)]
    define L1 where "L1 = lane_step env (loader block_port (block_view ps ctx M)) program ctx l
      \<lparr>lane_pc = Some pc, lane_cells = lane_view rf l\<rparr>"
    define G1 where "G1 = advance_thread program (ctx, l) L1 M G"
    have "thread_step env program ps (ctx, l) (thread_state G (ctx, l)) (grid_memory G) = Inr (L1, M)"
      using i Cons.prems(4) by (simp add: L thread_step_def Let_def L1_def)
    from grid_run.step [OF grid_run.start lt _ this] may have r1: "grid_run env program ps T G G1"
      by (simp add: G1_def)
    have "\<exists>G'. ?P lns G1 G'"
    proof (rule Cons.IH [OF l(2)])
      show "\<forall>l' \<in> set lns. has_lane issued l' \<longrightarrow> standing T G1 ctx k pc rf l'"
        using Cons.prems(2) l(1) by (auto simp: G1_def intro!: standing_advance [of T G ctx k pc rf])
      show "barrier_floor T (ctaid ctx) k G1" unfolding G1_def using Cons.prems(3) may by (auto intro: floor_advance)
    qed (simp add: G1_def)
    then obtain G' where G': "?P lns G1 G'" by blast
    have u1: "untouched (lanes_in ctx issued (l # lns)) (ctaid ctx) G G1"
      unfolding G1_def by (rule untouched_advance) (use True Cons.prems(4) in \<open>auto simp: lanes_in_def\<close>)
    have "barriers_passed G1 (ctx, l) = (if opcode i = BarSync then Suc k else k)"
      using i L b by (simp add: G1_def advance_thread_def stands_at_barrier_def)
    moreover have "thread_state G' (ctx, l) = L1 \<and> barriers_passed G' (ctx, l) = barriers_passed G1 (ctx, l)"
      using G' l(1) by (auto simp: untouched_def lanes_in_def) (auto simp: G1_def)
    moreover have "untouched (lanes_in ctx issued (l # lns)) (ctaid ctx) G G'"
      using G' untouched_trans [OF u1 untouched_mono [OF _ lanes_in_Cons]] by blast
    moreover have "steps_taken G (ctx, l) < steps_taken G' (ctx, l)"
      using G' grid_run_steps [of env program ps T G1 G' "(ctx, l)"] by (simp add: G1_def advance_thread_def)
    moreover have "l' \<in> set lns \<Longrightarrow> steps_taken G (ctx, l') = steps_taken G1 (ctx, l')" for l'
      using l(1) by (auto simp: G1_def advance_thread_def)
    ultimately show ?thesis
      using G' grid_run_trans [OF _ r1] by (intro exI [of _ G']) (simp add: L1_def)
  qed
qed

section \<open>A scheduling step of a warp\<close>

definition warp_threads :: "Instruction list \<Rightarrow> Thread set \<Rightarrow> GridState \<Rightarrow> nat \<Rightarrow> Warp \<Rightarrow> bool" where
  "warp_threads program T G k w \<longleftrightarrow> warp_inv w \<and> state_warp_id w = warp_id (lane_ctx w) \<and>
    (\<forall>l < 32. thread_state G (lane_ctx w, l) = lane_of (length program) w l \<and>
      (unretired G (lane_ctx w, l) \<longrightarrow> (lane_ctx w, l) \<in> T \<and>
        barriers_passed G (lane_ctx w, l) = (if parked w then Suc k else k)))"

definition warp_lanes :: "LaneContext \<Rightarrow> Thread set" where
  "warp_lanes ctx = {(ctx, l) | l. l < 32}"

lemma lanes_in_warp: "lanes_in ctx issued [0..<warp_size] \<subseteq> warp_lanes ctx"
  by (auto simp: lanes_in_def warp_lanes_def warp_size_def)

lemma warp_threads_settle:
  assumes "warp_threads program T G k w"
  shows "warp_threads program T G k (snd (settle (length program) w))"
  using assms by (auto simp: warp_threads_def lane_of_settle intro: inv_intros)

lemma issued_standing:
  assumes w: "warp_threads program T G k w" "\<not> parked w" and pc: "unat (wpc w) < length program"
    and l: "l < 32" "has_lane (active w) l"
  shows "standing T G (lane_ctx w) k (wpc w) (registers w) l"
proof -
  have "thread_state G (lane_ctx w, l) = \<lparr>lane_pc = Some (wpc w), lane_cells = lane_view (registers w) l\<rparr>"
    using w(1) l pc by (simp add: warp_threads_def lane_of_def position_def)
  with w l show ?thesis by (auto simp: warp_threads_def standing_def unretired_def)
qed

lemma issue_keeps_id:
  "issue env port i w m = (r, w', m') \<Longrightarrow> lane_ctx w' = lane_ctx w \<and> state_warp_id w' = state_warp_id w"
  by (auto simp: issue_def branch_def Let_def fail_def frame_simps dest!: memory_access_frame
      split: prod.splits if_splits sum.splits)

lemma stuckI:
  assumes "standing T G ctx k pc rf l" "barrier_floor T (ctaid ctx) k G"
    and "(\<exists>e. thread_step env program ps (ctx, l) (thread_state G (ctx, l)) (grid_memory G) = Inl e \<and>
        f = thread_fault (ctx, l) pc (access_message e) l (lane_address (program ! unat pc) (lane_view rf l))) \<or>
      (opcode (program ! unat pc) = BarSync \<and>
        f = thread_fault (ctx, l) pc ''bar.sync executed in divergent code'' 0 0)"
  shows "stuck env program ps T G f"
proof -
  have "may_step T G (ctx, l)" using standing_may_step [OF assms(1,2)] by simp
  with assms(1,3) show ?thesis
    unfolding stuck_def
    by (intro bexI [of _ "(ctx, l)"]) (auto simp: standing_def stands_at_barrier_def)
qed

lemma make_fault_thread:
  "state_warp_id w = warp_id (lane_ctx w) \<Longrightarrow>
    make_fault w msg lane a = thread_fault (lane_ctx w, l) (wpc w) msg lane a"
  by (simp add: make_fault_def thread_fault_def)

text \<open>The threads of a warp after a step that moved the issued lanes and left the others.\<close>

lemma warp_threads_moved:
  assumes w: "warp_threads program T G k w" "\<not> parked w"
    and w': "warp_inv w'" "lane_ctx w' = lane_ctx w" "state_warp_id w' = state_warp_id w"
    and u: "untouched (lanes_in (lane_ctx w) (active w) [0..<warp_size]) b G G'"
    and moved: "\<And>l. l < 32 \<Longrightarrow> has_lane (active w) l \<Longrightarrow> (lane_ctx w, l) \<in> T \<and>
      thread_state G' (lane_ctx w, l) = lane_of (length program) w' l \<and>
      barriers_passed G' (lane_ctx w, l) = (if parked w' then Suc k else k)"
    and kept: "\<And>l. l < 32 \<Longrightarrow> \<not> has_lane (active w) l \<Longrightarrow> lane_of (length program) w' l = lane_of (length program) w l"
    and idle: "\<And>l. parked w' \<Longrightarrow> l < 32 \<Longrightarrow> \<not> has_lane (active w) l \<Longrightarrow> lane_pc (lane_of (length program) w l) = None"
  shows "warp_threads program T G' k w'"
proof -
  have "thread_state G' (lane_ctx w, l) = lane_of (length program) w' l \<and>
      (unretired G' (lane_ctx w, l) \<longrightarrow> (lane_ctx w, l) \<in> T \<and>
        barriers_passed G' (lane_ctx w, l) = (if parked w' then Suc k else k))" if l: "l < 32" for l
  proof (cases "has_lane (active w) l")
    case True
    with moved [OF l] show ?thesis by simp
  next
    case False
    then have "(lane_ctx w, l) \<notin> lanes_in (lane_ctx w) (active w) [0..<warp_size]" by (simp add: lanes_in_def)
    with u have same: "thread_state G' (lane_ctx w, l) = thread_state G (lane_ctx w, l)"
      "barriers_passed G' (lane_ctx w, l) = barriers_passed G (lane_ctx w, l)" by (simp_all add: untouched_def)
    then show ?thesis
      using w l kept [OF l False] idle [OF _ l False] by (auto simp: warp_threads_def unretired_def)
  qed
  with w w' show ?thesis by (simp add: warp_threads_def)
qed

text \<open>The outcome of a step on the threads: the grid machine has run the threads of the warp and agrees
  with the warp again, or one of the threads cannot go on.\<close>

definition step_outcome ::
    "fp_env \<Rightarrow> Instruction list \<Rightarrow> u32 list \<Rightarrow> Thread set \<Rightarrow> nat \<Rightarrow> LaneContext \<Rightarrow> Thread set \<Rightarrow> BlockMemory \<Rightarrow>
     (StepOutcome, Fault) result \<Rightarrow> Warp \<Rightarrow> GridState \<Rightarrow> GridState \<Rightarrow> bool" where
  "step_outcome env program ps T k ctx S m' r w' G G' \<longleftrightarrow>
    grid_run env program ps T G G' \<and> memory_matches ps ctx m' (grid_memory G') \<and>
    untouched S (ctaid ctx) G G' \<and> barrier_floor T (ctaid ctx) k G' \<and>
    (case r of
       Inr oc \<Rightarrow> warp_threads program T G' k w' \<and> (oc \<noteq> Finished \<longrightarrow> (\<exists>t \<in> S. t \<in> T \<and> steps_taken G t < steps_taken G' t))
     | Inl f \<Rightarrow> stuck env program ps T G' f)"

lemma some_lane:
  assumes "act \<noteq> 0"
  obtains l where "l < 32" "has_lane act l"
  using assms lanes_of_empty_iff [of act] by (auto simp: lanes_of_def warp_size_def)

text \<open>A step that issues moves a thread.\<close>

lemma issue_progress:
  assumes w: "warp_threads program T G k w" "\<not> parked w" and act: "active w \<noteq> 0" and pc: "unat (wpc w) < length program"
    and moved: "\<And>l. l < 32 \<Longrightarrow> has_lane (active w) l \<Longrightarrow> steps_taken G (lane_ctx w, l) < steps_taken G' (lane_ctx w, l)"
  shows "\<exists>t \<in> lanes_in (lane_ctx w) (active w) [0..<warp_size]. t \<in> T \<and> steps_taken G t < steps_taken G' t"
proof -
  from act obtain l where l: "l < 32" "has_lane (active w) l" by (rule some_lane)
  with moved [OF l] issued_standing [OF w pc l] show ?thesis
    by (intro bexI [of _ "(lane_ctx w, l)"]) (simp_all add: standing_def lanes_in_def warp_size_def)
qed

lemma active_standing:
  assumes "warp_threads program T G k w" "\<not> parked w" "unat (wpc w) < length program"
  shows "\<forall>l \<in> set [0..<warp_size]. has_lane (active w) l \<longrightarrow> standing T G (lane_ctx w) k (wpc w) (registers w) l"
  using issued_standing [OF assms] by (simp add: warp_size_def)

lemma issue_moved:
  assumes w: "warp_threads program T G k w" "\<not> parked w"
    and act: "active w \<noteq> 0" and pc: "unat (wpc w) < length program"
    and run: "issue env block_port (program ! unat (wpc w)) w m = (Inr oc, w', m')"
    and u: "untouched (lanes_in (lane_ctx w) (active w) [0..<warp_size]) b G G'"
    and lanes: "\<And>l. l < 32 \<Longrightarrow> has_lane (active w) l \<Longrightarrow>
        thread_state G' (lane_ctx w, l) = lane_of (length program) w' l \<and>
        barriers_passed G' (lane_ctx w, l) = (if parked w' then Suc k else k)"
    and bar: "parked w' \<Longrightarrow> active w = live w"
  shows "warp_threads program T G' k w'"
proof -
  have inv: "warp_inv w" using w by (simp add: warp_threads_def)
  have inv': "warp_inv w'" using issue_inv [OF inv, of env block_port "program ! unat (wpc w)" m] by (simp add: run)
  note ids = issue_keeps_id [OF run]
  show ?thesis
  proof (rule warp_threads_moved [OF w inv' _ _ u])
    fix l assume l: "l < 32" "has_lane (active w) l"
    then show "(lane_ctx w, l) \<in> T \<and> thread_state G' (lane_ctx w, l) = lane_of (length program) w' l \<and>
        barriers_passed G' (lane_ctx w, l) = (if parked w' then Suc k else k)"
      using lanes issued_standing [OF w pc] by (auto simp: standing_def)
  next
    fix l assume l: "l < 32" "\<not> has_lane (active w) l"
    then show "lane_of (length program) w' l = lane_of (length program) w l"
      using block.issue_lanes [OF inv act pc run l(1)] by simp
    show "lane_pc (lane_of (length program) w l) = None" if "parked w'"
      using position_None_iff [OF inv l(1)] bar [OF that] l by (simp add: lane_of_def)
  qed (use ids in simp_all)
qed

lemma issue_memory_threads:
  assumes w: "warp_threads program T G k w" "\<not> parked w"
    and act: "active w \<noteq> 0" and pc: "unat (wpc w) < length program"
    and flo: "barrier_floor T (ctaid (lane_ctx w)) k G" and mm: "memory_matches ps (lane_ctx w) m (grid_memory G)"
    and run: "issue env block_port (program ! unat (wpc w)) w m = (r, w', m')"
    and mem: "is_memory_opcode (opcode (program ! unat (wpc w)))"
  shows "\<exists>G'. step_outcome env program ps T k (lane_ctx w) (lanes_in (lane_ctx w) (active w) [0..<warp_size]) m' r w' G G'"
proof -
  define i where "i = program ! unat (wpc w)"
  define ctx where "ctx = lane_ctx w"
  define exec where "exec = exec_mask i w"
  define w0 where "w0 = w\<lparr>last_exec := exec, last_opcode := opcode i\<rparr>"
  define m1 where "m1 = (if exec \<noteq> 0 then port_on_warp_access block_port (memory_space (opcode i))
      (is_store_opcode (opcode i)) (lane_addresses i exec (registers w)) exec m else m)"
  obtain q w1 where ma: "memory_access block_port i exec w0 m = (q, w1, m')"
    and q: "case q of Inl f \<Rightarrow> r = Inl f | Inr u \<Rightarrow> r = Inr Issued \<and> w' = w1\<lparr>wpc := wpc w1 + 1\<rparr>"
    using run mem
    by (auto simp: issue_def i_def [symmetric] exec_def [symmetric] w0_def [symmetric] Let_def fail_def
        split: if_splits prod.splits sum.splits)
  from memory_access_frame [OF ma] obtain rf where w1: "w1 = w0\<lparr>registers := rf\<rparr>" by blast
  have al: "access_lanes block_port i exec (lane_addresses i exec (registers w)) [0..<warp_size] w0 m1 = (q, w1, m')"
    using ma by (simp add: memory_access_def m1_def Let_def w0_def)
  have "\<exists>G'. grid_run env program ps T G G' \<and> memory_matches ps ctx m' (grid_memory G') \<and>
      untouched (lanes_in ctx (active w) [0..<warp_size]) (ctaid ctx) G G' \<and>
      barriers_passed G' = barriers_passed G \<and> barrier_floor T (ctaid ctx) k G' \<and>
      access_outcome env program ps T ctx k (wpc w) (active w) w0 [0..<warp_size] q w1 G' \<and>
      (has_value q \<longrightarrow> (\<forall>l \<in> set [0..<warp_size]. has_lane (active w) l \<longrightarrow> steps_taken G (ctx, l) < steps_taken G' (ctx, l)))"
  proof (rule access_threads [OF mem [folded i_def] i_def [symmetric] al])
    show "memory_matches ps ctx m1 (grid_memory G)" using mm by (simp add: m1_def ctx_def)
  qed (use active_standing [OF w pc] flo in
      \<open>simp_all add: exec_def exec_mask_guard lane_addresses_eq warp_size_def w0_def ctx_def\<close>)
  then obtain G' where G': "grid_run env program ps T G G'" "memory_matches ps ctx m' (grid_memory G')"
      "untouched (lanes_in ctx (active w) [0..<warp_size]) (ctaid ctx) G G'"
      "barriers_passed G' = barriers_passed G" "barrier_floor T (ctaid ctx) k G'"
      "access_outcome env program ps T ctx k (wpc w) (active w) w0 [0..<warp_size] q w1 G'"
    and moved: "has_value q \<Longrightarrow> \<forall>l \<in> set [0..<warp_size]. has_lane (active w) l \<longrightarrow> steps_taken G (ctx, l) < steps_taken G' (ctx, l)"
    by blast
  let ?S = "lanes_in (lane_ctx w) (active w) [0..<warp_size]"
  have "case r of
      Inr oc \<Rightarrow> warp_threads program T G' k w' \<and> (oc \<noteq> Finished \<longrightarrow> (\<exists>t \<in> ?S. t \<in> T \<and> steps_taken G t < steps_taken G' t))
    | Inl f \<Rightarrow> stuck env program ps T G' f"
  proof (cases q)
    case (Inl f)
    with G'(6) obtain l e rf' where l: "standing T G' ctx k (wpc w) rf' l"
      "thread_step env program ps (ctx, l) (thread_state G' (ctx, l)) (grid_memory G') = Inl e"
      "f = make_fault w0 (access_message e) l (lane_address (program ! unat (wpc w)) (lane_view rf' l))"
      by (auto simp: access_outcome_def)
    have "stuck env program ps T G' f"
      using l(2,3) make_fault_thread [of w0 _ l _ l] w
      by (intro stuckI [OF l(1) G'(5)]) (auto simp: w0_def ctx_def warp_threads_def)
    with q Inl show ?thesis by simp
  next
    case (Inr u)
    with q have r: "r = Inr Issued" and w': "w' = w1\<lparr>wpc := wpc w1 + 1\<rparr>" by simp_all
    have "warp_threads program T G' k w'"
    proof (rule issue_moved [OF w act pc run [unfolded r] G'(3) [unfolded ctx_def]])
      fix l assume l: "l < 32" "has_lane (active w) l"
      then have "thread_state G' (ctx, l) =
          \<lparr>lane_pc = in_program (length program) (Some (wpc w + 1)), lane_cells = lane_view (registers w1) l\<rparr>"
        using G'(6) Inr by (simp add: access_outcome_def warp_size_def)
      moreover have "barriers_passed G (ctx, l) = k"
        using issued_standing [OF w pc l] by (simp add: standing_def ctx_def)
      ultimately show "thread_state G' (lane_ctx w, l) = lane_of (length program) w' l \<and>
          barriers_passed G' (lane_ctx w, l) = (if parked w' then Suc k else k)"
        using l w(2) G'(4) by (simp add: w' w1 w0_def lane_of_def position_def ctx_def)
    qed (use w(2) in \<open>simp add: w' w1 w0_def\<close>)
    moreover have "\<exists>t \<in> ?S. t \<in> T \<and> steps_taken G t < steps_taken G' t"
      using moved Inr issue_progress [OF w act pc, of G'] by (simp add: ctx_def warp_size_def)
    ultimately show ?thesis using r by simp
  qed
  with G'(1-3,5) show ?thesis unfolding step_outcome_def ctx_def by blast
qed

lemma issue_quiet_threads:
  assumes w: "warp_threads program T G k w" "\<not> parked w"
    and act: "active w \<noteq> 0" and pc: "unat (wpc w) < length program"
    and flo: "barrier_floor T (ctaid (lane_ctx w)) k G" and mm: "memory_matches ps (lane_ctx w) m (grid_memory G)"
    and run: "issue env block_port (program ! unat (wpc w)) w m = (r, w', m')"
    and quiet: "\<not> is_memory_opcode (opcode (program ! unat (wpc w)))"
  shows "\<exists>G'. step_outcome env program ps T k (lane_ctx w) (lanes_in (lane_ctx w) (active w) [0..<warp_size]) m' r w' G G'"
proof (cases r)
  case (Inl f)
  define i where "i = program ! unat (wpc w)"
  define w0 where "w0 = w\<lparr>last_exec := exec_mask i w, last_opcode := opcode i\<rparr>"
  have bar: "opcode i = BarSync" "f = make_fault w0 ''bar.sync executed in divergent code'' 0 0" "m' = m"
    using run quiet Inl
    by (auto simp: issue_def i_def [symmetric] w0_def Let_def fail_def split: if_splits prod.splits sum.splits)
  obtain l where l: "l < 32" "has_lane (active w) l" using act by (rule some_lane)
  have "stuck env program ps T G f"
    using bar make_fault_thread [of w0 _ 0 0 l] w i_def
    by (intro stuckI [OF issued_standing [OF w pc l] flo]) (auto simp: w0_def warp_threads_def)
  with Inl bar(3) mm flo show ?thesis by (auto simp: step_outcome_def intro!: exI [of _ G] grid_run.start)
next
  case (Inr oc)
  define i where "i = program ! unat (wpc w)"
  have r: "issue env block_port (program ! unat (wpc w)) w m = (Inr oc, w', m')" using run Inr by simp
  have inv: "warp_inv w" using w by (simp add: warp_threads_def)
  have m': "m' = m" and park: "parked w' \<longleftrightarrow> opcode i = BarSync" "opcode i = BarSync \<Longrightarrow> active w = live w"
    using r quiet w(2)
    by (auto simp: issue_def i_def [symmetric] branch_def Let_def fail_def split: if_splits)
  from sweep_threads [OF i_def [symmetric] quiet [folded i_def] _ active_standing [OF w pc] flo refl, of env ps]
  obtain G' where
    G': "grid_run env program ps T G G'" "grid_memory G' = grid_memory G"
      "untouched (lanes_in (lane_ctx w) (active w) [0..<warp_size]) (ctaid (lane_ctx w)) G G'"
      "barrier_floor T (ctaid (lane_ctx w)) k G'"
      and lanes: "\<forall>l \<in> set [0..<warp_size]. has_lane (active w) l \<longrightarrow>
        thread_state G' (lane_ctx w, l) =
          lane_step env (loader block_port (block_view ps (lane_ctx w) (grid_memory G))) program (lane_ctx w) l
          \<lparr>lane_pc = Some (wpc w), lane_cells = lane_view (registers w) l\<rparr> \<and>
        barriers_passed G' (lane_ctx w, l) = (if opcode i = BarSync then Suc k else k) \<and>
        steps_taken G (lane_ctx w, l) < steps_taken G' (lane_ctx w, l)" by auto
  have "warp_threads program T G' k w'"
  proof (rule issue_moved [OF w act pc r G'(3)])
    fix l assume l: "l < 32" "has_lane (active w) l"
    have "lane_of (length program) w l = \<lparr>lane_pc = Some (wpc w), lane_cells = lane_view (registers w) l\<rparr>"
      using l pc by (simp add: lane_of_def position_def)
    with lanes l block.issue_lanes [OF inv act pc r l(1)]
    show "thread_state G' (lane_ctx w, l) = lane_of (length program) w' l \<and>
        barriers_passed G' (lane_ctx w, l) = (if parked w' then Suc k else k)"
      by (simp add: park(1) matches_loader [OF mm] warp_size_def)
  qed (use park in simp)
  moreover have "\<exists>t \<in> lanes_in (lane_ctx w) (active w) [0..<warp_size]. t \<in> T \<and> steps_taken G t < steps_taken G' t"
    using lanes by (intro issue_progress [OF w act pc]) (simp add: warp_size_def)
  ultimately show ?thesis using G' Inr mm by (intro exI [of _ G']) (simp add: m' step_outcome_def)
qed

lemma warp_step_threads:
  assumes w: "warp_threads program T G k w" "\<not> parked w"
    and flo: "barrier_floor T (ctaid (lane_ctx w)) k G" and mm: "memory_matches ps (lane_ctx w) m (grid_memory G)"
    and run: "step env block_port program w m = (r, w', m')"
  shows "\<exists>G'. step_outcome env program ps T k (lane_ctx w) (warp_lanes (lane_ctx w)) m' r w' G G'"
proof -
  define ws where "ws = snd (settle (length program) w)"
  have ws: "warp_threads program T G k ws" "\<not> parked ws" "lane_ctx ws = lane_ctx w"
    using warp_threads_settle [OF w(1)] w(2) by (simp_all add: ws_def)
  show ?thesis
  proof (cases "fst (settle (length program) w)")
    case False
    with run have "r = Inr Finished" "w' = ws" "m' = m" by (auto simp: step_def ws_def split: prod.splits)
    with ws flo mm show ?thesis
      by (intro exI [of _ G]) (simp add: step_outcome_def grid_run.start)
  next
    case True
    with run have iss: "issue env block_port (program ! unat (wpc ws)) ws m = (r, w', m')"
      by (auto simp: step_def ws_def split: prod.splits)
    have "active ws \<noteq> 0" "unat (wpc ws) < length program"
      using settle_True [OF True] by (simp_all add: ws_def)
    from issue_memory_threads [OF ws(1,2) this _ _ iss] issue_quiet_threads [OF ws(1,2) this _ _ iss] flo mm ws(3)
    obtain G' where "step_outcome env program ps T k (lane_ctx w) (lanes_in (lane_ctx w) (active ws) [0..<warp_size]) m' r w' G G'"
      by metis
    then have "step_outcome env program ps T k (lane_ctx w) (warp_lanes (lane_ctx w)) m' r w' G G'"
      using untouched_mono [OF _ lanes_in_warp] lanes_in_warp [of "lane_ctx w" "active ws"]
      unfolding step_outcome_def by (auto split: sum.splits)
    then show ?thesis by blast
  qed
qed

end
