(* ===== verification/Grid_Refinement.thy ===== *)
theory Grid_Refinement
  imports Grid_Machine
begin

text \<open>
  The scheduler, the blocks and the launch as runs of the grid machine: the warps of a block keep
  agreeing with their threads through every pass and every release of the barrier, a block ends with
  its threads retired or with one of them stuck, and the blocks of a launch compose.
\<close>

section \<open>The warps of a block and their threads\<close>

definition block_matches :: "u32 list \<Rightarrow> Dim2 \<Rightarrow> BlockMemory \<Rightarrow> GridMemory \<Rightarrow> bool" where
  "block_matches ps b m M \<longleftrightarrow> global m = grid_global M \<and> shared m = grid_shared M b \<and> params m = ps"

lemma memory_matches_block: "memory_matches ps ctx m M \<longleftrightarrow> block_matches ps (ctaid ctx) m M"
  by (simp add: memory_matches_def block_matches_def)

definition block_threads ::
    "Instruction list \<Rightarrow> Thread set \<Rightarrow> Dim2 \<Rightarrow> nat \<Rightarrow> GridState \<Rightarrow> Warp list \<Rightarrow> bool" where
  "block_threads program T b k G warps \<longleftrightarrow>
    (\<forall>w \<in> set warps. warp_threads program T G k w \<and> ctaid (lane_ctx w) = b) \<and>
    distinct (List.map lane_ctx warps) \<and>
    (\<forall>t \<in> T. block_of t = b \<longrightarrow> unretired G t \<longrightarrow> (\<exists>w \<in> set warps. t \<in> warp_lanes (lane_ctx w)))"

lemma block_threads_floor:
  assumes "block_threads program T b k G warps"
  shows "barrier_floor T b k G"
  unfolding barrier_floor_def
proof (intro ballI impI)
  fix t assume t: "t \<in> T" "block_of t = b" "unretired G t"
  with assms obtain w where "w \<in> set warps" "t \<in> warp_lanes (lane_ctx w)" "warp_threads program T G k w"
    by (auto simp: block_threads_def)
  with t(3) show "k \<le> barriers_passed G t" by (auto simp: warp_threads_def warp_lanes_def)
qed

lemma untouched_lane:
  assumes "untouched S b G G'" "t \<notin> S"
  shows "thread_state G' t = thread_state G t" "barriers_passed G' t = barriers_passed G t"
    "unretired G' t = unretired G t"
  using assms by (cases t; simp add: untouched_def unretired_def)+

lemma block_threads_step:
  assumes bt: "block_threads program T b k G (pre @ w # ws)"
    and w': "warp_threads program T G' k w'" "lane_ctx w' = lane_ctx w"
    and u: "untouched (warp_lanes (lane_ctx w)) b G G'"
  shows "block_threads program T b k G' (pre @ w' # ws)"
proof -
  have others: "warp_threads program T G' k v" if "v \<in> set (pre @ ws)" for v
  proof -
    have "lane_ctx w \<notin> lane_ctx ` set (pre @ ws)" using bt by (auto simp: block_threads_def)
    with that have "lane_ctx v \<noteq> lane_ctx w" by (metis image_eqI)
    then have "(lane_ctx v, l) \<notin> warp_lanes (lane_ctx w)" for l by (simp add: warp_lanes_def)
    note same = untouched_lane [OF u this]
    have "warp_threads program T G k v" using bt that by (auto simp: block_threads_def)
    then show ?thesis unfolding warp_threads_def same .
  qed
  have cover: "\<exists>v \<in> set (pre @ w' # ws). t \<in> warp_lanes (lane_ctx v)"
    if t: "t \<in> T" "block_of t = b" "unretired G' t" for t
  proof (cases "t \<in> warp_lanes (lane_ctx w)")
    case True
    with w'(2) show ?thesis by auto
  next
    case False
    with t untouched_lane(3) [OF u] have "unretired G t" by blast
    with bt t(1,2) obtain v where "v \<in> set (pre @ w # ws)" "t \<in> warp_lanes (lane_ctx v)"
      unfolding block_threads_def by blast
    with False show ?thesis by auto
  qed
  show ?thesis
    using bt others cover w' by (auto simp: block_threads_def)
qed

section \<open>A pass and a round of the scheduler\<close>

definition block_outcome ::
    "fp_env \<Rightarrow> Instruction list \<Rightarrow> u32 list \<Rightarrow> Thread set \<Rightarrow> Dim2 \<Rightarrow> GridState \<Rightarrow> BlockMemory \<Rightarrow> GridState \<Rightarrow> bool"
where
  "block_outcome env program ps T b G m G' \<longleftrightarrow>
    grid_run env program ps T G G' \<and> block_matches ps b m (grid_memory G') \<and>
    untouched {t. block_of t = b} b G G'"

lemma block_outcome_start: "block_matches ps b m (grid_memory G) \<Longrightarrow> block_outcome env program ps T b G m G"
  by (simp add: block_outcome_def grid_run.start)

lemma block_outcome_trans:
  "block_outcome env program ps T b G m G1 \<Longrightarrow> block_outcome env program ps T b G1 m' G2 \<Longrightarrow>
    block_outcome env program ps T b G m' G2"
  unfolding block_outcome_def using grid_run_trans untouched_trans by blast

text \<open>What a pass achieves: a thread has moved, or a warp was found to be finished.\<close>

definition moved :: "Thread set \<Rightarrow> GridState \<Rightarrow> GridState \<Rightarrow> bool" where
  "moved T G G' \<longleftrightarrow> (\<exists>t \<in> T. steps_taken G t < steps_taken G' t)"

definition unfinished :: "Warp list \<Rightarrow> nat" where
  "unfinished warps = length (filter (\<lambda>w. \<not> finished w) warps)"

lemma unfinished_simps [simp]:
  "unfinished [] = 0" "unfinished (w # ws) = (if finished w then 0 else 1) + unfinished ws"
  by (simp_all add: unfinished_def)

lemma unfinished_released [simp]: "unfinished (List.map (\<lambda>w. w\<lparr>parked := False\<rparr>) warps) = unfinished warps"
  by (induction warps) (simp_all add: finished_def)

lemma unfinished_visited: "list_all2 (visited env program) ws ws' \<Longrightarrow> unfinished ws' \<le> unfinished ws"
  by (induction rule: list_all2_induct) (auto simp: visited_def runnable_def split: if_splits)

lemma moved_later: "moved T G G1 \<Longrightarrow> grid_run env program ps T G1 G2 \<Longrightarrow> moved T G G2"
  unfolding moved_def by (meson grid_run_steps order_less_le_trans)

lemma moved_earlier: "grid_run env program ps T G G1 \<Longrightarrow> moved T G1 G2 \<Longrightarrow> moved T G G2"
  unfolding moved_def by (meson grid_run_steps order_le_less_trans)

lemma issue_pass_threads:
  assumes "issue_pass env program any ws m st = (r, s)"
    and "block_threads program T b k G (pre @ ws)" "block_matches ps b m (grid_memory G)"
  shows "\<exists>G'. block_outcome env program ps T b G (sched_memory s) G' \<and>
    (case r of
       Inr _ \<Rightarrow> block_threads program T b k G' (pre @ sched_warps s) \<and>
         ((\<exists>w \<in> set ws. runnable w) \<longrightarrow> moved T G G' \<or> unfinished (sched_warps s) < unfinished ws)
     | Inl f \<Rightarrow> stuck env program ps T G' f)"
  using assms
proof (induction ws arbitrary: any m st s r pre G)
  case Nil
  then show ?case using block_outcome_start by (intro exI [of _ G]) auto
next
  case (Cons w ws)
  show ?case
  proof (cases "finished w \<or> parked w")
    case True
    with Cons.prems(1) obtain s1 where run: "issue_pass env program any ws m st = (r, s1)"
      and s: "s = s1\<lparr>sched_warps := w # sched_warps s1\<rparr>"
      by (auto simp: Let_def split: prod.splits)
    have eqs: "(pre @ [w]) @ sched_warps s1 = pre @ sched_warps s" "sched_memory s1 = sched_memory s"
      by (simp_all add: s)
    have "block_threads program T b k G ((pre @ [w]) @ ws)" using Cons.prems(2) by simp
    from Cons.IH [OF run this Cons.prems(3), unfolded eqs] True show ?thesis
      by (elim ex_forward) (auto simp: s runnable_def split: sum.splits)
  next
    case False
    obtain q w1 m1 where st: "step env block_port program w m = (q, w1, m1)" by (cases rule: prod_cases3)
    have w: "warp_threads program T G k w" "\<not> parked w" "ctaid (lane_ctx w) = b"
      using Cons.prems(2) False by (simp_all add: block_threads_def)
    from warp_step_threads [OF w(1,2) _ _ st] block_threads_floor [OF Cons.prems(2)] Cons.prems(3) w(3)
    obtain G1 where G1: "step_outcome env program ps T k (lane_ctx w) (warp_lanes (lane_ctx w)) m1 q w1 G G1"
      by (auto simp: memory_matches_block)
    have sub: "warp_lanes (lane_ctx w) \<subseteq> {t. block_of t = b}" using w(3) by (auto simp: warp_lanes_def)
    have o1: "block_outcome env program ps T b G m1 G1"
      using G1 untouched_mono [OF _ sub] w(3) by (simp add: step_outcome_def block_outcome_def memory_matches_block)
    show ?thesis
    proof (cases q)
      case (Inl f)
      with G1 o1 Cons.prems(1) False st show ?thesis
        by (intro exI [of _ G1]) (auto simp: step_outcome_def fail_def)
    next
      case (Inr oc)
      with Cons.prems(1) False st obtain s1 where
        run: "issue_pass env program True ws m1 (if oc \<noteq> Finished then count_issue w1 st else st) = (r, s1)"
        and s: "s = s1\<lparr>sched_warps := w1 # sched_warps s1\<rparr>"
        by (auto simp: Let_def split: prod.splits)
      have bt1: "block_threads program T b k G1 ((pre @ [w1]) @ ws)"
        using block_threads_step [OF Cons.prems(2) _ step_keeps_ctx [OF st]] G1 Inr w(3)
        by (simp add: step_outcome_def)
      have eqs: "(pre @ [w1]) @ sched_warps s1 = pre @ sched_warps s" "sched_memory s1 = sched_memory s"
        by (simp_all add: s)
      have "block_matches ps b m1 (grid_memory G1)" using o1 by (simp add: block_outcome_def)
      from Cons.IH [OF run bt1 this, unfolded eqs] obtain G' where
        o2: "block_outcome env program ps T b G1 (sched_memory s) G'" and
        r: "case r of
            Inr _ \<Rightarrow> block_threads program T b k G' (pre @ sched_warps s) \<and>
              ((\<exists>w \<in> set ws. runnable w) \<longrightarrow> moved T G1 G' \<or> unfinished (sched_warps s1) < unfinished ws)
          | Inl f \<Rightarrow> stuck env program ps T G' f" by blast
      have progress: "moved T G G' \<or> unfinished (sched_warps s) < unfinished (w # ws)" if "r = Inr x" for x
      proof (cases "oc = Finished")
        case True
        have "warp_inv w" using w(1) by (simp add: warp_threads_def)
        then have "finished w1" using block.step_Finished(2) [of w env program m w1 m1] st Inr True by (simp add: finished_def)
        moreover have "unfinished (sched_warps s1) \<le> unfinished ws"
          using issue_pass_Inr [OF run [unfolded that]] unfinished_visited by blast
        ultimately show ?thesis using False by (simp add: s)
      next
        case moves: False
        then have "moved T G G1" using G1 Inr by (auto simp: step_outcome_def moved_def)
        with o2 show ?thesis using moved_later by (auto simp: block_outcome_def)
      qed
      show ?thesis
        using block_outcome_trans [OF o1 o2] r progress by (intro exI [of _ G']) (auto split: sum.splits)
    qed
  qed
qed

text \<open>When every warp that goes on is parked, the barrier is complete for every thread of the block.\<close>

lemma release_threads:
  assumes "block_threads program T b k G warps" "all_parked warps"
  shows "block_threads program T b (Suc k) G (List.map (\<lambda>w. w\<lparr>parked := False\<rparr>) warps)"
proof -
  have same: "lane_of n (w\<lparr>parked := False\<rparr>) = lane_of n w" for n w by (simp add: lane_of_def fun_eq_iff)
  have "warp_threads program T G (Suc k) (w\<lparr>parked := False\<rparr>)" if w: "w \<in> set warps" for w
  proof -
    have wt: "warp_threads program T G k w" using assms(1) w by (simp add: block_threads_def)
    have "parked w" if "unretired G (lane_ctx w, l)" "l < 32" for l
    proof (rule ccontr)
      assume "\<not> parked w"
      then have "live w = 0" using assms(2) w by (auto simp: all_parked_def finished_def)
      then have "position w l = None" using wt position_None_iff [of w l] that by (simp add: warp_threads_def)
      with wt that show False by (auto simp: warp_threads_def unretired_def lane_of_def)
    qed
    with wt show ?thesis by (auto simp: warp_threads_def same)
  qed
  with assms(1) show ?thesis by (auto simp: block_threads_def comp_def)
qed

lemma finished_threads:
  assumes "block_threads program T b k G warps" "\<forall>w \<in> set warps. finished w" "t \<in> T" "block_of t = b"
  shows "\<not> unretired G t"
proof
  assume u: "unretired G t"
  with assms(1,3,4) obtain w where w: "w \<in> set warps" "t \<in> warp_lanes (lane_ctx w)"
    unfolding block_threads_def by blast
  moreover have "warp_threads program T G k w" "finished w"
    using w(1) assms(1,2) by (simp_all add: block_threads_def)
  ultimately obtain l where w: "t = (lane_ctx w, l)" "l < 32" "warp_threads program T G k w" "finished w"
    by (auto simp: warp_lanes_def)
  then have "position w l = None" using position_None_iff [of w l] by (simp add: warp_threads_def finished_def)
  with w u show False by (auto simp: warp_threads_def unretired_def lane_of_def)
qed

lemma first_pass_threads:
  assumes "issue_pass env program any ws m st = (r, s)" "block_threads program T b k G ws" "block_matches ps b m (grid_memory G)"
  obtains G' where "block_outcome env program ps T b G (sched_memory s) G'"
    "case r of
       Inr _ \<Rightarrow> block_threads program T b k G' (sched_warps s) \<and>
         ((\<exists>w \<in> set ws. runnable w) \<longrightarrow> moved T G G' \<or> unfinished (sched_warps s) < unfinished ws)
     | Inl f \<Rightarrow> stuck env program ps T G' f"
  using issue_pass_threads [OF assms(1), where pre = "[]" and G = G, unfolded append_Nil] assms(2,3) by blast

text \<open>A round that goes on.\<close>

lemma round_threads:
  assumes round: "scheduler_round env program s = (Inr False, s1)"
    and bt: "block_threads program T b k G (sched_warps s)" and mm: "block_matches ps b (sched_memory s) (grid_memory G)"
  obtains G1 k1 where "block_outcome env program ps T b G (sched_memory s1) G1" "block_threads program T b k1 G1 (sched_warps s1)"
    "unfinished (sched_warps s1) \<le> unfinished (sched_warps s)"
    "\<exists>w \<in> set (sched_warps s). runnable w \<Longrightarrow> moved T G G1 \<or> unfinished (sched_warps s1) < unfinished (sched_warps s)"
  using round
proof (cases rule: scheduler_round_cases)
  case (release any s2)
  from first_pass_threads [OF release(1) bt mm] obtain G1 where G1: "block_outcome env program ps T b G (sched_memory s2) G1"
    "block_threads program T b k G1 (sched_warps s2)"
    "(\<exists>w \<in> set (sched_warps s). runnable w) \<longrightarrow> moved T G G1 \<or> unfinished (sched_warps s2) < unfinished (sched_warps s)" by auto
  moreover have "unfinished (sched_warps s2) \<le> unfinished (sched_warps s)"
    using issue_pass_Inr [OF release(1)] unfinished_visited by blast
  ultimately show thesis using release_threads [OF G1(2) release(3)] by (intro that) (simp_all add: release(5))
next
  case continue
  from first_pass_threads [OF continue(1) bt mm] obtain G1 where "block_outcome env program ps T b G (sched_memory s1) G1"
    "block_threads program T b k G1 (sched_warps s1)"
    "(\<exists>w \<in> set (sched_warps s). runnable w) \<longrightarrow> moved T G G1 \<or> unfinished (sched_warps s1) < unfinished (sched_warps s)" by auto
  moreover have "unfinished (sched_warps s1) \<le> unfinished (sched_warps s)"
    using issue_pass_Inr [OF continue(1)] unfinished_visited by blast
  ultimately show thesis by (intro that) simp_all
qed simp_all

lemma scheduler_loop_threads:
  assumes loop: "scheduler_loop env program s = Some (r, s')"
    and bt: "block_threads program T b k G (sched_warps s)" and mm: "block_matches ps b (sched_memory s) (grid_memory G)"
  shows "\<exists>G'. block_outcome env program ps T b G (sched_memory s') G' \<and>
    (case r of Inr _ \<Rightarrow> \<forall>t \<in> T. block_of t = b \<longrightarrow> \<not> unretired G' t
     | Inl f \<Rightarrow> stuck env program ps T G' f)"
proof -
  define P where "P s \<longleftrightarrow> (\<exists>G1 k. block_outcome env program ps T b G (sched_memory s) G1 \<and>
    block_threads program T b k G1 (sched_warps s))" for s :: Scheduler
  define Q where "Q r s \<longleftrightarrow> (\<exists>G'. block_outcome env program ps T b G (sched_memory s) G' \<and>
    (case r of Inr _ \<Rightarrow> \<forall>t \<in> T. block_of t = b \<longrightarrow> \<not> unretired G' t
     | Inl f \<Rightarrow> stuck env program ps T G' f))" for r :: "(unit, Fault) result" and s :: Scheduler
  have from_P: "thesis" if "P s" and "\<And>G0 k. block_outcome env program ps T b G (sched_memory s) G0 \<Longrightarrow>
      block_threads program T b k G0 (sched_warps s) \<Longrightarrow> block_matches ps b (sched_memory s) (grid_memory G0) \<Longrightarrow> thesis" for s thesis
    using that by (auto simp: P_def block_outcome_def)
  have "Q r s'"
  proof (rule scheduler_loop_invariant [OF loop])
    show "P s" using bt mm block_outcome_start unfolding P_def by blast
  next
    fix s s1 assume P: "P s" and round: "scheduler_round env program s = (Inr False, s1)"
    from P show "P s1"
    proof (rule from_P)
      fix G0 k assume G0: "block_outcome env program ps T b G (sched_memory s) G0"
        "block_threads program T b k G0 (sched_warps s)" "block_matches ps b (sched_memory s) (grid_memory G0)"
      from round_threads [OF round G0(2,3)] obtain G1 k1 where
        "block_outcome env program ps T b G0 (sched_memory s1) G1" "block_threads program T b k1 G1 (sched_warps s1)" by blast
      with block_outcome_trans [OF G0(1)] show "P s1" by (auto simp: P_def)
    qed
  next
    fix s s1 assume P: "P s" and round: "scheduler_round env program s = (Inr True, s1)"
    from P show "Q (Inr ()) s1"
    proof (rule from_P)
      fix G0 k assume G0: "block_outcome env program ps T b G (sched_memory s) G0"
        "block_threads program T b k G0 (sched_warps s)" "block_matches ps b (sched_memory s) (grid_memory G0)"
      from round show "Q (Inr ()) s1"
      proof (cases rule: scheduler_round_cases)
        case (finish any)
        from first_pass_threads [OF finish(1) G0(2,3)] obtain G1 where G1: "block_outcome env program ps T b G0 (sched_memory s1) G1"
          "block_threads program T b k G1 (sched_warps s1)" by auto
        moreover have "\<forall>w \<in> set (sched_warps s1). finished w" using finish(2) by (simp add: any_unfinished_def)
        ultimately have "\<forall>t \<in> T. block_of t = b \<longrightarrow> \<not> unretired G1 t" using finished_threads by blast
        with block_outcome_trans [OF G0(1) G1(1)] show ?thesis unfolding Q_def by auto
      qed simp_all
    qed
  next
    fix s s1 e assume P: "P s" and round: "scheduler_round env program s = (Inl e, s1)"
    from P show "Q (Inl e) s1"
    proof (rule from_P)
      fix G0 k assume G0: "block_outcome env program ps T b G (sched_memory s) G0"
        "block_threads program T b k G0 (sched_warps s)" "block_matches ps b (sched_memory s) (grid_memory G0)"
      from round show "Q (Inl e) s1"
      proof (cases rule: scheduler_round_cases)
        case (fault f)
        from first_pass_threads [OF fault(1) G0(2,3)] obtain G1 where
          "block_outcome env program ps T b G0 (sched_memory s1) G1" "stuck env program ps T G1 f" by auto
        with fault(2) block_outcome_trans [OF G0(1)] show ?thesis unfolding Q_def by auto
      qed simp_all
    qed
  qed
  then show ?thesis by (simp add: Q_def)
qed

section \<open>A block\<close>

lemma warp_context_eq:
  "warp_context grid blk b k = warp_context grid blk b' k' \<longleftrightarrow> b = b' \<and> (of_nat k :: u32) = of_nat k'"
  by (auto simp: warp_context_def)

lemma unat_of_nat_below:
  fixes n :: "'a::len word"
  shows "k < unat n \<Longrightarrow> unat (of_nat k :: 'a word) = k"
  using unsigned_less [of n] by (metis less_trans mod_less unat_of_nat)

lemma of_nat_below_inj:
  fixes n :: "'a::len word"
  shows "(of_nat j :: 'a word) = of_nat k \<Longrightarrow> j < unat n \<Longrightarrow> k < unat n \<Longrightarrow> j = k"
  by (metis unat_of_nat_below)

lemma threads_iff:
  assumes k: "k < unat (warp_count (dim_count blk))"
  shows "(warp_context grid blk b k, l) \<in> threads grid blk \<longleftrightarrow>
    b \<in> set (block_indices grid) \<and> l < warp_size \<and> has_lane (live_lanes (dim_count blk) (of_nat k)) l"
    (is "?L \<longleftrightarrow> ?R")
proof
  assume ?L
  then obtain b' k' where t: "warp_context grid blk b k = warp_context grid blk b' k'"
    "b' \<in> set (block_indices grid)" "k' < unat (warp_count (dim_count blk))" "l < warp_size"
    "has_lane (live_lanes (dim_count blk) (of_nat k')) l" unfolding threads_def by blast
  then have "b = b'" "(of_nat k :: u32) = of_nat k'" by (simp_all add: warp_context_eq)
  with t show ?R by simp
next
  assume ?R
  with k show ?L unfolding threads_def by blast
qed

text \<open>The part of the grid that belongs to a block that has not started.\<close>

definition fresh :: "Instruction list \<Rightarrow> Thread set \<Rightarrow> u32 \<Rightarrow> Dim2 \<Rightarrow> GridState \<Rightarrow> bool" where
  "fresh program T sh b G \<longleftrightarrow>
    (\<forall>t. block_of t = b \<longrightarrow> thread_state G t = (if t \<in> T then start_lane program else retired_lane) \<and>
      barriers_passed G t = 0) \<and>
    grid_shared (grid_memory G) b = byte_memory (unat sh)"

lemma lane_of_new_warp:
  "lane_of (length program) (new_warp wid lns ctx) l =
    (if has_lane lns l then start_lane program else retired_lane)"
  by (simp add: lane_of_def position_new_warp start_lane_def retired_lane_def)
     (simp add: new_warp_def lane_view_def empty_register_file_def read_reg_def read_pred_def fun_eq_iff)

lemma create_warps_context:
  "create_warps \<lparr>ntid = blk, nctaid = grid, ctaid = b, warp_id = 0\<rparr> n =
    List.map (\<lambda>k. new_warp (of_nat k) (live_lanes n (of_nat k)) (warp_context grid blk b k)) [0..<unat (warp_count n)]"
  by (simp add: create_warps_def warp_context_def Let_def)

lemma fresh_block_threads:
  assumes fr: "fresh program (threads grid blk) sh b G" and b: "b \<in> set (block_indices grid)"
  shows "block_threads program (threads grid blk) b 0 G
    (create_warps \<lparr>ntid = blk, nctaid = grid, ctaid = b, warp_id = 0\<rparr> (dim_count blk))"
proof -
  define ctx where "ctx = warp_context grid blk b"
  define wp where "wp k = new_warp (of_nat k) (live_lanes (dim_count blk) (of_nat k)) (ctx k)" for k :: nat
  have c: "lane_ctx (wp k) = ctx k" "ctaid (ctx k) = b" "\<not> parked (wp k)" "state_warp_id (wp k) = warp_id (ctx k)" for k
    by (simp_all add: wp_def new_warp_def ctx_def warp_context_def)
  have "thread_state G (ctx k, l) = lane_of (length program) (wp k) l \<and>
      (unretired G (ctx k, l) \<longrightarrow> (ctx k, l) \<in> threads grid blk \<and> barriers_passed G (ctx k, l) = 0)"
    if k: "k < unat (warp_count (dim_count blk))" and l: "l < 32" for k l
  proof -
    have "thread_state G (ctx k, l) = (if (ctx k, l) \<in> threads grid blk then start_lane program else retired_lane)"
      "barriers_passed G (ctx k, l) = 0" using fr c(2) by (simp_all add: fresh_def)
    moreover have "(ctx k, l) \<in> threads grid blk \<longleftrightarrow> has_lane (live_lanes (dim_count blk) (of_nat k)) l"
      unfolding ctx_def threads_iff [OF k] using b l by (simp add: warp_size_def)
    ultimately show ?thesis
      by (simp add: wp_def lane_of_new_warp unretired_def retired_lane_def)
  qed
  then have warps: "warp_threads program (threads grid blk) G 0 (wp k)" if "k < unat (warp_count (dim_count blk))" for k
    unfolding warp_threads_def c using that c(3) new_warp_inv by (simp add: wp_def)
  have dist: "distinct (List.map ctx [0..<unat (warp_count (dim_count blk))])"
    by (auto simp: distinct_map inj_on_def ctx_def warp_context_eq dest: of_nat_below_inj)
  have cover: "\<exists>k < unat (warp_count (dim_count blk)). t \<in> warp_lanes (ctx k)"
    if "t \<in> threads grid blk" "block_of t = b" for t
    using that by (auto simp: threads_def ctx_def warp_context_def warp_lanes_def warp_size_def)
  show ?thesis
    unfolding create_warps_context ctx_def [symmetric] wp_def [symmetric] block_threads_def
  proof (intro conjI ballI impI)
    show "distinct (List.map lane_ctx (List.map wp [0..<unat (warp_count (dim_count blk))]))"
      using dist by (simp add: comp_def c)
    fix t assume "t \<in> threads grid blk" "block_of t = b"
    from cover [OF this] show "\<exists>w \<in> set (List.map wp [0..<unat (warp_count (dim_count blk))]). t \<in> warp_lanes (lane_ctx w)"
      by (auto simp: c)
  qed (use warps c in auto)
qed

lemma block_start:
  assumes fr: "fresh program (threads grid blk) sh b G" and b: "b \<in> set (block_indices grid)"
    and s: "sched_warps s = create_warps \<lparr>ntid = blk, nctaid = grid, ctaid = b, warp_id = 0\<rparr> (dim_count blk)"
      "sched_memory s = block_memory (grid_global (grid_memory G)) sh ps"
  shows "block_threads program (threads grid blk) b 0 G (sched_warps s)" "block_matches ps b (sched_memory s) (grid_memory G)"
proof -
  show "block_threads program (threads grid blk) b 0 G (sched_warps s)"
    unfolding s by (rule fresh_block_threads [OF fr b])
  show "block_matches ps b (sched_memory s) (grid_memory G)"
    using fr by (simp add: s block_matches_def block_memory_def fresh_def)
qed

lemma run_block_threads:
  assumes run: "run_block env program (block_memory g sh ps)
      \<lparr>ntid = blk, nctaid = grid, ctaid = b, warp_id = 0\<rparr> (dim_count blk) st = Some (r, m', st')"
    and fr: "fresh program (threads grid blk) sh b G" and b: "b \<in> set (block_indices grid)"
    and g: "grid_global (grid_memory G) = g"
  shows "\<exists>G'. block_outcome env program ps (threads grid blk) b G m' G' \<and>
    (case r of Inr _ \<Rightarrow> \<forall>t \<in> threads grid blk. block_of t = b \<longrightarrow> \<not> unretired G' t
     | Inl f \<Rightarrow> stuck env program ps (threads grid blk) G' f)"
proof -
  define s where "s = \<lparr>sched_warps = create_warps \<lparr>ntid = blk, nctaid = grid, ctaid = b, warp_id = 0\<rparr> (dim_count blk),
    sched_memory = block_memory g sh ps,
    sched_stats = st\<lparr>warps_launched := warps_launched st + warp_count (dim_count blk)\<rparr>\<rparr>"
  obtain s' where loop: "scheduler_loop env program s = Some (r, s')" and m': "m' = sched_memory s'"
    using run by (auto simp: run_block_def s_def fail_def Let_def split: option.splits sum.splits)
  show ?thesis
    using scheduler_loop_threads [OF loop block_start [OF fr b, of s ps]] g by (simp add: s_def m')
qed

section \<open>The blocks of a launch\<close>

lemma fresh_untouched:
  assumes "fresh program T sh b G" "untouched {t. block_of t = b'} b' G G'" "b \<noteq> b'"
  shows "fresh program T sh b G'"
proof -
  have "thread_state G' t = thread_state G t \<and> barriers_passed G' t = barriers_passed G t" if "block_of t = b" for t
    using untouched_lane [OF assms(2), of t] that assms(3) by simp
  with assms show ?thesis by (simp add: fresh_def untouched_def)
qed

lemma run_blocks_threads:
  assumes "run_blocks env program sh grid blk ps bs g st = Some (r, g')"
    and "distinct bs" "set bs \<subseteq> set (block_indices grid)"
    and "\<forall>b \<in> set bs. fresh program (threads grid blk) sh b G"
    and "\<forall>t \<in> threads grid blk. block_of t \<notin> set bs \<longrightarrow> \<not> unretired G t"
    and "grid_global (grid_memory G) = g"
  shows "\<exists>G'. grid_run env program ps (threads grid blk) G G' \<and> grid_global (grid_memory G') = g' \<and>
    (case r of Inr _ \<Rightarrow> \<forall>t \<in> threads grid blk. \<not> unretired G' t
     | Inl f \<Rightarrow> stuck env program ps (threads grid blk) G' f)"
  using assms
proof (induction bs arbitrary: g st G)
  case Nil
  then show ?case by (intro exI [of _ G]) (auto intro: grid_run.start)
next
  case (Cons b bs)
  define base where "base = \<lparr>ntid = blk, nctaid = grid, ctaid = b, warp_id = 0\<rparr>"
  obtain q m1 st1 where block: "run_block env program (block_memory g sh ps) base (dim_count blk) st = Some (q, m1, st1)"
    using Cons.prems(1) by (auto simp: base_def split: option.splits)
  have "fresh program (threads grid blk) sh b G" "b \<in> set (block_indices grid)" using Cons.prems(3,4) by simp_all
  from run_block_threads [OF block [unfolded base_def] this Cons.prems(6)] obtain G1 where
    o1: "block_outcome env program ps (threads grid blk) b G m1 G1"
    and q: "case q of Inr _ \<Rightarrow> \<forall>t \<in> threads grid blk. block_of t = b \<longrightarrow> \<not> unretired G1 t
     | Inl f \<Rightarrow> stuck env program ps (threads grid blk) G1 f" by blast
  then have r1: "grid_run env program ps (threads grid blk) G G1" and g1: "grid_global (grid_memory G1) = global m1"
    and u1: "untouched {t. block_of t = b} b G G1" by (simp_all add: block_outcome_def block_matches_def)
  show ?case
  proof (cases q)
    case (Inl f)
    with Cons.prems(1) block q r1 g1 show ?thesis
      by (intro exI [of _ G1]) (auto simp: base_def fail_def)
  next
    case (Inr u)
    with Cons.prems(1) block obtain st2 where
      rest: "run_blocks env program sh grid blk ps bs (global m1) st2 = Some (r, g')" by (auto simp: base_def)
    have fr: "\<forall>b' \<in> set bs. fresh program (threads grid blk) sh b' G1"
      using Cons.prems(2,4) fresh_untouched [OF _ u1] by (metis distinct.simps(2) list.set_intros(2))
    have over: "\<forall>t \<in> threads grid blk. block_of t \<notin> set bs \<longrightarrow> \<not> unretired G1 t"
    proof (intro ballI impI)
      fix t assume t: "t \<in> threads grid blk" "block_of t \<notin> set bs"
      show "\<not> unretired G1 t"
      proof (cases "block_of t = b")
        case True
        with q Inr t(1) show ?thesis by simp
      next
        case False
        then have "unretired G1 t = unretired G t" by (intro untouched_lane(3) [OF u1]) simp
        with Cons.prems(5) t False show ?thesis by simp
      qed
    qed
    have "distinct bs" "set bs \<subseteq> set (block_indices grid)" using Cons.prems(2,3) by simp_all
    from Cons.IH [OF rest this fr over g1] grid_run_trans [OF _ r1] show ?thesis by blast
  qed
qed

lemma block_indices_distinct: "distinct (block_indices grid)"
proof -
  have "block_indices grid = List.map (\<lambda>(y, x). \<lparr>dim_x = of_nat x, dim_y = of_nat y\<rparr>)
      (List.product [0..<unat (dim_y grid)] [0..<unat (dim_x grid)])"
    by (simp add: block_indices_def product_concat_map map_concat comp_def)
  then show ?thesis
    by (auto simp: distinct_map distinct_product inj_on_def dest: of_nat_below_inj)
qed

lemma fresh_start: "fresh program T sh b (grid_start program T sh g)"
  by (simp add: fresh_def grid_start_def)

lemma launch_threads:
  assumes "decode_program 0 (code_words p) = Inr program" and "dim_count grid \<noteq> 0" and "dim_count blk \<noteq> 0"
    and "launch env p grid blk ps g = Some (r, g')"
  shows "\<exists>G. grid_run env program ps (threads grid blk) (grid_start program (threads grid blk) (shared_bytes p) g) G \<and>
    grid_global (grid_memory G) = g' \<and>
    (case r of Inr _ \<Rightarrow> \<forall>t \<in> threads grid blk. \<not> unretired G t
     | Inl f \<Rightarrow> stuck env program ps (threads grid blk) G f)"
proof -
  have run: "run_blocks env program (shared_bytes p) grid blk ps (block_indices grid) g no_launch_stats = Some (r, g')"
    using assms by (simp add: launch_def)
  have "block_of t \<in> set (block_indices grid)" if "t \<in> threads grid blk" for t
    using that by (auto simp: threads_def warp_context_def)
  with run_blocks_threads [OF run block_indices_distinct, of "grid_start program (threads grid blk) (shared_bytes p) g"]
  show ?thesis by (auto simp: fresh_start) (auto simp: grid_start_def)
qed

section \<open>The scheduler adds no infinite run\<close>

text \<open>A bound on the steps of every thread, in every run from \<open>G\<close>.\<close>

definition bounded_runs ::
    "fp_env \<Rightarrow> Instruction list \<Rightarrow> u32 list \<Rightarrow> Thread set \<Rightarrow> GridState \<Rightarrow> nat \<Rightarrow> bool" where
  "bounded_runs env program ps T G n \<longleftrightarrow>
    (\<forall>G'. grid_run env program ps T G G' \<longrightarrow> (\<forall>t \<in> T. steps_taken G' t \<le> n))"

lemma bounded_runs_later: "bounded_runs env program ps T G n \<Longrightarrow> grid_run env program ps T G G1 \<Longrightarrow> bounded_runs env program ps T G1 n"
  unfolding bounded_runs_def using grid_run_trans by blast

lemma moved_left:
  assumes "finite T" "bounded_runs env program ps T G n" "grid_run env program ps T G G1"
  shows "(\<Sum>t \<in> T. n - steps_taken G1 t) \<le> (\<Sum>t \<in> T. n - steps_taken G t)"
    and "moved T G G1 \<Longrightarrow> (\<Sum>t \<in> T. n - steps_taken G1 t) < (\<Sum>t \<in> T. n - steps_taken G t)"
proof -
  have le: "n - steps_taken G1 t \<le> n - steps_taken G t" for t using grid_run_steps [OF assms(3)] by (rule diff_le_mono2)
  then show "(\<Sum>t \<in> T. n - steps_taken G1 t) \<le> (\<Sum>t \<in> T. n - steps_taken G t)" by (intro sum_mono)
  assume "moved T G G1"
  then obtain t where t: "t \<in> T" "steps_taken G t < steps_taken G1 t" by (auto simp: moved_def)
  moreover have "steps_taken G1 t \<le> n" using assms(2,3) t(1) by (auto simp: bounded_runs_def)
  ultimately have "n - steps_taken G1 t < n - steps_taken G t" by simp
  with le t(1) assms(1) show "(\<Sum>t \<in> T. n - steps_taken G1 t) < (\<Sum>t \<in> T. n - steps_taken G t)"
    by (intro sum_strict_mono_ex1) auto
qed

lemma scheduler_loop_returns:
  assumes "finite T" and "bounded_runs env program ps T G n" and "scheduler_ok s"
    and "block_threads program T b k G (sched_warps s)" and "block_matches ps b (sched_memory s) (grid_memory G)"
  shows "scheduler_loop env program s \<noteq> None"
  using assms(2-)
proof (induction "(\<Sum>t \<in> T. n - steps_taken G t) + unfinished (sched_warps s)" arbitrary: G k s rule: less_induct)
  case less
  obtain r s1 where round: "scheduler_round env program s = (r, s1)" by fastforce
  show ?case
  proof (cases "r = Inr False")
    case False
    with round show ?thesis by (subst scheduler_loop.simps) (auto split: sum.split)
  next
    case True
    with round have go_on: "scheduler_round env program s = (Inr False, s1)" by simp
    note ok = scheduler_round_ok [OF less.prems(2) go_on]
    from round_threads [OF go_on less.prems(3,4)] obtain G1 k1 where
      G1: "block_outcome env program ps T b G (sched_memory s1) G1" "block_threads program T b k1 G1 (sched_warps s1)"
      and u: "unfinished (sched_warps s1) \<le> unfinished (sched_warps s)"
      and progress: "moved T G G1 \<or> unfinished (sched_warps s1) < unfinished (sched_warps s)"
      using ok(2) by metis
    have run: "grid_run env program ps T G G1" and mm: "block_matches ps b (sched_memory s1) (grid_memory G1)"
      using G1(1) by (simp_all add: block_outcome_def)
    have "scheduler_loop env program s1 \<noteq> None"
    proof (rule less.hyps [OF _ bounded_runs_later [OF less.prems(1) run] ok(1) G1(2) mm])
      show "(\<Sum>t \<in> T. n - steps_taken G1 t) + unfinished (sched_warps s1) <
          (\<Sum>t \<in> T. n - steps_taken G t) + unfinished (sched_warps s)"
        using moved_left [OF assms(1) less.prems(1) run] u progress by linarith
    qed
    with go_on show ?thesis by (subst scheduler_loop.simps) simp
  qed
qed

lemma finite_threads: "finite (threads grid blk)"
proof -
  have "threads grid blk \<subseteq> (\<lambda>(b, k, l). (warp_context grid blk b k, l)) `
      (set (block_indices grid) \<times> {..<unat (warp_count (dim_count blk))} \<times> {..<warp_size})"
    unfolding threads_def by force
  then show ?thesis by (rule finite_subset) simp
qed

lemma run_blocks_returns:
  assumes "bounded_runs env program ps (threads grid blk) G n"
    and "distinct bs" "set bs \<subseteq> set (block_indices grid)"
    and "\<forall>b \<in> set bs. fresh program (threads grid blk) sh b G" and "grid_global (grid_memory G) = g"
  shows "run_blocks env program sh grid blk ps bs g st \<noteq> None"
  using assms
proof (induction bs arbitrary: g st G)
  case (Cons b bs)
  define base where "base = \<lparr>ntid = blk, nctaid = grid, ctaid = b, warp_id = 0\<rparr>"
  define s where "s = \<lparr>sched_warps = create_warps base (dim_count blk), sched_memory = block_memory g sh ps,
    sched_stats = st\<lparr>warps_launched := warps_launched st + warp_count (dim_count blk)\<rparr>\<rparr>"
  have fr: "fresh program (threads grid blk) sh b G" "b \<in> set (block_indices grid)" using Cons.prems(3,4) by simp_all
  have "scheduler_loop env program s \<noteq> None"
    using scheduler_loop_returns [OF finite_threads Cons.prems(1) _ block_start [OF fr, of s ps]] create_warps_ok Cons.prems(5)
    by (simp add: s_def base_def)
  then obtain q m1 st1 where block: "run_block env program (block_memory g sh ps) base (dim_count blk) st = Some (q, m1, st1)"
    by (cases "the (scheduler_loop env program s)" rule: prod.exhaust; cases "fst (the (scheduler_loop env program s))")
       (auto simp: run_block_def Let_def s_def)
  show ?case
  proof (cases q)
    case (Inl f)
    with block show ?thesis by (simp add: base_def)
  next
    case (Inr u)
    from run_block_threads [OF block [unfolded base_def] fr Cons.prems(5)] obtain G1 where
      "block_outcome env program ps (threads grid blk) b G m1 G1" by blast
    then have r1: "grid_run env program ps (threads grid blk) G G1" and g1: "grid_global (grid_memory G1) = global m1"
      and u1: "untouched {t. block_of t = b} b G G1" by (simp_all add: block_outcome_def block_matches_def)
    have "\<forall>b' \<in> set bs. fresh program (threads grid blk) sh b' G1"
      using Cons.prems(2,4) fresh_untouched [OF _ u1] by (metis distinct.simps(2) list.set_intros(2))
    then have "run_blocks env program sh grid blk ps bs (global m1) st2 \<noteq> None" for st2
      using Cons.prems(2,3) by (intro Cons.IH [OF bounded_runs_later [OF Cons.prems(1) r1]] g1) simp_all
    with block Inr show ?thesis by (simp add: base_def)
  qed
qed simp

lemma launch_returns:
  assumes "decode_program 0 (code_words p) = Inr program"
    and "bounded_runs env program ps (threads grid blk) (grid_start program (threads grid blk) (shared_bytes p) g) n"
  shows "\<exists>r g'. launch env p grid blk ps g = Some (r, g')"
proof -
  have "run_blocks env program (shared_bytes p) grid blk ps (block_indices grid) g no_launch_stats \<noteq> None"
    using run_blocks_returns [OF assms(2) block_indices_distinct order_refl] fresh_start by (simp add: grid_start_def)
  with assms(1) show ?thesis by (auto simp: launch_def)
qed

text \<open>Whatever happens, the memory keeps its size.\<close>

lemma block_store_size: "length (global (snd (block_store sp a v l m))) = length (global m)"
  by (cases sp) (auto simp: fail_def split: sum.split dest: store32_length)

lemma thread_access_size:
  assumes "thread_access ps t i cells M = Inr M'"
  shows "length (grid_global M') = length (grid_global M)"
  using assms block_store_size [of "memory_space (opcode i)" "lane_address i cells" "fst cells (src1 i)"
      "lane_number t" "block_view ps (context_of t) M"]
  by (auto simp: thread_access_def Let_def fail_def with_block_def block_view_def split: if_splits sum.splits prod.splits)

lemma thread_step_size:
  "thread_step env program ps t L M = Inr (L', M') \<Longrightarrow> length (grid_global M') = length (grid_global M)"
  by (auto simp: thread_step_def Let_def fail_def split: option.splits if_splits sum.splits dest: thread_access_size)

lemma grid_run_size:
  "grid_run env program ps T G G' \<Longrightarrow> length (grid_global (grid_memory G')) = length (grid_global (grid_memory G))"
  by (induction rule: grid_run.induct) (auto simp: advance_thread_def dest: thread_step_size)

lemma launch_size:
  assumes "launch env p grid blk ps g = Some (r, g')"
  shows "length g' = length g"
proof (cases "decode_program 0 (code_words p)")
  case (Inl f)
  with assms show ?thesis by (simp add: launch_def)
next
  case (Inr program)
  show ?thesis
  proof (cases "dim_count blk = 0 \<or> dim_count grid = 0")
    case True
    with Inr assms show ?thesis by (simp add: launch_def)
  next
    case False
    with launch_threads [OF Inr _ _ assms] obtain G where
      "grid_run env program ps (threads grid blk) (grid_start program (threads grid blk) (shared_bytes p) g) G"
      "grid_global (grid_memory G) = g'" by blast
    then show ?thesis by (auto dest!: grid_run_size simp: grid_start_def)
  qed
qed

section \<open>Properties\<close>

text \<open>C2: a launch is a run of the grid machine. Every launch that gets past the decoder and the check of its
  geometry is an interleaving of the threads of the grid, each of them a scalar machine, in which a
  thread that passed a barrier waits for its block; the global memory is the one that run leaves. When
  the launch succeeds, every thread has retired; when it faults, the machine is stuck for that reason.\<close>

theorem launch_refines_grid_machine:
  assumes "decode_program 0 (code_words p) = Inr program" and "dim_count grid \<noteq> 0" and "dim_count blk \<noteq> 0"
    and "launch env p grid blk ps g = Some (r, g')"
  shows "\<exists>G. grid_run env program ps (threads grid blk) (grid_start program (threads grid blk) (shared_bytes p) g) G \<and>
    grid_global (grid_memory G) = g' \<and>
    (case r of Inr _ \<Rightarrow> \<forall>t \<in> threads grid blk. \<not> unretired G t
     | Inl f \<Rightarrow> stuck env program ps (threads grid blk) G f)"
  using assms by (rule launch_threads)

theorem launch_refines_grid_machine_witness:
  "\<exists>G. grid_run example_fp_env [exit_instruction] [] (threads \<lparr>dim_x = 1, dim_y = 1\<rparr> \<lparr>dim_x = 1, dim_y = 1\<rparr>)
      (grid_start [exit_instruction] (threads \<lparr>dim_x = 1, dim_y = 1\<rparr> \<lparr>dim_x = 1, dim_y = 1\<rparr>) 0 []) G \<and>
    (\<forall>t \<in> threads \<lparr>dim_x = 1, dim_y = 1\<rparr> \<lparr>dim_x = 1, dim_y = 1\<rparr>. \<not> unretired G t)"
proof -
  obtain st where run: "launch example_fp_env exit_program \<lparr>dim_x = 1, dim_y = 1\<rparr> \<lparr>dim_x = 1, dim_y = 1\<rparr> [] [] = Some (Inr st, [])"
    using exit_launch by blast
  have "dim_count \<lparr>dim_x = 1, dim_y = 1\<rparr> \<noteq> 0" by (simp add: dim_count_def)
  from launch_refines_grid_machine [OF exit_program_decodes this this run] show ?thesis
    by (auto simp: exit_program_def)
qed

end
