(* ===== verification/Kernel_Logic.thy ===== *)
theory Kernel_Logic
  imports Grid_Refinement
begin

text \<open>
  Reasoning about kernels over the grid machine. A property of every thread that survives its own
  steps and the steps of the other threads (\<open>thread_property\<close>) holds in every run; if no access is refused under it
  (\<open>thread_invariant\<close>) a launch ends without an access fault, and if a measure of the thread decreases under it
  (\<open>thread_variant\<close>) a launch returns. The main instance is the separated kernel, whose threads
  read no word that any thread writes: the launch is then the parallel composition of the threads run
  alone, whatever the warps, the divergence and the schedule are.
\<close>

section \<open>Invariants of threads\<close>

locale thread_property =
  fixes env :: fp_env and program :: "Instruction list" and ps :: "u32 list" and T :: "Thread set"
    and J :: "Thread \<Rightarrow> GridMemory \<Rightarrow> LaneState \<Rightarrow> bool"
  assumes own: "t \<in> T \<Longrightarrow> J t M L \<Longrightarrow> thread_step env program ps t L M = Inr (L', M') \<Longrightarrow> J t M' L'"
    and other: "t \<in> T \<Longrightarrow> t' \<in> T \<Longrightarrow> t' \<noteq> t \<Longrightarrow> J t M L \<Longrightarrow> J t' M K \<Longrightarrow>
      thread_step env program ps t L M = Inr (L', M') \<Longrightarrow> J t' M' K"
begin

definition everywhere :: "GridState \<Rightarrow> bool" where
  "everywhere G \<longleftrightarrow> (\<forall>t \<in> T. J t (grid_memory G) (thread_state G t))"

lemma everywhere_start:
  "(\<And>t. t \<in> T \<Longrightarrow> J t (grid_memory (grid_start program T sh g)) (start_lane program)) \<Longrightarrow>
    everywhere (grid_start program T sh g)"
  by (simp add: everywhere_def) (simp add: grid_start_def)

lemma everywhere_run: "grid_run env program ps T G G' \<Longrightarrow> everywhere G \<Longrightarrow> everywhere G'"
proof (induction rule: grid_run.induct)
  case (step G1 t L M)
  have J: "J u (grid_memory G1) (thread_state G1 u)" if "u \<in> T" for u
    using step.IH [OF step.prems] that by (simp add: everywhere_def)
  have "J t M L" using own [OF step.hyps(2) J [OF step.hyps(2)] step.hyps(4)] .
  moreover have "J u M (thread_state G1 u)" if "u \<in> T" "u \<noteq> t" for u
    using other [OF step.hyps(2) that J [OF step.hyps(2)] J [OF that(1)] step.hyps(4)] .
  ultimately show ?case by (simp add: everywhere_def)
qed

end

text \<open>An invariant under which no access is refused.\<close>

locale thread_invariant = thread_property +
  assumes accepted: "t \<in> T \<Longrightarrow> J t M L \<Longrightarrow> thread_step env program ps t L M \<noteq> Inl e"
begin

text \<open>Only a barrier in divergent code can stop a thread.\<close>

lemma everywhere_stuck:
  assumes "everywhere G" "stuck env program ps T G f"
  obtains t where "t \<in> T" "stands_at_barrier program G t"
  using assms accepted by (fastforce simp: everywhere_def stuck_def)

lemma launch_everywhere:
  assumes launched: "T = threads grid blk" "decode_program 0 (code_words p) = Inr program"
      "dim_count grid \<noteq> 0" "dim_count blk \<noteq> 0" "launch env p grid blk ps g = Some (r, g')"
    and init: "\<And>t. t \<in> T \<Longrightarrow> J t (grid_memory (grid_start program T (shared_bytes p) g)) (start_lane program)"
    and bar: "\<And>t M L pc. t \<in> T \<Longrightarrow> J t M L \<Longrightarrow> lane_pc L = Some pc \<Longrightarrow> opcode (program ! unat pc) \<noteq> BarSync"
  obtains st G where "r = Inr st" "grid_run env program ps T (grid_start program T (shared_bytes p) g) G"
    "grid_global (grid_memory G) = g'"
    "\<And>t. t \<in> T \<Longrightarrow> lane_pc (thread_state G t) = None \<and> J t (grid_memory G) (thread_state G t)"
proof -
  from launch_threads [OF launched(2-5)] launched(1) obtain G where
    run: "grid_run env program ps T (grid_start program T (shared_bytes p) g) G"
    and g': "grid_global (grid_memory G) = g'"
    and r: "case r of Inr _ \<Rightarrow> \<forall>t \<in> T. \<not> unretired G t | Inl f \<Rightarrow> stuck env program ps T G f"
    by metis
  from everywhere_run [OF run everywhere_start [OF init]] have J: "everywhere G" .
  show thesis
  proof (cases r)
    case (Inl f)
    with r everywhere_stuck [OF J] obtain t where "t \<in> T" "stands_at_barrier program G t" by auto
    moreover from this obtain pc where "lane_pc (thread_state G t) = Some pc" "opcode (program ! unat pc) = BarSync"
      by (auto simp: stands_at_barrier_def split: option.splits)
    moreover have "J t (grid_memory G) (thread_state G t)" using J \<open>t \<in> T\<close> by (simp add: everywhere_def)
    ultimately show thesis using bar by blast
  next
    case (Inr st)
    with r J have "lane_pc (thread_state G t) = None \<and> J t (grid_memory G) (thread_state G t)" if "t \<in> T" for t
      using that by (auto simp: everywhere_def unretired_def)
    with that Inr run g' show thesis by blast
  qed
qed

end

text \<open>A measure that every step of a thread decreases, under the invariant, bounds the runs, so that a launch returns.\<close>

locale thread_variant = thread_property +
  fixes left :: "LaneState \<Rightarrow> nat"
  assumes descends: "t \<in> T \<Longrightarrow> J t M L \<Longrightarrow> lane_pc L \<noteq> None \<Longrightarrow>
      thread_step env program ps t L M = Inr (L', M') \<Longrightarrow> left L' < left L"
begin

lemma variant_run:
  assumes "grid_run env program ps T G G'" "everywhere G" "t \<in> T"
  shows "steps_taken G' t + left (thread_state G' t) \<le> steps_taken G t + left (thread_state G t)"
  using assms
proof (induction rule: grid_run.induct)
  case (step G1 u L M)
  note IH = step.IH [OF step.prems]
  have "everywhere G1" by (rule everywhere_run [OF step.hyps(1) step.prems(1)])
  then have "J u (grid_memory G1) (thread_state G1 u)" using step.hyps(2) by (simp add: everywhere_def)
  from descends [OF step.hyps(2) this _ step.hyps(4)] step.hyps(3) have "left L < left (thread_state G1 u)"
    by (simp add: may_step_def unretired_def)
  with IH show ?case by (auto simp: advance_thread_def)
qed simp

lemma variant_launch:
  assumes "T = threads grid blk" "decode_program 0 (code_words p) = Inr program"
    and "\<And>t. t \<in> T \<Longrightarrow> J t (grid_memory (grid_start program T (shared_bytes p) g)) (start_lane program)"
  shows "\<exists>r g'. launch env p grid blk ps g = Some (r, g')"
proof -
  have "bounded_runs env program ps T (grid_start program T (shared_bytes p) g) (left (start_lane program))"
    using variant_run [OF _ everywhere_start [OF assms(3)]]
    by (fastforce simp: bounded_runs_def grid_start_def)
  with launch_returns [OF assms(2)] assms(1) show ?thesis by simp
qed

end

section \<open>Forward programs\<close>

definition forward_inv :: "Instruction list \<Rightarrow> Thread \<Rightarrow> GridMemory \<Rightarrow> LaneState \<Rightarrow> bool" where
  "forward_inv program t M L \<longleftrightarrow> forward_only program \<and> length program \<le> 65535 \<and>
    (\<forall>pc. lane_pc L = Some pc \<longrightarrow> unat pc < length program)"

lemma thread_step_lane:
  assumes "thread_step env program ps t L M = Inr (L', M')"
  shows "L' = lane_step env (loader block_port (block_view ps (context_of t) M)) program (context_of t) (lane_number t) L"
  using assms by (auto simp: thread_step_def Let_def fail_def lane_step_def split: option.splits if_splits sum.splits)

lemma lane_step_in_program:
  assumes "\<forall>pc. lane_pc L = Some pc \<longrightarrow> unat pc < length program"
    and "lane_pc (lane_step env ld program ctx l L) = Some pc"
  shows "unat pc < length program"
  using assms by (auto simp: lane_step_def Let_def in_program_def split: option.splits if_splits)

interpretation forward: thread_variant env program ps T "forward_inv program" "lane_weight (length program)"
  for env program ps T
proof unfold_locales
  fix t M L L' M'
  assume J: "forward_inv program t M L" and step: "thread_step env program ps t L M = Inr (L', M')"
  show "forward_inv program t M' L'"
    using J unfolding thread_step_lane [OF step] forward_inv_def by (blast intro: lane_step_in_program)
  assume "lane_pc L \<noteq> None"
  with J show "lane_weight (length program) L' < lane_weight (length program) L"
    unfolding thread_step_lane [OF step] by (auto simp: forward_inv_def intro: lane_step_weight)
qed (simp add: forward_inv_def)

lemma forward_variant_launch:
  assumes "decode_program 0 (code_words p) = Inr program" "forward_only program" "length program \<le> 65535"
  shows "\<exists>r g'. launch env p grid blk ps g = Some (r, g')"
  using assms by (intro forward.variant_launch [OF refl]) (auto simp: forward_inv_def start_lane_def split: if_splits)

section \<open>A thread on its own\<close>

definition pending_access :: "Instruction list \<Rightarrow> LaneState \<Rightarrow> Instruction option" where
  "pending_access program L =
    (case lane_pc L of
       None \<Rightarrow> None
     | Some pc \<Rightarrow>
         let i = program ! unat pc
         in if is_memory_opcode (opcode i) \<and> lane_guard i (lane_cells L) then Some i else None)"

definition pending_store :: "Instruction list \<Rightarrow> LaneState \<Rightarrow> (u32 \<times> u32) option" where
  "pending_store program L =
    (case pending_access program L of
       None \<Rightarrow> None
     | Some i \<Rightarrow>
         if is_store_opcode (opcode i)
         then Some (lane_address i (lane_cells L), fst (lane_cells L) (src1 i)) else None)"

text \<open>The thread stepped \<open>k\<close> times on the memory the launch starts with.\<close>

definition solo :: "fp_env \<Rightarrow> Instruction list \<Rightarrow> u32 list \<Rightarrow> ByteMemory \<Rightarrow> Thread \<Rightarrow> nat \<Rightarrow> LaneState" where
  "solo env program ps g t k =
    (lane_step env (loader block_port (block_memory g 0 ps)) program (context_of t) (lane_number t) ^^ k)
      (start_lane program)"

definition stores_to ::
    "fp_env \<Rightarrow> Instruction list \<Rightarrow> u32 list \<Rightarrow> Thread set \<Rightarrow> ByteMemory \<Rightarrow> u32 \<Rightarrow> u32 \<Rightarrow> bool" where
  "stores_to env program ps T g a v \<longleftrightarrow>
    (\<exists>t \<in> T. \<exists>k. pending_store program (solo env program ps g t k) = Some (a, v))"

definition access_allowed ::
    "fp_env \<Rightarrow> Instruction list \<Rightarrow> u32 list \<Rightarrow> Thread set \<Rightarrow> ByteMemory \<Rightarrow> Instruction \<Rightarrow> u32 \<Rightarrow> bool" where
  "access_allowed env program ps T g i a \<longleftrightarrow>
    (case memory_space (opcode i) of
       Shared \<Rightarrow> False
     | Param \<Rightarrow> unat a < length ps
     | Global \<Rightarrow> accessible a (length g) \<and>
         (\<not> is_store_opcode (opcode i) \<longrightarrow> (\<forall>v. \<not> stores_to env program ps T g a v)))"

text \<open>A separated kernel: alone, every thread reads parameters and words of global memory that no
  thread writes, stays inside the memory, and two stores to one word write the same value.\<close>

definition separated :: "fp_env \<Rightarrow> Instruction list \<Rightarrow> u32 list \<Rightarrow> Thread set \<Rightarrow> ByteMemory \<Rightarrow> bool" where
  "separated env program ps T g \<longleftrightarrow>
    (\<forall>i \<in> set program. opcode i \<noteq> BarSync) \<and>
    (\<forall>t \<in> T. \<forall>k i. pending_access program (solo env program ps g t k) = Some i \<longrightarrow>
      access_allowed env program ps T g i (lane_address i (lane_cells (solo env program ps g t k)))) \<and>
    (\<forall>a v v'. stores_to env program ps T g a v \<longrightarrow> stores_to env program ps T g a v' \<longrightarrow> v' = v)"

definition solo_inv ::
    "fp_env \<Rightarrow> Instruction list \<Rightarrow> u32 list \<Rightarrow> Thread set \<Rightarrow> ByteMemory \<Rightarrow> Thread \<Rightarrow> GridMemory \<Rightarrow> LaneState \<Rightarrow> bool"
where
  "solo_inv env program ps T g t M L \<longleftrightarrow>
    separated env program ps T g \<and> t \<in> T \<and> length (grid_global M) = length g \<and>
    (\<exists>k. L = solo env program ps g t k \<and>
      (\<forall>j < k. \<forall>a v. pending_store program (solo env program ps g t j) = Some (a, v) \<longrightarrow>
        load32 a 0 (grid_global M) = Inr v)) \<and>
    (\<forall>a. (\<forall>v. \<not> stores_to env program ps T g a v) \<longrightarrow> load32 a 0 (grid_global M) = load32 a 0 g)"

lemma solo_0 [simp]: "solo env program ps g t 0 = start_lane program"
  by (simp add: solo_def)

lemma solo_Suc:
  "solo env program ps g t (Suc k) =
    lane_step env (loader block_port (block_memory g 0 ps)) program (context_of t) (lane_number t)
      (solo env program ps g t k)"
  by (simp add: solo_def)

section \<open>A separated kernel\<close>

text \<open>The only part of a step that looks at the memory is a load.\<close>

lemma lane_step_loader:
  assumes "\<And>i. pending_access program L = Some i \<Longrightarrow> \<not> is_store_opcode (opcode i) \<Longrightarrow>
      ld (memory_space (opcode i)) (lane_address i (lane_cells L)) l =
      ld' (memory_space (opcode i)) (lane_address i (lane_cells L)) l"
  shows "lane_step env ld program ctx l L = lane_step env ld' program ctx l L"
proof (cases "lane_pc L")
  case (Some pc)
  have "lane_effect env ld ctx l (program ! unat pc) (lane_cells L) =
      lane_effect env ld' ctx l (program ! unat pc) (lane_cells L)"
    if "lane_guard (program ! unat pc) (lane_cells L)"
    using assms Some that by (auto simp: lane_effect_def pending_access_def)
  with Some show ?thesis by (simp add: lane_step_def Let_def)
qed simp

lemma loader_spaces:
  "loader block_port m Global a l = load32 a l (global m)"
  "loader block_port m Shared a l = load32 a l (shared m)"
  "unat a < length (params m) \<Longrightarrow> loader block_port m Param a l = Inr (params m ! unat a)"
  by (simp_all add: loader_def block_port_def)

lemma load32_lane: "accessible a (length bytes) \<Longrightarrow> load32 a l bytes = load32 a l' bytes"
  by (rule check_cases [of a l bytes]; rule check_cases [of a l' bytes]) (simp_all add: load32_def)

lemma load32_value: "accessible a (length bytes) \<Longrightarrow> \<exists>v. load32 a l bytes = Inr v"
  using load32_ok [of a l bytes] by (cases "load32 a l bytes") auto

text \<open>A step of a thread of a separated kernel, on a memory that agrees with the first memory on the
  words nobody stores to.\<close>

lemma separated_step:
  assumes sep: "separated env program ps T g" and t: "t \<in> T" and len: "length (grid_global M) = length g"
    and L: "L = solo env program ps g t k"
    and clean: "\<forall>a. (\<forall>v. \<not> stores_to env program ps T g a v) \<longrightarrow> load32 a 0 (grid_global M) = load32 a 0 g"
  shows "case pending_store program L of
      None \<Rightarrow> thread_step env program ps t L M = Inr (solo env program ps g t (Suc k), M)
    | Some (a, v) \<Rightarrow> \<exists>M'. store32 a v (lane_number t) (grid_global M) = Inr (grid_global M') \<and>
        thread_step env program ps t L M = Inr (solo env program ps g t (Suc k), M')"
proof -
  let ?m = "block_view ps (context_of t) M" and ?l = "lane_number t"
  define L' where "L' = lane_step env (loader block_port ?m) program (context_of t) ?l L"
  have allowed: "access_allowed env program ps T g i (lane_address i (lane_cells L))"
    if "pending_access program L = Some i" for i
    using sep t that L by (auto simp: separated_def)
  have load: "\<exists>v. loader block_port ?m (memory_space (opcode i)) (lane_address i (lane_cells L)) ?l = Inr v \<and>
      loader block_port (block_memory g 0 ps) (memory_space (opcode i)) (lane_address i (lane_cells L)) ?l = Inr v"
    if i: "pending_access program L = Some i" "\<not> is_store_opcode (opcode i)" for i
  proof -
    define a where "a = lane_address i (lane_cells L)"
    have ok: "access_allowed env program ps T g i a" using allowed [OF i(1)] by (simp add: a_def)
    have "\<exists>v. loader block_port ?m (memory_space (opcode i)) a ?l = Inr v \<and>
        loader block_port (block_memory g 0 ps) (memory_space (opcode i)) a ?l = Inr v"
    proof (cases "memory_space (opcode i)")
      case Global
      with ok i(2) have acc: "accessible a (length g)" and "load32 a 0 (grid_global M) = load32 a 0 g"
        using clean by (auto simp: access_allowed_def)
      then have "load32 a ?l (grid_global M) = load32 a ?l g"
        using load32_lane [of a _ ?l 0] len by metis
      with Global load32_value [OF acc] show ?thesis
        by (simp add: loader_spaces) (simp add: block_view_def block_memory_def)
    qed (use ok in \<open>simp_all add: access_allowed_def loader_spaces block_view_def block_memory_def\<close>)
    then show ?thesis by (simp add: a_def)
  qed
  have L': "L' = solo env program ps g t (Suc k)"
    unfolding L'_def solo_Suc L [symmetric] by (rule lane_step_loader) (use load in fastforce)
  show ?thesis
  proof (cases "pending_access program L")
    case None
    then have "thread_step env program ps t L M = Inr (L', M)"
      by (auto simp: pending_access_def thread_step_def L'_def Let_def split: option.splits if_splits)
    with None show ?thesis by (simp add: pending_store_def L')
  next
    case (Some i)
    define a where "a = lane_address i (lane_cells L)"
    have st: "thread_step env program ps t L M =
        (case thread_access ps t i (lane_cells L) M of Inl e \<Rightarrow> fail e | Inr M' \<Rightarrow> Inr (L', M'))"
      unfolding L'_def using Some
      by (auto simp: pending_access_def thread_step_def Let_def split: option.splits if_splits)
    show ?thesis
    proof (cases "is_store_opcode (opcode i)")
      case True
      have "accessible a (length (grid_global M))" and sp: "memory_space (opcode i) = Global"
        using allowed [OF Some] True len
        by (auto simp: access_allowed_def a_def is_store_opcode_def split: Space.splits)
      then obtain g' where g': "store32 a (fst (lane_cells L) (src1 i)) ?l (grid_global M) = Inr g'"
        using store32_eq_Inr by blast
      then have "thread_access ps t i (lane_cells L) M = Inr (with_block (context_of t) (?m\<lparr>global := g'\<rparr>) M)"
        using True sp by (simp add: thread_access_def a_def Let_def) (simp add: block_view_def)
      with Some True g' st show ?thesis
        by (auto simp: pending_store_def L' a_def with_block_def)
    next
      case False
      from load [OF Some False] obtain v where "loader block_port ?m (memory_space (opcode i)) a ?l = Inr v"
        by (auto simp: a_def)
      then have "thread_access ps t i (lane_cells L) M = Inr M"
        using False by (auto simp: thread_access_def a_def loader_def block_port_def Let_def split: prod.splits)
      with Some False st show ?thesis by (simp add: pending_store_def L')
    qed
  qed
qed

text \<open>A store of a separated kernel keeps what the other stores wrote and the words nobody stores to.\<close>

lemma separated_store:
  assumes sep: "separated env program ps T g" and here: "stores_to env program ps T g a v"
    and st: "store32 a v l bytes = Inr bytes'"
  shows "stores_to env program ps T g a' v' \<Longrightarrow> load32 a' 0 bytes = Inr v' \<Longrightarrow> load32 a' 0 bytes' = Inr v'"
    and "\<forall>v. \<not> stores_to env program ps T g a' v \<Longrightarrow> load32 a' 0 bytes' = load32 a' 0 bytes"
proof -
  have "a' = a \<Longrightarrow> stores_to env program ps T g a' v' \<Longrightarrow> v' = v"
    using sep here by (auto simp: separated_def)
  then show "stores_to env program ps T g a' v' \<Longrightarrow> load32 a' 0 bytes = Inr v' \<Longrightarrow> load32 a' 0 bytes' = Inr v'"
    using load32_store32 [OF st, of a' 0] by auto
  show "\<forall>v. \<not> stores_to env program ps T g a' v \<Longrightarrow> load32 a' 0 bytes' = load32 a' 0 bytes"
    using load32_store32 [OF st, of a' 0] here by auto
qed

lemma solo_history:
  "solo_inv env program ps T g t M L \<Longrightarrow> \<exists>k. L = solo env program ps g t k \<and>
    (\<forall>j < k. \<forall>a v. pending_store program (solo env program ps g t j) = Some (a, v) \<longrightarrow>
      load32 a 0 (grid_global M) = Inr v)"
  by (simp add: solo_inv_def)

lemma solo_own:
  assumes J: "solo_inv env program ps T g t M L"
  shows "\<exists>L' M'. thread_step env program ps t L M = Inr (L', M') \<and> solo_inv env program ps T g t M' L'"
proof -
  from J obtain k where sep: "separated env program ps T g" and t: "t \<in> T"
    and len: "length (grid_global M) = length g" and L: "L = solo env program ps g t k"
    and past: "\<And>j a v. j < k \<Longrightarrow> pending_store program (solo env program ps g t j) = Some (a, v) \<Longrightarrow>
      load32 a 0 (grid_global M) = Inr v"
    and clean: "\<forall>a. (\<forall>v. \<not> stores_to env program ps T g a v) \<longrightarrow> load32 a 0 (grid_global M) = load32 a 0 g"
    unfolding solo_inv_def by blast
  note step = separated_step [OF sep t len L clean]
  show ?thesis
  proof (cases "pending_store program L")
    case None
    then have "load32 a 0 (grid_global M) = Inr v"
      if "j < Suc k" "pending_store program (solo env program ps g t j) = Some (a, v)" for j a v
      using past that L by (cases "j = k") (auto simp: less_Suc_eq)
    then have "solo_inv env program ps T g t M (solo env program ps g t (Suc k))"
      unfolding solo_inv_def using sep t len clean by blast
    with None step show ?thesis by auto
  next
    case (Some av)
    then obtain a v where av: "pending_store program L = Some (a, v)" by (cases av) auto
    with step obtain g' M' where g': "store32 a v (lane_number t) (grid_global M) = Inr g'"
      and M': "grid_global M' = g'"
      and ts: "thread_step env program ps t L M = Inr (solo env program ps g t (Suc k), M')"
      by auto
    have here: "stores_to env program ps T g a v" using av L t unfolding stores_to_def by blast
    note kept = separated_store [OF sep here g']
    have "load32 a' 0 g' = Inr v'"
      if "j < Suc k" "pending_store program (solo env program ps g t j) = Some (a', v')" for j a' v'
    proof (cases "j = k")
      case True
      with that av L load32_store32 [OF g', of a 0] show ?thesis by simp
    next
      case False
      have "stores_to env program ps T g a' v'" using that t unfolding stores_to_def by blast
      with kept(1) past [OF _ that(2)] that(1) False show ?thesis by (simp add: less_Suc_eq)
    qed
    moreover have "\<forall>a. (\<forall>v. \<not> stores_to env program ps T g a v) \<longrightarrow> load32 a 0 g' = load32 a 0 g"
      using clean kept(2) by metis
    ultimately have "solo_inv env program ps T g t M' (solo env program ps g t (Suc k))"
      unfolding solo_inv_def M' using sep t len store32_length [OF g'] by metis
    with ts show ?thesis by blast
  qed
qed

lemma solo_other:
  assumes J: "solo_inv env program ps T g t M L" and K: "solo_inv env program ps T g t' M K"
    and step: "thread_step env program ps t L M = Inr (L', M')"
  shows "solo_inv env program ps T g t' M' K"
proof -
  from J obtain k where sep: "separated env program ps T g" and t: "t \<in> T"
    and len: "length (grid_global M) = length g" and L: "L = solo env program ps g t k"
    and clean: "\<forall>a. (\<forall>v. \<not> stores_to env program ps T g a v) \<longrightarrow> load32 a 0 (grid_global M) = load32 a 0 g"
    unfolding solo_inv_def by blast
  note own = separated_step [OF sep t len L clean]
  show ?thesis
  proof (cases "pending_store program L")
    case None
    with own step K show ?thesis by simp
  next
    case (Some av)
    then obtain a v where av: "pending_store program L = Some (a, v)" by (cases av) auto
    with own step obtain g' where g': "store32 a v (lane_number t) (grid_global M) = Inr g'"
      and gM: "grid_global M' = g'" by auto
    have "stores_to env program ps T g a v" using av L t unfolding stores_to_def by blast
    note kept = separated_store [OF sep this g']
    from K obtain j where t': "t' \<in> T" and j: "K = solo env program ps g t' j"
      and past: "\<And>i a v. i < j \<Longrightarrow> pending_store program (solo env program ps g t' i) = Some (a, v) \<Longrightarrow>
        load32 a 0 (grid_global M) = Inr v"
      unfolding solo_inv_def by blast
    have "load32 a' 0 g' = Inr v'"
      if "i < j" "pending_store program (solo env program ps g t' i) = Some (a', v')" for i a' v'
    proof -
      have "stores_to env program ps T g a' v'" using that t' unfolding stores_to_def by blast
      with kept(1) past [OF that] show ?thesis by simp
    qed
    moreover have "\<forall>a. (\<forall>v. \<not> stores_to env program ps T g a v) \<longrightarrow> load32 a 0 g' = load32 a 0 g"
      using clean kept(2) by metis
    ultimately show ?thesis
      unfolding solo_inv_def gM using sep t' len store32_length [OF g'] j by metis
  qed
qed

interpretation separated: thread_invariant env program ps T "solo_inv env program ps T g"
  for env program ps T g
proof unfold_locales
  fix t M L L' M' assume J: "solo_inv env program ps T g t M L" and "thread_step env program ps t L M = Inr (L', M')"
  with solo_own [OF J] show "solo_inv env program ps T g t M' L'" by auto
next
  fix t M L e assume J: "solo_inv env program ps T g t M L"
  from solo_own [OF J] show "thread_step env program ps t L M \<noteq> Inl e" by auto
qed (rule solo_other)

section \<open>The launch of a separated kernel\<close>

lemma grid_run_empty: "grid_run env program ps {} G G' \<Longrightarrow> G' = G"
  by (induction rule: grid_run.induct) simp_all

lemma solo_in_program: "lane_pc (solo env program ps g t k) = Some pc \<Longrightarrow> unat pc < length program"
proof (induction k arbitrary: pc)
  case 0
  then show ?case by (simp add: start_lane_def split: if_splits)
next
  case (Suc k)
  from Suc.prems show ?case unfolding solo_Suc by (rule lane_step_in_program [rotated]) (use Suc.IH in blast)
qed

lemma solo_retired:
  assumes "lane_pc (solo env program ps g t k) = None" "k \<le> j"
  shows "solo env program ps g t j = solo env program ps g t k"
  using lane_run_fixed [OF assms(1) [unfolded solo_def] assms(2)] by (simp add: solo_def)

lemma solo_start:
  assumes "separated env program ps T g" "t \<in> T"
  shows "solo_inv env program ps T g t (grid_memory (grid_start program T sh g)) (start_lane program)"
  using assms by (auto simp: solo_inv_def grid_start_def intro: exI [of _ 0])

lemma launch_separated:
  assumes launched: "decode_program 0 (code_words p) = Inr program" "dim_count grid \<noteq> 0" "dim_count blk \<noteq> 0"
      "launch env p grid blk ps g = Some (r, g')"
    and sep: "separated env program ps (threads grid blk) g"
  shows "(\<exists>st. r = Inr st) \<and> length g' = length g \<and>
    (\<forall>a v. stores_to env program ps (threads grid blk) g a v \<longrightarrow> load32 a 0 g' = Inr v) \<and>
    (\<forall>a. (\<forall>v. \<not> stores_to env program ps (threads grid blk) g a v) \<longrightarrow> load32 a 0 g' = load32 a 0 g) \<and>
    (\<forall>t \<in> threads grid blk. \<exists>k. lane_pc (solo env program ps g t k) = None)"
proof -
  define T where "T = threads grid blk"
  note sep = sep [folded T_def]
  note start = solo_start [OF sep]
  have "opcode (program ! unat pc) \<noteq> BarSync" if J: "solo_inv env program ps T g t M L" and pc: "lane_pc L = Some pc"
    for t M L pc
  proof -
    from J obtain k where "L = solo env program ps g t k" unfolding solo_inv_def by blast
    with pc solo_in_program have "program ! unat pc \<in> set program" by fastforce
    with sep show ?thesis by (auto simp: separated_def)
  qed
  with separated.launch_everywhere [OF T_def launched start] obtain st G where
    r: "r = Inr st" and run: "grid_run env program ps T (grid_start program T (shared_bytes p) g) G"
    and g': "grid_global (grid_memory G) = g'"
    and fin: "\<And>t. t \<in> T \<Longrightarrow> lane_pc (thread_state G t) = None \<and> solo_inv env program ps T g t (grid_memory G) (thread_state G t)"
    by metis
  have stored: "load32 a 0 g' = Inr v" if "stores_to env program ps T g a v" for a v
  proof -
    from that obtain t j where t: "t \<in> T" "pending_store program (solo env program ps g t j) = Some (a, v)"
      unfolding stores_to_def by blast
    from solo_history [OF conjunct2 [OF fin [OF t(1)]], unfolded g'] conjunct1 [OF fin [OF t(1)]]
    obtain k where k: "lane_pc (solo env program ps g t k) = None"
      "\<forall>j < k. \<forall>a v. pending_store program (solo env program ps g t j) = Some (a, v) \<longrightarrow> load32 a 0 g' = Inr v"
      by (elim exE conjE) simp
    have "j < k"
    proof (rule ccontr)
      assume "\<not> j < k"
      with solo_retired [OF k(1), of j] k(1) have "lane_pc (solo env program ps g t j) = None" by simp
      with t(2) show False by (simp add: pending_store_def pending_access_def)
    qed
    with k(2) t(2) show ?thesis by blast
  qed
  have rest: "length g' = length g \<and>
      (\<forall>a. (\<forall>v. \<not> stores_to env program ps T g a v) \<longrightarrow> load32 a 0 g' = load32 a 0 g)"
  proof (cases "T = {}")
    case True
    with grid_run_empty run have "G = grid_start program T (shared_bytes p) g" by blast
    with g' show ?thesis by (auto simp: grid_start_def)
  next
    case False
    then obtain t where "t \<in> T" by blast
    with fin show ?thesis unfolding solo_inv_def g' by blast
  qed
  have "\<exists>k. lane_pc (solo env program ps g t k) = None" if "t \<in> T" for t
    using solo_history [OF conjunct2 [OF fin [OF that]]] conjunct1 [OF fin [OF that]]
    by (elim exE conjE) (auto intro: exI)
  with r stored rest show ?thesis unfolding T_def by blast
qed

section \<open>When the launch of a separated kernel returns\<close>

text \<open>In every run a thread is where it is alone after as many steps.\<close>

lemma separated_run:
  assumes sep: "separated env program ps T g"
    and run: "grid_run env program ps T (grid_start program T sh g) G" and t: "t \<in> T"
  shows "solo_inv env program ps T g t (grid_memory G) (thread_state G t)"
    and "thread_state G t = solo env program ps g t (steps_taken G t)"
    and "j < steps_taken G t \<Longrightarrow> lane_pc (solo env program ps g t j) \<noteq> None"
proof -
  have inv: "solo_inv env program ps T g u (grid_memory G') (thread_state G' u)"
    if "grid_run env program ps T (grid_start program T sh g) G'" "u \<in> T" for G' u
  proof -
    from separated.everywhere_run [OF that(1) separated.everywhere_start [OF solo_start [OF sep]]] that(2)
    show ?thesis by (simp add: separated.everywhere_def)
  qed
  from inv [OF run t] show "solo_inv env program ps T g t (grid_memory G) (thread_state G t)" .
  have "thread_state G t = solo env program ps g t (steps_taken G t) \<and>
      (\<forall>j < steps_taken G t. lane_pc (solo env program ps g t j) \<noteq> None)"
    using run t
  proof (induction arbitrary: t rule: grid_run.induct)
    case start
    then show ?case by (simp add: grid_start_def)
  next
    case (step G1 u L M)
    show ?case
    proof (cases "t = u")
      case False
      with step.IH [OF step.prems] show ?thesis by (simp add: advance_thread_def)
    next
      case True
      let ?k = "steps_taken G1 u"
      note at = step.IH [OF step.hyps(2)]
      have J: "solo_inv env program ps T g u (grid_memory G1) (thread_state G1 u)" by (rule inv [OF step.hyps(1,2)])
      then have len: "length (grid_global (grid_memory G1)) = length g"
        and clean: "\<forall>a. (\<forall>v. \<not> stores_to env program ps T g a v) \<longrightarrow>
          load32 a 0 (grid_global (grid_memory G1)) = load32 a 0 g" by (simp_all add: solo_inv_def)
      have "L = solo env program ps g u (Suc ?k)"
        using separated_step [OF sep step.hyps(2) len conjunct1 [OF at] clean] step.hyps(4)
        by (auto split: option.splits prod.splits)
      moreover have "lane_pc (solo env program ps g u ?k) \<noteq> None"
        using step.hyps(3) at by (simp add: may_step_def unretired_def)
      ultimately show ?thesis using at True by (auto simp: advance_thread_def less_Suc_eq)
    qed
  qed
  then show "thread_state G t = solo env program ps g t (steps_taken G t)"
    "j < steps_taken G t \<Longrightarrow> lane_pc (solo env program ps g t j) \<noteq> None" by blast+
qed

lemma separated_bounded:
  assumes sep: "separated env program ps T g" and fin: "finite T"
    and retires: "\<forall>t \<in> T. \<exists>k. lane_pc (solo env program ps g t k) = None"
  shows "\<exists>n. bounded_runs env program ps T (grid_start program T sh g) n"
proof -
  from retires obtain last where last: "\<And>t. t \<in> T \<Longrightarrow> lane_pc (solo env program ps g t (last t)) = None"
    by metis
  have "steps_taken G t \<le> (\<Sum>t \<in> T. last t)"
    if run: "grid_run env program ps T (grid_start program T sh g) G" and t: "t \<in> T" for G t
  proof -
    have "steps_taken G t \<le> last t"
      using separated_run(3) [OF sep run t, of "last t"] last [OF t] by (meson not_le)
    also have "\<dots> \<le> (\<Sum>t \<in> T. last t)" using t fin by (intro member_le_sum) simp_all
    finally show ?thesis .
  qed
  then show ?thesis unfolding bounded_runs_def by blast
qed

lemma launch_separated_returns:
  assumes "decode_program 0 (code_words p) = Inr program" and "separated env program ps (threads grid blk) g"
    and "\<forall>t \<in> threads grid blk. \<exists>k. lane_pc (solo env program ps g t k) = None"
  shows "\<exists>r g'. launch env p grid blk ps g = Some (r, g')"
  using separated_bounded [OF assms(2) finite_threads assms(3)] launch_returns [OF assms(1)] by blast

section \<open>Separated kernels and reconvergence points\<close>

lemma solo_same_paths:
  assumes "same_paths program program'"
  shows "solo env program' ps g t k = solo env program ps g t k"
proof -
  have "start_lane program' = start_lane program"
    using same_paths_nth(1) [OF assms] by (simp add: start_lane_def)
  moreover have "lane_pc (start_lane program) = in_program (length program) (lane_pc (start_lane program))"
    by (simp add: start_lane_def)
  ultimately show ?thesis using lane_run_same_paths [OF assms] by (simp add: solo_def)
qed

lemma pending_same_paths:
  assumes "same_paths program program'"
  shows "pending_access program' (solo env program ps g t k) = pending_access program (solo env program ps g t k)"
proof (cases "lane_pc (solo env program ps g t k)")
  case None
  then show ?thesis by (simp add: pending_access_def)
next
  case (Some pc)
  then have "unat pc < length program" by (rule solo_in_program)
  from forget_fields [OF same_paths_nth(2) [OF assms this]] Some show ?thesis
    by (cases "opcode (program ! unat pc) = Bra") (auto simp: pending_access_def Let_def)
qed

lemma stores_same_paths:
  assumes "same_paths program program'"
  shows "stores_to env program' ps T g = stores_to env program ps T g"
    and "access_allowed env program' ps T g = access_allowed env program ps T g"
proof -
  show stores: "stores_to env program' ps T g = stores_to env program ps T g"
    by (simp add: fun_eq_iff stores_to_def pending_store_def solo_same_paths [OF assms] pending_same_paths [OF assms])
  show "access_allowed env program' ps T g = access_allowed env program ps T g"
    unfolding access_allowed_def stores by (rule refl)
qed

lemma separated_same_paths:
  assumes same: "same_paths program program'" and sep: "separated env program ps T g"
  shows "separated env program' ps T g"
proof -
  have "opcode i \<noteq> BarSync" if "i \<in> set program'" for i
  proof -
    from that obtain k where k: "k < length program" "i = program' ! k"
      using same_paths_nth(1) [OF same] by (auto simp: in_set_conv_nth)
    with forget_fields(1) [OF same_paths_nth(2) [OF same k(1)]] sep show ?thesis by (auto simp: separated_def)
  qed
  with sep show ?thesis
    by (simp add: separated_def solo_same_paths [OF same] pending_same_paths [OF same]
        stores_same_paths [OF same])
qed

end
