(* ===== verification/Vector_Kernel.thy ===== *)
theory Vector_Kernel
  imports Kernel_Logic
begin

text \<open>
  The two shipped vector kernels, \<^verbatim>\<open>kernels/vecadd.wisa\<close> and \<^verbatim>\<open>kernels/vecadd_s32.wisa\<close>,
  which differ in one instruction. Run by the model of the simulator they add the arrays, for every
  geometry that covers them: the kernel is separated, so the launch is the composition of the threads
  run alone, and a thread run alone is twenty steps of the lane machine.
\<close>

unbundle bit_operations_syntax

section \<open>The kernels\<close>

definition instr :: "Opcode \<Rightarrow> u8 \<Rightarrow> u8 \<Rightarrow> u8 \<Rightarrow> Instruction" where
  "instr opc d a b = default_instruction\<lparr>opcode := opc, dst := d, src0 := a, src1 := b\<rparr>"

definition instr_imm :: "Opcode \<Rightarrow> u8 \<Rightarrow> u8 \<Rightarrow> u8 \<Rightarrow> u32 \<Rightarrow> Instruction" where
  "instr_imm opc d a b v = (instr opc d a b)\<lparr>imm_flag := True, imm := v\<rparr>"

text \<open>The code, with the opcode of the addition as a parameter. The assembler puts the address of
  \<^verbatim>\<open>done\<close> and the reconvergence point, the same instruction, into the branch.\<close>

definition vector_code :: "Opcode \<Rightarrow> Instruction list" where
  "vector_code opc =
    [instr MovSreg 0 (special_number TidX) 0,
     instr MovSreg 1 (special_number CtaidX) 0,
     instr MovSreg 2 (special_number NtidX) 0,
     instr Mul 1 1 2,
     instr Add 0 0 1,
     instr_imm LdParam 3 0 0 3,
     instr SetpGeS32 0 0 3,
     default_instruction\<lparr>opcode := Bra, guard := \<lparr>present = True, negate = False, gpred = 0\<rparr>,
       imm := make_branch_imm 19 19\<rparr>,
     instr_imm Shl 4 0 0 2,
     instr_imm LdParam 5 0 0 0,
     instr Add 5 5 4,
     instr_imm LdGlobal 6 5 0 0,
     instr_imm LdParam 7 0 0 1,
     instr Add 7 7 4,
     instr_imm LdGlobal 8 7 0 0,
     instr opc 6 6 8,
     instr_imm LdParam 9 0 0 2,
     instr Add 9 9 4,
     instr_imm StGlobal 0 9 6 0,
     instr Exit 0 0 0]"

definition vecadd_s32 :: Program where
  "vecadd_s32 = \<lparr>entry_name = ''vecadd_s32'', param_names = [''a'', ''b'', ''c'', ''n''], shared_bytes = 0,
     code_words = List.map encode_word (vector_code Add), label_names = [19 \<mapsto> ''done'']\<rparr>"

definition vecadd :: Program where
  "vecadd = \<lparr>entry_name = ''vecadd'', param_names = [''a'', ''b'', ''c'', ''n''], shared_bytes = 0,
     code_words = List.map encode_word (vector_code FAdd), label_names = [19 \<mapsto> ''done'']\<rparr>"

section \<open>One instruction of a straight piece of code\<close>

lemma lane_step_next:
  assumes "program ! unat pc = i" "opcode i \<noteq> Bra" "opcode i \<noteq> Exit" "\<not> present (guard i)"
    and "unat (pc + 1) < length program"
  shows "lane_step env ld program ctx l \<lparr>lane_pc = Some pc, lane_cells = cells\<rparr> =
    \<lparr>lane_pc = Some (pc + 1), lane_cells = lane_effect env ld ctx l i cells\<rparr>"
  using assms by (simp add: lane_step_def lane_guard_def lane_next_def Let_def)

lemma effect_alu:
  assumes "is_alu_opcode (opcode i)" "\<not> is_setp (opcode i)" "\<not> is_memory_opcode (opcode i)"
    and "shape (opcode_info (opcode i)) \<noteq> Rr"
  shows "lane_effect env ld ctx l i (f, q) =
    (f(dst i := evaluate env i \<lparr>op_a = f (src0 i), op_b = (if imm_flag i then imm i else f (src1 i))\<rparr> (f (dst i)) l ctx), q)"
  using assms
  by (simp add: lane_effect_def alu_lane_def fetch_def spread_def lane_view_def read_reg_def read_pred_def
      write_reg_def fun_eq_iff)

lemma effect_setp:
  assumes "is_alu_opcode (opcode i)" "is_setp (opcode i)" "\<not> is_setp_f32 (opcode i)" "\<not> is_memory_opcode (opcode i)"
    and "shape (opcode_info (opcode i)) \<noteq> Rr"
  shows "lane_effect env ld ctx l i (f, q) =
    (f, q(dst i := compare_s32 (opcode i) (f (src0 i)) (if imm_flag i then imm i else f (src1 i))))"
  using assms
  by (simp add: lane_effect_def alu_lane_def fetch_def spread_def lane_view_def read_reg_def read_pred_def
      write_pred_def fun_eq_iff)

lemma effect_load:
  assumes "is_memory_opcode (opcode i)" "\<not> is_store_opcode (opcode i)"
    and "ld (memory_space (opcode i)) (lane_address i (f, q)) l = Inr v"
  shows "lane_effect env ld ctx l i (f, q) = (f(dst i := v), q)"
  using assms by (simp add: lane_effect_def lane_load_def)

section \<open>A thread of a vector kernel on its own\<close>

definition vector_sum :: "fp_env \<Rightarrow> Opcode \<Rightarrow> u32 \<Rightarrow> u32 \<Rightarrow> u32" where
  "vector_sum env opc x y = (if opc = FAdd then f32_add env x y else x + y)"

text \<open>The states the thread goes through: \<open>i\<close> is its index, \<open>off\<close> its byte offset, \<open>x\<close> and \<open>y\<close> the
  words it loads, \<open>r\<close> what it stores and \<open>p\<close> the outcome of the bounds check.\<close>

definition state_at :: "u16 \<Rightarrow> (u8 \<Rightarrow> u32) \<Rightarrow> bool \<Rightarrow> LaneState" where
  "state_at pc f p = \<lparr>lane_pc = Some pc, lane_cells = (f, (\<lambda>_. False)(0 := p))\<rparr>"

definition vector_states ::
    "u32 \<Rightarrow> u32 \<Rightarrow> u32 \<Rightarrow> u32 \<Rightarrow> u32 list \<Rightarrow> u32 \<Rightarrow> u32 \<Rightarrow> u32 \<Rightarrow> u32 \<Rightarrow> bool \<Rightarrow> LaneState list" where
  "vector_states tid cta ntx i ps off x y r p =
    (let r0 = (\<lambda>_. 0);
         r1 = r0(0 := tid);
         r2 = r1(1 := cta);
         r3 = r2(2 := ntx);
         r4 = r3(1 := cta * ntx);
         r5 = r4(0 := i);
         r6 = r5(3 := ps ! 3);
         r9 = r6(4 := off);
         r10 = r9(5 := ps ! 0);
         r11 = r10(5 := ps ! 0 + off);
         r12 = r11(6 := x);
         r13 = r12(7 := ps ! 1);
         r14 = r13(7 := ps ! 1 + off);
         r15 = r14(8 := y);
         r16 = r15(6 := r);
         r17 = r16(9 := ps ! 2);
         r18 = r17(9 := ps ! 2 + off)
     in [state_at 0 r0 False, state_at 1 r1 False, state_at 2 r2 False, state_at 3 r3 False,
         state_at 4 r4 False, state_at 5 r5 False, state_at 6 r6 False, state_at 7 r6 p] @
        (if p then [state_at 19 r6 p, (state_at 19 r6 p)\<lparr>lane_pc := None\<rparr>]
         else [state_at 8 r6 p, state_at 9 r9 p, state_at 10 r10 p, state_at 11 r11 p, state_at 12 r12 p,
               state_at 13 r13 p, state_at 14 r14 p, state_at 15 r15 p, state_at 16 r16 p, state_at 17 r17 p,
               state_at 18 r18 p, state_at 19 r18 p, (state_at 19 r18 p)\<lparr>lane_pc := None\<rparr>]))"

lemma kernel_setp [simp]:
  "is_setp SetpGeS32" "\<not> is_setp_f32 SetpGeS32"
  "opc \<in> {MovSreg, Mul, Add, Shl, FAdd} \<Longrightarrow> \<not> is_setp opc"
  by (auto simp: is_setp_def is_setp_f32_def word_le_nat_alt)

lemma length_vector_code [simp]: "length (vector_code opc) = 20"
  by (simp add: vector_code_def)

lemma vector_branch_target: "branch_target (vector_code opc ! 7) = 19"
  by (simp add: vector_code_def branch_target_def make_branch_imm_def)

lemma state_step:
  assumes "program ! unat pc = i" "opcode i \<noteq> Bra" "opcode i \<noteq> Exit" "\<not> present (guard i)"
    and "unat (pc + 1) < length program"
    and "lane_effect env ld ctx l i (f, (\<lambda>_. False)(0 := p)) = (f', (\<lambda>_. False)(0 := p'))"
  shows "lane_step env ld program ctx l (state_at pc f p) = state_at (pc + 1) f' p'"
  using lane_step_next [OF assms(1-5), of env ld ctx l] assms(6) by (simp add: state_at_def)

lemma vector_steps:
  fixes env :: fp_env
  assumes opc: "opc = Add \<or> opc = FAdd" and ps: "length ps = 4"
    and prm: "\<And>k. k < 4 \<Longrightarrow> ld Param (of_nat k) l = Inr (ps ! k)"
    and word: "\<not> p \<Longrightarrow> ld Global (ps ! 0 + off) l = Inr x" "\<not> p \<Longrightarrow> ld Global (ps ! 1 + off) l = Inr y"
    and i: "i = tid + cta * ntx" and off: "off = push_bit 2 i" and p: "p = (as_s32 (ps ! 3) \<le> as_s32 i)"
    and r: "r = vector_sum env opc x y"
    and ctx: "tid = special ctx TidX l" "cta = special ctx CtaidX l" "ntx = special ctx NtidX l"
  shows "successively (\<lambda>L L'. lane_step env ld (vector_code opc) ctx l L = L')
    (vector_states tid cta ntx i ps off x y r p)"
proof -
  note defs = vector_code_def instr_def instr_imm_def default_instruction_def no_guard_def
  note specials = special_at_def special_register_info_def special_register_table_def ctx
  note alu = effect_alu evaluate_def wrap_mul_def wrap_add_def shift_mask_def
  note mem = is_store_opcode_def lane_address_def
  have prms: "ld Param 0 l = Inr (ps ! 0)" "ld Param 1 l = Inr (ps ! 1)" "ld Param 2 l = Inr (ps ! 2)"
      "ld Param 3 l = Inr (ps ! 3)"
    using prm [of 0] prm [of 1] prm [of 2] prm [of 3] by simp_all
  let ?st = "lane_step env ld (vector_code opc) ctx l"
  have special: "?st (state_at 0 f q) = state_at 1 (f(0 := tid)) q" "?st (state_at 1 f q) = state_at 2 (f(1 := cta)) q"
      "?st (state_at 2 f q) = state_at 3 (f(2 := ntx)) q" for f q
    by (subst state_step [OF refl]; simp add: defs alu specials)+
  have index: "?st (state_at 3 f q) = state_at 4 (f(1 := f 1 * f 2)) q"
      "?st (state_at 4 f q) = state_at 5 (f(0 := f 0 + f 1)) q"
      "?st (state_at 8 f q) = state_at 9 (f(4 := push_bit 2 (f 0))) q" for f q
    by (subst state_step [OF refl]; simp add: defs alu)+
  have load: "?st (state_at 5 f q) = state_at 6 (f(3 := ps ! 3)) q" "?st (state_at 9 f q) = state_at 10 (f(5 := ps ! 0)) q"
      "?st (state_at 12 f q) = state_at 13 (f(7 := ps ! 1)) q" "?st (state_at 16 f q) = state_at 17 (f(9 := ps ! 2)) q" for f q
    by (subst state_step [OF refl]; simp add: defs mem effect_load prms)+
  have check: "?st (state_at 6 f q) = state_at 7 f (as_s32 (f 3) \<le> as_s32 (f 0))" for f q
    by (subst state_step [OF refl, where p' = "as_s32 (f 3) \<le> as_s32 (f 0)"]) (simp_all add: defs effect_setp)
  have add: "?st (state_at 10 f q) = state_at 11 (f(5 := f 5 + f 4)) q" "?st (state_at 13 f q) = state_at 14 (f(7 := f 7 + f 4)) q"
      "?st (state_at 17 f q) = state_at 18 (f(9 := f 9 + f 4)) q" for f q
    by (subst state_step [OF refl]; simp add: defs alu)+
  have words: "\<not> p \<Longrightarrow> f 5 = ps ! 0 + off \<Longrightarrow> ?st (state_at 11 f q) = state_at 12 (f(6 := x)) q"
      "\<not> p \<Longrightarrow> f 7 = ps ! 1 + off \<Longrightarrow> ?st (state_at 14 f q) = state_at 15 (f(8 := y)) q" for f q
    by (subst state_step [OF refl]; simp add: defs mem effect_load word [simplified])+
  have sum: "?st (state_at 15 f q) = state_at 16 (f(6 := vector_sum env opc (f 6) (f 8))) q" for f q
    using opc by (elim disjE; subst state_step [OF refl]; simp add: defs alu vector_sum_def)
  have store: "?st (state_at 18 f q) = state_at 19 f q" for f q
    by (subst state_step [OF refl]; simp add: defs mem lane_effect_def)
  have branch: "?st (state_at 7 f q) = state_at (if q then 19 else 8) f q" for f q
    using vector_branch_target by (simp add: lane_step_def state_at_def lane_guard_def lane_next_def lane_effect_def Let_def vector_code_def
        default_instruction_def)
  have exit: "?st (state_at 19 f q) = (state_at 19 f q)\<lparr>lane_pc := None\<rparr>" for f q
    by (simp add: lane_step_def state_at_def lane_guard_def lane_next_def lane_effect_def Let_def defs)
  have outcome: "(as_s32 (ps ! 3) \<le> as_s32 (tid + cta * ntx)) = p" by (simp add: p i)
  show ?thesis
    by (cases p)
       (simp_all add: vector_states_def Let_def special index load check outcome add words sum store branch exit i off r)
qed

lemma solo_states:
  assumes "successively (\<lambda>L L'. lane_step env (loader block_port (block_memory g 0 ps)) program
      (context_of t) (lane_number t) L = L') Ls"
    and "Ls \<noteq> []" "hd Ls = start_lane program" "lane_pc (last Ls) = None"
  shows "k < length Ls \<Longrightarrow> solo env program ps g t k = Ls ! k" and "solo env program ps g t k \<in> set Ls"
proof -
  show nth: "solo env program ps g t k = Ls ! k" if "k < length Ls" for k
    using that
  proof (induction k)
    case 0
    with assms(2,3) show ?case by (simp add: hd_conv_nth)
  next
    case (Suc k)
    with successively_nth [OF assms(1), of k] show ?case by (simp add: solo_Suc)
  qed
  show "solo env program ps g t k \<in> set Ls"
  proof (cases "k < length Ls")
    case True
    with nth show ?thesis by simp
  next
    case False
    define j where "j = length Ls - 1"
    have j: "j < length Ls" "last Ls = Ls ! j" using assms(2) by (simp_all add: j_def last_conv_nth)
    then have "solo env program ps g t k = Ls ! j"
      using solo_retired [of env program ps g t j k] nth [of j] assms(4) False by simp
    with j show ?thesis by simp
  qed
qed

text \<open>The accesses of the thread: its parameters, and when it is in bounds its two loads and its store.\<close>

definition vector_access :: "u32 list \<Rightarrow> u32 \<Rightarrow> u32 \<Rightarrow> bool \<Rightarrow> Instruction \<Rightarrow> Cells \<Rightarrow> bool" where
  "vector_access ps off r p i cells \<longleftrightarrow>
    (memory_space (opcode i) = Param \<and> unat (lane_address i cells) < 4) \<or>
    (\<not> p \<and> memory_space (opcode i) = Global \<and>
      (if is_store_opcode (opcode i)
       then lane_address i cells = ps ! 2 + off \<and> fst cells (src1 i) = r
       else lane_address i cells = ps ! 0 + off \<or> lane_address i cells = ps ! 1 + off))"

lemma vector_states_access:
  assumes "L \<in> set (vector_states tid cta ntx i ps off x y r p)" "pending_access (vector_code opc) L = Some ins"
    and "opc = Add \<or> opc = FAdd"
  shows "vector_access ps off r p ins (lane_cells L)"
proof -
  have "list_all (\<lambda>L. \<forall>ins. pending_access (vector_code opc) L = Some ins \<longrightarrow> vector_access ps off r p ins (lane_cells L))
      (vector_states tid cta ntx i ps off x y r p)"
    using assms(3)
    by (cases p; elim disjE)
       (simp_all add: vector_states_def Let_def state_at_def pending_access_def vector_code_def vector_access_def
         instr_def instr_imm_def default_instruction_def lane_address_def is_store_opcode_def)
  with assms(1,2) show ?thesis by (simp add: list_all_iff)
qed

lemma vector_states_shape:
  "vector_states tid cta ntx i ps off x y r p \<noteq> []"
  "hd (vector_states tid cta ntx i ps off x y r p) = start_lane (vector_code opc)"
  "lane_pc (last (vector_states tid cta ntx i ps off x y r p)) = None"
  "\<not> p \<Longrightarrow> 18 < length (vector_states tid cta ntx i ps off x y r p) \<and>
    pending_store (vector_code opc) (vector_states tid cta ntx i ps off x y r p ! 18) = Some (ps ! 2 + off, r)"
  by (simp_all add: vector_states_def Let_def state_at_def start_lane_def pending_store_def pending_access_def
      vector_code_def instr_imm_def instr_def default_instruction_def no_guard_def lane_guard_def lane_address_def
      is_store_opcode_def fun_eq_iff)

section \<open>The geometry and the arrays\<close>

definition thread_index :: "Thread \<Rightarrow> nat" where
  "thread_index t = unat (special (context_of t) TidX (lane_number t)) +
    unat (dim_x (block_of t)) * unat (dim_x (ntid (context_of t)))"

text \<open>A grid of one-dimensional rows with a thread for every element; rows that repeat an index do no
  harm. The indices stay non-negative as signed numbers and the products of the dimensions do not wrap.\<close>

definition grid_covers :: "Dim2 \<Rightarrow> Dim2 \<Rightarrow> nat \<Rightarrow> bool" where
  "grid_covers grid blk n \<longleftrightarrow>
    0 < unat (dim_x blk) * unat (dim_y blk) \<and> unat (dim_x blk) * unat (dim_y blk) + 31 < 2 ^ 32 \<and>
    0 < unat (dim_x grid) * unat (dim_y grid) \<and> unat (dim_x grid) * unat (dim_y grid) < 2 ^ 32 \<and>
    unat (dim_x grid) * unat (dim_x blk) \<le> 2 ^ 31 \<and> n \<le> unat (dim_x grid) * unat (dim_x blk)"

definition array_range :: "u32 \<Rightarrow> nat \<Rightarrow> nat set" where
  "array_range base n = {unat base..<unat base + 4 * n}"

text \<open>The four parameters: two arrays to read, one to write, which overlaps neither, and their length.\<close>

definition vector_arrays :: "u32 list \<Rightarrow> ByteMemory \<Rightarrow> bool" where
  "vector_arrays ps g \<longleftrightarrow> length ps = 4 \<and> 0 \<le> as_s32 (ps ! 3) \<and>
    (\<forall>k < 3. unat (ps ! k) mod 4 = 0 \<and> unat (ps ! k) + 4 * unat (ps ! 3) \<le> length g \<and>
      unat (ps ! k) + 4 * unat (ps ! 3) \<le> 2 ^ 32) \<and>
    (\<forall>k < 2. array_range (ps ! k) (unat (ps ! 3)) \<inter> array_range (ps ! 2) (unat (ps ! 3)) = {})"

definition element :: "u32 \<Rightarrow> nat \<Rightarrow> u32" where
  "element base j = base + of_nat (4 * j)"

lemma dim_count_value:
  assumes "unat (dim_x d) * unat (dim_y d) < 2 ^ 32"
  shows "unat (dim_count d) = unat (dim_x d) * unat (dim_y d)"
  using assms by (simp add: dim_count_def unat_word_ariths)

lemma grid_covers_counts:
  assumes "grid_covers grid blk n"
  shows "dim_count grid \<noteq> 0" "dim_count blk \<noteq> 0"
    "unat (dim_count blk) = unat (dim_x blk) * unat (dim_y blk)" "unat (dim_count blk) + 31 < 2 ^ 32"
proof -
  have b: "unat (dim_count blk) = unat (dim_x blk) * unat (dim_y blk)"
    and g: "unat (dim_count grid) = unat (dim_x grid) * unat (dim_y grid)"
    using assms by (simp_all add: dim_count_value grid_covers_def)
  show "unat (dim_count blk) = unat (dim_x blk) * unat (dim_y blk)" "unat (dim_count blk) + 31 < 2 ^ 32"
    using b assms by (simp_all add: grid_covers_def)
  have "unat (dim_count grid) \<noteq> 0" "unat (dim_count blk) \<noteq> 0"
    using b g assms unfolding grid_covers_def by linarith+
  then show "dim_count grid \<noteq> 0" "dim_count blk \<noteq> 0" by auto
qed

lemma thread_parts:
  assumes "t \<in> threads grid blk"
  obtains k l x y where "t = (warp_context grid blk \<lparr>dim_x = of_nat x, dim_y = of_nat y\<rparr> k, l)"
    "x < unat (dim_x grid)" "y < unat (dim_y grid)" "l < 32"
  using assms by (auto simp: threads_def block_indices_def warp_size_def)

lemma thread_index_less:
  assumes t: "t \<in> threads grid blk" and g: "grid_covers grid blk n"
  shows "thread_index t < unat (dim_x grid) * unat (dim_x blk)"
proof -
  from t obtain k l x y where t: "t = (warp_context grid blk \<lparr>dim_x = of_nat x, dim_y = of_nat y\<rparr> k, l)"
    and x: "x < unat (dim_x grid)" by (rule thread_parts)
  have "0 < unat (dim_x blk)" using g by (auto simp: grid_covers_def)
  then have "unat (special (context_of t) TidX (lane_number t)) < unat (dim_x blk)"
    by (simp add: t warp_context_def unat_mod_distrib)
  moreover have "thread_index t = unat (special (context_of t) TidX (lane_number t)) + x * unat (dim_x blk)"
    using unat_of_nat_below [OF x] by (simp add: thread_index_def t warp_context_def)
  ultimately have "thread_index t < Suc x * unat (dim_x blk)" by simp
  also have "\<dots> \<le> unat (dim_x grid) * unat (dim_x blk)" using x by (intro mult_le_mono1) simp
  finally show ?thesis .
qed

text \<open>The index register of a thread.\<close>

lemma index_word:
  assumes t: "t \<in> threads grid blk" and g: "grid_covers grid blk n"
  shows "unat (special (context_of t) TidX (lane_number t) +
      special (context_of t) CtaidX (lane_number t) * special (context_of t) NtidX (lane_number t)) = thread_index t"
proof -
  have lt: "thread_index t < 2 ^ 32"
    using thread_index_less [OF t g] g by (auto simp: grid_covers_def)
  have "unat (dim_x (block_of t)) * unat (dim_x (ntid (context_of t))) < 2 ^ 32"
    using lt by (simp add: thread_index_def)
  then have "unat (dim_x (block_of t) * dim_x (ntid (context_of t))) =
      unat (dim_x (block_of t)) * unat (dim_x (ntid (context_of t)))" by (simp add: unat_word_ariths)
  with lt show ?thesis
    by (simp add: thread_index_def unat_word_ariths(1) del: special.simps(1))
qed

text \<open>The linear index of a thread is below the number of threads of its block, and every such index of every
  block has a thread.\<close>

lemma linear_below:
  assumes t: "t \<in> threads grid blk" and n: "unat (dim_count blk) + 31 < 2 ^ 32"
  shows "unat (linear_index (context_of t) (lane_number t)) < unat (dim_count blk)"
proof -
  from t obtain b k l where t: "t = (warp_context grid blk b k, l)" and k: "k < unat (warp_count (dim_count blk))"
    and l: "l < warp_size" "has_lane (live_lanes (dim_count blk) (of_nat k)) l" by (auto simp: threads_def)
  have below: "32 * k + l < unat (dim_count blk)"
    using live_lanes_set [OF n k] l by (auto simp: lanes_of_def)
  then have "unat (of_nat (32 * k + l) :: u32) = 32 * k + l" using n by (subst unat_of_nat) (simp del: of_nat_add of_nat_mult)
  moreover have "linear_index (context_of t) (lane_number t) = of_nat (32 * k + l)"
    by (simp add: t warp_context_def linear_index_def warp_size_def)
  ultimately show ?thesis using below by simp
qed

lemma linear_covered:
  assumes n: "unat (dim_count blk) + 31 < 2 ^ 32" and i: "i < unat (dim_count blk)"
    and x: "x < unat (dim_x grid)" and y: "y < unat (dim_y grid)"
  obtains t where "t \<in> threads grid blk" "unat (linear_index (context_of t) (lane_number t)) = i"
    "ntid (context_of t) = blk" "unat (dim_x (block_of t)) = x" "unat (dim_y (block_of t)) = y"
proof -
  define k l where "k = i div 32" and "l = i mod 32"
  have kl: "32 * k + l = i" by (simp add: k_def l_def)
  have k: "k < unat (warp_count (dim_count blk))"
    unfolding warp_count_value [OF n] k_def using i by linarith
  define t where "t = (warp_context grid blk \<lparr>dim_x = of_nat x, dim_y = of_nat y\<rparr> k, l)"
  have block: "\<lparr>dim_x = of_nat x, dim_y = of_nat y\<rparr> \<in> set (block_indices grid)"
    unfolding block_indices_def set_concat set_map set_upt
    by (intro UN_I [OF imageI [of y]] imageI) (use x y in simp_all)
  have "l \<in> lanes_of (live_lanes (dim_count blk) (of_nat k))"
    unfolding live_lanes_set [OF n k] using i kl by (simp add: l_def)
  then have "t \<in> threads grid blk"
    unfolding t_def threads_iff [OF k] using block by (simp add: lanes_of_def)
  moreover have "unat (linear_index (context_of t) (lane_number t)) = i"
  proof -
    have "linear_index (context_of t) (lane_number t) = of_nat (32 * k + l)"
      by (simp add: t_def warp_context_def linear_index_def warp_size_def)
    with kl i n show ?thesis by (simp add: unat_of_nat del: of_nat_add of_nat_mult)
  qed
  moreover have "ntid (context_of t) = blk" "unat (dim_x (block_of t)) = x" "unat (dim_y (block_of t)) = y"
    using unat_of_nat_below [OF x] unat_of_nat_below [OF y] by (simp_all add: t_def warp_context_def)
  ultimately show thesis by (rule that)
qed

text \<open>Every index has a thread.\<close>

lemma index_covered:
  assumes g: "grid_covers grid blk n" and j: "j < n"
  obtains t where "t \<in> threads grid blk" "thread_index t = j"
proof -
  define bx where "bx = unat (dim_x blk)"
  have bx: "0 < bx" using g by (auto simp: grid_covers_def bx_def)
  have x: "j div bx < unat (dim_x grid)"
    using g j bx by (simp add: grid_covers_def bx_def less_mult_imp_div_less)
  have y: "0 < unat (dim_y grid)" using g by (auto simp: grid_covers_def)
  note counts = grid_covers_counts [OF g]
  have i: "j mod bx < unat (dim_count blk)"
  proof -
    have "j mod bx < bx" using bx by simp
    also have "bx \<le> unat (dim_count blk)" using g by (auto simp: counts(3) bx_def grid_covers_def)
    finally show ?thesis .
  qed
  from linear_covered [OF counts(4) i x y] obtain t where t: "t \<in> threads grid blk"
    and at: "unat (linear_index (context_of t) (lane_number t)) = j mod bx" "ntid (context_of t) = blk"
      "unat (dim_x (block_of t)) = j div bx" .
  have "thread_index t = j"
    by (simp add: thread_index_def unat_mod_distrib at bx_def [symmetric] add.commute)
  with t show thesis by (rule that)
qed

section \<open>A vector kernel is separated\<close>

lemma s32_of_small: "unat w < 2 ^ 31 \<Longrightarrow> as_s32 w = int (unat w)"
proof -
  assume "unat w < 2 ^ 31"
  then have "int (unat w) < 2 ^ 31" by (metis of_nat_less_iff of_nat_numeral of_nat_power)
  then have "as_s32 (from_s32 (int (unat w))) = int (unat w)"
    by (intro as_s32_from_s32) (auto intro: order_trans [of _ 0])
  then show ?thesis by (simp add: from_s32_def)
qed

lemma s32_nonneg: "0 \<le> as_s32 w \<Longrightarrow> as_s32 w = int (unat w)"
proof -
  assume w: "0 \<le> as_s32 w"
  define v where "v = nat (as_s32 w)"
  have v: "as_s32 w = int v" "v < 2 ^ 32" using w as_s32_range(2) [of w] by (simp_all add: v_def)
  have "w = of_nat v" using from_s32_as_s32 [of w] by (simp add: v(1) from_s32_def)
  then have "unat w = v" using v(2) by (simp add: unat_of_nat)
  with v(1) show ?thesis by simp
qed

lemma bounds_check:
  "0 \<le> as_s32 n \<Longrightarrow> unat i < 2 ^ 31 \<Longrightarrow> as_s32 n \<le> as_s32 i \<longleftrightarrow> unat n \<le> unat i"
  by (simp only: s32_nonneg s32_of_small of_nat_le_iff)

lemma unat_element:
  assumes "unat base + 4 * j < 2 ^ 32"
  shows "unat (element base j) = unat base + 4 * j"
proof -
  have "unat (of_nat (4 * j) :: u32) = 4 * j"
    using assms by (subst unat_of_nat) (simp del: of_nat_mult)
  then show ?thesis using assms by (simp add: element_def unat_word_ariths(1) del: of_nat_mult)
qed

lemma element_in_array:
  assumes "unat base + 4 * n \<le> 2 ^ 32" "unat base + 4 * n \<le> len" "unat base mod 4 = 0" "j < n"
  shows "unat (element base j) = unat base + 4 * j" "accessible (element base j) len"
    "unat (element base j) \<in> array_range base n"
proof -
  show a: "unat (element base j) = unat base + 4 * j"
    using assms(1,4) by (intro unat_element) simp
  show "accessible (element base j) len"
    using assms by (simp add: accessible_def a mod_add_eq [symmetric, of "unat base"])
  show "unat (element base j) \<in> array_range base n" using assms(4) by (simp add: a array_range_def)
qed

lemma element_address:
  assumes "vector_arrays ps g" "k < 3" "j < unat (ps ! 3)"
  shows "unat (element (ps ! k) j) = unat (ps ! k) + 4 * j" "accessible (element (ps ! k) j) (length g)"
    "unat (element (ps ! k) j) \<in> array_range (ps ! k) (unat (ps ! 3))"
  using element_in_array [of "ps ! k" "unat (ps ! 3)" "length g" j] assms by (simp_all add: vector_arrays_def)

lemma element_offset: "base + push_bit 2 i = element base (unat i)"
  unfolding element_def push_bit_eq_mult of_nat_mult by simp

text \<open>The arrays that are read are not written.\<close>

lemma elements_differ:
  assumes "vector_arrays ps g" "k < 2" "j < unat (ps ! 3)" "j' < unat (ps ! 3)"
  shows "element (ps ! k) j \<noteq> element (ps ! 2) j'"
proof
  assume "element (ps ! k) j = element (ps ! 2) j'"
  with element_address(3) [OF assms(1), of k j] element_address(3) [OF assms(1), of 2 j'] assms show False
    by (auto simp: vector_arrays_def)
qed

lemma element_inj:
  assumes "vector_arrays ps g" "k < 3" "j < unat (ps ! 3)" "j' < unat (ps ! 3)" "element (ps ! k) j = element (ps ! k) j'"
  shows "j = j'"
proof -
  have "unat (ps ! k) + 4 * j = unat (ps ! k) + 4 * j'"
    by (simp only: element_address(1) [OF assms(1,2,3), symmetric] element_address(1) [OF assms(1,2,4), symmetric] assms(5))
  then show ?thesis by simp
qed

definition word_at :: "ByteMemory \<Rightarrow> u32 \<Rightarrow> u32" where
  "word_at g a = (case load32 a 0 g of Inl _ \<Rightarrow> 0 | Inr v \<Rightarrow> v)"

definition sum_at :: "fp_env \<Rightarrow> Opcode \<Rightarrow> u32 list \<Rightarrow> ByteMemory \<Rightarrow> nat \<Rightarrow> u32" where
  "sum_at env opc ps g j =
    vector_sum env opc (word_at g (element (ps ! 0) j)) (word_at g (element (ps ! 1) j))"

lemma load_word_at: "accessible a (length g) \<Longrightarrow> load32 a l g = Inr (word_at g a)"
proof -
  assume a: "accessible a (length g)"
  from load32_value [OF a, of 0] obtain v where "load32 a 0 g = Inr v" by blast
  then show ?thesis using load32_lane [OF a, of l 0] by (simp add: word_at_def)
qed

text \<open>The run of one thread.\<close>

lemma vector_solo:
  fixes env :: fp_env
  assumes opc: "opc = Add \<or> opc = FAdd" and t: "t \<in> threads grid blk"
    and gc: "grid_covers grid blk (unat (ps ! 3))" and va: "vector_arrays ps g"
  defines "j \<equiv> thread_index t"
  shows "pending_access (vector_code opc) (solo env (vector_code opc) ps g t k) = Some ins \<Longrightarrow>
      memory_space (opcode ins) = Param \<and> unat (lane_address ins (lane_cells (solo env (vector_code opc) ps g t k))) < 4 \<or>
      j < unat (ps ! 3) \<and> memory_space (opcode ins) = Global \<and>
      (if is_store_opcode (opcode ins)
       then lane_address ins (lane_cells (solo env (vector_code opc) ps g t k)) = element (ps ! 2) j \<and>
         fst (lane_cells (solo env (vector_code opc) ps g t k)) (src1 ins) = sum_at env opc ps g j
       else lane_address ins (lane_cells (solo env (vector_code opc) ps g t k)) \<in> {element (ps ! 0) j, element (ps ! 1) j})"
    and "j < unat (ps ! 3) \<Longrightarrow> pending_store (vector_code opc) (solo env (vector_code opc) ps g t 18) =
      Some (element (ps ! 2) j, sum_at env opc ps g j)"
proof -
  let ?ctx = "context_of t" and ?l = "lane_number t"
  define ld where "ld = loader block_port (block_memory g 0 ps)"
  define tid cta ntx where "tid = special ?ctx TidX ?l" and "cta = special ?ctx CtaidX ?l" and "ntx = special ?ctx NtidX ?l"
  define i where "i = tid + cta * ntx"
  define off where "off = push_bit 2 i"
  define p where "p = (as_s32 (ps ! 3) \<le> as_s32 i)"
  define r where "r = sum_at env opc ps g j"
  define Ls where "Ls = vector_states tid cta ntx i ps off (word_at g (element (ps ! 0) j)) (word_at g (element (ps ! 1) j)) r p"
  have ui: "unat i = j" using index_word [OF t gc] by (simp add: i_def tid_def cta_def ntx_def j_def)
  have "j < 2 ^ 31" using thread_index_less [OF t gc] gc by (simp add: j_def grid_covers_def)
  then have p: "p \<longleftrightarrow> \<not> j < unat (ps ! 3)"
    using bounds_check [of "ps ! 3" i] va by (auto simp: p_def ui vector_arrays_def)
  have len: "length ps = 4" using va by (simp add: vector_arrays_def)
  have off: "ps ! k + off = element (ps ! k) j" for k using element_offset [of _ i] by (simp add: off_def ui)
  have glob: "ld Global (ps ! k + off) ?l = Inr (word_at g (element (ps ! k) j))" if "\<not> p" "k < 3" for k
    using element_address(2) [OF va that(2), of j] that(1) p
    by (simp add: ld_def loader_spaces off load_word_at block_memory_def)
  have "successively (\<lambda>L L'. lane_step env ld (vector_code opc) ?ctx ?l L = L') Ls"
    unfolding Ls_def
  proof (rule vector_steps [OF opc len])
    show "ld Param (of_nat k) ?l = Inr (ps ! k)" if "k < 4" for k
      using that len by (simp add: ld_def loader_def block_port_def block_memory_def unat_of_nat)
  qed (use glob in \<open>simp_all add: i_def off_def p_def r_def sum_at_def tid_def cta_def ntx_def\<close>)
  note succ = this [unfolded ld_def]
  have shape: "Ls \<noteq> []" "hd Ls = start_lane (vector_code opc)" "lane_pc (last Ls) = None"
    unfolding Ls_def by (rule vector_states_shape)+
  note run = solo_states [OF succ shape]
  show "memory_space (opcode ins) = Param \<and> unat (lane_address ins (lane_cells (solo env (vector_code opc) ps g t k))) < 4 \<or>
      j < unat (ps ! 3) \<and> memory_space (opcode ins) = Global \<and>
      (if is_store_opcode (opcode ins)
       then lane_address ins (lane_cells (solo env (vector_code opc) ps g t k)) = element (ps ! 2) j \<and>
         fst (lane_cells (solo env (vector_code opc) ps g t k)) (src1 ins) = sum_at env opc ps g j
       else lane_address ins (lane_cells (solo env (vector_code opc) ps g t k)) \<in> {element (ps ! 0) j, element (ps ! 1) j})"
    if "pending_access (vector_code opc) (solo env (vector_code opc) ps g t k) = Some ins"
    using vector_states_access [OF run(2) [unfolded Ls_def] that opc] p
    by (simp add: vector_access_def off r_def insert_iff split: if_splits)
  show "pending_store (vector_code opc) (solo env (vector_code opc) ps g t 18) =
      Some (element (ps ! 2) j, sum_at env opc ps g j)" if "j < unat (ps ! 3)"
    using vector_states_shape(4) [of p tid cta ntx i ps off _ _ r opc] run(1) [of 18] p that off
    by (simp add: Ls_def r_def)
qed

text \<open>What the threads store, and that the kernel is separated.\<close>

lemma vector_stores:
  fixes env :: fp_env
  assumes opc: "opc = Add \<or> opc = FAdd" and gc: "grid_covers grid blk (unat (ps ! 3))" and va: "vector_arrays ps g"
  shows "stores_to env (vector_code opc) ps (threads grid blk) g a v \<longleftrightarrow>
    (\<exists>j < unat (ps ! 3). a = element (ps ! 2) j \<and> v = sum_at env opc ps g j)"
proof
  assume "stores_to env (vector_code opc) ps (threads grid blk) g a v"
  then obtain t k where t: "t \<in> threads grid blk"
    and "pending_store (vector_code opc) (solo env (vector_code opc) ps g t k) = Some (a, v)"
    unfolding stores_to_def by blast
  then obtain ins where acc: "pending_access (vector_code opc) (solo env (vector_code opc) ps g t k) = Some ins"
    and st: "is_store_opcode (opcode ins)"
    and av: "a = lane_address ins (lane_cells (solo env (vector_code opc) ps g t k))"
      "v = fst (lane_cells (solo env (vector_code opc) ps g t k)) (src1 ins)"
    by (auto simp: pending_store_def split: option.splits if_splits)
  have "memory_space (opcode ins) \<noteq> Param" using st by (auto simp: is_store_opcode_def)
  then show "\<exists>j < unat (ps ! 3). a = element (ps ! 2) j \<and> v = sum_at env opc ps g j"
    using vector_solo(1) [OF opc t gc va acc] st unfolding av by auto
next
  assume "\<exists>j < unat (ps ! 3). a = element (ps ! 2) j \<and> v = sum_at env opc ps g j"
  then obtain j where j: "j < unat (ps ! 3)" "a = element (ps ! 2) j" "v = sum_at env opc ps g j" by blast
  from index_covered [OF gc j(1)] obtain t where t: "t \<in> threads grid blk" "thread_index t = j" .
  have "pending_store (vector_code opc) (solo env (vector_code opc) ps g t 18) = Some (a, v)"
    using vector_solo(2) [OF opc t(1) gc va] j t(2) by simp
  with t(1) show "stores_to env (vector_code opc) ps (threads grid blk) g a v" unfolding stores_to_def by blast
qed

lemma vector_separated:
  fixes env :: fp_env
  assumes opc: "opc = Add \<or> opc = FAdd" and gc: "grid_covers grid blk (unat (ps ! 3))" and va: "vector_arrays ps g"
  shows "separated env (vector_code opc) ps (threads grid blk) g"
  unfolding separated_def
proof (intro conjI ballI allI impI)
  show "opcode i \<noteq> BarSync" if "i \<in> set (vector_code opc)" for i
    using that opc by (auto simp: vector_code_def instr_def instr_imm_def default_instruction_def)
next
  fix t k i
  assume t: "t \<in> threads grid blk" and acc: "pending_access (vector_code opc) (solo env (vector_code opc) ps g t k) = Some i"
  let ?a = "lane_address i (lane_cells (solo env (vector_code opc) ps g t k))" and ?j = "thread_index t"
  from vector_solo(1) [OF opc t gc va acc] consider
      (Prm) "memory_space (opcode i) = Param" "unat ?a < 4"
    | (Store) "?j < unat (ps ! 3)" "memory_space (opcode i) = Global" "is_store_opcode (opcode i)" "?a = element (ps ! 2) ?j"
    | (Load) m where "?j < unat (ps ! 3)" "memory_space (opcode i) = Global" "m < 2" "?a = element (ps ! m) ?j"
    using zero_less_numeral one_less_numeral_iff semiring_norm(76) by (metis insert_iff singletonD)
  then show "access_allowed env (vector_code opc) ps (threads grid blk) g i ?a"
  proof cases
    case Prm
    with va show ?thesis by (simp add: access_allowed_def vector_arrays_def)
  next
    case Store
    with element_address(2) [OF va _ Store(1), of 2] show ?thesis by (simp add: access_allowed_def)
  next
    case Load
    have "\<not> stores_to env (vector_code opc) ps (threads grid blk) g ?a v" for v
      unfolding vector_stores [OF opc gc va] Load(4) using elements_differ [OF va Load(3,1)] by blast
    with Load element_address(2) [OF va _ Load(1), of m] show ?thesis by (simp add: access_allowed_def)
  qed
next
  show "v' = v" if "stores_to env (vector_code opc) ps (threads grid blk) g a v"
    "stores_to env (vector_code opc) ps (threads grid blk) g a v'" for a v v'
    using that element_inj [OF va, of 2] unfolding vector_stores [OF opc gc va] by auto
qed

section \<open>The programs\<close>

lemma vector_valid: "opc = Add \<or> opc = FAdd \<Longrightarrow> i \<in> set (vector_code opc) \<Longrightarrow> valid_instruction i"
  by (elim disjE)
     (auto simp: vector_code_def instr_def instr_imm_def default_instruction_def valid_instruction_def guard_ok_def
       no_guard_def special_register_count_10)

lemma decode_program_words:
  "(\<And>i. i \<in> set program \<Longrightarrow> valid_instruction i) \<Longrightarrow>
    decode_program pc (List.map encode_word program) = Inr program"
  by (induction program arbitrary: pc) (simp_all add: encode_imp_decode encode_eq_Inr_iff)

lemma vector_forward:
  assumes "opc = Add \<or> opc = FAdd"
  shows "forward_only (vector_code opc)"
  unfolding forward_only_def
proof (intro allI impI)
  fix k
  assume "k < length (vector_code opc)" "opcode (vector_code opc ! k) = Bra"
  then have "k = 7"
    using assms by (auto simp: vector_code_def instr_def instr_imm_def less_Suc_eq numeral_eq_Suc)
  then show "k < unat (branch_target (vector_code opc ! k))" by (simp add: vector_branch_target)
qed

lemma vector_launch:
  fixes env :: fp_env
  assumes opc: "opc = Add \<or> opc = FAdd" and code: "code_words p = List.map encode_word (vector_code opc)"
    and gc: "grid_covers grid blk (unat (ps ! 3))" and va: "vector_arrays ps g"
  obtains st g' where "launch env p grid blk ps g = Some (Inr st, g')" "length g' = length g"
    "\<And>j. j < unat (ps ! 3) \<Longrightarrow> load32 (element (ps ! 2) j) 0 g' = Inr (sum_at env opc ps g j)"
    "\<And>a. a \<notin> element (ps ! 2) ` {..<unat (ps ! 3)} \<Longrightarrow> load32 a 0 g' = load32 a 0 g"
proof -
  have decodes: "decode_program 0 (code_words p) = Inr (vector_code opc)"
    unfolding code by (rule decode_program_words) (rule vector_valid [OF opc])
  obtain r g' where launched: "launch env p grid blk ps g = Some (r, g')"
    using forward_launch [OF decodes vector_forward [OF opc], of env grid blk ps g] by (auto simp: code)
  note result = launch_separated [OF decodes grid_covers_counts(1,2) [OF gc] launched vector_separated [OF opc gc va],
      unfolded vector_stores [OF opc gc va]]
  from result obtain st where r: "r = Inr st" by blast
  show thesis
  proof (rule that)
    show "launch env p grid blk ps g = Some (Inr st, g')" using launched r by simp
    show "length g' = length g" using result by blast
    show "load32 (element (ps ! 2) j) 0 g' = Inr (sum_at env opc ps g j)" if "j < unat (ps ! 3)" for j
      using result that by blast
    show "load32 a 0 g' = load32 a 0 g" if "a \<notin> element (ps ! 2) ` {..<unat (ps ! 3)}" for a
      using result that by blast
  qed
qed

lemma vector_program:
  assumes "p = vecadd_s32 \<and> add_word = (+) \<or> p = vecadd \<and> add_word = f32_add env"
  obtains opc where "opc = Add \<or> opc = FAdd" "code_words p = List.map encode_word (vector_code opc)"
    "add_word = vector_sum env opc"
proof
  show "(if p = vecadd_s32 then Add else FAdd) = Add \<or> (if p = vecadd_s32 then Add else FAdd) = FAdd" by simp
qed (use assms in \<open>auto simp: vecadd_s32_def vecadd_def vector_sum_def fun_eq_iff\<close>)

lemma word_read: "vector_arrays ps g \<Longrightarrow> k < 3 \<Longrightarrow> j < unat (ps ! 3) \<Longrightarrow>
    load32 (element (ps ! k) j) 0 g = Inr (word_at g (element (ps ! k) j))"
  by (rule load_word_at) (rule element_address(2))

lemma all_less_2: "(\<forall>k < 2::nat. P k) \<longleftrightarrow> P 0 \<and> P 1"
  by (auto simp: less_Suc_eq numeral_2_eq_2)

lemma all_less_3: "(\<forall>k < 3::nat. P k) \<longleftrightarrow> P 0 \<and> P 1 \<and> P 2"
  by (auto simp: less_Suc_eq numeral_3_eq_3 numeral_2_eq_2)

section \<open>A small launch\<close>

text \<open>A launch of one thread, for the witnesses.\<close>

definition one_dim :: Dim2 where "one_dim = \<lparr>dim_x = 1, dim_y = 1\<rparr>"
definition one_params :: "u32 list" where "one_params = [0, 4, 8, 1]"
definition one_memory :: ByteMemory where "one_memory = [1, 0, 0, 0, 2, 0, 0, 0, 0, 0, 0, 0]"

lemma one_facts:
  "decode_program 0 (code_words vecadd_s32) = Inr (vector_code Add)" "dim_count one_dim \<noteq> 0"
  "separated env (vector_code Add) one_params (threads one_dim one_dim) one_memory"
  "\<exists>st g'. launch env vecadd_s32 one_dim one_dim one_params one_memory = Some (Inr st, g')"
  "\<forall>t \<in> threads one_dim one_dim. \<exists>k. lane_pc (solo env (vector_code Add) one_params one_memory t k) = None"
proof -
  have gc: "grid_covers one_dim one_dim (unat (one_params ! 3))" by (simp add: grid_covers_def one_dim_def one_params_def)
  have va: "vector_arrays one_params one_memory"
    by (auto simp: vector_arrays_def array_range_def all_less_3 all_less_2 as_s32_def one_params_def one_memory_def)
  have code: "code_words vecadd_s32 = List.map encode_word (vector_code Add)" by (simp add: vecadd_s32_def)
  show decodes: "decode_program 0 (code_words vecadd_s32) = Inr (vector_code Add)"
    unfolding code by (rule decode_program_words) (rule vector_valid [OF disjI1 [OF refl]])
  show dim: "dim_count one_dim \<noteq> 0" by (simp add: dim_count_def one_dim_def)
  show sep: "separated env (vector_code Add) one_params (threads one_dim one_dim) one_memory"
    by (rule vector_separated [OF disjI1 [OF refl] gc va])
  from vector_launch [OF disjI1 [OF refl] code gc va, of env] obtain st g'
    where run: "launch env vecadd_s32 one_dim one_dim one_params one_memory = Some (Inr st, g')" .
  then show "\<exists>st g'. launch env vecadd_s32 one_dim one_dim one_params one_memory = Some (Inr st, g')" by blast
  show "\<forall>t \<in> threads one_dim one_dim. \<exists>k. lane_pc (solo env (vector_code Add) one_params one_memory t k) = None"
    using launch_separated [OF decodes dim dim run sep] by (elim conjE)
qed

section \<open>Properties\<close>

text \<open>C8: the vector kernels add. For every geometry with a thread for each element and every placement of the
  arrays in which the output overlaps no input, a launch of \<^verbatim>\<open>vecadd_s32.wisa\<close> or
  \<^verbatim>\<open>vecadd.wisa\<close> succeeds, leaves the wrapped or the floating sum of the two elements in every
  element of the output, and changes no other word.\<close>

theorem vector_kernels_add:
  assumes "p = vecadd_s32 \<and> add_word = (+) \<or> p = vecadd \<and> add_word = f32_add env"
    and "grid_covers grid blk (unat (ps ! 3))" and "vector_arrays ps g"
  shows "\<exists>st g'. launch env p grid blk ps g = Some (Inr st, g') \<and> length g' = length g \<and>
    (\<forall>j < unat (ps ! 3). \<exists>x y. load32 (element (ps ! 0) j) 0 g = Inr x \<and> load32 (element (ps ! 1) j) 0 g = Inr y \<and>
      load32 (element (ps ! 2) j) 0 g' = Inr (add_word x y)) \<and>
    (\<forall>a. a \<notin> element (ps ! 2) ` {..<unat (ps ! 3)} \<longrightarrow> load32 a 0 g' = load32 a 0 g)"
proof -
  from vector_program [OF assms(1)] obtain opc where opc: "opc = Add \<or> opc = FAdd"
    "code_words p = List.map encode_word (vector_code opc)" "add_word = vector_sum env opc" .
  from vector_launch [OF opc(1,2) assms(2,3), of env] obtain st g'
    where "launch env p grid blk ps g = Some (Inr st, g')" "length g' = length g"
      "\<And>j. j < unat (ps ! 3) \<Longrightarrow> load32 (element (ps ! 2) j) 0 g' = Inr (sum_at env opc ps g j)"
      "\<And>a. a \<notin> element (ps ! 2) ` {..<unat (ps ! 3)} \<Longrightarrow> load32 a 0 g' = load32 a 0 g" by blast
  then show ?thesis
    using word_read [OF assms(3), of 0] word_read [OF assms(3), of 1] by (auto simp: sum_at_def opc(3))
qed

theorem vector_kernels_add_witness:
  "\<exists>st g'. launch example_fp_env vecadd_s32 \<lparr>dim_x = 2, dim_y = 1\<rparr> \<lparr>dim_x = 3, dim_y = 1\<rparr> [0, 16, 32, 4]
      (List.map of_nat [0..<48]) = Some (Inr st, g') \<and>
    load32 44 0 g' = Inr (0x0F0E0D0C + 0x1F1E1D1C) \<and> load32 12 0 g' = Inr 0x0F0E0D0C"
proof -
  let ?g = "List.map of_nat [0..<48] :: ByteMemory" and ?ps = "[0, 16, 32, 4] :: u32 list"
  have "grid_covers \<lparr>dim_x = 2, dim_y = 1\<rparr> \<lparr>dim_x = 3, dim_y = 1\<rparr> (unat (?ps ! 3))"
    by (simp add: grid_covers_def)
  moreover have "vector_arrays ?ps ?g"
    by (auto simp: vector_arrays_def array_range_def all_less_3 all_less_2 as_s32_def)
  ultimately obtain st g' where "launch example_fp_env vecadd_s32 \<lparr>dim_x = 2, dim_y = 1\<rparr> \<lparr>dim_x = 3, dim_y = 1\<rparr> ?ps ?g =
      Some (Inr st, g')"
    and "\<forall>j < unat (?ps ! 3). \<exists>x y. load32 (element (?ps ! 0) j) 0 ?g = Inr x \<and> load32 (element (?ps ! 1) j) 0 ?g = Inr y \<and>
      load32 (element (?ps ! 2) j) 0 g' = Inr (x + y)"
    and "\<forall>a. a \<notin> element (?ps ! 2) ` {..<unat (?ps ! 3)} \<longrightarrow> load32 a 0 g' = load32 a 0 ?g"
    using vector_kernels_add [of vecadd_s32 "(+)" example_fp_env _ _ ?ps ?g] by blast
  moreover have "load32 (element 0 3) 0 ?g = Inr 0x0F0E0D0C" "load32 (element 16 3) 0 ?g = Inr 0x1F1E1D1C"
      "load32 12 0 ?g = Inr 0x0F0E0D0C" "element 32 3 = 44"
    by code_simp+
  moreover have "12 \<notin> element (?ps ! 2) ` {..<unat (?ps ! 3)}" by code_simp
  ultimately show ?thesis by (auto dest: spec [where x = 3] spec [where x = 12])
qed

text \<open>C3: a separated kernel is the composition of its threads. Separated is: the code has no \<^verbatim>\<open>bar.sync\<close>; no thread,
  run alone on the initial memory, accesses shared memory, reads a parameter there is not, reads or
  writes a word of global memory that is misaligned or outside it, or reads a word that a thread stores
  to; and the stores to one word all store the same value. A launch of such a kernel that gets past the
  decoder and the check of its geometry and returns has not faulted; every thread retires alone as well,
  the stores of the threads run alone are in the memory the launch leaves, and all the other words are
  as they were: warps, divergence and schedule are not observable.\<close>

theorem separated_kernel_composes_threads:
  assumes "decode_program 0 (code_words p) = Inr program" and "dim_count grid \<noteq> 0" and "dim_count blk \<noteq> 0"
    and "launch env p grid blk ps g = Some (r, g')" and "separated env program ps (threads grid blk) g"
  shows "(\<exists>st. r = Inr st) \<and> (\<forall>t \<in> threads grid blk. \<exists>k. lane_pc (solo env program ps g t k) = None) \<and>
    (\<forall>t \<in> threads grid blk. \<forall>k a v.
      pending_store program (solo env program ps g t k) = Some (a, v) \<longrightarrow> load32 a 0 g' = Inr v) \<and>
    (\<forall>a. (\<forall>t \<in> threads grid blk. \<forall>k v. pending_store program (solo env program ps g t k) \<noteq> Some (a, v)) \<longrightarrow>
      load32 a 0 g' = load32 a 0 g)"
  using launch_separated [OF assms] unfolding stores_to_def by blast

theorem separated_kernel_composes_threads_witness:
  "\<exists>st g'. launch example_fp_env vecadd_s32 one_dim one_dim one_params one_memory = Some (Inr st, g') \<and>
    (\<forall>t \<in> threads one_dim one_dim. \<exists>k. lane_pc (solo example_fp_env (vector_code Add) one_params one_memory t k) = None)"
proof -
  from one_facts(4) obtain st g' where run: "launch example_fp_env vecadd_s32 one_dim one_dim one_params one_memory = Some (Inr st, g')"
    by blast
  have "\<forall>t \<in> threads one_dim one_dim. \<exists>k. lane_pc (solo example_fp_env (vector_code Add) one_params one_memory t k) = None"
    using separated_kernel_composes_threads [OF one_facts(1,2,2) run one_facts(3)] by (elim conjE)
  with run show ?thesis by (intro exI conjI)
qed

text \<open>C11: a launch returns when its threads do. If there is a bound on the steps of every thread in every run of the grid
  machine, the launch returns: the scheduler, the divergence stack and the barriers add no infinite
  run of their own, for every kernel.\<close>

theorem launch_returns_when_runs_bounded:
  assumes "decode_program 0 (code_words p) = Inr program"
    and "bounded_runs env program ps (threads grid blk) (grid_start program (threads grid blk) (shared_bytes p) g) n"
  shows "\<exists>r g'. launch env p grid blk ps g = Some (r, g')"
  using assms by (rule launch_returns)

theorem launch_returns_when_runs_bounded_witness:
  "\<exists>r g'. launch example_fp_env vecadd_s32 one_dim one_dim one_params one_memory = Some (r, g')"
proof -
  from separated_bounded [OF one_facts(3) finite_threads one_facts(5)] obtain n where
    "bounded_runs example_fp_env (vector_code Add) one_params (threads one_dim one_dim)
      (grid_start (vector_code Add) (threads one_dim one_dim) (shared_bytes vecadd_s32) one_memory) n" by blast
  from launch_returns_when_runs_bounded [OF one_facts(1) this] show ?thesis .
qed

text \<open>C12: the launch of a separated kernel returns exactly when every thread, alone on the initial memory, retires. Loops
  are allowed; the lanes of a warp may take different numbers of turns.\<close>

theorem separated_launch_returns_iff:
  assumes "decode_program 0 (code_words p) = Inr program" and "dim_count grid \<noteq> 0" and "dim_count blk \<noteq> 0"
    and "separated env program ps (threads grid blk) g"
  shows "(\<exists>r g'. launch env p grid blk ps g = Some (r, g')) \<longleftrightarrow>
    (\<forall>t \<in> threads grid blk. \<exists>k. lane_pc (solo env program ps g t k) = None)"
  using launch_separated [OF assms(1-3) _ assms(4)] launch_separated_returns [OF assms(1,4)] by blast

theorem separated_launch_returns_iff_witness:
  "\<exists>r g'. launch example_fp_env vecadd_s32 one_dim one_dim one_params one_memory = Some (r, g')"
  using separated_launch_returns_iff [OF one_facts(1,2,2,3)] one_facts(5) by blast

text \<open>C10: the reconvergence points of a separated kernel are not observable. Two programs that differ in nothing else
  both return or both do not, neither faults, and they leave the same words in global memory.\<close>

theorem separated_reconvergence_unobservable:
  assumes "decode_program 0 (code_words p) = Inr program" and "decode_program 0 (code_words q) = Inr program'"
    and "dim_count grid \<noteq> 0" and "dim_count blk \<noteq> 0"
    and "same_paths program program'" and "separated env program ps (threads grid blk) g"
  shows "case (launch env p grid blk ps g, launch env q grid blk ps g) of
      (None, None) \<Rightarrow> True
    | (Some (Inr _, g1), Some (Inr _, g2)) \<Rightarrow> length g1 = length g2 \<and> (\<forall>a. load32 a 0 g1 = load32 a 0 g2)
    | _ \<Rightarrow> False"
proof -
  note sep' = separated_same_paths [OF assms(5,6)]
  note result = launch_separated [OF assms(1,3,4) _ assms(6)]
    and result' = launch_separated [OF assms(2-4) _ sep', unfolded stores_same_paths(1) [OF assms(5)] solo_same_paths [OF assms(5)]]
  show ?thesis
  proof (cases "launch env p grid blk ps g")
    case None
    have "launch env q grid blk ps g = None"
    proof (rule ccontr)
      assume "launch env q grid blk ps g \<noteq> None"
      then obtain r g' where "launch env q grid blk ps g = Some (r, g')" by auto
      from result' [OF this] launch_separated_returns [OF assms(1,6)] None show False by (metis option.distinct(1))
    qed
    with None show ?thesis by simp
  next
    case (Some rg)
    then obtain r g1 where p: "launch env p grid blk ps g = Some (r, g1)" by (cases rg) auto
    note P = result [OF p]
    have "\<forall>t \<in> threads grid blk. \<exists>k. lane_pc (solo env program' ps g t k) = None"
      using P unfolding solo_same_paths [OF assms(5)] by (elim conjE)
    from launch_separated_returns [OF assms(2) sep' this] obtain r' g2 where q: "launch env q grid blk ps g = Some (r', g2)" by blast
    note Q = result' [OF q]
    from P Q obtain st st' where "r = Inr st" "r' = Inr st'" by blast
    moreover have "length g1 = length g2" using P Q by simp
    moreover have "load32 a 0 g1 = load32 a 0 g2" for a
    proof (cases "\<exists>v. stores_to env program ps (threads grid blk) g a v")
      case True
      with P Q show ?thesis by metis
    next
      case False
      with P Q show ?thesis by metis
    qed
    ultimately show ?thesis using p q by simp
  qed
qed

text \<open>The witness launches \<^verbatim>\<open>vecadd_s32\<close> without the reconvergence point of its branch.\<close>

theorem separated_reconvergence_unobservable_witness:
  "let flat = (vector_code Add)[7 := (vector_code Add ! 7)\<lparr>imm := make_branch_imm 19 no_reconvergence\<rparr>] in
    \<exists>st g'. launch example_fp_env (vecadd_s32\<lparr>code_words := List.map encode_word flat\<rparr>) one_dim one_dim one_params one_memory =
      Some (Inr st, g')"
proof -
  define flat where "flat = (vector_code Add)[7 := (vector_code Add ! 7)\<lparr>imm := make_branch_imm 19 no_reconvergence\<rparr>]"
  let ?q = "vecadd_s32\<lparr>code_words := List.map encode_word flat\<rparr>"
  have "valid_instruction i" if "i \<in> set flat" for i
  proof -
    from that set_update_subset_insert consider "i = (vector_code Add ! 7)\<lparr>imm := make_branch_imm 19 no_reconvergence\<rparr>"
      | "i \<in> set (vector_code Add)" unfolding flat_def by fastforce
    then show ?thesis
    proof cases
      case 1
      then show ?thesis by (simp add: vector_code_def default_instruction_def valid_instruction_def guard_ok_def)
    qed (rule vector_valid [OF disjI1 [OF refl]])
  qed
  then have decodes: "decode_program 0 (code_words ?q) = Inr flat" by (simp add: decode_program_words)
  have "forget_reconvergence (flat ! 7) = forget_reconvergence (vector_code Add ! 7)"
    by (simp add: flat_def forget_reconvergence_def vector_code_def default_instruction_def branch_target_def make_branch_imm_def no_reconvergence_def)
  then have same: "same_paths (vector_code Add) flat"
    unfolding same_paths_def by (intro nth_equalityI) (auto simp: flat_def nth_list_update)
  note related = separated_reconvergence_unobservable [OF one_facts(1) decodes one_facts(2,2) same one_facts(3), of example_fp_env]
  from one_facts(4) obtain st g' where run: "launch example_fp_env vecadd_s32 one_dim one_dim one_params one_memory = Some (Inr st, g')"
    by blast
  have "\<exists>st g'. launch example_fp_env ?q one_dim one_dim one_params one_memory = Some (Inr st, g')"
  proof (cases "launch example_fp_env ?q one_dim one_dim one_params one_memory")
    case None
    with related run show ?thesis by simp
  next
    case (Some rg)
    with related run show ?thesis by (cases rg; cases "fst rg") simp_all
  qed
  then show ?thesis by (simp add: flat_def)
qed

end
