(* ===== verification/Python_Session.thy ===== *)
theory Python_Session
  imports Bindings Vector_Kernel
begin

text \<open>
  What a Python program sees of a device over a sequence of calls: the memory keeps its size whatever
  happens, and the sequence the shipped harness performs (two arrays in, one launch, one array out)
  returns what \<^verbatim>\<open>golden.vecadd\<close> and \<^verbatim>\<open>golden.vecadd_s32\<close> say. This puts the copies, the decoder, the
  scheduler, the warps and the memory together.
\<close>

section \<open>The size of the memory\<close>

lemma py_write_size:
  assumes "array_ok a" "py_write g offset a = Inr g'"
  shows "length g' = length g"
  using written [OF assms] by simp

lemma py_launch_size: "py_launch env program grid block ps g = Some (r, g') \<Longrightarrow> length g' = length g"
  by (auto simp: py_launch_def dest: launch_size)

definition well_formed_call :: "DeviceCall \<Rightarrow> bool" where
  "well_formed_call c \<longleftrightarrow> (\<forall>offset a. c = DeviceWrite offset a \<longrightarrow> array_ok a)"

lemma device_call_size:
  assumes "well_formed_call c" "device_call env allocates c d = Some (reply, d')"
  shows "length (device_global d') = length (device_global d)"
proof (cases c)
  case (DeviceWrite offset a)
  with assms py_write_size [of a "device_global d" offset] show ?thesis
    by (cases "py_write (device_global d) offset a") (auto simp: well_formed_call_def)
next
  case (DeviceLaunch program grid block ps)
  with assms py_launch_size [of env program grid block ps "device_global d"] show ?thesis by auto
qed (use assms in \<open>auto split: sum.splits\<close>)

lemma device_calls_size:
  assumes "\<forall>c \<in> set calls. well_formed_call c" "device_calls env allocates calls d = Some (replies, d')"
  shows "length (device_global d') = length (device_global d) \<and> length replies = length calls \<and>
    (\<forall>k < length calls. calls ! k = GlobalBytes \<longrightarrow> replies ! k = Size (length (device_global d)))"
  using assms
proof (induction calls arbitrary: d replies)
  case (Cons c cs)
  from Cons.prems(2) obtain reply d1 rest where c: "device_call env allocates c d = Some (reply, d1)"
    and cs: "device_calls env allocates cs d1 = Some (rest, d')" and replies: "replies = reply # rest"
    by (auto split: option.splits prod.splits)
  have same: "length (device_global d1) = length (device_global d)"
    using device_call_size [OF _ c] Cons.prems(1) by simp
  have "c = GlobalBytes \<Longrightarrow> reply = Size (length (device_global d))" using c by auto
  with Cons.IH [OF _ cs] Cons.prems(1) same show ?case
    by (auto simp: replies nth_Cons split: nat.split)
qed simp

section \<open>Arrays of words\<close>

definition words_array :: "u32 list \<Rightarrow> NumpyArray" where
  "words_array ws = \<lparr>array_size = length ws, array_itemsize = 4, array_bytes = List.concat (List.map bytes_of_word ws)\<rparr>"

lemma words_array_ok: "length ws < 2 ^ 32 \<Longrightarrow> array_ok (words_array ws)"
  by (simp add: array_ok_def words_array_def length_words)

lemma write_words:
  assumes "unat p + 4 * length ws \<le> length g" "length g \<le> 2 ^ 32"
  shows "\<exists>g'. py_write g p (words_array ws) = Inr g'"
  using assms py_write_value [OF words_array_ok, of ws g p] by (simp add: words_array_def length_words)

text \<open>The words of an array that was written, and the words beside it.\<close>

lemma loaded_from_array:
  assumes "py_write g p (words_array ws) = Inr g'" "length g \<le> 2 ^ 32" "unat p mod 4 = 0" "j < length ws" "length ws < 2 ^ 32"
  shows "load32 (element p j) l g' = Inr (ws ! j)"
  using written_words_load [OF words_array_ok [OF assms(5)] _ assms(1-4)]
  by (simp add: words_array_def element_def)

lemma loaded_beside_array:
  assumes "array_ok a" "py_write g p a = Inr g'"
    and "unat q + 4 \<le> unat p \<or> unat p + length (array_bytes a) \<le> unat q"
  shows "load32 q l g' = load32 q l g"
proof -
  from written [OF assms(1,2)] have fits: "unat p + length (array_bytes a) \<le> length g"
    and g': "g' = take (unat p) g @ array_bytes a @ drop (unat p + length (array_bytes a)) g" by simp_all
  have len: "length g' = length g" by (rule py_write_size [OF assms(1,2)])
  have "take 4 (drop (unat q) g') = take 4 (drop (unat q) g)"
    using assms(3)
  proof
    assume "unat q + 4 \<le> unat p"
    then show ?thesis using fits by (auto simp: g' drop_take min_def)
  next
    assume "unat p + length (array_bytes a) \<le> unat q"
    then show ?thesis using fits by (simp add: g' min_def)
  qed
  with len show ?thesis by (simp only: load32_def check_def)
qed

lemma bytes_of_word_of_four: "length bs = 4 \<Longrightarrow> bytes_of_word (word_of_bytes bs) = bs"
  by (auto simp: numeral_eq_Suc length_Suc_conv bytes_of_word_of_bytes)

lemma bytes_of_loaded:
  assumes "load32 q l g = Inr w"
  shows "take 4 (drop (unat q) g) = bytes_of_word w"
proof -
  have "accessible q (length g)" "w = word_of_bytes (take 4 (drop (unat q) g))"
    using assms by (cases "check q l g"; simp add: load32_def check_eq_Inr)+
  moreover from this(1) have "length (take 4 (drop (unat q) g)) = 4" by (auto simp: accessible_def)
  ultimately show ?thesis by (simp only: bytes_of_word_of_four)
qed

lemma bytes_of_words:
  assumes "\<And>j. j < length ws \<Longrightarrow> take 4 (drop (p + 4 * j) g) = bytes_of_word (ws ! j)"
  shows "take (4 * length ws) (drop p g) = List.concat (List.map bytes_of_word ws)"
  using assms
proof (induction ws arbitrary: p)
  case (Cons w ws)
  have "take (4 * length (w # ws)) (drop p g) = take 4 (drop p g) @ take (4 * length ws) (drop (p + 4) g)"
    by (simp add: take_add add.commute)
  moreover have "take 4 (drop p g) = bytes_of_word w" using Cons.prems [of 0] by simp
  moreover have "take (4 * length ws) (drop (p + 4) g) = List.concat (List.map bytes_of_word ws)"
    using Cons.prems [of "Suc _"] by (intro Cons.IH) (simp add: algebra_simps)
  ultimately show ?case by simp
qed simp

section \<open>Two arrays in, one launch, one array out\<close>

text \<open>The three arrays in a memory of \<open>bytes\<close> bytes: aligned, inside, and apart.\<close>

definition arrays_apart :: "nat \<Rightarrow> nat \<Rightarrow> u32 \<Rightarrow> u32 \<Rightarrow> u32 \<Rightarrow> bool" where
  "arrays_apart bytes n pa pb pc \<longleftrightarrow> bytes \<le> 2 ^ 32 \<and> n < 2 ^ 31 \<and>
    (\<forall>p \<in> {pa, pb, pc}. unat p mod 4 = 0 \<and> unat p + 4 * n \<le> bytes) \<and>
    (unat pa + 4 * n \<le> unat pb \<or> unat pb + 4 * n \<le> unat pa) \<and>
    (unat pa + 4 * n \<le> unat pc \<or> unat pc + 4 * n \<le> unat pa) \<and>
    (unat pb + 4 * n \<le> unat pc \<or> unat pc + 4 * n \<le> unat pb)"

lemma arrays_apart_vector:
  assumes "arrays_apart bytes n pa pb pc" "length g = bytes"
  shows "vector_arrays [pa, pb, pc, of_nat n] g" "unat (of_nat n :: u32) = n"
proof -
  have n: "n < 2 ^ 31" using assms(1) by (simp add: arrays_apart_def)
  then show un: "unat (of_nat n :: u32) = n" by (simp add: unat_of_nat)
  with n have "as_s32 (of_nat n :: u32) = int n" using s32_of_small [of "of_nat n"] by simp
  then show "vector_arrays [pa, pb, pc, of_nat n] g"
    using assms unfolding vector_arrays_def all_less_3 all_less_2 array_range_def arrays_apart_def by (auto simp: un)
qed

text \<open>The memory the two writes leave.\<close>

lemma two_arrays:
  assumes apart: "arrays_apart bytes n pa pb pc" and g: "length g = bytes" and xs: "length xs = n" and ys: "length ys = n"
  obtains g1 g2 where "py_write g pa (words_array xs) = Inr g1" "py_write g1 pb (words_array ys) = Inr g2"
    "length g2 = bytes" "\<And>j. j < n \<Longrightarrow> load32 (element pa j) 0 g2 = Inr (xs ! j)"
    "\<And>j. j < n \<Longrightarrow> load32 (element pb j) 0 g2 = Inr (ys ! j)"
proof -
  have n: "n < 2 ^ 32" and bytes: "bytes \<le> 2 ^ 32" and fits: "unat pa + 4 * n \<le> bytes" "unat pb + 4 * n \<le> bytes"
    and al: "unat pa mod 4 = 0" "unat pb mod 4 = 0"
    using apart by (auto simp: arrays_apart_def)
  from write_words [of pa xs g] obtain g1 where g1: "py_write g pa (words_array xs) = Inr g1" using fits bytes g xs by auto
  have len1: "length g1 = bytes" using py_write_size [OF words_array_ok g1] n xs g by simp
  from write_words [of pb ys g1] obtain g2 where g2: "py_write g1 pb (words_array ys) = Inr g2" using fits bytes len1 ys by auto
  have len2: "length g2 = bytes" using py_write_size [OF words_array_ok g2] n ys len1 by simp
  have b: "load32 (element pb j) 0 g2 = Inr (ys ! j)" if "j < n" for j
    using loaded_from_array [OF g2] len1 bytes al n ys that by simp
  have a: "load32 (element pa j) 0 g2 = Inr (xs ! j)" if j: "j < n" for j
  proof -
    have va: "vector_arrays [pa, pb, pc, of_nat n] g2" "unat (of_nat n :: u32) = n"
      using arrays_apart_vector [OF apart len2] .
    have "unat (element pa j) = unat pa + 4 * j"
      using element_address(1) [OF va(1), of 0 j] j va(2) by simp
    moreover have "length (array_bytes (words_array ys)) = 4 * n" by (simp add: words_array_def length_words ys)
    moreover have "unat pa + 4 * n \<le> unat pb \<or> unat pb + 4 * n \<le> unat pa" using apart by (simp add: arrays_apart_def)
    ultimately have "load32 (element pa j) 0 g2 = load32 (element pa j) 0 g1"
      using loaded_beside_array [OF words_array_ok g2, of "element pa j" 0] n ys j by auto
    then show ?thesis using loaded_from_array [OF g1] g bytes al n xs j by simp
  qed
  from g1 g2 len2 a b show thesis by (rule that)
qed

text \<open>The copy out of an array of words.\<close>

lemma read_words:
  assumes "\<And>j. j < length ws \<Longrightarrow> load32 (element p j) 0 g = Inr (ws ! j)" "unat p + 4 * length ws \<le> length g"
    and "length g \<le> 2 ^ 32" "allocates (length ws) 4"
  shows "py_read allocates g p (length ws) 4 = Inr (words_array ws)"
proof -
  have "take 4 (drop (unat p + 4 * j) g) = bytes_of_word (ws ! j)" if j: "j < length ws" for j
  proof -
    have "unat (element p j) = unat p + 4 * j"
      using assms(2,3) j by (intro unat_element) simp
    with bytes_of_loaded [OF assms(1) [OF j]] show ?thesis by simp
  qed
  from bytes_of_words [OF this] show ?thesis
    using assms(2-4) by (simp add: py_read_value words_array_def mult.commute)
qed

text \<open>The session, for the programs of the two kernels.\<close>

lemma vector_session:
  assumes kernel: "p = vecadd_s32 \<and> add_word = (+) \<or> p = vecadd \<and> add_word = f32_add env"
    and "length xs = n" and "length ys = n" and "arrays_apart bytes n pa pb pc"
    and "grid_covers (to_dim grid) (to_dim block) n" and "allocates n 4"
  shows "\<exists>stats d. device_calls env allocates
      [DeviceWrite pa (words_array xs), DeviceWrite pb (words_array ys),
       DeviceLaunch p grid block [pa, pb, pc, of_nat n], DeviceRead pc n 4] (new_device bytes) =
    Some ([Nothing, Nothing, Stats stats, Array (words_array (map2 add_word xs ys))], d)"
proof -
  let ?ps = "[pa, pb, pc, of_nat n] :: u32 list" and ?ws = "map2 add_word xs ys"
  from two_arrays [OF assms(4) _ assms(2,3), of "byte_memory bytes"] obtain g1 g2
    where w: "py_write (byte_memory bytes) pa (words_array xs) = Inr g1" "py_write g1 pb (words_array ys) = Inr g2"
      and len: "length g2 = bytes" and a: "\<And>j. j < n \<Longrightarrow> load32 (element pa j) 0 g2 = Inr (xs ! j)"
      and b: "\<And>j. j < n \<Longrightarrow> load32 (element pb j) 0 g2 = Inr (ys ! j)" by (auto simp: byte_memory_def)
  have va: "vector_arrays ?ps g2" "unat (?ps ! 3) = n" using arrays_apart_vector [OF assms(4) len] by simp_all
  have gc: "grid_covers (to_dim grid) (to_dim block) (unat (?ps ! 3))" using assms(5) va(2) by simp
  from vector_program [OF kernel] obtain opc where opc: "opc = Add \<or> opc = FAdd"
    "code_words p = List.map encode_word (vector_code opc)" "add_word = vector_sum env opc" .
  obtain st g3
    where launch: "launch env p (to_dim grid) (to_dim block) ?ps g2 = Some (Inr st, g3)" and len3: "length g3 = length g2"
      and c: "\<And>j. j < unat (?ps ! 3) \<Longrightarrow> load32 (element (?ps ! 2) j) 0 g3 = Inr (sum_at env opc ?ps g2 j)"
    by (rule vector_launch [OF opc(1,2) gc va(1), of env]) (rule that)
  have "load32 (element pc j) 0 g3 = Inr (?ws ! j)" if j: "j < n" for j
    using c [of j] va(2) a [OF j] b [OF j] j assms(2,3) by (simp add: sum_at_def word_at_def opc(3))
  then have "py_read allocates g3 pc n 4 = Inr (words_array ?ws)"
    using read_words [of ?ws pc g3 allocates] assms(2-4,6) len len3 by (simp add: arrays_apart_def)
  with w launch show ?thesis by (simp add: new_device_def py_launch_def)
qed

section \<open>Properties\<close>

text \<open>C33: over any sequence of calls, those that raise included, a device keeps the size it was made with and
  \<^verbatim>\<open>global_bytes\<close> reports it, and every call has its reply.\<close>

theorem device_keeps_its_size:
  assumes "\<forall>c \<in> set calls. well_formed_call c" and "device_calls env allocates calls (new_device n) = Some (replies, d)"
  shows "length (device_global d) = n \<and> length replies = length calls \<and>
    (\<forall>k < length calls. calls ! k = GlobalBytes \<longrightarrow> replies ! k = Size n)"
  using device_calls_size [OF assms] by (simp add: new_device_def byte_memory_def)

theorem device_keeps_its_size_witness:
  "\<exists>replies d. device_calls example_fp_env (\<lambda>_ _. True)
      [DeviceWrite 4 (words_array [7]), DeviceWrite 0 (words_array [7]), DeviceLaunch exit_program (0, 1) (1, 1) [], GlobalBytes]
      (new_device 4) = Some (replies, d) \<and> replies ! 3 = Size 4"
proof -
  let ?calls = "[DeviceWrite 4 (words_array [7]), DeviceWrite 0 (words_array [7]), DeviceLaunch exit_program (0, 1) (1, 1) [], GlobalBytes]"
  obtain replies d where run: "device_calls example_fp_env (\<lambda>_ _. True) ?calls (new_device 4) = Some (replies, d)"
    by (simp add: py_launch_def launch_def exit_program_decodes to_dim_def dim_count_def fail_def py_write_def
        past_the_end_def words_array_def bytes_of_word_def byte_memory_def new_device_def)
  have "\<forall>c \<in> set ?calls. well_formed_call c"
    by (simp add: well_formed_call_def words_array_ok)
  from device_keeps_its_size [OF this run] run show ?thesis by auto
qed

end
