(* ===== verification/Shipped_Kernels.thy ===== *)
theory Shipped_Kernels
  imports Source_Layout Python_Session
begin

text \<open>
  The source texts of \<^verbatim>\<open>kernels/vecadd_s32.wisa\<close> and \<^verbatim>\<open>kernels/vecadd.wisa\<close>, line by
  line, and what the assembler makes of them: the programs that \<open>Vector_Kernel\<close> reasons about.
  So the results on the kernels are about the files as they are shipped.
\<close>

section \<open>The sources\<close>

definition vecadd_s32_lines :: "string list" where
  "vecadd_s32_lines = [
     ''// Integer vector add: c[i] = a[i] + b[i] (s32, wraps) for i < n.'',
     ''.entry vecadd_s32'',
     ''.param a'',
     ''.param b'',
     ''.param c'',
     ''.param n'',
     '''',
     ''    mov.sreg r0, %tid.x'',
     ''    mov.sreg r1, %ctaid.x'',
     ''    mov.sreg r2, %ntid.x'',
     ''    mul     r1, r1, r2'',
     ''    add     r0, r0, r1          // r0 = global index'',
     ''    ld.param r3, [n]'',
     ''    setp.ge.s32 p0, r0, r3'',
     ''@p0 bra done'',
     ''    shl     r4, r0, 2'',
     ''    ld.param r5, [a]'',
     ''    add     r5, r5, r4'',
     ''    ld.global r6, [r5]'',
     ''    ld.param r7, [b]'',
     ''    add     r7, r7, r4'',
     ''    ld.global r8, [r7]'',
     ''    add     r6, r6, r8'',
     ''    ld.param r9, [c]'',
     ''    add     r9, r9, r4'',
     ''    st.global [r9], r6'',
     ''done:'',
     ''    exit'']"

definition vecadd_lines :: "string list" where
  "vecadd_lines = [
     ''// Vector add: c[i] = a[i] + b[i] for i < n. One lane per element.'',
     ''.entry vecadd'',
     ''.param a'',
     ''.param b'',
     ''.param c'',
     ''.param n'',
     '''',
     ''    mov.sreg r0, %tid.x'',
     ''    mov.sreg r1, %ctaid.x'',
     ''    mov.sreg r2, %ntid.x'',
     ''    mul     r1, r1, r2'',
     ''    add     r0, r0, r1          // r0 = global index'',
     ''    ld.param r3, [n]'',
     ''    setp.ge.s32 p0, r0, r3'',
     ''@p0 bra done'',
     ''    shl     r4, r0, 2           // byte offset'',
     ''    ld.param r5, [a]'',
     ''    add     r5, r5, r4'',
     ''    ld.global r6, [r5]'',
     ''    ld.param r7, [b]'',
     ''    add     r7, r7, r4'',
     ''    ld.global r8, [r7]'',
     ''    fadd    r6, r6, r8'',
     ''    ld.param r9, [c]'',
     ''    add     r9, r9, r4'',
     ''    st.global [r9], r6'',
     ''done:'',
     ''    exit'']"

section \<open>Their instructions\<close>

text \<open>The lines with instructions: all but the header and the label.\<close>

definition code_lines :: "string list \<Rightarrow> string list" where
  "code_lines ls = take 19 (drop 7 ls) @ drop 27 ls"

abbreviation "vector_prints env \<equiv> prints_as env [19 \<mapsto> ''done''] [''a'', ''b'', ''c'', ''n'']"

lemma vecadd_s32_first:
  "list_all2 (vector_prints env) (take 7 (vector_code Add)) (take 7 (code_lines vecadd_s32_lines))"
  by code_simp

lemma vecadd_s32_middle:
  "list_all2 (vector_prints env) (take 7 (drop 7 (vector_code Add))) (take 7 (drop 7 (code_lines vecadd_s32_lines)))"
  by code_simp

lemma vecadd_s32_last:
  "list_all2 (vector_prints env) (drop 7 (drop 7 (vector_code Add))) (drop 7 (drop 7 (code_lines vecadd_s32_lines)))"
  by code_simp

lemma vecadd_s32_printed: "list_all2 (vector_prints env) (vector_code Add) (code_lines vecadd_s32_lines)"
  using list_all2_appendI [OF vecadd_s32_first list_all2_appendI [OF vecadd_s32_middle vecadd_s32_last]]
  by (simp only: append_take_drop_id)

lemma vecadd_other_lines:
  "vector_code FAdd = (vector_code Add)[15 := vector_code FAdd ! 15]"
  "code_lines vecadd_lines = (code_lines vecadd_s32_lines)[8 := code_lines vecadd_lines ! 8, 15 := code_lines vecadd_lines ! 15]"
  "vector_prints env (vector_code Add ! 8) (code_lines vecadd_lines ! 8)"
  "vector_prints env (vector_code FAdd ! 15) (code_lines vecadd_lines ! 15)"
  by code_simp+

lemma vecadd_printed: "list_all2 (vector_prints env) (vector_code FAdd) (code_lines vecadd_lines)"
proof -
  have "list_all2 (vector_prints env) ((vector_code Add)[8 := vector_code Add ! 8, 15 := vector_code FAdd ! 15])
      ((code_lines vecadd_s32_lines)[8 := code_lines vecadd_lines ! 8, 15 := code_lines vecadd_lines ! 15])"
    by (intro list_all2_update_cong vecadd_s32_printed vecadd_other_lines(3,4))
  then show ?thesis using vecadd_other_lines(1,2) by simp
qed

lemma vector_annotated:
  "\<forall>opc \<in> {Add, FAdd}. annotate_reconvergence (vector_code opc) = Some (Inr (vector_code opc))"
  by code_simp

lemma comment_lines:
  "\<forall>l \<in> {hd vecadd_s32_lines, hd vecadd_lines}. line_views l = Some [] \<and> CHR ''\<newline>'' \<notin> set l"
  by code_simp

lemma vector_names:
  "\<forall>x \<in> {''vecadd'', ''vecadd_s32'', ''done'', ''a'', ''b'', ''c'', ''n''}. is_ident x"
  by code_simp

lemma vector_decoded:
  assumes opc: "opc = Add \<or> opc = FAdd"
  shows "all_values (List.map decode (List.map encode_word (vector_code opc))) = Some (vector_code opc)"
    "name_targets 0 (List.map encode_word (vector_code opc)) [19 \<mapsto> ''done''] = Inr [19 \<mapsto> ''done'']"
proof -
  have d: "decode (List.map encode_word (vector_code opc) ! k) = Inr (vector_code opc ! k)" if "k < 20" for k
    using that decode_encoded [OF vector_valid [OF opc]] by simp
  then show "all_values (List.map decode (List.map encode_word (vector_code opc))) = Some (vector_code opc)"
    by (simp add: all_values_map del: map_map List.map.compositionality)
  have "list_all (\<lambda>i. opcode i = Bra \<longrightarrow> branch_target i = 19) (vector_code opc)"
    using opc by (elim disjE; simp only:; code_simp)
  with d show "name_targets 0 (List.map encode_word (vector_code opc)) [19 \<mapsto> ''done''] = Inr [19 \<mapsto> ''done'']"
    by (intro name_targets_known) (auto simp: list_all_length)
qed

lemma vector_operands:
  assumes "opc = Add \<or> opc = FAdd"
  shows "\<forall>i \<in> set (vector_code opc). (opcode i = LdParam \<longrightarrow> unat (imm i) < length (param_names vecadd)) \<and>
    \<not> (imm_flag i \<and> prints_float_immediate (opcode i))"
  using assms
  by (elim disjE) (simp_all add: vector_code_def instr_def instr_imm_def prints_float_immediate_def default_instruction_def vecadd_def)

section \<open>Their assembly\<close>

lemma vector_source_assembles:
  assumes opc: "opc = Add \<or> opc = FAdd" and name: "is_ident name"
    and comment: "line_views l = Some []" "CHR ''\<newline>'' \<notin> set l"
    and ls: "list_all2 (vector_prints env) (vector_code opc) ls"
  shows "assemble env (text_of [l, ''.entry '' @ name, ''.param a'', ''.param b'', ''.param c'', ''.param n'', []] @
      code_source [19 \<mapsto> ''done''] 0 ls) =
    Some (Inr \<lparr>entry_name = name, param_names = [''a'', ''b'', ''c'', ''n''], shared_bytes = 0,
      code_words = List.map encode_word (vector_code opc), label_names = [19 \<mapsto> ''done'']\<rparr>)" (is "_ = Some (Inr ?p)")
proof -
  let ?e = "empty_program\<lparr>entry_name := name\<rparr>" and ?c = "(Map.empty, [])"
  have 1: "reads_text env (l @ ''\<newline>'') (empty_program, ?c) (empty_program, ?c)"
    by (rule reads_text_empty_line [OF comment])
  have 2: "reads_text env ((''.entry '' @ name) @ ''\<newline>'') (empty_program, ?c) (?e, ?c)"
    by (intro reads_text_line entry_line name) (simp_all add: empty_program_def)
  have 3: "reads_text env (List.concat (List.map (\<lambda>param. ''.param '' @ param @ ''\<newline>'') [''a'', ''b'', ''c'', ''n'']))
      (?e, ?c) (?e\<lparr>param_names := param_names ?e @ [''a'', ''b'', ''c'', ''n'']\<rparr>, ?c)"
    by (rule params_text) (use vector_names in \<open>simp_all add: empty_program_def\<close>)
  from reads_text_append [OF reads_text_append [OF reads_text_append [OF 1 2] 3] reads_text_newline]
  have header: "reads_text env (text_of [l, ''.entry '' @ name, ''.param a'', ''.param b'', ''.param c'', ''.param n'', []])
      (empty_program, ?c) (?p\<lparr>code_words := [], label_names := Map.empty\<rparr>, ?c)"
    by (simp add: empty_program_def)
  have pr: "printable ?p (label_names ?p) (vector_code opc)"
    using vector_decoded [OF opc] vector_operands [OF opc] name vector_names
    by (simp add: printable_def vecadd_def)
  have fl: "\<forall>i \<in> set (vector_code opc). floats_ok env i"
    using vector_operands [OF opc] by (auto simp: floats_ok_def)
  have "annotate_reconvergence (vector_code opc) = Some (Inr (vector_code opc))" using opc vector_annotated by blast
  from relaid_program_assembles [OF pr this fl header] ls
  show ?thesis by (simp add: printed_names_def restrict_map_def fun_eq_iff)
qed

lemma vector_sources:
  "text_of vecadd_s32_lines =
      text_of [hd vecadd_s32_lines, ''.entry '' @ ''vecadd_s32'', ''.param a'', ''.param b'', ''.param c'', ''.param n'', []] @
      code_source [19 \<mapsto> ''done''] 0 (code_lines vecadd_s32_lines)"
  "text_of vecadd_lines =
      text_of [hd vecadd_lines, ''.entry '' @ ''vecadd'', ''.param a'', ''.param b'', ''.param c'', ''.param n'', []] @
      code_source [19 \<mapsto> ''done''] 0 (code_lines vecadd_lines)"
  by code_simp+

lemma shipped_kernels_assemble:
  "assemble env (text_of vecadd_s32_lines) = Some (Inr vecadd_s32)"
  "assemble env (text_of vecadd_lines) = Some (Inr vecadd)"
  using vector_source_assembles [OF _ _ _ _ vecadd_s32_printed, of "''vecadd_s32''" "hd vecadd_s32_lines"]
    vector_source_assembles [OF _ _ _ _ vecadd_printed, of "''vecadd''" "hd vecadd_lines"] comment_lines vector_names
  by (simp_all only: vector_sources) (simp_all add: vecadd_s32_def vecadd_def)

section \<open>Properties\<close>

text \<open>C7: a vector addition from Python, from the source text on. Assembling the text of \<^verbatim>\<open>vecadd_s32.wisa\<close> or
  \<^verbatim>\<open>vecadd.wisa\<close> gives a program; and on a fresh device of any size, for every geometry with a thread
  for each element and every placement of three arrays apart from each other, writing two arrays, launching that
  program and reading the third raises nothing and returns the element-wise wrapped or floating sum of the two.\<close>

theorem python_vector_add:
  assumes "source = text_of vecadd_s32_lines \<and> add_word = (+) \<or> source = text_of vecadd_lines \<and> add_word = f32_add env"
    and "length xs = n" and "length ys = n" and "arrays_apart bytes n pa pb pc"
    and "grid_covers (to_dim grid) (to_dim block) n" and "allocates n 4"
  shows "\<exists>p stats d. py_assemble chars source = Some (Inr p) \<and>
    device_calls env allocates
      [DeviceWrite pa (words_array xs), DeviceWrite pb (words_array ys),
       DeviceLaunch p grid block [pa, pb, pc, of_nat n], DeviceRead pc n 4] (new_device bytes) =
    Some ([Nothing, Nothing, Stats stats, Array (words_array (map2 add_word xs ys))], d)"
proof -
  from assms(1) shipped_kernels_assemble [of chars] obtain p where p: "assemble chars source = Some (Inr p)"
    and kernel: "p = vecadd_s32 \<and> add_word = (+) \<or> p = vecadd \<and> add_word = f32_add env" by blast
  from vector_session [where allocates = allocates, OF kernel assms(2-6)] p show ?thesis by (auto simp: py_assemble_def)
qed

theorem python_vector_add_witness:
  "\<exists>p stats d. py_assemble example_chars_env (text_of vecadd_s32_lines) = Some (Inr p) \<and>
    device_calls example_fp_env (\<lambda>count itemsize. count * itemsize < 2 ^ 63)
      [DeviceWrite 0 (words_array [1, 2]), DeviceWrite 8 (words_array [0xFFFFFFFF, 5]),
       DeviceLaunch p (1, 1) (32, 1) [0, 8, 16, 2], DeviceRead 16 2 4] (new_device 24) =
    Some ([Nothing, Nothing, Stats stats, Array (words_array [0, 7])], d)"
proof -
  have wraps: "(0x100000000 :: u32) = 0" by code_simp
  show ?thesis
    using python_vector_add [of "text_of vecadd_s32_lines" "(+)" example_fp_env "[1, 2]" 2 "[0xFFFFFFFF, 5]" 24 0 8 16 "(1, 1)" "(32, 1)"
        "\<lambda>count itemsize. count * itemsize < 2 ^ 63" example_chars_env]
    by (simp add: arrays_apart_def grid_covers_def to_dim_def wraps del: device_calls.simps text_of_simps)
qed

end
