(* ===== verification/Matmul_Kernel.thy ===== *)
theory Matmul_Kernel
  imports Vector_Kernel
begin

text \<open>
  The shipped kernel \<^verbatim>\<open>kernels/matmul_naive.wisa\<close>: one thread for each element of the product, a
  loop along the inner dimension, and exits for the threads outside. It is a separated kernel with a
  backward branch, so the launch returns because every thread alone does.
\<close>

unbundle bit_operations_syntax

section \<open>The kernel\<close>

definition if_pred :: "u8 \<Rightarrow> Instruction \<Rightarrow> Instruction" where
  "if_pred p i = i\<lparr>guard := \<lparr>present = True, negate = False, gpred = p\<rparr>\<rparr>"

definition jump :: "u16 \<Rightarrow> u16 \<Rightarrow> Instruction" where
  "jump target r = default_instruction\<lparr>opcode := Bra, imm := make_branch_imm target r\<rparr>"

text \<open>The code as the assembler encodes it: \<^verbatim>\<open>loop\<close> is instruction 25 and \<^verbatim>\<open>done\<close> is 34, where
  the guarded branch reconverges; the jump back is not guarded and has no reconvergence point.\<close>

definition matmul_code :: "Instruction list" where
  "matmul_code =
    [instr MovSreg 0 (special_number TidX) 0,
     instr MovSreg 1 (special_number TidY) 0,
     instr MovSreg 2 (special_number CtaidX) 0,
     instr MovSreg 3 (special_number CtaidY) 0,
     instr_imm Shl 2 2 0 4,
     instr Add 2 2 0,
     instr_imm Shl 3 3 0 4,
     instr Add 3 3 1,
     instr_imm LdParam 4 0 0 3,
     instr_imm LdParam 5 0 0 4,
     instr_imm LdParam 6 0 0 5,
     instr SetpGeS32 0 3 4,
     if_pred 0 (instr Exit 0 0 0),
     instr SetpGeS32 1 2 5,
     if_pred 1 (instr Exit 0 0 0),
     instr Mul 7 3 6,
     instr_imm Shl 7 7 0 2,
     instr_imm LdParam 8 0 0 0,
     instr Add 7 7 8,
     instr_imm Shl 9 2 0 2,
     instr_imm LdParam 10 0 0 1,
     instr Add 9 9 10,
     instr_imm Shl 11 5 0 2,
     instr_imm Mov 12 0 0 0,
     instr_imm Mov 13 0 0 0,
     instr SetpGeS32 2 13 6,
     if_pred 2 (jump 34 34),
     instr_imm LdGlobal 14 7 0 0,
     instr_imm LdGlobal 15 9 0 0,
     instr FFma 12 14 15,
     instr_imm Add 7 7 0 4,
     instr Add 9 9 11,
     instr_imm Add 13 13 0 1,
     jump 25 no_reconvergence,
     instr Mul 16 3 5,
     instr Add 16 16 2,
     instr_imm Shl 16 16 0 2,
     instr_imm LdParam 17 0 0 2,
     instr Add 16 16 17,
     instr_imm StGlobal 0 16 12 0,
     instr Exit 0 0 0]"

definition matmul_naive :: Program where
  "matmul_naive = \<lparr>entry_name = ''matmul_naive'', param_names = [''a'', ''b'', ''c'', ''m'', ''n'', ''k''], shared_bytes = 0,
     code_words = List.map encode_word matmul_code, label_names = [25 \<mapsto> ''loop'', 34 \<mapsto> ''done'']\<rparr>"

section \<open>Runs of a machine through states with a property\<close>

definition visits :: "('s \<Rightarrow> 's) \<Rightarrow> ('s \<Rightarrow> bool) \<Rightarrow> 's \<Rightarrow> 's \<Rightarrow> bool" where
  "visits next P L L' \<longleftrightarrow> (\<exists>n. (next ^^ n) L = L' \<and> (\<forall>j < n. P ((next ^^ j) L)))"

lemma visits_refl: "visits next P L L"
  unfolding visits_def by (rule exI [of _ 0]) simp

lemma visits_step: "next L = L' \<Longrightarrow> P L \<Longrightarrow> visits next P L L'"
  unfolding visits_def by (rule exI [of _ 1]) simp

lemma visits_trans [trans]:
  assumes "visits next P L L'" "visits next P L' L''"
  shows "visits next P L L''"
proof -
  from assms obtain n m where n: "(next ^^ n) L = L'" "\<forall>j < n. P ((next ^^ j) L)"
    and m: "(next ^^ m) L' = L''" "\<forall>j < m. P ((next ^^ j) L')" unfolding visits_def by blast
  have later: "(next ^^ (n + j)) L = (next ^^ j) L'" for j using n(1) by (simp add: add.commute [of n] funpow_add)
  have "P ((next ^^ j) L)" if "j < n + m" for j
  proof (cases "j < n")
    case False
    with that m(2) later [of "j - n"] show ?thesis by simp
  qed (use n(2) in simp)
  with later [of m] m(1) show ?thesis unfolding visits_def by blast
qed

section \<open>One thread\<close>

definition mm :: "u16 \<Rightarrow> (u8 \<Rightarrow> u32) \<Rightarrow> (u8 \<Rightarrow> bool) \<Rightarrow> LaneState" where
  "mm pc f q = \<lparr>lane_pc = Some pc, lane_cells = (f, q)\<rparr>"

text \<open>Every access the thread is about to make satisfies \<open>Q\<close>.\<close>

definition accesses :: "(Instruction \<Rightarrow> Cells \<Rightarrow> bool) \<Rightarrow> LaneState \<Rightarrow> bool" where
  "accesses Q L \<longleftrightarrow> (\<forall>i. pending_access matmul_code L = Some i \<longrightarrow> Q i (lane_cells L))"

lemma length_matmul_code [simp]: "length matmul_code = 41"
  by (simp add: matmul_code_def)

lemma effect_alu_single:
  assumes "is_alu_opcode (opcode i)" "\<not> is_setp (opcode i)" "\<not> is_memory_opcode (opcode i)"
    and "shape (opcode_info (opcode i)) = Rr"
  shows "lane_effect env ld ctx l i (f, q) =
    (f(dst i := evaluate env i \<lparr>op_a = (if imm_flag i then imm i else f (src0 i)), op_b = 0\<rparr> (f (dst i)) l ctx), q)"
  using assms
  by (simp add: lane_effect_def alu_lane_def fetch_def spread_def lane_view_def read_reg_def read_pred_def
      write_reg_def fun_eq_iff)

lemma mm_visit:
  assumes "matmul_code ! unat pc = i" "opcode i \<noteq> Bra" "opcode i \<noteq> Exit" "\<not> present (guard i)"
    and "unat (pc + 1) < 41" "lane_effect env ld ctx l i (f, q) = (f', q')"
    and "is_memory_opcode (opcode i) \<Longrightarrow> Q i (f, q)" and "pc' = pc + 1"
  shows "visits (lane_step env ld matmul_code ctx l) (accesses Q) (mm pc f q) (mm pc' f' q')"
proof (rule visits_step)
  show "lane_step env ld matmul_code ctx l (mm pc f q) = mm pc' f' q'"
    using lane_step_next [OF assms(1-4), of env ld ctx l "(f, q)"] assms(5,6,8) by (simp add: mm_def)
  show "accesses Q (mm pc f q)"
    using assms(1,7) by (auto simp: accesses_def pending_access_def mm_def Let_def split: if_splits)
qed

lemma mm_special:
  "visits (lane_step env ld matmul_code ctx l) (accesses Q) (mm 0 f q) (mm 1 (f(0 := special ctx TidX l)) q)"
  "visits (lane_step env ld matmul_code ctx l) (accesses Q) (mm 1 f q) (mm 2 (f(1 := special ctx TidY l)) q)"
  "visits (lane_step env ld matmul_code ctx l) (accesses Q) (mm 2 f q) (mm 3 (f(2 := special ctx CtaidX l)) q)"
  "visits (lane_step env ld matmul_code ctx l) (accesses Q) (mm 3 f q) (mm 4 (f(3 := special ctx CtaidY l)) q)"
  by (rule mm_visit [OF refl];
      simp add: matmul_code_def instr_def default_instruction_def no_guard_def effect_alu kernel_setp
        evaluate_def special_at_def special_register_info_def special_register_table_def)+

lemma mm_index:
  "visits (lane_step env ld matmul_code ctx l) (accesses Q) (mm 4 f q) (mm 5 (f(2 := push_bit 4 (f 2))) q)"
  "visits (lane_step env ld matmul_code ctx l) (accesses Q) (mm 5 f q) (mm 6 (f(2 := f 2 + f 0)) q)"
  "visits (lane_step env ld matmul_code ctx l) (accesses Q) (mm 6 f q) (mm 7 (f(3 := push_bit 4 (f 3))) q)"
  "visits (lane_step env ld matmul_code ctx l) (accesses Q) (mm 7 f q) (mm 8 (f(3 := f 3 + f 1)) q)"
  "visits (lane_step env ld matmul_code ctx l) (accesses Q) (mm 15 f q) (mm 16 (f(7 := f 3 * f 6)) q)"
  "visits (lane_step env ld matmul_code ctx l) (accesses Q) (mm 16 f q) (mm 17 (f(7 := push_bit 2 (f 7))) q)"
  "visits (lane_step env ld matmul_code ctx l) (accesses Q) (mm 18 f q) (mm 19 (f(7 := f 7 + f 8)) q)"
  "visits (lane_step env ld matmul_code ctx l) (accesses Q) (mm 19 f q) (mm 20 (f(9 := push_bit 2 (f 2))) q)"
  "visits (lane_step env ld matmul_code ctx l) (accesses Q) (mm 21 f q) (mm 22 (f(9 := f 9 + f 10)) q)"
  "visits (lane_step env ld matmul_code ctx l) (accesses Q) (mm 22 f q) (mm 23 (f(11 := push_bit 2 (f 5))) q)"
  "visits (lane_step env ld matmul_code ctx l) (accesses Q) (mm 23 f q) (mm 24 (f(12 := 0)) q)"
  "visits (lane_step env ld matmul_code ctx l) (accesses Q) (mm 24 f q) (mm 25 (f(13 := 0)) q)"
  "visits (lane_step env ld matmul_code ctx l) (accesses Q) (mm 29 f q) (mm 30 (f(12 := f32_fma env (f 14) (f 15) (f 12))) q)"
  "visits (lane_step env ld matmul_code ctx l) (accesses Q) (mm 30 f q) (mm 31 (f(7 := f 7 + 4)) q)"
  "visits (lane_step env ld matmul_code ctx l) (accesses Q) (mm 31 f q) (mm 32 (f(9 := f 9 + f 11)) q)"
  "visits (lane_step env ld matmul_code ctx l) (accesses Q) (mm 32 f q) (mm 33 (f(13 := f 13 + 1)) q)"
  "visits (lane_step env ld matmul_code ctx l) (accesses Q) (mm 34 f q) (mm 35 (f(16 := f 3 * f 5)) q)"
  "visits (lane_step env ld matmul_code ctx l) (accesses Q) (mm 35 f q) (mm 36 (f(16 := f 16 + f 2)) q)"
  "visits (lane_step env ld matmul_code ctx l) (accesses Q) (mm 36 f q) (mm 37 (f(16 := push_bit 2 (f 16))) q)"
  "visits (lane_step env ld matmul_code ctx l) (accesses Q) (mm 38 f q) (mm 39 (f(16 := f 16 + f 17)) q)"
  by (rule mm_visit [OF refl];
      simp add: matmul_code_def instr_def instr_imm_def default_instruction_def no_guard_def effect_alu effect_alu_single
        is_setp_def word_le_nat_alt evaluate_def wrap_mul_def wrap_add_def shift_mask_def)+

lemma mm_compare:
  "f 4 = x \<Longrightarrow> f 3 = y \<Longrightarrow>
    visits (lane_step env ld matmul_code ctx l) (accesses Q) (mm 11 f q) (mm 12 f (q(0 := as_s32 x \<le> as_s32 y)))"
  "f 5 = x \<Longrightarrow> f 2 = y \<Longrightarrow>
    visits (lane_step env ld matmul_code ctx l) (accesses Q) (mm 13 f q) (mm 14 f (q(1 := as_s32 x \<le> as_s32 y)))"
  "f 6 = x \<Longrightarrow> f 13 = y \<Longrightarrow>
    visits (lane_step env ld matmul_code ctx l) (accesses Q) (mm 25 f q) (mm 26 f (q(2 := as_s32 x \<le> as_s32 y)))"
  by (rule mm_visit [OF refl];
      simp add: matmul_code_def instr_def instr_imm_def default_instruction_def no_guard_def effect_setp)+

lemma mm_jump:
  assumes "matmul_code ! unat pc = i" "opcode i = Bra \<or> opcode i = Exit"
    and "L = \<lparr>lane_pc = in_program 41 (lane_next i (lane_guard i (f, q)) pc), lane_cells = (f, q)\<rparr>"
  shows "visits (lane_step env ld matmul_code ctx l) (accesses Q) (mm pc f q) L"
proof (rule visits_step)
  have "lane_effect env ld ctx l i (f, q) = (f, q)" using assms(2) by (auto simp: lane_effect_def)
  then show "lane_step env ld matmul_code ctx l (mm pc f q) = L"
    using assms(1,3) by (simp add: lane_step_def mm_def Let_def)
  show "accesses Q (mm pc f q)"
    using assms(1,2) by (auto simp: accesses_def pending_access_def mm_def Let_def)
qed

lemma mm_jumps:
  "visits (lane_step env ld matmul_code ctx l) (accesses Q) (mm 12 f q) (if q 0 then (mm 12 f q)\<lparr>lane_pc := None\<rparr> else mm 13 f q)"
  "visits (lane_step env ld matmul_code ctx l) (accesses Q) (mm 14 f q) (if q 1 then (mm 14 f q)\<lparr>lane_pc := None\<rparr> else mm 15 f q)"
  "visits (lane_step env ld matmul_code ctx l) (accesses Q) (mm 26 f q) (mm (if q 2 then 34 else 27) f q)"
  "visits (lane_step env ld matmul_code ctx l) (accesses Q) (mm 33 f q) (mm 25 f q)"
  "visits (lane_step env ld matmul_code ctx l) (accesses Q) (mm 40 f q) ((mm 40 f q)\<lparr>lane_pc := None\<rparr>)"
  by (rule mm_jump [OF refl];
      simp add: matmul_code_def mm_def lane_guard_def lane_next_def
        instr_def if_pred_def jump_def branch_target_def make_branch_imm_def no_reconvergence_def
        default_instruction_def no_guard_def)+

lemma mm_params:
  assumes prm: "\<forall>k < 6. ld Param (of_nat k) l = Inr (ps ! k)"
    and Q: "\<forall>i cells. memory_space (opcode i) = Param \<longrightarrow> unat (lane_address i cells) < 6 \<longrightarrow> Q i cells"
  shows "visits (lane_step env ld matmul_code ctx l) (accesses Q) (mm 8 f q) (mm 9 (f(4 := ps ! 3)) q)"
    "visits (lane_step env ld matmul_code ctx l) (accesses Q) (mm 9 f q) (mm 10 (f(5 := ps ! 4)) q)"
    "visits (lane_step env ld matmul_code ctx l) (accesses Q) (mm 10 f q) (mm 11 (f(6 := ps ! 5)) q)"
    "visits (lane_step env ld matmul_code ctx l) (accesses Q) (mm 17 f q) (mm 18 (f(8 := ps ! 0)) q)"
    "visits (lane_step env ld matmul_code ctx l) (accesses Q) (mm 20 f q) (mm 21 (f(10 := ps ! 1)) q)"
    "visits (lane_step env ld matmul_code ctx l) (accesses Q) (mm 37 f q) (mm 38 (f(17 := ps ! 2)) q)"
proof -
  have prms: "ld Param 0 l = Inr (ps ! 0)" "ld Param 1 l = Inr (ps ! 1)" "ld Param 2 l = Inr (ps ! 2)"
      "ld Param 3 l = Inr (ps ! 3)" "ld Param 4 l = Inr (ps ! 4)" "ld Param 5 l = Inr (ps ! 5)"
    using prm [rule_format, of 0] prm [rule_format, of 1] prm [rule_format, of 2] prm [rule_format, of 3]
      prm [rule_format, of 4] prm [rule_format, of 5] by simp_all
  show "visits (lane_step env ld matmul_code ctx l) (accesses Q) (mm 8 f q) (mm 9 (f(4 := ps ! 3)) q)"
    "visits (lane_step env ld matmul_code ctx l) (accesses Q) (mm 9 f q) (mm 10 (f(5 := ps ! 4)) q)"
    "visits (lane_step env ld matmul_code ctx l) (accesses Q) (mm 10 f q) (mm 11 (f(6 := ps ! 5)) q)"
    "visits (lane_step env ld matmul_code ctx l) (accesses Q) (mm 17 f q) (mm 18 (f(8 := ps ! 0)) q)"
    "visits (lane_step env ld matmul_code ctx l) (accesses Q) (mm 20 f q) (mm 21 (f(10 := ps ! 1)) q)"
    "visits (lane_step env ld matmul_code ctx l) (accesses Q) (mm 37 f q) (mm 38 (f(17 := ps ! 2)) q)"
    by (rule mm_visit [OF refl]; simp add: Q matmul_code_def instr_def instr_imm_def default_instruction_def no_guard_def
        effect_load lane_address_def is_store_opcode_def prms)+
qed

lemma mm_words:
  "ld Global (f 7) l = Inr x \<Longrightarrow> Q (matmul_code ! 27) (f, q) \<Longrightarrow>
    visits (lane_step env ld matmul_code ctx l) (accesses Q) (mm 27 f q) (mm 28 (f(14 := x)) q)"
  "ld Global (f 9) l = Inr x \<Longrightarrow> Q (matmul_code ! 28) (f, q) \<Longrightarrow>
    visits (lane_step env ld matmul_code ctx l) (accesses Q) (mm 28 f q) (mm 29 (f(15 := x)) q)"
  "Q (matmul_code ! 39) (f, q) \<Longrightarrow>
    visits (lane_step env ld matmul_code ctx l) (accesses Q) (mm 39 f q) (mm 40 f q)"
  by (rule mm_visit [OF refl]; simp; simp add: matmul_code_def instr_imm_def instr_def default_instruction_def no_guard_def
      effect_load lane_effect_def lane_load_def lane_address_def is_store_opcode_def)+

section \<open>The way of a thread through the code\<close>

text \<open>Up to the check of the row: the thread knows its row, its column and the sizes.\<close>

lemma mm_start:
  assumes prm: "\<forall>k < 6. ld Param (of_nat k) l = Inr (ps ! k)"
    and Q: "\<forall>i cells. memory_space (opcode i) = Param \<longrightarrow> unat (lane_address i cells) < 6 \<longrightarrow> Q i cells"
    and r: "r = push_bit 4 (special ctx CtaidY l) + special ctx TidY l"
    and c: "c = push_bit 4 (special ctx CtaidX l) + special ctx TidX l"
  shows "\<exists>f. visits (lane_step env ld matmul_code ctx l) (accesses Q) (mm 0 (\<lambda>_. 0) q) (mm 12 f (q(0 := as_s32 (ps ! 3) \<le> as_s32 r))) \<and>
    f 2 = c \<and> f 3 = r \<and> f 4 = ps ! 3 \<and> f 5 = ps ! 4 \<and> f 6 = ps ! 5"
proof -
  note P = mm_params [where ld = ld and l = l and ps = ps and Q = Q and env = env and ctx = ctx, OF prm Q]
  show ?thesis
    unfolding r c
    by (intro exI conjI, rule mm_special [THEN visits_trans], rule mm_special [THEN visits_trans],
        rule mm_special [THEN visits_trans], rule mm_special [THEN visits_trans],
        rule mm_index [THEN visits_trans], rule mm_index [THEN visits_trans],
        rule mm_index [THEN visits_trans], rule mm_index [THEN visits_trans],
        rule P [THEN visits_trans], rule P [THEN visits_trans], rule P [THEN visits_trans], rule mm_compare)
      (simp_all del: special.simps)
qed

text \<open>From the bounds checks to the loop: the two pointers, the stride, the sum and the counter.\<close>

lemma mm_pointers:
  assumes prm: "\<forall>k < 6. ld Param (of_nat k) l = Inr (ps ! k)"
    and Q: "\<forall>i cells. memory_space (opcode i) = Param \<longrightarrow> unat (lane_address i cells) < 6 \<longrightarrow> Q i cells"
    and f: "f 2 = c" "f 3 = r" "f 5 = ps ! 4" "f 6 = ps ! 5"
  shows "\<exists>f'. visits (lane_step env ld matmul_code ctx l) (accesses Q) (mm 15 f q) (mm 25 f' q) \<and>
    f' 2 = c \<and> f' 3 = r \<and> f' 5 = ps ! 4 \<and> f' 6 = ps ! 5 \<and> f' 7 = push_bit 2 (r * ps ! 5) + ps ! 0 \<and>
    f' 9 = push_bit 2 c + ps ! 1 \<and> f' 11 = push_bit 2 (ps ! 4) \<and> f' 12 = 0 \<and> f' 13 = 0"
proof -
  note P = mm_params [where ld = ld and l = l and ps = ps and Q = Q and env = env and ctx = ctx, OF prm Q]
  show ?thesis
    by (intro exI conjI, rule mm_index [THEN visits_trans], rule mm_index [THEN visits_trans], rule P [THEN visits_trans],
        rule mm_index [THEN visits_trans], rule mm_index [THEN visits_trans], rule P [THEN visits_trans],
        rule mm_index [THEN visits_trans], rule mm_index [THEN visits_trans], rule mm_index [THEN visits_trans], rule mm_index)
      (simp_all add: f)
qed

text \<open>One turn of the loop.\<close>

lemma mm_turn:
  assumes more: "\<not> as_s32 (f 6) \<le> as_s32 (f 13)"
    and x: "ld Global (f 7) l = Inr x" and y: "ld Global (f 9) l = Inr y"
    and Q: "\<And>i cells. memory_space (opcode i) = Global \<Longrightarrow> \<not> is_store_opcode (opcode i) \<Longrightarrow>
      lane_address i cells \<in> {f 7, f 9} \<Longrightarrow> Q i cells"
  shows "visits (lane_step env ld matmul_code ctx l) (accesses Q) (mm 25 f (\<lambda>_. False))
    (mm 25 (f(14 := x, 15 := y, 12 := f32_fma env x y (f 12), 7 := f 7 + 4, 9 := f 9 + f 11, 13 := f 13 + 1)) (\<lambda>_. False))"
proof -
  let ?V = "visits (lane_step env ld matmul_code ctx l) (accesses Q)"
  have "?V (mm 25 f (\<lambda>_. False)) (mm 26 f (\<lambda>_. False))"
    using mm_compare(3) [of f, OF refl refl, of env ld ctx l Q "\<lambda>_. False"] more by (simp add: fun_upd_idem)
  also have "?V (mm 26 f (\<lambda>_. False)) (mm 27 f (\<lambda>_. False))"
    using mm_jumps(3) [of env ld ctx l Q f "\<lambda>_. False"] by simp
  also have "?V (mm 27 f (\<lambda>_. False)) (mm 28 (f(14 := x)) (\<lambda>_. False))"
    by (rule mm_words(1) [of ld f, OF x], rule Q) (simp_all add: matmul_code_def instr_imm_def instr_def default_instruction_def
        is_store_opcode_def lane_address_def)
  also have "?V (mm 28 (f(14 := x)) (\<lambda>_. False)) (mm 29 (f(14 := x, 15 := y)) (\<lambda>_. False))"
    by (rule mm_words(2), simp add: y, rule Q) (simp_all add: matmul_code_def instr_imm_def instr_def default_instruction_def
        is_store_opcode_def lane_address_def)
  also have "?V (mm 29 (f(14 := x, 15 := y)) (\<lambda>_. False))
      (mm 30 (f(14 := x, 15 := y, 12 := f32_fma env x y (f 12))) (\<lambda>_. False))"
    using mm_index(13) [of env ld ctx l Q "f(14 := x, 15 := y)"] by simp
  also have "?V (mm 30 (f(14 := x, 15 := y, 12 := f32_fma env x y (f 12))) (\<lambda>_. False))
      (mm 31 (f(14 := x, 15 := y, 12 := f32_fma env x y (f 12), 7 := f 7 + 4)) (\<lambda>_. False))"
    using mm_index(14) [of env ld ctx l Q "f(14 := x, 15 := y, 12 := f32_fma env x y (f 12))"] by simp
  also have "?V (mm 31 (f(14 := x, 15 := y, 12 := f32_fma env x y (f 12), 7 := f 7 + 4)) (\<lambda>_. False))
      (mm 32 (f(14 := x, 15 := y, 12 := f32_fma env x y (f 12), 7 := f 7 + 4, 9 := f 9 + f 11)) (\<lambda>_. False))"
    using mm_index(15) [of env ld ctx l Q "f(14 := x, 15 := y, 12 := f32_fma env x y (f 12), 7 := f 7 + 4)"] by simp
  also have "?V (mm 32 (f(14 := x, 15 := y, 12 := f32_fma env x y (f 12), 7 := f 7 + 4, 9 := f 9 + f 11)) (\<lambda>_. False))
      (mm 33 (f(14 := x, 15 := y, 12 := f32_fma env x y (f 12), 7 := f 7 + 4, 9 := f 9 + f 11, 13 := f 13 + 1)) (\<lambda>_. False))"
    using mm_index(16) [of env ld ctx l Q "f(14 := x, 15 := y, 12 := f32_fma env x y (f 12), 7 := f 7 + 4, 9 := f 9 + f 11)"] by simp
  finally show ?thesis by (rule visits_trans) (rule mm_jumps(4))
qed

text \<open>All the turns. The entry of the product so far, rounded once in every step.\<close>

definition product_at :: "fp_env \<Rightarrow> u32 list \<Rightarrow> ByteMemory \<Rightarrow> nat \<Rightarrow> nat \<Rightarrow> nat \<Rightarrow> u32" where
  "product_at env ps g row col j =
    fold (\<lambda>i. f32_fma env (word_at g (element (ps ! 0) (row * unat (ps ! 5) + i))) (word_at g (element (ps ! 1) (i * unat (ps ! 4) + col))))
      [0..<j] 0"

lemma element_next: "element base i + of_nat (4 * n) = element base (i + n)" "element base i + 4 = element base (i + 1)"
  by (simp_all add: element_def)

lemma mm_loop:
  assumes k: "k = unat (ps ! 5)" "0 \<le> as_s32 (ps ! 5)"
    and words: "\<And>i. i < k \<Longrightarrow> ld Global (element (ps ! 0) (row * k + i)) l = Inr (word_at g (element (ps ! 0) (row * k + i)))"
      "\<And>i. i < k \<Longrightarrow> ld Global (element (ps ! 1) (i * unat (ps ! 4) + col)) l = Inr (word_at g (element (ps ! 1) (i * unat (ps ! 4) + col)))"
    and Q: "\<forall>i j cells. memory_space (opcode i) = Global \<longrightarrow> \<not> is_store_opcode (opcode i) \<longrightarrow> j < k \<longrightarrow>
      lane_address i cells \<in> {element (ps ! 0) (row * k + j), element (ps ! 1) (j * unat (ps ! 4) + col)} \<longrightarrow> Q i cells"
    and f: "f 2 = c" "f 3 = r" "f 5 = ps ! 4" "f 6 = ps ! 5" "f 7 = element (ps ! 0) (row * k)" "f 9 = element (ps ! 1) col"
      "f 11 = of_nat (4 * unat (ps ! 4))" "f 12 = 0" "f 13 = 0"
    and "j \<le> k"
  shows "\<exists>f'. visits (lane_step env ld matmul_code ctx l) (accesses Q) (mm 25 f (\<lambda>_. False)) (mm 25 f' (\<lambda>_. False)) \<and>
    f' 2 = c \<and> f' 3 = r \<and> f' 5 = ps ! 4 \<and> f' 6 = ps ! 5 \<and> f' 7 = element (ps ! 0) (row * k + j) \<and>
    f' 9 = element (ps ! 1) (j * unat (ps ! 4) + col) \<and> f' 11 = of_nat (4 * unat (ps ! 4)) \<and>
    f' 12 = product_at env ps g row col j \<and> f' 13 = of_nat j"
  using \<open>j \<le> k\<close>
proof (induction j)
  case 0
  show ?case by (rule exI [of _ f]) (simp add: f product_at_def visits_refl)
next
  case (Suc j)
  then have j: "j < k" by simp
  from Suc.IH j obtain f' where run: "visits (lane_step env ld matmul_code ctx l) (accesses Q) (mm 25 f (\<lambda>_. False)) (mm 25 f' (\<lambda>_. False))"
    and f': "f' 2 = c" "f' 3 = r" "f' 5 = ps ! 4" "f' 6 = ps ! 5" "f' 7 = element (ps ! 0) (row * k + j)"
      "f' 9 = element (ps ! 1) (j * unat (ps ! 4) + col)" "f' 11 = of_nat (4 * unat (ps ! 4))"
      "f' 12 = product_at env ps g row col j" "f' 13 = of_nat j" by auto
  have "int k < 2 ^ 31" using s32_nonneg [OF k(2)] as_s32_range(2) [of "ps ! 5"] by (simp only: k(1))
  then have k31: "k < 2 ^ 31" by (metis of_nat_less_iff of_nat_numeral of_nat_power)
  have "unat (of_nat j :: u32) = j" using j k31 by (simp add: unat_of_nat)
  then have more: "\<not> as_s32 (f' 6) \<le> as_s32 (f' 13)"
    using bounds_check [OF k(2), of "of_nat j"] j k31 k(1) by (simp add: f')
  let ?x = "word_at g (element (ps ! 0) (row * k + j))" and ?y = "word_at g (element (ps ! 1) (j * unat (ps ! 4) + col))"
  have turn: "visits (lane_step env ld matmul_code ctx l) (accesses Q) (mm 25 f' (\<lambda>_. False))
    (mm 25 (f'(14 := ?x, 15 := ?y, 12 := f32_fma env ?x ?y (f' 12), 7 := f' 7 + 4, 9 := f' 9 + f' 11, 13 := f' 13 + 1)) (\<lambda>_. False))"
    by (rule mm_turn [OF more]) (use words [OF j] Q [rule_format, OF _ _ j] in \<open>simp_all add: f'\<close>)
  have next_A: "f' 7 + 4 = element (ps ! 0) (row * k + Suc j)" unfolding f' element_next by simp
  have next_B: "f' 9 + f' 11 = element (ps ! 1) (Suc j * unat (ps ! 4) + col)" unfolding f' element_next by (simp add: ac_simps)
  have next_j: "f' 13 + 1 = of_nat (Suc j)" unfolding f' by simp
  have sum: "f32_fma env ?x ?y (f' 12) = product_at env ps g row col (Suc j)"
    unfolding f' by (simp add: product_at_def k(1))
  show ?case
    by (intro exI conjI, rule visits_trans [OF run turn]) (simp_all only: next_A next_B next_j sum, simp_all add: f')
qed

text \<open>The store and the exit.\<close>

lemma mm_finish:
  assumes prm: "\<forall>k < 6. ld Param (of_nat k) l = Inr (ps ! k)"
    and Q: "\<forall>i cells. memory_space (opcode i) = Param \<longrightarrow> unat (lane_address i cells) < 6 \<longrightarrow> Q i cells"
    and f: "f 2 = c" "f 3 = r" "f 5 = ps ! 4" "f 6 = ps ! 5" "f 13 = ps ! 5" "f 12 = v"
  shows "\<exists>f' q. visits (lane_step env ld matmul_code ctx l) (accesses Q) (mm 25 f (\<lambda>_. False)) (mm 39 f' q) \<and>
    f' 16 = push_bit 2 (r * ps ! 4 + c) + ps ! 2 \<and> f' 12 = v"
proof -
  note P = mm_params [where ld = ld and l = l and ps = ps and Q = Q and env = env and ctx = ctx, OF prm Q]
  let ?V = "visits (lane_step env ld matmul_code ctx l) (accesses Q)" and ?q = "(\<lambda>_. False)(2 := True)"
  have "?V (mm 25 f (\<lambda>_. False)) (mm 26 f ?q)"
    using mm_compare(3) [of f, OF refl refl, of env ld ctx l Q "\<lambda>_. False"] by (simp add: f)
  also have "?V (mm 26 f ?q) (mm 34 f ?q)"
    using mm_jumps(3) [of env ld ctx l Q f ?q] by simp
  finally have finished: "?V (mm 25 f (\<lambda>_. False)) (mm 34 f ?q)" .
  show ?thesis
    by (intro exI conjI, rule visits_trans [OF finished], rule mm_index [THEN visits_trans], rule mm_index [THEN visits_trans],
        rule mm_index [THEN visits_trans], rule P [THEN visits_trans], rule mm_index) (simp_all add: f)
qed

section \<open>The geometry and the matrices\<close>

definition thread_row :: "Thread \<Rightarrow> nat" where
  "thread_row t = 16 * unat (dim_y (block_of t)) + unat (special (context_of t) TidY (lane_number t))"

definition thread_col :: "Thread \<Rightarrow> nat" where
  "thread_col t = 16 * unat (dim_x (block_of t)) + unat (special (context_of t) TidX (lane_number t))"

text \<open>A grid of blocks of 16 by 16 threads with a thread for every element of an \<open>m\<close> by \<open>n\<close> matrix. The
  rows and the columns stay non-negative as signed numbers.\<close>

definition grid_tiles :: "Dim2 \<Rightarrow> Dim2 \<Rightarrow> nat \<Rightarrow> nat \<Rightarrow> bool" where
  "grid_tiles grid blk m n \<longleftrightarrow> unat (dim_x blk) = 16 \<and> unat (dim_y blk) = 16 \<and>
    0 < unat (dim_x grid) * unat (dim_y grid) \<and> unat (dim_x grid) * unat (dim_y grid) < 2 ^ 32 \<and>
    16 * unat (dim_x grid) \<le> 2 ^ 31 \<and> 16 * unat (dim_y grid) \<le> 2 ^ 31 \<and>
    m \<le> 16 * unat (dim_y grid) \<and> n \<le> 16 * unat (dim_x grid)"

text \<open>The six parameters: two matrices to read, one to write, which overlaps neither, and the three sizes.\<close>

definition elements :: "u32 list \<Rightarrow> nat \<Rightarrow> nat" where
  "elements ps i = [unat (ps ! 3) * unat (ps ! 5), unat (ps ! 5) * unat (ps ! 4), unat (ps ! 3) * unat (ps ! 4)] ! i"

definition matrices :: "u32 list \<Rightarrow> ByteMemory \<Rightarrow> bool" where
  "matrices ps g \<longleftrightarrow> length ps = 6 \<and> (\<forall>i \<in> {3, 4, 5}. 0 \<le> as_s32 (ps ! i)) \<and>
    (\<forall>i < 3. unat (ps ! i) mod 4 = 0 \<and> unat (ps ! i) + 4 * elements ps i \<le> length g \<and>
      unat (ps ! i) + 4 * elements ps i \<le> 2 ^ 32) \<and>
    (\<forall>i < 2. array_range (ps ! i) (elements ps i) \<inter> array_range (ps ! 2) (elements ps 2) = {})"

lemma grid_tiles_counts:
  assumes "grid_tiles grid blk m n"
  shows "dim_count grid \<noteq> 0" "dim_count blk \<noteq> 0" "unat (dim_count blk) = 256"
proof -
  show b: "unat (dim_count blk) = 256" using assms by (subst dim_count_value) (simp_all add: grid_tiles_def)
  then show "dim_count blk \<noteq> 0" by auto
  have "unat (dim_count grid) = unat (dim_x grid) * unat (dim_y grid)"
    using assms by (intro dim_count_value) (simp add: grid_tiles_def)
  with assms have "unat (dim_count grid) \<noteq> 0" unfolding grid_tiles_def by linarith
  then show "dim_count grid \<noteq> 0" by auto
qed

text \<open>The row and the column registers of a thread.\<close>

lemma tile_word:
  fixes block tid size :: u32
  assumes "unat block < unat size" "16 * unat size \<le> 2 ^ 31" "unat tid < 16"
  shows "unat (push_bit 4 block + tid) = 16 * unat block + unat tid" "16 * unat block + unat tid < 16 * unat size"
proof -
  show below: "16 * unat block + unat tid < 16 * unat size" using assms by linarith
  have "push_bit 4 block + tid = of_nat (16 * unat block + unat tid)" by (simp add: push_bit_eq_mult mult.commute)
  with below assms(2) show "unat (push_bit 4 block + tid) = 16 * unat block + unat tid"
    by (simp add: unat_of_nat del: of_nat_add of_nat_mult)
qed

lemma tile_index:
  assumes t: "t \<in> threads grid blk" and g: "grid_tiles grid blk m n"
  shows "unat (push_bit 4 (special (context_of t) CtaidY (lane_number t)) + special (context_of t) TidY (lane_number t)) =
      thread_row t" "thread_row t < 2 ^ 31"
    and "unat (push_bit 4 (special (context_of t) CtaidX (lane_number t)) + special (context_of t) TidX (lane_number t)) =
      thread_col t" "thread_col t < 2 ^ 31"
proof -
  from t obtain k l x y where ctx: "t = (warp_context grid blk \<lparr>dim_x = of_nat x, dim_y = of_nat y\<rparr> k, l)"
    and xy: "x < unat (dim_x grid)" "y < unat (dim_y grid)" by (rule thread_parts)
  have ux: "unat (dim_x (block_of t)) < unat (dim_x grid)" and uy: "unat (dim_y (block_of t)) < unat (dim_y grid)"
    using unat_of_nat_below [OF xy(1)] unat_of_nat_below [OF xy(2)] xy by (simp_all add: ctx warp_context_def)
  have blk: "unat (dim_x blk) = 16" "ntid (context_of t) = blk" using g by (simp_all add: ctx warp_context_def grid_tiles_def)
  have lin: "unat (linear_index (context_of t) (lane_number t)) < 256"
    using linear_below [OF t] grid_tiles_counts(3) [OF g] by simp
  have tx: "unat (special (context_of t) TidX (lane_number t)) < 16" by (simp add: unat_mod_distrib blk)
  have ty: "unat (special (context_of t) TidY (lane_number t)) < 16" using lin by (simp add: unat_div_distrib blk)
  have g': "16 * unat (dim_x grid) \<le> 2 ^ 31" "16 * unat (dim_y grid) \<le> 2 ^ 31" using g by (simp_all only: grid_tiles_def)
  note row = tile_word [OF uy g'(2) ty] and col = tile_word [OF ux g'(1) tx]
  show "unat (push_bit 4 (special (context_of t) CtaidY (lane_number t)) + special (context_of t) TidY (lane_number t)) =
      thread_row t" using row(1) by (simp only: thread_row_def special.simps(6))
  show "unat (push_bit 4 (special (context_of t) CtaidX (lane_number t)) + special (context_of t) TidX (lane_number t)) =
      thread_col t" using col(1) by (simp only: thread_col_def special.simps(5))
  show "thread_row t < 2 ^ 31" "thread_col t < 2 ^ 31"
    using row(2) col(2) g' unfolding thread_row_def thread_col_def by linarith+
qed

lemma tile_covered:
  assumes g: "grid_tiles grid blk m n" and rc: "r < m" "c < n"
  obtains t where "t \<in> threads grid blk" "thread_row t = r" "thread_col t = c"
proof -
  have x: "c div 16 < unat (dim_x grid)" and y: "r div 16 < unat (dim_y grid)"
    using g rc by (simp_all add: grid_tiles_def less_mult_imp_div_less mult.commute)
  have bx: "unat (dim_x blk) = 16" using g by (simp add: grid_tiles_def)
  have i: "16 * (r mod 16) + c mod 16 < unat (dim_count blk)" unfolding grid_tiles_counts(3) [OF g] by simp
  have n: "unat (dim_count blk) + 31 < 2 ^ 32" unfolding grid_tiles_counts(3) [OF g] by simp
  from linear_covered [OF n i x y] obtain t where t: "t \<in> threads grid blk"
    and at: "unat (linear_index (context_of t) (lane_number t)) = 16 * (r mod 16) + c mod 16" "ntid (context_of t) = blk"
      "unat (dim_x (block_of t)) = c div 16" "unat (dim_y (block_of t)) = r div 16" .
  have "thread_row t = r" by (simp add: thread_row_def unat_div_distrib at bx)
  moreover have "thread_col t = c" by (simp add: thread_col_def unat_mod_distrib at bx)
  ultimately show thesis using t by (intro that)
qed

lemma matrix_address:
  assumes "matrices ps g" "i < 3" "e < elements ps i"
  shows "unat (element (ps ! i) e) = unat (ps ! i) + 4 * e" "accessible (element (ps ! i) e) (length g)"
    "unat (element (ps ! i) e) \<in> array_range (ps ! i) (elements ps i)"
  using element_in_array [of "ps ! i" "elements ps i" "length g" e] assms by (simp_all add: matrices_def)

text \<open>The matrices that are read are not written, and the elements of the product have addresses of their own.\<close>

lemma matrices_differ:
  assumes "matrices ps g" "i < 2" "e < elements ps i" "e' < elements ps 2"
  shows "element (ps ! i) e \<noteq> element (ps ! 2) e'"
proof
  assume "element (ps ! i) e = element (ps ! 2) e'"
  with matrix_address(3) [OF assms(1), of i e] matrix_address(3) [OF assms(1), of 2 e'] assms show False
    by (auto simp: matrices_def)
qed

lemma entry_below: "r < m \<Longrightarrow> c < n \<Longrightarrow> r * n + c < m * (n :: nat)"
  using mult_le_mono1 [of "Suc r" m n] by simp

lemma product_inj:
  assumes "matrices ps g" "r < unat (ps ! 3)" "c < unat (ps ! 4)" "r' < unat (ps ! 3)" "c' < unat (ps ! 4)"
    and "element (ps ! 2) (r * unat (ps ! 4) + c) = element (ps ! 2) (r' * unat (ps ! 4) + c')"
  shows "r' = r \<and> c' = c"
proof -
  have "r * unat (ps ! 4) + c < elements ps 2" "r' * unat (ps ! 4) + c' < elements ps 2"
    using assms(2-5) by (simp_all add: elements_def entry_below)
  from this [THEN matrix_address(1) [OF assms(1), of 2, simplified]] assms(6)
  have e: "r * unat (ps ! 4) + c = r' * unat (ps ! 4) + c'" by simp
  have "r = (r * unat (ps ! 4) + c) div unat (ps ! 4)" "c = (r * unat (ps ! 4) + c) mod unat (ps ! 4)" using assms(3) by simp_all
  moreover have "r' = (r' * unat (ps ! 4) + c') div unat (ps ! 4)" "c' = (r' * unat (ps ! 4) + c') mod unat (ps ! 4)"
    using assms(5) by simp_all
  ultimately show ?thesis using e by simp
qed

section \<open>The whole run of a thread\<close>

definition product_access :: "fp_env \<Rightarrow> u32 list \<Rightarrow> ByteMemory \<Rightarrow> nat \<Rightarrow> nat \<Rightarrow> Instruction \<Rightarrow> Cells \<Rightarrow> bool" where
  "product_access env ps g r c i cells \<longleftrightarrow>
    (memory_space (opcode i) = Param \<and> unat (lane_address i cells) < 6) \<or>
    (r < unat (ps ! 3) \<and> c < unat (ps ! 4) \<and> memory_space (opcode i) = Global \<and>
      (if is_store_opcode (opcode i)
       then lane_address i cells = element (ps ! 2) (r * unat (ps ! 4) + c) \<and>
         fst cells (src1 i) = product_at env ps g r c (unat (ps ! 5))
       else \<exists>j < unat (ps ! 5). lane_address i cells \<in>
         {element (ps ! 0) (r * unat (ps ! 5) + j), element (ps ! 1) (j * unat (ps ! 4) + c)}))"

lemma element_pointer: "push_bit 2 (w :: u32) + base = element base (unat w)"
  using element_offset [of base w] by (simp add: add.commute)

lemma row_pointer: "element base (unat (v * w :: u32)) = element base (unat v * unat w)"
  "element base (unat (v * w + x :: u32)) = element base (unat v * unat w + unat x)"
  by (simp_all add: element_def)

lemma mm_start_lane: "start_lane matmul_code = mm 0 (\<lambda>_. 0) (\<lambda>_. False)"
  by (simp add: start_lane_def mm_def)

lemma matmul_thread:
  fixes env :: fp_env
  assumes t: "t \<in> threads grid blk" and gt: "grid_tiles grid blk (unat (ps ! 3)) (unat (ps ! 4))" and ma: "matrices ps g"
  defines "r \<equiv> thread_row t" and "c \<equiv> thread_col t"
    and "V \<equiv> visits (lane_step env (loader block_port (block_memory g 0 ps)) matmul_code (context_of t) (lane_number t))
      (accesses (product_access env ps g (thread_row t) (thread_col t)))"
  shows "\<exists>L. V (start_lane matmul_code) L \<and> lane_pc L = None"
    and "r < unat (ps ! 3) \<Longrightarrow> c < unat (ps ! 4) \<Longrightarrow>
      \<exists>f q. V (start_lane matmul_code) (mm 39 f q) \<and> f 16 = element (ps ! 2) (r * unat (ps ! 4) + c) \<and>
        f 12 = product_at env ps g r c (unat (ps ! 5))"
proof -
  let ?ctx = "context_of t" and ?l = "lane_number t" and ?no = "\<lambda>_. False"
  define ld where "ld = loader block_port (block_memory g 0 ps)"
  define Q where "Q = product_access env ps g r c"
  define rw cw where "rw = push_bit 4 (special ?ctx CtaidY ?l) + special ?ctx TidY ?l"
    and "cw = push_bit 4 (special ?ctx CtaidX ?l) + special ?ctx TidX ?l"
  have ur: "unat rw = r" "r < 2 ^ 31" and uc: "unat cw = c" "c < 2 ^ 31"
    using tile_index [OF t gt] by (simp_all only: rw_def cw_def r_def c_def)
  have V: "V = visits (lane_step env ld matmul_code ?ctx ?l) (accesses Q)" by (simp add: V_def ld_def Q_def r_def c_def)
  have len: "length ps = 6" and pos: "0 \<le> as_s32 (ps ! 3)" "0 \<le> as_s32 (ps ! 4)" "0 \<le> as_s32 (ps ! 5)"
    using ma by (simp_all add: matrices_def)
  have prm: "\<forall>k < 6. ld Param (of_nat k) ?l = Inr (ps ! k)"
    using len by (simp add: ld_def loader_def block_port_def block_memory_def unat_of_nat)
  have Qp: "\<forall>i cells. memory_space (opcode i) = Param \<longrightarrow> unat (lane_address i cells) < 6 \<longrightarrow> Q i cells"
    by (simp add: Q_def product_access_def)
  note trans = visits_trans [of "lane_step env ld matmul_code ?ctx ?l" "accesses Q", folded V]
  note jumps = mm_jumps [of env ld ?ctx ?l Q, folded V]
  have row: "as_s32 (ps ! 3) \<le> as_s32 rw \<longleftrightarrow> \<not> r < unat (ps ! 3)"
    using bounds_check [OF pos(1), of rw] ur by (simp add: not_less)
  have col: "as_s32 (ps ! 4) \<le> as_s32 cw \<longleftrightarrow> \<not> c < unat (ps ! 4)"
    using bounds_check [OF pos(2), of cw] uc by (simp add: not_less)
  from mm_start [where Q = Q and l = ?l and ps = ps and ld = ld and env = env and ctx = ?ctx, OF prm Qp rw_def cw_def, of ?no, folded V] row obtain f1
    where run1: "V (start_lane matmul_code) (mm 12 f1 (?no(0 := \<not> r < unat (ps ! 3))))"
      and f1: "f1 2 = cw" "f1 3 = rw" "f1 4 = ps ! 3" "f1 5 = ps ! 4" "f1 6 = ps ! 5"
    unfolding mm_start_lane by auto
  have run2: "V (start_lane matmul_code) (mm 14 f1 (?no(1 := \<not> c < unat (ps ! 4))))" if r: "r < unat (ps ! 3)"
  proof -
    have "V (mm 12 f1 ?no) (mm 13 f1 ?no)" using jumps(1) [of f1 ?no] by simp
    moreover have "V (mm 13 f1 ?no) (mm 14 f1 (?no(1 := \<not> c < unat (ps ! 4))))"
      using mm_compare(2) [OF f1(4,1), of env ld ?ctx ?l Q ?no, folded V] by (simp only: col)
    ultimately show ?thesis using run1 r by (auto simp: fun_upd_idem intro: trans)
  qed
  show finish: "\<exists>f q. V (start_lane matmul_code) (mm 39 f q) \<and> f 16 = element (ps ! 2) (r * unat (ps ! 4) + c) \<and>
      f 12 = product_at env ps g r c (unat (ps ! 5))" if rc: "r < unat (ps ! 3)" "c < unat (ps ! 4)"
  proof -
    let ?k = "unat (ps ! 5)" and ?n = "unat (ps ! 4)"
    have "V (mm 14 f1 ?no) (mm 15 f1 ?no)" using jumps(2) [of f1 ?no] by simp
    with run2 [OF rc(1)] rc(2) have start: "V (start_lane matmul_code) (mm 15 f1 ?no)"
      by (auto simp: fun_upd_idem intro: trans)
    have pointers: "push_bit 2 (rw * ps ! 5) + ps ! 0 = element (ps ! 0) (r * ?k)" "push_bit 2 cw + ps ! 1 = element (ps ! 1) c"
        "push_bit 2 (ps ! 4) = of_nat (4 * ?n)"
      by (simp_all add: element_pointer row_pointer ur uc) (simp add: push_bit_eq_mult)
    from mm_pointers [where Q = Q and l = ?l and ps = ps and ld = ld and env = env and ctx = ?ctx, OF prm Qp f1(1,2,4,5), of ?no, folded V] obtain f2
      where run: "V (mm 15 f1 ?no) (mm 25 f2 ?no)" and f2: "f2 2 = cw" "f2 3 = rw" "f2 5 = ps ! 4" "f2 6 = ps ! 5"
        "f2 7 = element (ps ! 0) (r * ?k)" "f2 9 = element (ps ! 1) c" "f2 11 = of_nat (4 * ?n)" "f2 12 = 0" "f2 13 = 0"
      unfolding pointers by blast
    have A: "ld Global (element (ps ! 0) (r * ?k + j)) ?l = Inr (word_at g (element (ps ! 0) (r * ?k + j)))" if "j < ?k" for j
      using matrix_address(2) [OF ma, of 0 "r * ?k + j"] that rc(1)
      by (simp add: ld_def loader_spaces load_word_at block_memory_def elements_def entry_below)
    have B: "ld Global (element (ps ! 1) (j * ?n + c)) ?l = Inr (word_at g (element (ps ! 1) (j * ?n + c)))" if "j < ?k" for j
      using matrix_address(2) [OF ma, of 1 "j * ?n + c"] that rc(2)
      by (simp add: ld_def loader_spaces load_word_at block_memory_def elements_def entry_below)
    have Ql: "\<forall>i j cells. memory_space (opcode i) = Global \<longrightarrow> \<not> is_store_opcode (opcode i) \<longrightarrow> j < ?k \<longrightarrow>
        lane_address i cells \<in> {element (ps ! 0) (r * ?k + j), element (ps ! 1) (j * ?n + c)} \<longrightarrow> Q i cells"
      unfolding Q_def product_access_def using rc by auto
    from mm_loop [where Q = Q and l = ?l and ps = ps and ld = ld and env = env and ctx = ?ctx and g = g and row = r and col = c, OF refl pos(3) A B Ql f2 order_refl, folded V] obtain f3
      where loop: "V (mm 25 f2 ?no) (mm 25 f3 ?no)" and f3: "f3 2 = cw" "f3 3 = rw" "f3 5 = ps ! 4" "f3 6 = ps ! 5"
        "f3 12 = product_at env ps g r c ?k" "f3 13 = ps ! 5" by auto
    from mm_finish [where Q = Q and l = ?l and ps = ps and ld = ld and env = env and ctx = ?ctx, OF prm Qp f3(1,2,3,4,6,5), folded V] obtain f4 q
      where last: "V (mm 25 f3 ?no) (mm 39 f4 q)" "f4 16 = element (ps ! 2) (r * ?n + c)" "f4 12 = product_at env ps g r c ?k"
      by (auto simp: element_pointer row_pointer ur uc)
    from trans [OF start trans [OF run trans [OF loop last(1)]]] last(2,3) show ?thesis by blast
  qed
  show "\<exists>L. V (start_lane matmul_code) L \<and> lane_pc L = None"
  proof (cases "r < unat (ps ! 3)")
    case False
    with trans [OF run1 jumps(1)] show ?thesis by fastforce
  next
    case r: True
    show ?thesis
    proof (cases "c < unat (ps ! 4)")
      case False
      with trans [OF run2 [OF r] jumps(2)] show ?thesis by fastforce
    next
      case True
      from finish [OF r True] obtain f q where run3: "V (start_lane matmul_code) (mm 39 f q)"
        and f: "f 16 = element (ps ! 2) (r * unat (ps ! 4) + c)" "f 12 = product_at env ps g r c (unat (ps ! 5))" by blast
      have "V (mm 39 f q) (mm 40 f q)"
        unfolding V by (rule mm_words(3)) (use r True f in \<open>simp add: Q_def product_access_def matmul_code_def instr_imm_def instr_def
          default_instruction_def is_store_opcode_def lane_address_def\<close>)
      from trans [OF trans [OF run3 this] jumps(5)] show ?thesis by fastforce
    qed
  qed
qed

lemma visits_solo:
  assumes "visits (lane_step env (loader block_port (block_memory g 0 ps)) program (context_of t) (lane_number t)) P
    (start_lane program) L"
  shows "\<exists>k. solo env program ps g t k = L \<and> (\<forall>j < k. P (solo env program ps g t j))"
  using assms unfolding visits_def solo_def .

lemma matmul_solo:
  fixes env :: fp_env
  assumes t: "t \<in> threads grid blk" and gt: "grid_tiles grid blk (unat (ps ! 3)) (unat (ps ! 4))" and ma: "matrices ps g"
  shows "accesses (product_access env ps g (thread_row t) (thread_col t)) (solo env matmul_code ps g t k)"
    and "\<exists>k. lane_pc (solo env matmul_code ps g t k) = None"
    and "thread_row t < unat (ps ! 3) \<Longrightarrow> thread_col t < unat (ps ! 4) \<Longrightarrow>
      \<exists>k. pending_store matmul_code (solo env matmul_code ps g t k) =
        Some (element (ps ! 2) (thread_row t * unat (ps ! 4) + thread_col t),
          product_at env ps g (thread_row t) (thread_col t) (unat (ps ! 5)))"
proof -
  note run = matmul_thread [OF t gt ma, of env]
  from run(1) obtain L where L: "lane_pc L = None"
    and "visits (lane_step env (loader block_port (block_memory g 0 ps)) matmul_code (context_of t) (lane_number t))
      (accesses (product_access env ps g (thread_row t) (thread_col t))) (start_lane matmul_code) L" by blast
  from visits_solo [OF this(2)] L obtain n where n: "lane_pc (solo env matmul_code ps g t n) = None"
    "\<forall>j < n. accesses (product_access env ps g (thread_row t) (thread_col t)) (solo env matmul_code ps g t j)" by blast
  then show "\<exists>k. lane_pc (solo env matmul_code ps g t k) = None" by blast
  show "accesses (product_access env ps g (thread_row t) (thread_col t)) (solo env matmul_code ps g t k)"
  proof (cases "k < n")
    case False
    with solo_retired [OF n(1), of k] n(1) show ?thesis by (simp add: accesses_def pending_access_def)
  qed (use n(2) in blast)
  show "\<exists>k. pending_store matmul_code (solo env matmul_code ps g t k) =
      Some (element (ps ! 2) (thread_row t * unat (ps ! 4) + thread_col t),
        product_at env ps g (thread_row t) (thread_col t) (unat (ps ! 5)))"
    if rc: "thread_row t < unat (ps ! 3)" "thread_col t < unat (ps ! 4)"
  proof -
    from run(2) [OF rc] obtain f q where f: "f 16 = element (ps ! 2) (thread_row t * unat (ps ! 4) + thread_col t)"
        "f 12 = product_at env ps g (thread_row t) (thread_col t) (unat (ps ! 5))"
      and "visits (lane_step env (loader block_port (block_memory g 0 ps)) matmul_code (context_of t) (lane_number t))
        (accesses (product_access env ps g (thread_row t) (thread_col t))) (start_lane matmul_code) (mm 39 f q)" by blast
    from visits_solo [OF this(3)] obtain k where "solo env matmul_code ps g t k = mm 39 f q" by blast
    moreover have "pending_store matmul_code (mm 39 f q) = Some (f 16, f 12)"
      by (simp add: mm_def pending_store_def pending_access_def matmul_code_def instr_imm_def instr_def default_instruction_def
          no_guard_def lane_guard_def lane_address_def is_store_opcode_def)
    ultimately show ?thesis using f by metis
  qed
qed

section \<open>The launch\<close>

lemma matmul_stores:
  fixes env :: fp_env
  assumes gt: "grid_tiles grid blk (unat (ps ! 3)) (unat (ps ! 4))" and ma: "matrices ps g"
  shows "stores_to env matmul_code ps (threads grid blk) g a v \<longleftrightarrow>
    (\<exists>r < unat (ps ! 3). \<exists>c < unat (ps ! 4). a = element (ps ! 2) (r * unat (ps ! 4) + c) \<and>
      v = product_at env ps g r c (unat (ps ! 5)))"
proof
  assume "stores_to env matmul_code ps (threads grid blk) g a v"
  then obtain t k where t: "t \<in> threads grid blk"
    and st: "pending_store matmul_code (solo env matmul_code ps g t k) = Some (a, v)" unfolding stores_to_def by blast
  from st obtain ins where acc: "pending_access matmul_code (solo env matmul_code ps g t k) = Some ins"
    "is_store_opcode (opcode ins)"
    and av: "a = lane_address ins (lane_cells (solo env matmul_code ps g t k))"
      "v = fst (lane_cells (solo env matmul_code ps g t k)) (src1 ins)"
    by (auto simp: pending_store_def split: option.splits if_splits)
  have "memory_space (opcode ins) \<noteq> Param" using acc(2) by (auto simp: is_store_opcode_def)
  with matmul_solo(1) [OF t gt ma, of env k] acc
  show "\<exists>r < unat (ps ! 3). \<exists>c < unat (ps ! 4). a = element (ps ! 2) (r * unat (ps ! 4) + c) \<and>
      v = product_at env ps g r c (unat (ps ! 5))"
    unfolding av accesses_def product_access_def by auto
next
  assume "\<exists>r < unat (ps ! 3). \<exists>c < unat (ps ! 4). a = element (ps ! 2) (r * unat (ps ! 4) + c) \<and>
      v = product_at env ps g r c (unat (ps ! 5))"
  then obtain r c where rc: "r < unat (ps ! 3)" "c < unat (ps ! 4)"
    and av: "a = element (ps ! 2) (r * unat (ps ! 4) + c)" "v = product_at env ps g r c (unat (ps ! 5))" by blast
  from tile_covered [OF gt rc] obtain t where t: "t \<in> threads grid blk" "thread_row t = r" "thread_col t = c" .
  from matmul_solo(3) [OF t(1) gt ma, of env] rc t(2,3) av t(1)
  show "stores_to env matmul_code ps (threads grid blk) g a v" unfolding stores_to_def by auto
qed

lemma read_allowed:
  fixes env :: fp_env
  assumes gt: "grid_tiles grid blk (unat (ps ! 3)) (unat (ps ! 4))" and ma: "matrices ps g"
    and e: "m < 2" "e < elements ps m" "a = element (ps ! m) e" "memory_space (opcode i) = Global"
  shows "access_allowed env matmul_code ps (threads grid blk) g i a"
proof -
  have "element (ps ! m) e \<noteq> element (ps ! 2) (r * unat (ps ! 4) + c)" if "r < unat (ps ! 3)" "c < unat (ps ! 4)" for r c
    using that by (intro matrices_differ [OF ma e(1,2)]) (simp add: elements_def entry_below)
  then have "\<not> stores_to env matmul_code ps (threads grid blk) g a v" for v
    unfolding matmul_stores [OF gt ma] e(3) by blast
  with matrix_address(2) [OF ma _ e(2)] e show ?thesis by (simp add: access_allowed_def)
qed

lemma matmul_separated:
  fixes env :: fp_env
  assumes gt: "grid_tiles grid blk (unat (ps ! 3)) (unat (ps ! 4))" and ma: "matrices ps g"
  shows "separated env matmul_code ps (threads grid blk) g"
  unfolding separated_def
proof (intro conjI ballI allI impI)
  show "opcode i \<noteq> BarSync" if "i \<in> set matmul_code" for i
    using that by (auto simp: matmul_code_def instr_def instr_imm_def if_pred_def jump_def default_instruction_def)
next
  fix t k i
  assume t: "t \<in> threads grid blk" and acc: "pending_access matmul_code (solo env matmul_code ps g t k) = Some i"
  let ?a = "lane_address i (lane_cells (solo env matmul_code ps g t k))" and ?r = "thread_row t" and ?c = "thread_col t"
  from matmul_solo(1) [OF t gt ma, of env k] acc consider
      (Prm) "memory_space (opcode i) = Param" "unat ?a < 6"
    | (Store) "?r < unat (ps ! 3)" "?c < unat (ps ! 4)" "memory_space (opcode i) = Global" "is_store_opcode (opcode i)"
        "?a = element (ps ! 2) (?r * unat (ps ! 4) + ?c)"
    | (A) j where "?r < unat (ps ! 3)" "j < unat (ps ! 5)" "memory_space (opcode i) = Global" "?a = element (ps ! 0) (?r * unat (ps ! 5) + j)"
    | (B) j where "?c < unat (ps ! 4)" "j < unat (ps ! 5)" "memory_space (opcode i) = Global" "?a = element (ps ! 1) (j * unat (ps ! 4) + ?c)"
    unfolding accesses_def product_access_def by (auto split: if_splits)
  then show "access_allowed env matmul_code ps (threads grid blk) g i ?a"
  proof cases
    case Prm
    with ma show ?thesis by (simp add: access_allowed_def matrices_def)
  next
    case Store
    with matrix_address(2) [OF ma, of 2] show ?thesis by (simp add: access_allowed_def elements_def entry_below)
  next
    case A
    then have "?r * unat (ps ! 5) + j < elements ps 0" by (simp add: elements_def entry_below)
    with A show ?thesis by (intro read_allowed [OF gt ma, of 0]) simp_all
  next
    case B
    then have "j * unat (ps ! 4) + ?c < elements ps 1" by (simp add: elements_def entry_below)
    with B show ?thesis by (intro read_allowed [OF gt ma, of 1]) simp_all
  qed
next
  show "v' = v" if "stores_to env matmul_code ps (threads grid blk) g a v"
    "stores_to env matmul_code ps (threads grid blk) g a v'" for a v v'
    using that product_inj [OF ma] unfolding matmul_stores [OF gt ma] by metis
qed

lemma matmul_valid: "i \<in> set matmul_code \<Longrightarrow> valid_instruction i"
  by (auto simp: matmul_code_def instr_def instr_imm_def if_pred_def jump_def default_instruction_def valid_instruction_def
      guard_ok_def no_guard_def special_register_count_10)

lemma matmul_launch:
  fixes env :: fp_env
  assumes gt: "grid_tiles grid blk (unat (ps ! 3)) (unat (ps ! 4))" and ma: "matrices ps g"
  obtains st g' where "launch env matmul_naive grid blk ps g = Some (Inr st, g')" "length g' = length g"
    "\<And>r c. r < unat (ps ! 3) \<Longrightarrow> c < unat (ps ! 4) \<Longrightarrow>
      load32 (element (ps ! 2) (r * unat (ps ! 4) + c)) 0 g' = Inr (product_at env ps g r c (unat (ps ! 5)))"
    "\<And>a. a \<notin> element (ps ! 2) ` {..<elements ps 2} \<Longrightarrow> load32 a 0 g' = load32 a 0 g"
proof -
  have decodes: "decode_program 0 (code_words matmul_naive) = Inr matmul_code"
    by (simp add: matmul_naive_def decode_program_words [OF matmul_valid])
  have "\<forall>t \<in> threads grid blk. \<exists>k. lane_pc (solo env matmul_code ps g t k) = None"
    using matmul_solo(2) [OF _ gt ma] by blast
  from launch_separated_returns [OF decodes matmul_separated [OF gt ma] this] obtain r g'
    where launched: "launch env matmul_naive grid blk ps g = Some (r, g')" by blast
  note result = launch_separated [OF decodes grid_tiles_counts(1,2) [OF gt] launched matmul_separated [OF gt ma],
      unfolded matmul_stores [OF gt ma]]
  from result obtain st where r: "r = Inr st" by blast
  show thesis
  proof (rule that)
    show "launch env matmul_naive grid blk ps g = Some (Inr st, g')" using launched r by simp
    show "length g' = length g" using result by blast
    show "load32 (element (ps ! 2) (r * unat (ps ! 4) + c)) 0 g' = Inr (product_at env ps g r c (unat (ps ! 5)))"
      if "r < unat (ps ! 3)" "c < unat (ps ! 4)" for r c
      using result that by blast
    show "load32 a 0 g' = load32 a 0 g" if a: "a \<notin> element (ps ! 2) ` {..<elements ps 2}" for a
    proof -
      have "a \<noteq> element (ps ! 2) (r * unat (ps ! 4) + c)" if "r < unat (ps ! 3)" "c < unat (ps ! 4)" for r c
        using a that by (auto simp: elements_def entry_below)
      with result show ?thesis by blast
    qed
  qed
qed

end
