(* ===== verification/Shipped_Matmul.thy ===== *)
theory Shipped_Matmul
  imports Source_Layout Matmul_Kernel
begin

text \<open>
  The source text of \<^verbatim>\<open>kernels/matmul_naive.wisa\<close>, line by line, and what the assembler makes of it: the
  program that \<open>Matmul_Kernel\<close> reasons about. Two lines are not in the form the disassembler prints, the literals
  that clear the sum, a float, and the counter.
\<close>

section \<open>The source\<close>

definition matmul_lines :: "string list" where
  "matmul_lines = [
     ''// Naive matmul: C[M][N] = A[M][K] B[K][N], float32, one lane per element.'',
     ''// Block 16 x 16; grid covers N (x) by M (y). The inner loop reads A along a'',
     ''// row (the same word for the 16 lanes of a row, broadcast) and B down a'',
     ''// column with a stride of N words across k, so each warp-level load of B'',
     ''// touches one segment per row of the warp: the uncoalesced baseline.'',
     ''.entry matmul_naive'',
     ''.param a'',
     ''.param b'',
     ''.param c'',
     ''.param m'',
     ''.param n'',
     ''.param k'',
     '''',
     ''        mov.sreg r0, %tid.x'',
     ''        mov.sreg r1, %tid.y'',
     ''        mov.sreg r2, %ctaid.x'',
     ''        mov.sreg r3, %ctaid.y'',
     ''        shl r2, r2, 4'',
     ''        add r2, r2, r0              // col'',
     ''        shl r3, r3, 4'',
     ''        add r3, r3, r1              // row'',
     ''        ld.param r4, [m]'',
     ''        ld.param r5, [n]'',
     ''        ld.param r6, [k]'',
     ''        setp.ge.s32 p0, r3, r4'',
     ''    @p0 exit                        // row out of range'',
     ''        setp.ge.s32 p1, r2, r5'',
     ''    @p1 exit                        // col out of range'',
     ''        mul r7, r3, r6'',
     ''        shl r7, r7, 2'',
     ''        ld.param r8, [a]'',
     ''        add r7, r7, r8              // &A[row][0]'',
     ''        shl r9, r2, 2'',
     ''        ld.param r10, [b]'',
     ''        add r9, r9, r10             // &B[0][col]'',
     ''        shl r11, r5, 2              // row stride of B in bytes'',
     ''        mov r12, 0.0                // acc'',
     ''        mov r13, 0                  // kk'',
     ''loop:'',
     ''        setp.ge.s32 p2, r13, r6'',
     ''    @p2 bra done'',
     ''        ld.global r14, [r7]         // A[row][kk]'',
     ''        ld.global r15, [r9]         // B[kk][col]'',
     ''        ffma r12, r14, r15          // acc = a * b + acc'',
     ''        add r7, r7, 4'',
     ''        add r9, r9, r11'',
     ''        add r13, r13, 1'',
     ''        bra loop'',
     ''done:'',
     ''        mul r16, r3, r5'',
     ''        add r16, r16, r2'',
     ''        shl r16, r16, 2'',
     ''        ld.param r17, [c]'',
     ''        add r16, r16, r17'',
     ''        st.global [r16], r12'',
     ''        exit'']"

text \<open>The lines with instructions: all but the header and the two labels.\<close>

definition matmul_code_lines :: "string list" where
  "matmul_code_lines = take 25 (drop 13 matmul_lines) @ take 9 (drop 39 matmul_lines) @ drop 49 matmul_lines"

definition matmul_labels :: "u16 \<rightharpoonup> string" where
  "matmul_labels = [25 \<mapsto> ''loop'', 34 \<mapsto> ''done'']"

definition matmul_params :: "string list" where
  "matmul_params = [''a'', ''b'', ''c'', ''m'', ''n'', ''k'']"

section \<open>Its instructions\<close>

text \<open>The two lines with a zero.\<close>

lemma zero_value: "parse_f32 env ''0.0'' = Some 0"
  by (simp add: parse_f32_def scan_decimal_def scan_exponent_def is_digit_def number_value_def digit_value_def
      decimal_magnitude_def round_magnitude_def signed_bits_def Let_def)

lemma zero_is_float: "is_float ''0.0''"
  unfolding is_float_def
  by (intro exI [of _ "''0''"] exI [of _ "''.0''"] exI [of _ "[]"])
    (simp add: is_digits_def is_digit_def is_fraction_def is_exponent_def)

text \<open>The tokens of a move of a literal, before any text that holds none.\<close>

lemma move_scans:
  assumes "d < 64" and "\<And>r. boundary r \<Longrightarrow> scans t [(k, t, False)] r"
    and "scans tail [] r" "boundary (tail @ r)"
  shows "scans (replicate n CHR '' '' @ ''mov'' @ '' '' @ reg d @ '', '' @ t @ tail)
    [(Identifier, ''mov'', False), (Identifier, reg d, False), (Comma, '','', False), (k, t, False)] r"
proof -
  have "is_ident ''mov''" by code_simp
  from scans_append [OF assms(2) [OF assms(4)] assms(3)] have "scans (t @ tail) [(k, t, False)] r" by simp
  from scans_append [OF scans_comma this] have "scans ('', '' @ t @ tail) [(Comma, '','', False), (k, t, False)] r" by simp
  from scans_append [OF scans_register [OF assms(1)] this]
  have "scans (reg d @ '', '' @ t @ tail) [(Identifier, reg d, False), (Comma, '','', False), (k, t, False)] r" by simp
  from scans_append [OF scans_blank this, of "CHR '' ''"]
  have "scans ('' '' @ reg d @ '', '' @ t @ tail) [(Identifier, reg d, False), (Comma, '','', False), (k, t, False)] r" by simp
  from scans_append [OF scans_ident [OF \<open>is_ident ''mov''\<close>] this] show ?thesis by (intro scans_blanks) simp
qed

lemma move_line_reads:
  assumes d: "d < 64" and v: "valid_instruction (instr_imm Mov d 0 0 x)"
    and t: "\<And>r. boundary r \<Longrightarrow> scans t [(k, t, False)] r" "literal env Mov False k t x"
    and quiet: "CHR ''\<newline>'' \<notin> set comment" and "0 < n"
  shows "reads_as env labels names (instr_imm Mov d 0 0 x)
    (replicate 8 CHR '' '' @ ''mov'' @ '' '' @ reg d @ '', '' @ t @ replicate n CHR '' '' @ ''//'' @ comment)"
  unfolding reads_as_def
proof (intro allI impI)
  let ?i = "instr_imm Mov d 0 0 x" and ?upd = "(\<lambda>out. out\<lparr>imm_flag := True, imm := x\<rparr>) \<circ> (\<lambda>out. out\<lparr>dst := d\<rparr>)"
    and ?vs = "[(Identifier, ''mov'', False), (Identifier, reg d, False), (Comma, '','', False), (k, t, False)]"
  fix c :: content
  from reads_literal [OF _ t(2), of t "src0_reg_or_imm env"] t(1)
  have "reads (param_names (fst c)) Mov (src0_reg_or_imm env) t (\<lambda>out. out\<lparr>imm_flag := True, imm := x\<rparr>)" by simp
  from reads_blank [OF reads_comma [OF reads_registers(1) [OF d] _ reads_single [OF this]]]
  have operands: "reads (param_names (fst c)) (opcode ?i) (parse_operands env (shape (opcode_info (opcode ?i))))
      ('' '' @ reg d @ '', '' @ t) ?upd"
    by (simp add: instr_imm_def instr_def)
  have restored: "?upd (Assembler_Facts.fresh (guard ?i) (opcode ?i)) = ?i"
    by (simp add: Assembler_Facts.fresh_def instr_imm_def instr_def default_instruction_def)
  have b: "opcode ?i \<noteq> Bra" by (simp add: instr_imm_def instr_def)
  have "guard_text ?i = []" "mnemonic (opcode_info (opcode ?i)) = ''mov''"
    by (simp add: guard_text_def instr_imm_def instr_def default_instruction_def no_guard_def)
      (simp only: instr_imm_def instr_def Instruction.simps, code_simp)
  moreover have "reads_line env (guard_text ?i @ mnemonic (opcode_info (opcode ?i)) @ '' '' @ reg d @ '', '' @ t) c
      (push_instruction labels ?i c)"
    by (rule statement_line [OF v]) (use plain_statement [OF v b operands restored] in \<open>metis, simp\<close>)
  ultimately have read: "reads_line env (''mov'' @ '' '' @ reg d @ '', '' @ t) c (push_instruction labels ?i c)" by simp
  show "reads_line env (replicate 8 CHR '' '' @ ''mov'' @ '' '' @ reg d @ '', '' @ t @ replicate n CHR '' '' @ ''//'' @ comment)
      c (push_instruction labels ?i c)"
  proof (rule reads_line_tokens [OF read])
    show "scans (''mov'' @ '' '' @ reg d @ '', '' @ t) ?vs ''\<newline>''"
      using move_scans [OF d t(1), of "[]" "''\<newline>''" 0] by simp
  next
    fix r
    have tail: "scans (replicate n CHR '' '' @ ''//'' @ comment) [] (CHR ''\<newline>'' # r)"
      by (rule scans_blanks, rule scans_comment [OF quiet]) simp
    have border: "boundary ((replicate n CHR '' '' @ ''//'' @ comment) @ CHR ''\<newline>'' # r)"
      using \<open>0 < n\<close> by (cases n) simp_all
    show "scans (replicate 8 CHR '' '' @ ''mov'' @ '' '' @ reg d @ '', '' @ t @ replicate n CHR '' '' @ ''//'' @ comment) ?vs
        (CHR ''\<newline>'' # r)"
      by (rule move_scans [OF d _ tail border]) (rule t(1))
  qed
qed

lemma zero_lines_read:
  "reads_as env labels names (instr_imm Mov 12 0 0 0) ''        mov r12, 0.0                // acc''"
  "reads_as env labels names (instr_imm Mov 13 0 0 0) ''        mov r13, 0                  // kk''"
proof -
  have v: "valid_instruction (instr_imm Mov 12 0 0 0)" "valid_instruction (instr_imm Mov 13 0 0 0)"
    by (rule matmul_valid, simp add: matmul_code_def)+
  have r: "reg 12 = ''r12''" "reg 13 = ''r13''" by code_simp+
  have blanks: "replicate 8 CHR '' '' = ''        ''" "replicate 16 CHR '' '' = ''                ''"
      "replicate 18 CHR '' '' = ''                  ''"
    by (simp_all add: numeral_eq_Suc)
  have "literal env Mov False Float ''0.0'' 0" by (simp add: literal_def accepts_float_immediate_def zero_value)
  from move_line_reads [OF _ v(1) scans_float [OF zero_is_float] this, of "'' acc''" 16 labels names] r(1) blanks
  show "reads_as env labels names (instr_imm Mov 12 0 0 0) ''        mov r12, 0.0                // acc''" by simp
  have "decimal 0 = ''0''" by code_simp
  then have "literal env Mov False Integer ''0'' 0" using integer_text_decimal [of 0] by (auto simp: literal_def)
  moreover have "is_digits ''0''" by code_simp
  ultimately show "reads_as env labels names (instr_imm Mov 13 0 0 0) ''        mov r13, 0                  // kk''"
    using move_line_reads [OF _ v(2) scans_digits, of "''0''" env "'' kk''" 18 labels names] r(2) blanks by simp
qed

text \<open>The other lines, in five pieces.\<close>

abbreviation "matmul_prints env \<equiv> prints_as env matmul_labels matmul_params"

lemma matmul_printed_1: "list_all2 (matmul_prints env) (take 8 matmul_code) (take 8 matmul_code_lines)"
  by code_simp

lemma matmul_printed_2: "list_all2 (matmul_prints env) (take 8 (drop 8 matmul_code)) (take 8 (drop 8 matmul_code_lines))"
  by code_simp

lemma matmul_printed_3: "list_all2 (matmul_prints env) (take 7 (drop 16 matmul_code)) (take 7 (drop 16 matmul_code_lines))"
  by code_simp

lemma matmul_printed_4: "list_all2 (matmul_prints env) (take 8 (drop 25 matmul_code)) (take 8 (drop 25 matmul_code_lines))"
  by code_simp

lemma matmul_printed_5: "list_all2 (matmul_prints env) (drop 33 matmul_code) (drop 33 matmul_code_lines)"
  by code_simp

lemma matmul_printed:
  "list_all2 (matmul_prints env) (take 23 matmul_code) (take 23 matmul_code_lines)"
  "list_all2 (matmul_prints env) (drop 25 matmul_code) (drop 25 matmul_code_lines)"
proof -
  have "take 23 xs = take 8 xs @ take 8 (drop 8 xs) @ take 7 (drop 16 xs)" for xs :: "'a list"
    using take_add [of 8 15 xs] take_add [of 8 7 "drop 8 xs"] by simp
  then show "list_all2 (matmul_prints env) (take 23 matmul_code) (take 23 matmul_code_lines)"
    using matmul_printed_1 matmul_printed_2 matmul_printed_3 by (metis list_all2_appendI)
  have "drop 25 xs = take 8 (drop 25 xs) @ drop 33 xs" for xs :: "'a list"
    using append_take_drop_id [of 8 "drop 25 xs"] by simp
  then show "list_all2 (matmul_prints env) (drop 25 matmul_code) (drop 25 matmul_code_lines)"
    using matmul_printed_4 matmul_printed_5 by (metis list_all2_appendI)
qed

lemma matmul_zero_lines:
  "matmul_code = take 23 matmul_code @ instr_imm Mov 12 0 0 0 # instr_imm Mov 13 0 0 0 # drop 25 matmul_code"
  "matmul_code_lines = take 23 matmul_code_lines @ ''        mov r12, 0.0                // acc'' #
    ''        mov r13, 0                  // kk'' # drop 25 matmul_code_lines"
  by code_simp+

lemma matmul_annotated: "annotate_reconvergence matmul_code = Some (Inr matmul_code)"
  by code_simp

lemma matmul_names: "\<forall>x \<in> {''matmul_naive'', ''loop'', ''done'', ''a'', ''b'', ''c'', ''m'', ''n'', ''k''}. is_ident x"
  by code_simp

lemma matmul_comments: "\<forall>l \<in> set (take 5 matmul_lines). line_views l = Some [] \<and> CHR ''\<newline>'' \<notin> set l"
  by code_simp

lemma matmul_source:
  "text_of matmul_lines = text_of (take 5 matmul_lines) @
    text_of [''.entry '' @ ''matmul_naive'', ''.param a'', ''.param b'', ''.param c'', ''.param m'', ''.param n'', ''.param k'', []] @
    code_source matmul_labels 0 matmul_code_lines"
  by code_simp

section \<open>Its assembly\<close>

lemma matmul_printable: "printable matmul_naive (label_names matmul_naive) matmul_code"
proof -
  have d: "decode (code_words matmul_naive ! k) = Inr (matmul_code ! k)" if "k < 41" for k
    using that decode_encoded [OF matmul_valid] by (simp add: matmul_naive_def)
  have w: "code_words matmul_naive = List.map encode_word matmul_code" by (simp add: matmul_naive_def)
  have "all_values (List.map decode (code_words matmul_naive)) = Some matmul_code"
    unfolding w using decode_encoded [OF matmul_valid] by (simp add: all_values_map del: map_map List.map.compositionality)
  moreover have "list_all (\<lambda>i. (opcode i = Bra \<longrightarrow> branch_target i = 25 \<or> branch_target i = 34) \<and>
      (opcode i = LdParam \<longrightarrow> unat (imm i) < 6)) matmul_code"
    by (simp add: matmul_code_def instr_def instr_imm_def if_pred_def jump_def default_instruction_def branch_target_def
        make_branch_imm_def no_reconvergence_def)
  moreover from this d have "name_targets 0 (code_words matmul_naive) (label_names matmul_naive) = Inr (label_names matmul_naive)"
    by (intro name_targets_known) (auto simp: list_all_length matmul_naive_def)
  ultimately show ?thesis
    using matmul_names by (auto simp: printable_def matmul_naive_def list_all_iff inj_on_def)
qed

lemma reads_text_comments:
  "\<forall>l \<in> set ls. line_views l = Some [] \<and> CHR ''\<newline>'' \<notin> set l \<Longrightarrow> reads_text env (text_of ls) c c"
proof (induction ls)
  case Nil
  then show ?case by (simp add: reads_text_Nil)
next
  case (Cons l ls)
  from reads_text_append [OF reads_text_empty_line [of l env c] Cons.IH] Cons.prems show ?case by simp
qed

lemma matmul_naive_assembles: "assemble env (text_of matmul_lines) = Some (Inr matmul_naive)"
proof -
  let ?e = "empty_program\<lparr>entry_name := ''matmul_naive''\<rparr>" and ?c = "(Map.empty, [])"
  have 1: "reads_text env (text_of (take 5 matmul_lines)) (empty_program, ?c) (empty_program, ?c)"
    by (rule reads_text_comments [OF matmul_comments])
  have 2: "reads_text env ((''.entry '' @ ''matmul_naive'') @ ''\<newline>'') (empty_program, ?c) (?e, ?c)"
    by (intro reads_text_line entry_line) (use matmul_names in \<open>simp_all add: empty_program_def\<close>)
  have 3: "reads_text env (List.concat (List.map (\<lambda>param. ''.param '' @ param @ ''\<newline>'') matmul_params))
      (?e, ?c) (?e\<lparr>param_names := param_names ?e @ matmul_params\<rparr>, ?c)"
    by (rule params_text) (use matmul_names in \<open>simp_all add: empty_program_def matmul_params_def\<close>)
  from reads_text_append [OF 1 reads_text_append [OF 2 reads_text_append [OF 3 reads_text_newline]]]
  have header: "reads_text env (text_of (take 5 matmul_lines) @
      text_of [''.entry '' @ ''matmul_naive'', ''.param a'', ''.param b'', ''.param c'', ''.param m'', ''.param n'', ''.param k'', []])
      (empty_program, ?c) (matmul_naive\<lparr>code_words := [], label_names := Map.empty\<rparr>, ?c)"
    by (simp add: empty_program_def matmul_params_def matmul_naive_def)
  have names: "label_names matmul_naive = matmul_labels" "param_names matmul_naive = matmul_params"
    by (simp_all add: matmul_naive_def matmul_labels_def matmul_params_def)
  have floats: "floats_ok env i" if "i \<in> set matmul_code" for i
  proof -
    have "list_all (\<lambda>i. \<not> (imm_flag i \<and> prints_float_immediate (opcode i))) matmul_code" by code_simp
    with that show ?thesis by (auto simp: floats_ok_def list_all_iff)
  qed
  have printed: "reads_as env matmul_labels matmul_params i l" if "i \<in> set matmul_code" "matmul_prints env i l" for i l
    using printed_line_reads [OF matmul_printable that(1) floats [OF that(1)]] that(2) by (simp add: names)
  have "list_all2 (reads_as env matmul_labels matmul_params) (take 23 matmul_code) (take 23 matmul_code_lines)"
    "list_all2 (reads_as env matmul_labels matmul_params) (drop 25 matmul_code) (drop 25 matmul_code_lines)"
    using matmul_printed [of env] printed
    by (auto simp: list_all2_conv_all_nth)
  then have "list_all2 (reads_as env matmul_labels matmul_params) matmul_code matmul_code_lines"
    using zero_lines_read matmul_zero_lines by (metis list_all2_Cons list_all2_appendI)
  from source_program_assembles [OF matmul_printable matmul_annotated header, unfolded names, OF this]
  show ?thesis
    by (simp add: matmul_source) (simp add: matmul_naive_def matmul_labels_def printed_names_def restrict_map_def fun_eq_iff)
qed

section \<open>An example\<close>

text \<open>A row of 1 and 2 times a column of 3 and 4: the sum is 11.\<close>

definition row_and_column :: ByteMemory where
  "row_and_column = [0, 0, 0x80, 0x3F, 0, 0, 0, 0x40, 0, 0, 0x40, 0x40, 0, 0, 0x80, 0x40, 0, 0, 0, 0]"

lemma row_times_column:
  "f32_fma example_fp_env 0x40000000 0x40800000 (f32_fma example_fp_env 0x3F800000 0x40400000 0) = 0x41300000"
proof -
  have fields: "as_f32 0x3F800000 = Fin False 0x800000 (-23)" "as_f32 0x40400000 = Fin False 0xC00000 (-22)"
      "as_f32 0x40000000 = Fin False 0x800000 (-22)" "as_f32 0x40800000 = Fin False 0x800000 (-21)" "as_f32 0 = Fin False 0 (-149)"
    by (simp_all add: as_f32_def sign_bit_def exponent_field_def fraction_field_def Let_def)
  have "bit_length 2140871539058939821587428954174242704574119936 = 151" using bit_length_eqI [of 150 2140871539058939821587428954174242704574119936] by simp
  then have q: "quantum 2140871539058939821587428954174242704574119936 (-149) = -22" by (simp add: quantum_def)
  then have "significand 2140871539058939821587428954174242704574119936 (-149) = 0xC00000" by (simp add: significand_def round_shift_def)
  with q have "round_f32 False 2140871539058939821587428954174242704574119936 (-149) = 0x40400000"
    by (simp add: round_f32_def round_magnitude_def signed_bits_def)
  moreover have "round_sum False 0x600000000000 (-45) False 0 (-149) = round_f32 False 2140871539058939821587428954174242704574119936 (-149)"
    by (simp add: round_sum_def signed_int_def Let_def)
  ultimately have first: "f32_fma example_fp_env 0x3F800000 0x40400000 0 = 0x40400000"
    by (simp add: f32_fma_def fields or_nan_def)
  have "bit_length 96757023244288 = 47" using bit_length_eqI [of 46 96757023244288] by simp
  then have q: "quantum 96757023244288 (-43) = -20" by (simp add: quantum_def)
  then have "significand 96757023244288 (-43) = 0xB00000" by (simp add: significand_def round_shift_def)
  with q have "round_f32 False 96757023244288 (-43) = 0x41300000"
    by (simp add: round_f32_def round_magnitude_def signed_bits_def)
  moreover have "round_sum False 0x400000000000 (-43) False 0xC00000 (-22) = round_f32 False 96757023244288 (-43)"
    by (simp add: round_sum_def signed_int_def Let_def)
  ultimately show ?thesis by (simp add: first) (simp add: f32_fma_def fields or_nan_def)
qed

section \<open>Properties\<close>

text \<open>C39: the matrix kernel multiplies, from the source text on. The text of \<^verbatim>\<open>matmul_naive.wisa\<close> assembles
  to a program. For every grid of 16 by 16 blocks with a thread for each element of the
  product, and every placement of three matrices of floats in which the product overlaps no factor, a launch of
  the program returns without a fault, every element of the product is the sum along the inner
  dimension, rounded once in each multiply-add and taken in the order of the loop from zero, and no other
  word of the memory changes. The matrices are aligned and inside the memory; the sizes are non-negative
  as signed words and may be zero, and rows and columns of threads stay below 2^31.\<close>

theorem matmul_kernel_multiplies:
  assumes "grid_tiles grid blk (unat m) (unat n)" and "matrices [a, b, c, m, n, k] g"
    and "\<forall>r < unat m. \<forall>i < unat k. load32 (element a (r * unat k + i)) 0 g = Inr (A r i)"
    and "\<forall>i < unat k. \<forall>j < unat n. load32 (element b (i * unat n + j)) 0 g = Inr (B i j)"
  shows "\<exists>p st g'. assemble chars (text_of matmul_lines) = Some (Inr p) \<and>
    launch env p grid blk [a, b, c, m, n, k] g = Some (Inr st, g') \<and> length g' = length g \<and>
    (\<forall>r < unat m. \<forall>j < unat n. load32 (element c (r * unat n + j)) 0 g' =
      Inr (fold (\<lambda>i. f32_fma env (A r i) (B i j)) [0..<unat k] 0)) \<and>
    (\<forall>x. x \<notin> element c ` {..<unat m * unat n} \<longrightarrow> load32 x 0 g' = load32 x 0 g)"
proof -
  let ?ps = "[a, b, c, m, n, k]"
  have gt: "grid_tiles grid blk (unat (?ps ! 3)) (unat (?ps ! 4))" using assms(1) by simp
  from matmul_launch [OF gt assms(2), of env] obtain st g'
    where "launch env matmul_naive grid blk ?ps g = Some (Inr st, g')" "length g' = length g"
      "\<And>r j. r < unat m \<Longrightarrow> j < unat n \<Longrightarrow> load32 (element c (r * unat n + j)) 0 g' = Inr (product_at env ?ps g r j (unat k))"
      "\<And>x. x \<notin> element c ` {..<unat m * unat n} \<Longrightarrow> load32 x 0 g' = load32 x 0 g"
    by (auto simp: elements_def)
  moreover have "product_at env ?ps g r j (unat k) = fold (\<lambda>i. f32_fma env (A r i) (B i j)) [0..<unat k] 0"
    if "r < unat m" "j < unat n" for r j
    using that assms(3,4) by (auto simp: product_at_def word_at_def intro!: fold_cong)
  ultimately show ?thesis using matmul_naive_assembles [of chars] by auto
qed

theorem matmul_kernel_multiplies_witness:
  "\<exists>p st g'. assemble example_chars_env (text_of matmul_lines) = Some (Inr p) \<and>
    launch example_fp_env p \<lparr>dim_x = 1, dim_y = 1\<rparr> \<lparr>dim_x = 16, dim_y = 16\<rparr> [0, 8, 16, 1, 1, 2] row_and_column =
      Some (Inr st, g') \<and> load32 16 0 g' = Inr 0x41300000 \<and> load32 4 0 g' = Inr 0x40000000"
proof -
  let ?A = "\<lambda>r i :: nat. [0x3F800000, 0x40000000] ! i :: u32" and ?B = "\<lambda>i j :: nat. [0x40400000, 0x40800000] ! i :: u32"
  have "grid_tiles \<lparr>dim_x = 1, dim_y = 1\<rparr> \<lparr>dim_x = 16, dim_y = 16\<rparr> (unat (1 :: u32)) (unat (1 :: u32))"
    by (simp add: grid_tiles_def)
  moreover have "matrices [0, 8, 16, 1, 1, 2] row_and_column"
    by (auto simp: matrices_def elements_def array_range_def all_less_3 all_less_2 as_s32_def row_and_column_def)
  moreover have "\<forall>r < unat (1 :: u32). \<forall>i < unat (2 :: u32). load32 (element 0 (r * unat (2 :: u32) + i)) 0 row_and_column = Inr (?A r i)"
    "\<forall>i < unat (2 :: u32). \<forall>j < unat (1 :: u32). load32 (element 8 (i * unat (1 :: u32) + j)) 0 row_and_column = Inr (?B i j)"
    by code_simp+
  ultimately obtain p st g' where p: "assemble example_chars_env (text_of matmul_lines) = Some (Inr p)"
    and run: "launch example_fp_env p \<lparr>dim_x = 1, dim_y = 1\<rparr> \<lparr>dim_x = 16, dim_y = 16\<rparr>
      [0, 8, 16, 1, 1, 2] row_and_column = Some (Inr st, g')"
    and product: "\<forall>r < unat (1 :: u32). \<forall>j < unat (1 :: u32). load32 (element 16 (r * unat (1 :: u32) + j)) 0 g' =
      Inr (fold (\<lambda>i. f32_fma example_fp_env (?A r i) (?B i j)) [0..<unat (2 :: u32)] 0)"
    and others: "\<forall>x. x \<notin> element 16 ` {..<unat (1 :: u32) * unat (1 :: u32)} \<longrightarrow> load32 x 0 g' = load32 x 0 row_and_column"
    using matmul_kernel_multiplies [of _ _ 1 1 0 8 16 2 row_and_column ?A ?B example_chars_env example_fp_env] by blast
  have "fold (\<lambda>i. f32_fma example_fp_env (?A 0 i) (?B i 0)) [0..<unat (2 :: u32)] 0 = 0x41300000"
    using row_times_column by (simp add: upt_rec)
  moreover have "element 16 (0 * unat (1 :: u32) + 0) = 16" "0 < unat (1 :: u32)" by code_simp+
  ultimately have "load32 16 0 g' = Inr 0x41300000"
    using product [rule_format, of 0 0] by simp
  moreover have "4 \<notin> element 16 ` {..<unat (1 :: u32) * unat (1 :: u32)}" "load32 4 0 row_and_column = Inr 0x40000000"
    by code_simp+
  then have "load32 4 0 g' = Inr 0x40000000" using others by metis
  ultimately show ?thesis using p run by blast
qed

end
