(* ===== verification/Spec2Isabelle.thy ===== *)
theory Spec2Isabelle
  imports Layout_Free Shipped_Kernels Shipped_Matmul
begin

text \<open>
  WarpSim: a verification development for the simulator, its assembler and its Python bindings.

  The program. WarpSim executes kernels of a small SIMT instruction set. A kernel is a list of
  64-bit words (\<^verbatim>\<open>src/isa\<close>). The device (\<^verbatim>\<open>src/core/device.cpp\<close>) decodes
  it, runs the blocks of a grid one after the other over one global memory, and schedules the
  warps of a block round-robin. A warp (\<^verbatim>\<open>src/core/warp.cpp\<close>) executes 32 lanes in
  lockstep under an active mask; a branch on which the lanes disagree pushes the deferred lanes on
  a divergence stack, and the stack is resolved before every instruction. Arithmetic is
  \<^verbatim>\<open>src/core/alu.cpp\<close>; loads and stores go through the port of the block's memory
  (\<^verbatim>\<open>src/core/memory.cpp\<close>), which also counts coalescing and bank conflicts
  (\<^verbatim>\<open>src/core/memory_analysis.cpp\<close>). The counters of a launch feed an ordinal cost
  model (\<^verbatim>\<open>src/instr/timing.cpp\<close>). Kernels are written as text:
  \<^verbatim>\<open>src/asm/lexer.cpp\<close> and \<^verbatim>\<open>assembler.cpp\<close> turn a source into words, with
  the reconvergence point of every guarded branch from the post-dominator analysis of
  \<^verbatim>\<open>reconvergence.cpp\<close>, and \<^verbatim>\<open>disassembler.cpp\<close> prints words as text.
  \<^verbatim>\<open>python/bindings/module.cpp\<close> gives all of it to Python.

  The theories, in the order the code has its parts.

  \<^item> \<open>Prelude\<close>: machine words, the result type of \<^verbatim>\<open>result.hpp\<close> as a sum, fact
    collections and shared lemmas on searches, bits and counted loops.
  \<^item> \<open>Isa_Opcode\<close>: \<^verbatim>\<open>isa/opcode.hpp\<close>, the opcode and special register tables and
    their lookups.
  \<^item> \<open>Isa_Instruction\<close>: \<^verbatim>\<open>isa/instruction.hpp\<close> and \<^verbatim>\<open>instruction.cpp\<close>:
    \<open>validate\<close>, \<open>encode\<close>, \<open>decode\<close>. The specification \<open>valid_instruction\<close> states the field
    rules; encoding and decoding are inverse on exactly the valid instructions.
  \<^item> \<open>Lane_Types\<close>: \<^verbatim>\<open>core/types.hpp\<close>, \<^verbatim>\<open>register_file.hpp\<close>,
    \<^verbatim>\<open>lane_context.hpp\<close>. The locale \<open>lane_bank\<close> is the contract of a register array
    (interpreted on both halves of the register file); the locale \<open>lockstep\<close> is the contract of
    a loop over lanes (interpreted on the loop of \<open>execute_alu\<close>).
  \<^item> \<open>Float32\<close>: binary32 arithmetic on bit patterns, exact values rounded once to nearest even.
    What IEEE 754 leaves to the platform (NaN payloads, \<open>fmin\<close> of signed zeros, signalling
    NaNs) is the parameter record \<open>fp_env\<close>.
  \<^item> \<open>Alu\<close>: \<^verbatim>\<open>core/alu.cpp\<close>.
  \<^item> \<open>Memory_Analysis\<close>: \<^verbatim>\<open>core/memory_stats.hpp\<close> and
    \<^verbatim>\<open>memory_analysis.cpp\<close>; the counting loops are proved equal to cardinalities.
  \<^item> \<open>Memory_Port\<close>: the interface \<^verbatim>\<open>core/memory_port.hpp\<close> as a record of operations,
    and the locale \<open>memory_port\<close> of the laws a warp relies on.
  \<^item> \<open>Block_Memory\<close>: \<^verbatim>\<open>core/memory.hpp\<close> and \<^verbatim>\<open>memory.cpp\<close>; interprets the
    locale on the block's memory.
  \<^item> \<open>Warp\<close>: \<^verbatim>\<open>core/fault.hpp\<close>, \<^verbatim>\<open>warp_state.hpp\<close>,
    \<^verbatim>\<open>warp.hpp\<close>, \<^verbatim>\<open>warp.cpp\<close>. The stack loops are total functions with
    termination measures (\<open>stack_weight\<close>, \<open>pending\<close>).
  \<^item> \<open>Warp_Invariant\<close>: the stack invariants of the specification, for every operation, and for
    every reachable state of the inductive relation \<open>warp_reachable\<close>.
  \<^item> \<open>Lane_Machine\<close>: the abstract specification of a warp, 32 independent scalar lanes, and the
    abstraction \<open>lane_of\<close> from a warp to its lanes.
  \<^item> \<open>Warp_Refinement\<close>: the simulation of a warp step by lane steps, and the order of the lanes
    of a memory instruction.
  \<^item> \<open>Warp_Runs\<close>: whole runs of one warp: what a finished run computed, when a run finishes, and
    that the reconvergence points are not observable.
  \<^item> \<open>Device\<close>: \<^verbatim>\<open>asm/program.hpp\<close>, \<^verbatim>\<open>core/device.hpp\<close> and
    \<^verbatim>\<open>device.cpp\<close>. The scheduler loop may run forever, so it is a partial function to
    an option and \<open>None\<close> means that it does not return.
  \<^item> \<open>Scheduler_Facts\<close>, \<open>Launch_Facts\<close>: the invariants of the scheduler, the order of the blocks
    of a launch and the memories between them, the accounting of the counters, the faults a launch can report, and termination for forward programs.
  \<^item> \<open>Grid_Machine\<close>, \<open>Grid_Refinement\<close>: the abstract specification of a launch, the threads of the
    grid as scalar machines that step one at a time on one memory (\<open>grid_run\<close>), and the proof that
    a launch is such a run: a warp step is a run of its lanes, a pass of the scheduler a run of the
    block, a launch a run of the grid. Every round of the scheduler moves a thread or finds a warp
    finished, so a launch returns when the runs of the grid machine are bounded (\<open>bounded_runs\<close>).
  \<^item> \<open>Kernel_Logic\<close>: reasoning about kernels on that machine. The locale \<open>thread_property\<close> is the
    rule for a property of every thread that the steps of the others keep; \<open>thread_invariant\<close> adds
    that no access is refused, \<open>thread_variant\<close> a measure that descends, which makes launches
    return. They are interpreted for forward programs and for separated kernels (\<open>separated\<close>): without
    barriers, and each thread, run alone on the initial memory, keeps to aligned words inside global
    memory and to parameters that exist, and reads no word that a thread stores to. So
    a launch is the composition of the threads run alone (\<open>solo\<close>), returns exactly when they retire,
    and does not depend on the reconvergence points.
  \<^item> \<open>Vector_Kernel\<close>: \<^verbatim>\<open>kernels/vecadd.wisa\<close> and \<^verbatim>\<open>vecadd_s32.wisa\<close>, run by
    the model: the states of one thread, separation from the placement of the arrays, and the sums.
  \<^item> \<open>Matmul_Kernel\<close>: \<^verbatim>\<open>kernels/matmul_naive.wisa\<close>, a kernel with a loop: the run of a
    thread is put together from its steps (\<open>visits\<close>), the loop by induction on its turns, and it retires
    after as many turns as the inner dimension, so the launch returns and leaves the product.
  \<^item> \<open>Timing\<close>: \<^verbatim>\<open>instr/timing.hpp\<close> and \<^verbatim>\<open>timing.cpp\<close>.
  \<^item> \<open>Block_Set\<close>, \<open>Reconvergence\<close>: \<^verbatim>\<open>asm/reconvergence.cpp\<close>, the packed sets of
    block numbers (locale \<open>index_set\<close>) and the analysis. The data-flow loop may run forever in
    principle, so it is a partial function to an option.
  \<^item> \<open>Control_Flow\<close>, \<open>Post_Dominators\<close>, \<open>Annotation\<close>: the specification of the analysis, paths
    of instructions to the exit; the graph represents them (locale \<open>graph_builder\<close>), the loop returns
    the blocks common to all paths, and the annotation is the nearest common instruction.
  \<^item> \<open>Lexer\<close>, \<open>Lexer_Facts\<close>: \<^verbatim>\<open>asm/lexer.cpp\<close>, and the form of the tokens.
  \<^item> \<open>Charconv\<close>: the number conversions of the standard library, \<^verbatim>\<open>std::from_chars\<close> to
    integers and to \<^verbatim>\<open>float\<close> (exact, rounded once) and \<^verbatim>\<open>std::to_chars\<close> in base 16.
  \<^item> \<open>Assembler\<close>, \<open>Assembler_Facts\<close>: \<^verbatim>\<open>asm/assembler.cpp\<close>; the parser's invariant,
    that it returns, and that its programs are well formed. The locale \<open>token_source\<close> is what the
    parser asks of the lexer.
  \<^item> \<open>Disassembler\<close>: \<^verbatim>\<open>asm/disassembler.cpp\<close>.
  \<^item> \<open>Scanning\<close>, \<open>Operand_Reading\<close>, \<open>Literal_Reading\<close>, \<open>Instruction_Reading\<close>, \<open>Round_Trip\<close>: the
    printed text read back. \<open>scans\<close> relates a text to its tokens, \<open>reads\<close> an operand to the change it
    makes to the instruction, \<open>reads_line\<close> and \<open>reads_text\<close> lines to the change of the parser's
    content; each has a rule for concatenation, so the proofs follow the shape of the text.
  \<^item> \<open>Layout_Free\<close>: the same parser on two token streams with the same tokens: every function of
    \<^verbatim>\<open>assembler.cpp\<close> takes parsers that are \<open>alike\<close> to results that are, so positions,
    comments and empty lines reach nothing but the position of an error.
  \<^item> \<open>Source_Layout\<close>: sources laid out by hand, compared with the printed listing line by line, by a
    function \<open>line_views\<close> that evaluates.
  \<^item> \<open>Bindings\<close>: \<^verbatim>\<open>python/bindings/module.cpp\<close>, what an assembled kernel launched from
    Python can raise, and a device as the object Python holds, with its calls one after the other.
  \<^item> \<open>Python_Session\<close>: sequences of such calls; two arrays in, one launch, one array out.
  \<^item> \<open>Shipped_Kernels\<close>: the text of the two vector kernels as they are shipped, assembled by the model
    to the programs of \<open>Vector_Kernel\<close>, so that the session starts from the source.
  \<^item> \<open>Shipped_Matmul\<close>: the same for the text of \<^verbatim>\<open>matmul_naive.wisa\<close>, with two lines that are not in
    the form the disassembler prints.

  State. \<open>Warp\<close> is one record for the members of \<^verbatim>\<open>WarpState\<close> and of the class
  \<^verbatim>\<open>Warp\<close>; its divergence stack is a list with the top first. \<open>BlockMemory\<close> holds the
  device's global memory as a component that \<open>launch\<close> hands from block to block, which is what
  the non-owning pointer of the class amounts to, since blocks run one after the other. Functions
  that mutate their object return the new state beside their result, also when they fail, so the
  effects before a fault are part of the model. Counters keep their width (64 or 32 bits) and wrap.
  Arrays with in-range indices (registers, addresses of a warp access) are functions of the index.
  Words are stored to memory in the byte order of a little-endian host.

  Fuel and loops. \<open>run_warp\<close> bounds the number of steps of a single warp; \<open>warp_finishes_with_its_lanes\<close>
  shows that one more than the sum of the lanes' own path lengths is enough. \<open>pdom_loop\<close> and
  \<open>parse_lines\<close> are partial functions to an option; \<open>post_dominators_exact\<close> and \<open>assembly_returns\<close>
  show that they return, the first because a round that changes something takes an element out of a
  set, the second because every line consumes a token of a stream that ends with the end token.
  Everything else is total or an option.

  Limits. The theorems about whole runs of one warp are for programs without stores and barriers,
  where the lanes are independent; the step theorem and the refinement of a launch by the grid
  machine are for all programs. The grid machine leaves open which thread steps next; a barrier in
  divergent code, a notion of warps, appears in it as a fault of a thread at a barrier. Termination of a
  launch is proved for forward branches, because a kernel with a backward branch may run forever; for a
  separated kernel with loops it follows from the threads run alone, as for the matrix product. The rule
  for separated kernels excludes barriers and shared memory.

  Parameters. \<open>fp_env\<close> (above) and \<open>chars_env\<close>: whether \<^verbatim>\<open>std::from_chars\<close> refuses a
  nonzero text below the normal range, and the text \<^verbatim>\<open>std::to_chars\<close> prints of a
  \<^verbatim>\<open>float\<close>. The round trip asks of the latter only that it is a sign and digits that read
  back as the number (\<open>float_text_ok\<close>), which is what the standard guarantees of it.

  Not modelled. The version string, a constant of the build; pybind11 and NumPy, of which an array is
  its sizes and bytes; host-side Python and tests; of the kernels, which are data of the simulator, the
  tiled matrix product and the reduction (loops over shared memory with barriers).
\<close>

end
